(* ===== verification/Prelude.thy ===== *)
theory Prelude
  imports Main "HOL-Library.Word"
begin

unbundle bit_operations_syntax

text \<open>
  The vocabulary every component shares: Rust's machine integers as words, byte strings,
  fallible results, the subslice and search operations of the standard library that the sources
  use, and the little- and big-endian byte codecs (\<open>to_le_bytes\<close> and its kin) with the
  interface (\<open>fixed_codec\<close>) through which the wire formats use them.
\<close>

section \<open>Types and rule collections\<close>

type_synonym u8 = "8 word"
type_synonym u16 = "16 word"
type_synonym u32 = "32 word"
type_synonym u64 = "64 word"
type_synonym bytes = "u8 list"

text \<open>A \<open>Result<T, Error>\<close>: \<open>Inl\<close> carries the error's message.\<close>

type_synonym 'a result = "string + 'a"

named_theorems codec_simps "length and split facts of the wire encoders"

text \<open>A byte-string literal \<open>b"..."\<close>.\<close>

definition ascii :: "string \<Rightarrow> bytes" where
  "ascii s = map of_char s"

section \<open>Slices and searches of the standard library\<close>

text \<open>\<open>xs.get(i)\<close>.\<close>

definition get_at :: "'a list \<Rightarrow> nat \<Rightarrow> 'a option" where
  "get_at xs i = (if i < length xs then Some (xs ! i) else None)"

text \<open>\<open>&xs[lo..hi]\<close> where it does not panic, and \<open>xs.get(lo..hi)\<close>.\<close>

definition subslice :: "nat \<Rightarrow> nat \<Rightarrow> 'a list \<Rightarrow> 'a list" where
  "subslice lo hi xs = take (hi - lo) (drop lo xs)"

definition get_slice :: "'a list \<Rightarrow> nat \<Rightarrow> nat \<Rightarrow> 'a list option" where
  "get_slice xs lo hi = (if lo \<le> hi \<and> hi \<le> length xs then Some (subslice lo hi xs) else None)"

text \<open>\<open>iter().position(p)\<close>.\<close>

fun position :: "('a \<Rightarrow> bool) \<Rightarrow> 'a list \<Rightarrow> nat option" where
  "position p [] = None"
| "position p (x # xs) = (if p x then Some 0 else map_option Suc (position p xs))"

text \<open>An unsigned number printed with \<open>{}\<close>.\<close>

fun decimal_digits :: "nat \<Rightarrow> bytes" where
  "decimal_digits n = (if n < 10 then [] else decimal_digits (n div 10)) @ [of_nat (48 + n mod 10)]"

declare decimal_digits.simps [simp del]

text \<open>The exponential back-off of \<open>util.rs\<close>, with its saturating product.\<close>

definition backoff :: "nat \<Rightarrow> nat \<Rightarrow> nat \<Rightarrow> nat" where
  "backoff b streak max_doublings = min (2 ^ 64 - 1) (b * 2 ^ min (min streak max_doublings) 63)"

text \<open>\<open>Option::filter\<close>.\<close>

definition opt_filter :: "('a \<Rightarrow> bool) \<Rightarrow> 'a option \<Rightarrow> 'a option" where
  "opt_filter p x = (case x of Some y \<Rightarrow> if p y then Some y else None | None \<Rightarrow> None)"

lemma get_at_append1 [simp]: "i < length xs \<Longrightarrow> get_at (xs @ ys) i = Some (xs ! i)"
  by (simp add: get_at_def nth_append)

lemma get_at_append2 [simp]: "get_at (xs @ ys) (length xs + i) = get_at ys i"
  by (simp add: get_at_def nth_append)

lemma get_at_0 [simp]: "get_at (x # xs) 0 = Some x"
  by (simp add: get_at_def)

lemma get_at_Nil [simp]: "get_at [] i = None"
  by (simp add: get_at_def)

lemma get_at_Suc [simp]: "get_at (x # xs) (Suc i) = get_at xs i"
  by (simp add: get_at_def)

lemma length_subslice [simp]: "hi \<le> length xs \<Longrightarrow> length (subslice lo hi xs) = hi - lo"
  by (simp add: subslice_def)

lemma subslice_append_skip:
  "lo = length xs + a \<Longrightarrow> hi = length xs + b \<Longrightarrow> subslice lo hi (xs @ ys) = subslice a b ys"
  by (simp add: subslice_def)

lemma subslice_take_front: "subslice 0 n xs = take n xs"
  by (simp add: subslice_def)

lemma position_append_fresh:
  "\<forall>x \<in> set xs. \<not> p x \<Longrightarrow> p y \<Longrightarrow> position p (xs @ y # ys) = Some (length xs)"
  by (induction xs) auto

lemma position_None_iff [simp]: "position p xs = None \<longleftrightarrow> (\<forall>x \<in> set xs. \<not> p x)"
  by (induction xs) auto

lemma position_SomeD:
  "position p xs = Some n \<Longrightarrow> n < length xs \<and> p (xs ! n) \<and> (\<forall>i < n. \<not> p (xs ! i))"
proof (induction xs arbitrary: n)
  case Nil
  then show ?case by simp
next
  case (Cons x xs)
  show ?case
  proof (cases "p x")
    case True
    with Cons.prems show ?thesis by simp
  next
    case False
    with Cons.prems obtain m where "position p xs = Some m" "n = Suc m" by auto
    with False show ?thesis using Cons.IH [of m] by (auto simp: less_Suc_eq_0_disj)
  qed
qed

section \<open>Words\<close>

lemma unat_of_nat_small [simp]:
  "n < 2 ^ LENGTH('a) \<Longrightarrow> unat (of_nat n :: 'a::len word) = n"
  by (simp add: unat_of_nat take_bit_nat_eq_self)

lemma unat_add_of_nat:
  fixes w :: "'a::len word"
  assumes "unat w + n < 2 ^ LENGTH('a)"
  shows "unat (w + of_nat n) = unat w + n"
proof -
  have "unat (of_nat n :: 'a word) = n" using assms by simp
  then show ?thesis using assms by (metis unat_add_lem)
qed

lemma unat_sub_le: "v \<le> w \<Longrightarrow> unat (w - v) = unat w - unat (v :: 'a::len word)"
  by (simp add: unat_sub word_le_nat_alt)

lemma unat_lt64 [simp]: "unat (w :: u64) < 18446744073709551616"
  using unsigned_less [of w] by simp

lemma unat_lt32 [simp]: "unat (w :: u32) < 4294967296"
  using unsigned_less [of w] by simp

lemma unat_lt16 [simp]: "unat (w :: u16) < 65536"
  using unsigned_less [of w] by simp

lemma unat_lt8 [simp]: "unat (w :: u8) < 256"
  using unsigned_less [of w] by simp

lemma unat_le8 [simp]: "unat (w :: u8) \<le> 255"
  using unat_lt8 [of w] by linarith

lemma unat_le16 [simp]: "unat (w :: u16) \<le> 65535"
  using unat_lt16 [of w] by linarith

section \<open>Byte order\<close>

text \<open>
  \<open>le_bytes k w\<close> is \<open>w.to_le_bytes()\<close> for a \<open>k\<close>-byte integer; \<open>le_val\<close> is
  \<open>from_le_bytes\<close>. The big-endian pair reverses the bytes.
\<close>

definition le_bytes :: "nat \<Rightarrow> 'a::len word \<Rightarrow> bytes" where
  "le_bytes k w = map (\<lambda>i. ucast (drop_bit (8 * i) w)) [0..<k]"

fun le_val :: "bytes \<Rightarrow> 'a::len word" where
  "le_val [] = 0"
| "le_val (b # bs) = ucast b OR push_bit 8 (le_val bs)"

definition be_bytes :: "nat \<Rightarrow> 'a::len word \<Rightarrow> bytes" where
  "be_bytes k w = rev (le_bytes k w)"

definition be_val :: "bytes \<Rightarrow> 'a::len word" where
  "be_val bs = le_val (rev bs)"

lemma length_le_bytes [simp]: "length (le_bytes k w) = k"
  by (simp add: le_bytes_def)

lemma length_be_bytes [simp]: "length (be_bytes k w) = k"
  by (simp add: be_bytes_def)

lemma bit_le_val:
  "bit (le_val bs :: 'a::len word) n \<longleftrightarrow>
     n < LENGTH('a) \<and> n < 8 * length bs \<and> bit (bs ! (n div 8)) (n mod 8)"
proof (induction bs arbitrary: n)
  case Nil
  then show ?case by simp
next
  case (Cons b bs)
  show ?case
  proof (cases "n < 8")
    case True
    then show ?thesis
      by (auto simp: bit_or_iff bit_ucast_iff bit_push_bit_iff)
  next
    case False
    then have "n div 8 = Suc ((n - 8) div 8)" "n mod 8 = (n - 8) mod 8"
      by (simp_all add: le_div_geq le_mod_geq)
    with False show ?thesis
      by (auto simp: bit_or_iff bit_ucast_iff bit_push_bit_iff Cons.IH dest: bit_imp_le_length)
  qed
qed

lemma le_val_le_bytes [simp]:
  fixes w :: "'a::len word"
  assumes "LENGTH('a) \<le> 8 * k"
  shows "le_val (le_bytes k w) = w"
proof (rule bit_word_eqI)
  fix n assume n: "n < LENGTH('a)"
  with assms have "n div 8 < k" by linarith
  with n assms show "bit (le_val (le_bytes k w) :: 'a word) n = bit w n"
    by (auto simp: bit_le_val le_bytes_def bit_ucast_iff bit_drop_bit_eq)
qed

lemma le_bytes_le_val:
  assumes "8 * length bs \<le> LENGTH('a::len)"
  shows "le_bytes (length bs) (le_val bs :: 'a word) = bs"
proof (rule nth_equalityI)
  show "length (le_bytes (length bs) (le_val bs :: 'a word)) = length bs" by simp
next
  fix i assume "i < length (le_bytes (length bs) (le_val bs :: 'a word))"
  then have i: "i < length bs" by simp
  show "le_bytes (length bs) (le_val bs :: 'a word) ! i = bs ! i"
  proof (rule bit_word_eqI)
    fix n assume n: "n < LENGTH(8)"
    then have "8 * i + n < 8 * length bs" using i by simp
    with n i assms show "bit (le_bytes (length bs) (le_val bs :: 'a word) ! i) n = bit (bs ! i) n"
      by (simp add: le_bytes_def bit_ucast_iff bit_drop_bit_eq bit_le_val)
  qed
qed

lemma be_val_be_bytes [simp]:
  "LENGTH('a) \<le> 8 * k \<Longrightarrow> be_val (be_bytes k w) = (w :: 'a::len word)"
  by (simp add: be_val_def be_bytes_def)

lemma be_bytes_be_val:
  "8 * length bs \<le> LENGTH('a) \<Longrightarrow> be_bytes (length bs) (be_val bs :: 'a::len word) = bs"
  using le_bytes_le_val [of "rev bs", where 'a = 'a] by (simp add: be_val_def be_bytes_def)

section \<open>The interface of fixed-width integer codecs\<close>

text \<open>
  What a wire format needs of an integer codec: a fixed width, and decoding inverts encoding both
  ways at that width. The lemmas read a field off the front of a longer buffer.
\<close>

locale fixed_codec =
  fixes enc :: "'w \<Rightarrow> bytes"
    and dec :: "bytes \<Rightarrow> 'w"
    and width :: nat
  assumes enc_length: "length (enc w) = width"
    and dec_enc: "dec (enc w) = w"
    and enc_dec: "length bs = width \<Longrightarrow> enc (dec bs) = bs"
begin

lemma take_enc: "take width (enc w @ rest) = enc w"
  by (simp add: enc_length)

lemma drop_enc: "drop width (enc w @ rest) = rest"
  by (simp add: enc_length)

lemma dec_take: "dec (take width (enc w @ rest)) = w"
  by (simp only: take_enc dec_enc)

lemma dec_slice: "lo = length xs \<Longrightarrow> hi = lo + width \<Longrightarrow> dec (subslice lo hi (xs @ enc w @ rest)) = w"
  by (simp add: subslice_def enc_length dec_enc)

lemma enc_inject: "enc v = enc w \<longleftrightarrow> v = w"
  by (metis dec_enc)

lemma dec_inject: "length as = width \<Longrightarrow> length bs = width \<Longrightarrow> dec as = dec bs \<longleftrightarrow> as = bs"
  by (metis enc_dec)

end

lemma le_codec:
  assumes "LENGTH('a) = 8 * k"
  shows "fixed_codec (le_bytes k :: 'a::len word \<Rightarrow> bytes) le_val k"
proof
  show "length bs = k \<Longrightarrow> le_bytes k (le_val bs :: 'a word) = bs" for bs
    using le_bytes_le_val [of bs, where 'a = 'a] assms by simp
qed (simp_all add: assms)

lemma be_codec:
  assumes "LENGTH('a) = 8 * k"
  shows "fixed_codec (be_bytes k :: 'a::len word \<Rightarrow> bytes) be_val k"
proof
  show "length bs = k \<Longrightarrow> be_bytes k (be_val bs :: 'a word) = bs" for bs
    using be_bytes_be_val [of bs, where 'a = 'a] assms by simp
qed (simp_all add: assms)

interpretation u16le: fixed_codec "le_bytes 2 :: u16 \<Rightarrow> bytes" le_val 2
  by (rule le_codec) simp

interpretation u32le: fixed_codec "le_bytes 4 :: u32 \<Rightarrow> bytes" le_val 4
  by (rule le_codec) simp

interpretation u64le: fixed_codec "le_bytes 8 :: u64 \<Rightarrow> bytes" le_val 8
  by (rule le_codec) simp

interpretation u16be: fixed_codec "be_bytes 2 :: u16 \<Rightarrow> bytes" be_val 2
  by (rule be_codec) simp

interpretation u32be: fixed_codec "be_bytes 4 :: u32 \<Rightarrow> bytes" be_val 4
  by (rule be_codec) simp

interpretation u64be: fixed_codec "be_bytes 8 :: u64 \<Rightarrow> bytes" be_val 8
  by (rule be_codec) simp

end
