(* ===== verification/Base64.thy ===== *)
theory Base64
  imports Prelude
begin

text \<open>
  \<open>crates/posh-term/src/base64.rs\<close>: the standard-alphabet base64 used by OSC 52 and the kitty
  graphics protocol (and by the printable session key). \<open>encode\<close> is \<open>b64_encode\<close>; the loop
  of \<open>decode\<close> with its four local variables is \<open>b64_decode_loop\<close>. The result of encoding is
  a string of ASCII characters, represented by its bytes.
\<close>

definition alphabet :: bytes where
  "alphabet = ascii ''ABCDEFGHIJKLMNOPQRSTUVWXYZabcdefghijklmnopqrstuvwxyz0123456789+/''"

text \<open>The 24-bit group of a chunk of one to three bytes, and its four output symbols.\<close>

definition b64_group :: "u8 \<Rightarrow> u8 \<Rightarrow> u8 \<Rightarrow> u32" where
  "b64_group b0 b1 b2 = (push_bit 16 (ucast b0) OR push_bit 8 (ucast b1)) OR ucast b2"

definition b64_symbol :: "u32 \<Rightarrow> nat \<Rightarrow> u8" where
  "b64_symbol n shift = alphabet ! unat (drop_bit shift n AND 0x3f)"

definition b64_pad :: u8 where
  "b64_pad = of_char CHR ''=''"

fun b64_encode :: "bytes \<Rightarrow> bytes" where
  "b64_encode [] = []"
| "b64_encode [b0] =
     (let n = b64_group b0 0 0
      in [b64_symbol n 18, b64_symbol n 12, b64_pad, b64_pad])"
| "b64_encode [b0, b1] =
     (let n = b64_group b0 b1 0
      in [b64_symbol n 18, b64_symbol n 12, b64_symbol n 6, b64_pad])"
| "b64_encode (b0 # b1 # b2 # rest) =
     (let n = b64_group b0 b1 b2
      in [b64_symbol n 18, b64_symbol n 12, b64_symbol n 6, b64_symbol n 0] @ b64_encode rest)"

definition decode_digit :: "u8 \<Rightarrow> u32 option" where
  "decode_digit b =
     (if of_char CHR ''A'' \<le> b \<and> b \<le> of_char CHR ''Z'' then Some (ucast (b - of_char CHR ''A''))
      else if of_char CHR ''a'' \<le> b \<and> b \<le> of_char CHR ''z''
        then Some (ucast (b - of_char CHR ''a'') + 26)
      else if of_char CHR ''0'' \<le> b \<and> b \<le> of_char CHR ''9''
        then Some (ucast (b - of_char CHR ''0'') + 52)
      else if b = of_char CHR ''+'' then Some 62
      else if b = of_char CHR ''/'' then Some 63
      else None)"

text \<open>\<open>u8::is_ascii_whitespace\<close>: space, tab, line feed, form feed and carriage return.\<close>

definition is_ascii_whitespace :: "u8 \<Rightarrow> bool" where
  "is_ascii_whitespace b \<longleftrightarrow> b = 0x20 \<or> b = 0x09 \<or> b = 0x0A \<or> b = 0x0C \<or> b = 0x0D"

text \<open>
  The loop of \<open>decode\<close> over the remaining input with \<open>out\<close>, \<open>acc\<close>, \<open>bits\<close> and
  \<open>done\<close>. \<open>bits\<close> counts the bits held in \<open>acc\<close> (never more than 12, see
  \<open>b64_decode_bits\<close>).
\<close>

fun b64_decode_loop :: "bytes \<Rightarrow> bytes \<Rightarrow> u32 \<Rightarrow> nat \<Rightarrow> bool \<Rightarrow> bytes option" where
  "b64_decode_loop [] out acc bits done = Some out"
| "b64_decode_loop (b # bs) out acc bits done =
     (if is_ascii_whitespace b then b64_decode_loop bs out acc bits done
      else if b = b64_pad then b64_decode_loop bs out acc bits True
      else if done then None
      else case decode_digit b of
        None \<Rightarrow> None
      | Some d \<Rightarrow>
          (let acc = push_bit 6 acc OR d; bits = bits + 6
           in if bits \<ge> 8
              then let bits = bits - 8
                   in b64_decode_loop bs (out @ [ucast (drop_bit bits acc)])
                        (acc AND (push_bit bits 1 - 1)) bits done
              else b64_decode_loop bs out acc bits done))"

definition b64_decode :: "bytes \<Rightarrow> bytes option" where
  "b64_decode data = b64_decode_loop data [] 0 0 False"

section \<open>Symbols\<close>

lemma length_alphabet [simp]: "length alphabet = 64"
  by (simp add: alphabet_def ascii_def)

text \<open>Each alphabet symbol decodes to its own index and is neither padding nor whitespace.\<close>

lemma map_decode_digit: "map decode_digit alphabet = map Some (map of_nat [0..<64])"
  by (simp add: alphabet_def ascii_def decode_digit_def upt_rec)

lemma alphabet_plain: "list_all (\<lambda>b. b \<noteq> b64_pad \<and> \<not> is_ascii_whitespace b) alphabet"
  by (simp add: alphabet_def ascii_def is_ascii_whitespace_def b64_pad_def)

lemma alphabet_symbol:
  assumes "i < 64"
  shows "decode_digit (alphabet ! i) = Some (of_nat i)"
    "alphabet ! i \<noteq> b64_pad" "\<not> is_ascii_whitespace (alphabet ! i)"
  using arg_cong [OF map_decode_digit, of "\<lambda>xs. xs ! i"] alphabet_plain assms
  by (auto simp: list_all_length)

lemma mask6_less: "unat ((w :: u32) AND 0x3f) < 64"
proof -
  have "w AND 0x3f \<le> 0x3f" by (rule word_and_le1)
  then show ?thesis by (simp add: word_le_nat_alt)
qed

lemma symbol_facts [simp]:
  "decode_digit (b64_symbol n k) = Some (drop_bit k n AND 0x3f)"
  "b64_symbol n k \<noteq> b64_pad"
  "\<not> is_ascii_whitespace (b64_symbol n k)"
  using mask6_less [of "drop_bit k n"] by (simp_all add: b64_symbol_def alphabet_symbol)

lemma pad_not_symbol [simp]: "b64_pad \<noteq> b64_symbol n k"
  using symbol_facts(2) by metis

lemma pad_not_whitespace [simp]: "\<not> is_ascii_whitespace b64_pad"
  by (simp add: is_ascii_whitespace_def b64_pad_def)

section \<open>The accumulator\<close>

text \<open>Four symbols of a group give back its three bytes and leave the accumulator empty.\<close>

lemma set_upt8: "set [0..<8] = {0, 1, 2, 3, 4, 5, 6, 7 :: nat}"
  by (simp add: upt_rec numeral_eq_Suc)

lemma u8_eqI: "\<forall>n \<in> {0, 1, 2, 3, 4, 5, 6, 7}. bit x n = bit y n \<Longrightarrow> x = (y :: u8)"
  unfolding set_upt8 [symmetric] by (rule bit_word_eqI) simp

lemma bit_group:
  "bit (b64_group b0 b1 b2) k \<longleftrightarrow>
     (if k < 8 then bit b2 k else if k < 16 then bit b1 (k - 8)
      else if k < 24 then bit b0 (k - 16) else False)"
  by (auto simp: b64_group_def bit_simps dest: bit_imp_le_length)

text \<open>
  The accumulator after two, three and four symbols of a group: the top eight bits it holds are
  the group's bytes in order, and nothing is left after the fourth.
\<close>

lemma group_byte0: "ucast (drop_bit 4 (push_bit 6 (drop_bit 18 (b64_group b0 b1 b2) AND 0x3f)
    OR (drop_bit 12 (b64_group b0 b1 b2) AND 0x3f))) = b0"
  by (rule u8_eqI) (simp add: bit_simps bit_group)

lemma group_byte1: "ucast (drop_bit 2 (push_bit 6
    ((push_bit 6 (drop_bit 18 (b64_group b0 b1 b2) AND 0x3f)
      OR (drop_bit 12 (b64_group b0 b1 b2) AND 0x3f)) AND 0xF)
    OR (drop_bit 6 (b64_group b0 b1 b2) AND 0x3f))) = b1"
  by (rule u8_eqI) (simp add: bit_simps bit_group)

lemma group_byte2: "ucast (push_bit 6 ((push_bit 6
    ((push_bit 6 (drop_bit 18 (b64_group b0 b1 b2) AND 0x3f)
      OR (drop_bit 12 (b64_group b0 b1 b2) AND 0x3f)) AND 0xF)
    OR (drop_bit 6 (b64_group b0 b1 b2) AND 0x3f)) AND 3)
    OR (b64_group b0 b1 b2 AND 0x3f)) = b2"
  by (rule u8_eqI) (simp add: bit_simps bit_group)

lemma decode_group:
  "b64_decode_loop (b64_encode (b0 # b1 # b2 # rest) @ tail) out 0 0 False =
     b64_decode_loop (b64_encode rest @ tail) (out @ [b0, b1, b2]) 0 0 False"
  using group_byte0 [of b0 b1 b2] group_byte1 [of b0 b1 b2] group_byte2 [of b0 b1 b2]
  by (simp add: Let_def)

lemma decode_group2:
  "b64_decode_loop (b64_encode [b0, b1]) out 0 0 False = Some (out @ [b0, b1])"
  using group_byte0 [of b0 b1 0] group_byte1 [of b0 b1 0] by (simp add: Let_def)

lemma decode_group1:
  "b64_decode_loop (b64_encode [b0]) out 0 0 False = Some (out @ [b0])"
  using group_byte0 [of b0 0 0] by (simp add: Let_def)

lemma decode_encode_loop: "b64_decode_loop (b64_encode data) out 0 0 False = Some (out @ data)"
proof (induction data arbitrary: out rule: b64_encode.induct)
  case (4 b0 b1 b2 rest)
  then show ?case using decode_group [of b0 b1 b2 rest "[]" out] by simp
qed (simp_all only: decode_group1 decode_group2 b64_encode.simps(1) b64_decode_loop.simps append_Nil2)

section \<open>Tolerance\<close>

text \<open>Whitespace anywhere in the input and padding at its end make no difference.\<close>

lemma decode_loop_filter:
  "b64_decode_loop (filter (\<lambda>b. \<not> is_ascii_whitespace b) s) out acc bits done =
     b64_decode_loop s out acc bits done"
  by (induction s arbitrary: out acc bits "done") (auto simp: Let_def split: option.splits)

lemma decode_loop_pads: "b64_decode_loop (replicate k b64_pad) out acc bits done = Some out"
  by (induction k arbitrary: "done") simp_all

lemma decode_loop_trailing_pads:
  "b64_decode_loop (s @ replicate k b64_pad) out acc bits done = b64_decode_loop s out acc bits done"
proof (induction s arbitrary: out acc bits "done")
  case Nil
  then show ?case by (simp add: decode_loop_pads)
next
  case (Cons b s)
  then show ?case by (auto simp: Let_def split: option.splits)
qed

lemma encode_pads_at_end:
  "\<exists>k. b64_encode data = takeWhile (\<lambda>b. b \<noteq> b64_pad) (b64_encode data) @ replicate k b64_pad"
proof (induction data rule: b64_encode.induct)
  case (2 b0)
  show ?case by (rule exI [of _ 2]) (simp add: Let_def numeral_2_eq_2)
next
  case (3 b0 b1)
  show ?case by (rule exI [of _ 1]) (simp add: Let_def)
next
  case (4 b0 b1 b2 rest)
  then obtain k where
    "b64_encode rest = takeWhile (\<lambda>b. b \<noteq> b64_pad) (b64_encode rest) @ replicate k b64_pad"
    by blast
  then show ?case by (intro exI [of _ k]) (simp add: Let_def)
qed simp

lemma b64_decode_encode: "b64_decode (b64_encode data) = Some data"
  by (simp add: b64_decode_def decode_encode_loop)

lemma b64_decode_unpadded:
  "b64_decode (takeWhile (\<lambda>b. b \<noteq> b64_pad) (b64_encode data)) = Some data"
proof -
  obtain k where
    "b64_encode data = takeWhile (\<lambda>b. b \<noteq> b64_pad) (b64_encode data) @ replicate k b64_pad"
    using encode_pads_at_end by blast
  with b64_decode_encode [of data] show ?thesis
    by (metis b64_decode_def decode_loop_trailing_pads)
qed

lemma length_b64_encode: "length (b64_encode data) = (length data + 2) div 3 * 4"
proof (induction data rule: b64_encode.induct)
  case (4 b0 b1 b2 rest)
  have "(length rest + 5) div 3 = Suc ((length rest + 2) div 3)" by linarith
  with 4 show ?case by (simp add: Let_def add.commute)
qed (simp_all add: Let_def)

text \<open>
  C5. Base64 decoding inverts encoding for every byte string, whatever whitespace has been put
  into the encoded text and whether or not its trailing \<open>=\<close> padding was kept.
\<close>

lemma b64_roundtrip:
  assumes "filter (\<lambda>b. \<not> is_ascii_whitespace b) text = b64_encode data \<or>
    filter (\<lambda>b. \<not> is_ascii_whitespace b) text = takeWhile (\<lambda>b. b \<noteq> b64_pad) (b64_encode data)"
  shows "b64_decode text = Some data"
  using assms b64_decode_encode [of data] b64_decode_unpadded [of data]
    decode_loop_filter [of "text" "[]" 0 0 False]
  by (auto simp: b64_decode_def)

lemma b64_roundtrip_witness:
  "b64_decode (ascii ''aG kh'' @ [0x0A]) = Some (ascii ''hi!'')"
proof (rule b64_roundtrip)
  show "filter (\<lambda>b. \<not> is_ascii_whitespace b) (ascii ''aG kh'' @ [0x0A]) = b64_encode (ascii ''hi!'') \<or>
    filter (\<lambda>b. \<not> is_ascii_whitespace b) (ascii ''aG kh'' @ [0x0A]) =
      takeWhile (\<lambda>b. b \<noteq> b64_pad) (b64_encode (ascii ''hi!''))"
    by (simp add: ascii_def is_ascii_whitespace_def b64_symbol_def b64_group_def alphabet_def)
qed

end
