(* ===== verification/Crypto.thy ===== *)
theory Crypto
  imports Base64
begin

text \<open>
  \<open>crates/posh/src/remote/crypto.rs\<close>: the printable session key, the 64-bit nonce value
  (direction bit and 63-bit sequence number), the anti-replay window and the sealing session.
  AES-128-GCM is the \<open>aes_gcm\<close> crate, which is not part of the repository: \<open>encrypt\<close> and
  \<open>decrypt\<close> are parameters, and what the code relies on (decryption inverts encryption under
  the same key and nonce, a ciphertext carries a 16-byte tag) appears as hypotheses. The operating
  system's random source (\<open>fill_random\<close>) is not modelled.
\<close>

section \<open>Keys\<close>

definition KEY_LEN :: nat where "KEY_LEN = 16"
definition TAG_LEN :: nat where "TAG_LEN = 16"
definition NONCE_PREFIX_LEN :: nat where "NONCE_PREFIX_LEN = 8"
definition SEAL_OVERHEAD :: nat where "SEAL_OVERHEAD = NONCE_PREFIX_LEN + TAG_LEN"

text \<open>\<open>s.trim_end_matches('=')\<close> on the encoded text.\<close>

definition trim_end_pad :: "bytes \<Rightarrow> bytes" where
  "trim_end_pad s = rev (dropWhile (\<lambda>b. b = b64_pad) (rev s))"

definition key_to_base64 :: "bytes \<Rightarrow> bytes" where
  "key_to_base64 k = (let s = b64_encode k in take (length (trim_end_pad s)) s)"

definition key_from_base64 :: "bytes \<Rightarrow> bytes result" where
  "key_from_base64 s =
     (if length s \<noteq> 22 then Inl ''key must be 22 letters long''
      else case b64_decode s of
        None \<Rightarrow> Inl ''key must be well-formed base64''
      | Some bs \<Rightarrow>
          if length bs = KEY_LEN then Inr bs else Inl ''key must decode to 16 bytes'')"

section \<open>Directions and nonces\<close>

datatype direction = ToServer | ToClient

definition DIRECTION_MASK :: u64 where "DIRECTION_MASK = push_bit 63 1"
definition SEQUENCE_MASK :: u64 where "SEQUENCE_MASK = NOT DIRECTION_MASK"

fun direction_bit :: "direction \<Rightarrow> u64" where
  "direction_bit ToClient = DIRECTION_MASK"
| "direction_bit ToServer = 0"

text \<open>The 96-bit AEAD nonce: four zero bytes and the big-endian nonce value.\<close>

definition nonce_bytes :: "u64 \<Rightarrow> bytes" where
  "nonce_bytes val = replicate 4 0 @ be_bytes 8 val"

section \<open>The replay window\<close>

record replay_window =
  highest :: u64
  bitmap :: u64
  initialized :: bool

definition replay_new :: replay_window where
  "replay_new = \<lparr>highest = 0, bitmap = 0, initialized = False\<rparr>"

text \<open>\<open>ReplayWindow::check\<close>: the window after the call, and its result.\<close>

definition replay_check :: "replay_window \<Rightarrow> u64 \<Rightarrow> replay_window \<times> unit result" where
  "replay_check w seq =
     (if \<not> initialized w then (\<lparr>highest = seq, bitmap = 1, initialized = True\<rparr>, Inr ())
      else if seq > highest w then
        (let shift = seq - highest w;
             b = (if shift \<ge> 64 then 0 else push_bit (unat shift) (bitmap w))
         in (w\<lparr>bitmap := b OR 1, highest := seq\<rparr>, Inr ()))
      else
        (let diff = highest w - seq
         in if diff \<ge> 64 then (w, Inl ''sequence number too old'')
            else if bitmap w AND push_bit (unat diff) 1 \<noteq> 0
              then (w, Inl ''replayed sequence number'')
            else (w\<lparr>bitmap := bitmap w OR push_bit (unat diff) 1\<rparr>, Inr ())))"

section \<open>The sealing session\<close>

record 'k session =
  key :: 'k
  send_dir :: direction
  next_seq :: u64
  replay :: replay_window

definition session_new :: "'k \<Rightarrow> direction \<Rightarrow> 'k session" where
  "session_new k d = \<lparr>key = k, send_dir = d, next_seq = 0, replay = replay_new\<rparr>"

definition seal_value :: "'k session \<Rightarrow> u64" where
  "seal_value s = direction_bit (send_dir s) OR (next_seq s AND SEQUENCE_MASK)"

definition seal ::
  "('k \<Rightarrow> bytes \<Rightarrow> bytes \<Rightarrow> bytes option) \<Rightarrow> 'k session \<Rightarrow> bytes \<Rightarrow> 'k session \<times> bytes result" where
  "seal encrypt s plaintext =
     (let val = seal_value s;
          s' = s\<lparr>next_seq := next_seq s + 1\<rparr>
      in case encrypt (key s) (nonce_bytes val) plaintext of
        None \<Rightarrow> (s', Inl ''encryption failed'')
      | Some ct \<Rightarrow> (s', Inr (be_bytes 8 val @ ct)))"

definition open_datagram ::
  "('k \<Rightarrow> bytes \<Rightarrow> bytes \<Rightarrow> bytes option) \<Rightarrow> 'k session \<Rightarrow> bytes
     \<Rightarrow> 'k session \<times> (u64 \<times> bytes) result" where
  "open_datagram decrypt s datagram =
     (if length datagram < SEAL_OVERHEAD then (s, Inl ''datagram too short'')
      else let val = be_val (take NONCE_PREFIX_LEN datagram) :: u64;
               dir = (if val AND DIRECTION_MASK \<noteq> 0 then ToClient else ToServer)
           in if dir = send_dir s then (s, Inl ''wrong packet direction'')
              else case decrypt (key s) (nonce_bytes val) (drop NONCE_PREFIX_LEN datagram) of
                None \<Rightarrow> (s, Inl ''authentication failed'')
              | Some pt \<Rightarrow>
                  (let seq = val AND SEQUENCE_MASK
                   in case replay_check (replay s) seq of
                     (w, Inl e) \<Rightarrow> (s\<lparr>replay := w\<rparr>, Inl e)
                   | (w, Inr _) \<Rightarrow> (s\<lparr>replay := w\<rparr>, Inr (seq, pt))))"

section \<open>Bits of the nonce value\<close>

lemma bit_direction_mask: "bit DIRECTION_MASK n \<longleftrightarrow> n = 63"
  unfolding DIRECTION_MASK_def push_bit_of_1 bit_exp_iff by auto

lemma bit_sequence_mask: "bit SEQUENCE_MASK n \<longleftrightarrow> n < 63"
  unfolding SEQUENCE_MASK_def bit_not_iff bit_direction_mask by auto

lemma sequence_mask_eq: "SEQUENCE_MASK = mask 63"
  by (rule bit_word_eqI) (simp add: bit_sequence_mask bit_mask_iff)

lemma masked_sequence_nat: "unat (w AND SEQUENCE_MASK) = unat w mod 2 ^ 63"
  by (simp only: sequence_mask_eq take_bit_eq_mask [symmetric] unsigned_take_bit_eq)
    (simp only: take_bit_eq_mod)

lemma masked_sequence_id: "unat w < 2 ^ 63 \<Longrightarrow> w AND SEQUENCE_MASK = w"
  by (rule word_unat_eq_iff [THEN iffD2]) (simp add: masked_sequence_nat)

lemma nonzero_word_iff: "(w :: 'a::len word) \<noteq> 0 \<longleftrightarrow> (\<exists>n. bit w n)"
  by (auto simp: bit_eq_iff intro: bit_imp_le_length)

lemma direction_of_seal_value:
  "seal_value s AND DIRECTION_MASK \<noteq> 0 \<longleftrightarrow> send_dir s = ToClient"
  by (cases "send_dir s")
    (auto simp: seal_value_def nonzero_word_iff bit_and_iff bit_or_iff bit_direction_mask
      bit_sequence_mask)

lemma sequence_of_seal_value: "seal_value s AND SEQUENCE_MASK = next_seq s AND SEQUENCE_MASK"
  by (cases "send_dir s")
    (auto intro!: bit_word_eqI simp: seal_value_def bit_and_iff bit_or_iff bit_direction_mask
      bit_sequence_mask)

lemma seal_value_inject:
  assumes "seal_value s = seal_value t"
  shows "send_dir s = send_dir t" "next_seq s AND SEQUENCE_MASK = next_seq t AND SEQUENCE_MASK"
proof -
  show "send_dir s = send_dir t"
    using direction_of_seal_value [of s] direction_of_seal_value [of t] assms
    by (metis direction.exhaust)
  show "next_seq s AND SEQUENCE_MASK = next_seq t AND SEQUENCE_MASK"
    using assms by (metis sequence_of_seal_value)
qed

lemma nonce_bytes_inject: "nonce_bytes v = nonce_bytes w \<longleftrightarrow> v = w"
  by (simp add: nonce_bytes_def u64be.enc_inject)

section \<open>The replay window against the set of accepted sequence numbers\<close>

text \<open>
  The specification: a sequence number is admitted when it has not been accepted before and is
  less than 64 below the highest accepted one. \<open>replay_abs w A\<close> says the window \<open>w\<close>
  represents the set \<open>A\<close> of accepted numbers.
\<close>

definition replay_admits :: "nat set \<Rightarrow> nat \<Rightarrow> bool" where
  "replay_admits A n \<longleftrightarrow> A = {} \<or> (n \<notin> A \<and> Max A < n + 64)"

definition replay_abs :: "replay_window \<Rightarrow> nat set \<Rightarrow> bool" where
  "replay_abs w A \<longleftrightarrow> finite A \<and> (initialized w \<longleftrightarrow> A \<noteq> {}) \<and>
     (initialized w \<longrightarrow> Max A = unat (highest w) \<and>
       (\<forall>d < 64. bit (bitmap w) d \<longleftrightarrow> d \<le> unat (highest w) \<and> unat (highest w) - d \<in> A))"

lemma replay_abs_new: "replay_abs replay_new {}"
  by (simp add: replay_abs_def replay_new_def)

lemma bit_pow2: "k < 64 \<Longrightarrow> bit (2 ^ k :: u64) d \<longleftrightarrow> d = k"
  unfolding bit_exp_iff by auto

lemma test_bit_set: "k < 64 \<Longrightarrow> (b :: u64) AND 2 ^ k \<noteq> 0 \<longleftrightarrow> bit b k"
  by (auto simp: nonzero_word_iff bit_and_iff bit_pow2)

lemma replay_check_first:
  assumes "replay_abs w A" "\<not> initialized w"
  shows "replay_abs (fst (replay_check w seq)) (insert (unat seq) A)"
  using assms by (auto simp: replay_check_def replay_abs_def bit_1_iff)

lemma replay_check_newer:
  assumes abs: "replay_abs w A" "initialized w" and gt: "seq > highest w"
  shows "replay_abs (fst (replay_check w seq)) (insert (unat seq) A)"
proof -
  let ?h = "unat (highest w)" and ?s = "unat seq"
  from gt have hs: "?h < ?s" by (simp add: word_less_nat_alt)
  have sh: "unat (seq - highest w) = ?s - ?h" using gt by (simp add: unat_sub_le)
  have big: "seq - highest w \<ge> 64 \<longleftrightarrow> 64 \<le> ?s - ?h" using sh by (simp add: word_le_nat_alt)
  have A: "finite A" "A \<noteq> {}" "Max A = ?h" and le: "\<And>n. n \<in> A \<Longrightarrow> n \<le> ?h"
    and bits: "\<And>d. d < 64 \<Longrightarrow> bit (bitmap w) d \<longleftrightarrow> d \<le> ?h \<and> ?h - d \<in> A"
    using abs by (auto simp: replay_abs_def dest: Max_ge)
  define b where "b = (if 64 \<le> ?s - ?h then 0 else push_bit (?s - ?h) (bitmap w)) OR 1"
  have new: "bit b d \<longleftrightarrow> d \<le> ?s \<and> ?s - d \<in> insert ?s A" if "d < 64" for d
    using that hs bits [of "d - (?s - ?h)"] le [of "?s - d"]
    by (auto simp: b_def bit_or_iff bit_1_iff bit_push_bit_iff)
  have run: "fst (replay_check w seq) = w\<lparr>bitmap := b, highest := seq\<rparr>"
    using gt abs by (simp add: replay_check_def Let_def big sh b_def)
  have "Max (insert ?s A) = ?s" using A hs by (simp add: max_def)
  with A new abs show ?thesis unfolding run by (simp add: replay_abs_def)
qed

lemma replay_check_older:
  assumes abs: "replay_abs w A" "initialized w" and le: "\<not> seq > highest w"
  shows "snd (replay_check w seq) = Inr () \<Longrightarrow>
      replay_abs (fst (replay_check w seq)) (insert (unat seq) A)"
    "snd (replay_check w seq) = Inr () \<longleftrightarrow> replay_admits A (unat seq)"
proof -
  let ?h = "unat (highest w)" and ?s = "unat seq"
  from le have sh: "?s \<le> ?h" by (simp add: not_less word_le_nat_alt)
  have df: "unat (highest w - seq) = ?h - ?s" using le by (simp add: not_less unat_sub_le)
  have big: "highest w - seq \<ge> 64 \<longleftrightarrow> 64 \<le> ?h - ?s" using df by (simp add: word_le_nat_alt)
  have A: "finite A" "A \<noteq> {}" "Max A = ?h"
    and bits: "\<And>d. d < 64 \<Longrightarrow> bit (bitmap w) d \<longleftrightarrow> d \<le> ?h \<and> ?h - d \<in> A"
    using abs by (auto simp: replay_abs_def)
  have test: "?h - ?s < 64 \<Longrightarrow>
      bitmap w AND 2 ^ (?h - ?s) \<noteq> 0 \<longleftrightarrow> ?s \<in> A"
    using bits [of "?h - ?s"] sh by (simp add: test_bit_set)
  show "snd (replay_check w seq) = Inr () \<longleftrightarrow> replay_admits A ?s"
    using abs le A sh test
    by (auto simp: replay_check_def Let_def big df replay_admits_def)
  assume ok: "snd (replay_check w seq) = Inr ()"
  then have near: "?h - ?s < 64"
    using abs le by (auto simp: replay_check_def Let_def big df split: if_splits)
  have new: "bit (bitmap w OR 2 ^ (?h - ?s)) d \<longleftrightarrow> d \<le> ?h \<and> ?h - d \<in> insert ?s A"
    if "d < 64" for d
    using that near sh bits [of d] by (auto simp: bit_or_iff bit_pow2)
  have "Max (insert ?s A) = ?h" using A sh by (simp add: max_def)
  with ok A new le abs near show "replay_abs (fst (replay_check w seq)) (insert ?s A)"
    by (auto simp: replay_check_def replay_abs_def Let_def big df split: if_splits)
qed

lemma replay_check_error: "snd (replay_check w seq) = Inl e \<Longrightarrow> fst (replay_check w seq) = w"
  by (auto simp: replay_check_def Let_def split: if_splits)

lemma replay_check_refines:
  assumes "replay_abs w A"
  shows "snd (replay_check w seq) = Inr () \<longleftrightarrow> replay_admits A (unat seq)"
    "snd (replay_check w seq) = Inr () \<Longrightarrow>
      replay_abs (fst (replay_check w seq)) (insert (unat seq) A)"
proof -
  have gt: "replay_admits A (unat seq)" if "initialized w" "seq > highest w"
  proof -
    have "Max A < unat seq" "finite A"
      using assms that by (auto simp: replay_abs_def word_less_nat_alt)
    then have "unat seq \<notin> A" by (auto dest: Max_ge)
    with \<open>Max A < unat seq\<close> show ?thesis by (simp add: replay_admits_def)
  qed
  consider "\<not> initialized w" | "initialized w" "seq > highest w"
    | "initialized w" "\<not> seq > highest w" by blast
  then show "snd (replay_check w seq) = Inr () \<longleftrightarrow> replay_admits A (unat seq)"
    by cases (use assms gt replay_check_older(2) [of w A seq] in
      \<open>auto simp: replay_check_def Let_def replay_abs_def replay_admits_def\<close>)
  assume "snd (replay_check w seq) = Inr ()"
  then show "replay_abs (fst (replay_check w seq)) (insert (unat seq) A)"
    using assms replay_check_first replay_check_newer replay_check_older(1) by blast
qed

section \<open>Runs of the window and of the session\<close>

text \<open>The verdicts of a run of the window, and of its specification.\<close>

fun replay_run :: "replay_window \<Rightarrow> u64 list \<Rightarrow> bool list" where
  "replay_run w [] = []"
| "replay_run w (seq # seqs) =
     (case replay_check w seq of (w', r) \<Rightarrow> (r = Inr ()) # replay_run w' seqs)"

fun admit_run :: "nat set \<Rightarrow> nat list \<Rightarrow> bool list" where
  "admit_run A [] = []"
| "admit_run A (n # ns) =
     (if replay_admits A n then True # admit_run (insert n A) ns else False # admit_run A ns)"

text \<open>A session opening datagrams as they arrive, collecting what it delivers.\<close>

fun open_all ::
  "('k \<Rightarrow> bytes \<Rightarrow> bytes \<Rightarrow> bytes option) \<Rightarrow> 'k session \<Rightarrow> bytes list \<Rightarrow> (u64 \<times> bytes) list" where
  "open_all decrypt s [] = []"
| "open_all decrypt s (d # ds) =
     (case open_datagram decrypt s d of
       (s', Inl _) \<Rightarrow> open_all decrypt s' ds
     | (s', Inr m) \<Rightarrow> m # open_all decrypt s' ds)"

text \<open>The AEAD nonces a session uses for a list of plaintexts.\<close>

fun seal_all ::
  "('k \<Rightarrow> bytes \<Rightarrow> bytes \<Rightarrow> bytes option) \<Rightarrow> 'k session \<Rightarrow> bytes list \<Rightarrow> bytes result list" where
  "seal_all encrypt s [] = []"
| "seal_all encrypt s (p # ps) = (case seal encrypt s p of (s, r) \<Rightarrow> r # seal_all encrypt s ps)"

text \<open>
  The datagram of a plaintext encrypted under key \<open>k\<close> and nonce \<open>n\<close>: the nonce's last eight bytes
  and what the cipher returned for exactly that call.
\<close>

definition datagram_of :: "('k \<Rightarrow> bytes \<Rightarrow> bytes \<Rightarrow> bytes option) \<Rightarrow> 'k \<Rightarrow> bytes \<Rightarrow> bytes \<Rightarrow> bytes result" where
  "datagram_of encrypt k n p = (case encrypt k n p of
       None \<Rightarrow> Inl ''encryption failed''
     | Some ct \<Rightarrow> Inr (drop 4 n @ ct))"

lemma replay_run_refines: "replay_abs w A \<Longrightarrow> replay_run w seqs = admit_run A (map unat seqs)"
proof (induction seqs arbitrary: w A)
  case Nil
  then show ?case by simp
next
  case (Cons seq seqs)
  obtain w' r where c: "replay_check w seq = (w', r)" by force
  show ?case
  proof (cases r)
    case (Inl e)
    with c replay_check_error [of w seq e] have "w' = w" by simp
    with Cons c Inl replay_check_refines(1) [OF Cons.prems, of seq] show ?thesis by simp
  next
    case (Inr u)
    with c Cons replay_check_refines [OF Cons.prems, of seq] show ?thesis by simp
  qed
qed

lemma open_datagram_cases:
  assumes "open_datagram decrypt s d = (s', r)"
  obtains (same) e where "s' = s" "r = Inl e"
  | (got) w seq pt where "replay_check (replay s) seq = (w, Inr ())" "s' = s\<lparr>replay := w\<rparr>"
      "r = Inr (seq, pt)"
proof -
  define val :: u64 where "val = be_val (take NONCE_PREFIX_LEN d)"
  define m where "m = decrypt (key s) (nonce_bytes val) (drop NONCE_PREFIX_LEN d)"
  define c where "c = replay_check (replay s) (val AND SEQUENCE_MASK)"
  have o: "open_datagram decrypt s d =
     (if length d < SEAL_OVERHEAD then (s, Inl ''datagram too short'')
      else if (if val AND DIRECTION_MASK \<noteq> 0 then ToClient else ToServer) = send_dir s
        then (s, Inl ''wrong packet direction'')
      else case m of
        None \<Rightarrow> (s, Inl ''authentication failed'')
      | Some pt \<Rightarrow> (case c of
          (w, Inl e) \<Rightarrow> (s\<lparr>replay := w\<rparr>, Inl e)
        | (w, Inr _) \<Rightarrow> (s\<lparr>replay := w\<rparr>, Inr (val AND SEQUENCE_MASK, pt))))"
    unfolding open_datagram_def val_def m_def c_def Let_def by (rule refl)
  show thesis
  proof (cases m)
    case None
    with o assms same show thesis by (auto split: if_splits)
  next
    case (Some pt)
    obtain w q where c: "c = (w, q)" by force
    show thesis
    proof (cases q)
      case (Inl e)
      with c replay_check_error [of "replay s" "val AND SEQUENCE_MASK" e] have "w = replay s"
        by (simp add: c_def)
      with Inl c Some o assms same show thesis by (auto split: if_splits)
    next
      case (Inr u)
      with c Some o assms same got [of "val AND SEQUENCE_MASK" w pt] show thesis
        by (auto simp: c_def split: if_splits)
    qed
  qed
qed

lemma open_all_fresh:
  assumes "replay_abs (replay s) A"
  shows "distinct (map fst (open_all decrypt s ds)) \<and>
    (\<forall>m \<in> set (open_all decrypt s ds). unat (fst m) \<notin> A)"
  using assms
proof (induction ds arbitrary: s A)
  case Nil
  then show ?case by simp
next
  case (Cons d ds)
  obtain s' r where o: "open_datagram decrypt s d = (s', r)" by force
  from o show ?case
  proof (cases rule: open_datagram_cases)
    case (same e)
    with Cons o show ?thesis by simp
  next
    case (got w seq pt)
    then have ok: "snd (replay_check (replay s) seq) = Inr ()" "fst (replay_check (replay s) seq) = w"
      by simp_all
    then have adm: "unat seq \<notin> A" and abs: "replay_abs (replay s') (insert (unat seq) A)"
      using replay_check_refines [OF Cons.prems, of seq] got by (auto simp: replay_admits_def)
    from Cons.IH [OF abs] adm got o show ?thesis by (auto simp: rev_image_eqI)
  qed
qed

lemma seal_next: "next_seq (fst (seal encrypt s p)) = next_seq s + 1"
  "send_dir (fst (seal encrypt s p)) = send_dir s"
  by (simp_all add: seal_def Let_def split: option.splits)

text \<open>The nonces a session uses, in order: its direction and its next sequence numbers.\<close>

definition session_nonces :: "direction \<Rightarrow> nat \<Rightarrow> nat \<Rightarrow> bytes list" where
  "session_nonces d first m = map (\<lambda>i. nonce_bytes (direction_bit d OR of_nat (first + i))) [0..<m]"

lemma session_nonces_Suc: "session_nonces d first (Suc m) = nonce_bytes (direction_bit d OR of_nat first) # session_nonces d (Suc first) m"
  by (simp add: session_nonces_def upt_conv_Cons map_Suc_upt [symmetric] o_def add.left_commute del: upt_Suc map_Suc_upt)

lemma seal_all_nonces:
  assumes "unat (next_seq s) + length ps \<le> 2 ^ 63"
  shows "seal_all encrypt s ps =
    map2 (datagram_of encrypt (key s)) (session_nonces (send_dir s) (unat (next_seq s)) (length ps)) ps"
  using assms
proof (induction ps arbitrary: s)
  case (Cons p ps)
  obtain t x where t: "seal encrypt s p = (t, x)" by fastforce
  have n: "unat (next_seq s + 1) = unat (next_seq s) + 1"
    using Cons.prems unat_add_of_nat [of "next_seq s" 1] by simp
  have v: "seal_value s = direction_bit (send_dir s) OR of_nat (unat (next_seq s))"
    using Cons.prems by (simp add: seal_value_def masked_sequence_id)
  have "x = datagram_of encrypt (key s) (nonce_bytes (seal_value s)) p"
    using t by (auto simp: seal_def datagram_of_def Let_def nonce_bytes_def split: option.splits)
  moreover have "next_seq t = next_seq s + 1" "send_dir t = send_dir s" "key t = key s"
    using t by (auto simp: seal_def Let_def split: option.splits)
  ultimately show ?case using Cons.IH [of t] Cons.prems n v by (simp add: t session_nonces_Suc)
qed (simp add: session_nonces_def)

text \<open>Two nonces are equal only for the same direction and the same sequence number.\<close>

lemma nonce_value_inject:
  assumes "m < 2 ^ 63" "n < 2 ^ 63"
    and "direction_bit d OR of_nat m = direction_bit e OR of_nat n"
  shows "d = e \<and> m = n"
proof -
  define s t :: "unit session"
    where "s = \<lparr>key = (), send_dir = d, next_seq = of_nat m, replay = replay_new\<rparr>"
      and "t = \<lparr>key = (), send_dir = e, next_seq = of_nat n, replay = replay_new\<rparr>"
  have "seal_value s = seal_value t"
    using assms by (simp add: s_def t_def seal_value_def masked_sequence_id)
  from seal_value_inject [OF this] have "d = e" "(of_nat m :: u64) = of_nat n"
    using assms by (simp_all add: s_def t_def masked_sequence_id)
  moreover have "unat (of_nat m :: u64) = m" "unat (of_nat n :: u64) = n"
    using assms by simp_all
  ultimately show ?thesis by metis
qed

section \<open>Properties\<close>

lemma open_sealed:
  assumes dec: "decrypt (key s) (nonce_bytes (seal_value s)) ct = Some pt"
    and ct: "encrypt (key s) (nonce_bytes (seal_value s)) pt = Some ct" "length ct \<ge> TAG_LEN"
    and peer: "key r = key s" "send_dir r \<noteq> send_dir s"
    and small: "unat (next_seq s) < 2 ^ 63"
  shows "\<exists>dg. snd (seal encrypt s pt) = Inr dg \<and>
    open_datagram decrypt r dg =
      (case replay_check (replay r) (next_seq s) of
         (w, Inl e) \<Rightarrow> (r\<lparr>replay := w\<rparr>, Inl e)
       | (w, Inr _) \<Rightarrow> (r\<lparr>replay := w\<rparr>, Inr (next_seq s, pt)))"
proof -
  let ?dg = "be_bytes 8 (seal_value s) @ ct"
  have "snd (seal encrypt s pt) = Inr ?dg" using ct by (simp add: seal_def Let_def)
  moreover have "be_val (take NONCE_PREFIX_LEN ?dg) = seal_value s" "drop NONCE_PREFIX_LEN ?dg = ct"
    by (simp_all add: NONCE_PREFIX_LEN_def)
  moreover have "\<not> length ?dg < SEAL_OVERHEAD"
    using ct by (simp add: SEAL_OVERHEAD_def NONCE_PREFIX_LEN_def)
  moreover have "(if seal_value s AND DIRECTION_MASK \<noteq> 0 then ToClient else ToServer) = send_dir s"
    using direction_of_seal_value [of s] by (cases "send_dir s") auto
  moreover have "seal_value s AND SEQUENCE_MASK = next_seq s"
    using small by (simp add: sequence_of_seal_value masked_sequence_id)
  ultimately show ?thesis
    using dec peer by (auto simp: open_datagram_def Let_def)
qed

text \<open>
  C1. The replay window admits exactly the sequence numbers its specification admits: over any run
  of numbers, \<open>check\<close> accepts one iff it has not been accepted before and lies less than 64 below
  the highest accepted so far.
\<close>

theorem replay_window_exact: "replay_run replay_new seqs = admit_run {} (map unat seqs)"
  by (rule replay_run_refines) (rule replay_abs_new)

text \<open>
  C2. Whatever datagrams reach a fresh session (replayed, reordered, forged), no sequence number is
  delivered twice.
\<close>

theorem open_no_replay: "distinct (map fst (open_all decrypt (session_new k d) datagrams))"
proof -
  have "replay_abs (replay (session_new k d)) {}"
    by (simp add: session_new_def replay_abs_new)
  from open_all_fresh [OF this] show ?thesis by blast
qed

text \<open>
  C3. No AEAD nonce is used twice under one key. Let the two ends hold one key and seal at most \<open>2^63\<close>
  datagrams each. Then there are nonces, one for each datagram of either end and pairwise different, such that
  every datagram is what the cipher, any cipher, returns for the session's key, that nonce and the plaintext,
  behind the nonce's last eight bytes.
\<close>

theorem seal_nonces_unique:
  assumes "length ps \<le> 2 ^ 63" "length qs \<le> 2 ^ 63"
  shows "\<exists>ms ns. length ms = length ps \<and> length ns = length qs \<and> distinct (ms @ ns) \<and>
    (\<forall>encrypt. seal_all encrypt (session_new k ToServer) ps = map2 (datagram_of encrypt k) ms ps \<and>
               seal_all encrypt (session_new k ToClient) qs = map2 (datagram_of encrypt k) ns qs)"
proof -
  let ?n = "\<lambda>d xs. session_nonces d 0 (length xs)"
  have run: "seal_all encrypt (session_new k d) xs = map2 (datagram_of encrypt k) (?n d xs) xs"
    if "length xs \<le> 2 ^ 63" for encrypt d and xs :: "bytes list"
    using seal_all_nonces [of "session_new k d" xs encrypt] that by (simp add: session_new_def)
  have inj: "i = j \<and> d = e" if "nonce_bytes (direction_bit d OR of_nat i) =
      nonce_bytes (direction_bit e OR of_nat j)" "i < 2 ^ 63" "j < 2 ^ 63" for d e and i j :: nat
    using nonce_value_inject [OF that(2,3)] that(1) by (simp add: nonce_bytes_inject)
  have "distinct (session_nonces d 0 m)" if "m \<le> 2 ^ 63" for d and m :: nat
    using that inj [of d _ d] by (auto simp: session_nonces_def distinct_map intro!: inj_onI)
  moreover have "set (?n ToServer ps) \<inter> set (?n ToClient qs) = {}"
    using assms inj [of ToServer _ ToClient] by (auto simp: session_nonces_def) force
  ultimately have "distinct (?n ToServer ps @ ?n ToClient qs)" using assms by simp
  moreover have "length (?n d xs) = length xs" for d and xs :: "bytes list" by (simp add: session_nonces_def)
  ultimately show ?thesis using run assms by blast
qed

theorem seal_nonces_unique_witness:
  "\<exists>ms ns. length ms = length [[1 :: u8], [2]] \<and> length ns = length [[3 :: u8]] \<and> distinct (ms @ ns) \<and>
    (\<forall>encrypt. seal_all encrypt (session_new (0 :: nat) ToServer) [[1], [2]] = map2 (datagram_of encrypt 0) ms [[1], [2]] \<and>
               seal_all encrypt (session_new 0 ToClient) [[3]] = map2 (datagram_of encrypt 0) ns [[3]])"
  using seal_nonces_unique [where k = "0 :: nat" and ps = "[[1], [2]]" and qs = "[[3]]"] by simp

text \<open>
  C4. What one end seals the other end opens. Given that the cipher's decryption inverts its
  encryption and appends a 16-byte tag, a session of the opposite direction holding the same key
  recovers the plaintext and its sequence number whenever the number is admissible against what it
  has accepted, and refuses it otherwise.
\<close>

theorem seal_open_roundtrip:
  assumes aead: "\<And>k n p c. encrypt k n p = Some c \<Longrightarrow> decrypt k n c = Some p \<and> length c = length p + TAG_LEN"
    and enc: "encrypt (key s) (nonce_bytes (seal_value s)) pt = Some ct"
    and peer: "key r = key s" "send_dir r \<noteq> send_dir s"
    and small: "unat (next_seq s) < 2 ^ 63"
    and abs: "replay_abs (replay r) A"
  shows "\<exists>dg. snd (seal encrypt s pt) = Inr dg \<and>
    (snd (open_datagram decrypt r dg) = Inr (next_seq s, pt) \<longleftrightarrow> replay_admits A (unat (next_seq s)))"
proof -
  from aead [OF enc] have "decrypt (key s) (nonce_bytes (seal_value s)) ct = Some pt" "length ct \<ge> TAG_LEN"
    by simp_all
  from open_sealed [where decrypt = decrypt and encrypt = encrypt and s = s and r = r, OF this(1) enc this(2) peer small]
  obtain dg where
    dg: "snd (seal encrypt s pt) = Inr dg" "open_datagram decrypt r dg =
      (case replay_check (replay r) (next_seq s) of
         (w, Inl e) \<Rightarrow> (r\<lparr>replay := w\<rparr>, Inl e)
       | (w, Inr _) \<Rightarrow> (r\<lparr>replay := w\<rparr>, Inr (next_seq s, pt)))" by blast
  then show ?thesis
    using replay_check_refines(1) [OF abs, of "next_seq s"]
    by (intro exI [of _ dg]) (auto split: prod.splits sum.splits)
qed

text \<open>A concrete cipher for the witness: the plaintext followed by a zero tag.\<close>

definition toy_encrypt :: "nat \<Rightarrow> bytes \<Rightarrow> bytes \<Rightarrow> bytes option" where
  "toy_encrypt k n p = Some (p @ replicate 16 0)"

definition toy_decrypt :: "nat \<Rightarrow> bytes \<Rightarrow> bytes \<Rightarrow> bytes option" where
  "toy_decrypt k n c = (if length c < 16 then None else Some (take (length c - 16) c))"

theorem seal_open_roundtrip_witness:
  "\<exists>dg. snd (seal toy_encrypt (session_new 7 ToServer) [1, 2]) = Inr dg \<and>
    (snd (open_datagram toy_decrypt (session_new 7 ToClient) dg) =
       Inr (next_seq (session_new (7::nat) ToServer), [1, 2]) \<longleftrightarrow>
     replay_admits {} (unat (next_seq (session_new (7::nat) ToServer))))"
  by (rule seal_open_roundtrip [where ct = "[1, 2] @ replicate 16 0"])
    (auto simp: toy_encrypt_def toy_decrypt_def TAG_LEN_def session_new_def replay_abs_new)

lemma trim_end_pad_unpadded:
  assumes "b64_pad \<notin> set s"
  shows "trim_end_pad (s @ replicate n b64_pad) = s"
proof -
  have "dropWhile (\<lambda>b. b = b64_pad) (replicate n b64_pad @ ys) = dropWhile (\<lambda>b. b = b64_pad) ys" for ys
    by (induction n) auto
  moreover have "dropWhile (\<lambda>b. b = b64_pad) (rev s) = rev s"
    using assms by (cases "rev s") (auto simp: rev_eq_Cons_iff)
  ultimately show ?thesis by (simp add: trim_end_pad_def)
qed

lemma trim_end_pad_encode: "trim_end_pad (b64_encode data) = takeWhile (\<lambda>b. b \<noteq> b64_pad) (b64_encode data)"
proof -
  obtain n where n: "b64_encode data = takeWhile (\<lambda>b. b \<noteq> b64_pad) (b64_encode data) @ replicate n b64_pad"
    using encode_pads_at_end by blast
  have "b64_pad \<notin> set (takeWhile (\<lambda>b. b \<noteq> b64_pad) (b64_encode data))"
    by (auto dest: set_takeWhileD)
  from trim_end_pad_unpadded [OF this, of n] show ?thesis using n by simp
qed

lemma key_to_base64_unpadded:
  "key_to_base64 k = takeWhile (\<lambda>b. b \<noteq> b64_pad) (b64_encode k)"
  unfolding key_to_base64_def Let_def trim_end_pad_encode
  by (metis append_eq_conv_conj takeWhile_dropWhile_id)

lemma encoded_16_pads:
  assumes "length k = 16"
  shows "\<exists>s. b64_encode k = s @ [b64_pad, b64_pad] \<and> length s = 22 \<and> b64_pad \<notin> set s"
proof -
  have chunk: "\<exists>s. b64_encode (b0 # b1 # b2 # r) = s @ b64_encode r \<and> length s = 4 \<and> b64_pad \<notin> set s"
    for b0 b1 b2 r
    by (intro exI [of _ "[b64_symbol (b64_group b0 b1 b2) 18, b64_symbol (b64_group b0 b1 b2) 12,
        b64_symbol (b64_group b0 b1 b2) 6, b64_symbol (b64_group b0 b1 b2) 0]"]) (simp add: Let_def)
  have "\<exists>s. b64_encode k = s @ [b64_pad, b64_pad] \<and> b64_pad \<notin> set s" if "length k mod 3 = 1" for k
    using that
  proof (induction k rule: b64_encode.induct)
    case (2 b0)
    show ?case by (intro exI [of _ "[b64_symbol (b64_group b0 0 0) 18, b64_symbol (b64_group b0 0 0) 12]"])
        (simp add: Let_def)
  next
    case (4 b0 b1 b2 rest)
    have "length rest mod 3 = 1" using 4(2) by (simp add: mod_Suc split: if_splits)
    with 4(1) obtain s where s: "b64_encode rest = s @ [b64_pad, b64_pad]" "b64_pad \<notin> set s" by blast
    obtain t where t: "b64_encode (b0 # b1 # b2 # rest) = t @ b64_encode rest" "b64_pad \<notin> set t"
      using chunk by blast
    with s show ?case by (intro exI [of _ "t @ s"]) simp
  qed simp_all
  from this [of k] assms obtain s where s: "b64_encode k = s @ [b64_pad, b64_pad]" "b64_pad \<notin> set s"
    by auto
  then show ?thesis using length_b64_encode [of k] assms by (intro exI [of _ s]) simp
qed

text \<open>
  C5. The printable key: every 16-byte key prints as exactly 22 characters without padding, and
  reading them gives the key back.
\<close>

lemma key_roundtrip:
  assumes "length k = KEY_LEN"
  shows "length (key_to_base64 k) = 22 \<and> key_from_base64 (key_to_base64 k) = Inr k"
proof -
  obtain s where s: "b64_encode k = s @ [b64_pad, b64_pad]" "length s = 22" "b64_pad \<notin> set s"
    using encoded_16_pads assms by (auto simp: KEY_LEN_def)
  then have "key_to_base64 k = s"
    unfolding key_to_base64_unpadded by (subst s(1), subst takeWhile_append2) auto
  moreover have "b64_decode (key_to_base64 k) = Some k"
    unfolding key_to_base64_unpadded by (rule b64_decode_unpadded)
  ultimately show ?thesis using s(2) assms by (simp add: key_from_base64_def)
qed

lemma key_roundtrip_witness:
  "length (key_to_base64 (replicate 16 7)) = 22 \<and>
    key_from_base64 (key_to_base64 (replicate 16 7)) = Inr (replicate 16 7)"
  by (rule key_roundtrip) (simp add: KEY_LEN_def)

end
