(* ===== verification/Utf8.thy ===== *)
theory Utf8
  imports Prelude
begin

text \<open>
  The parts of Rust's UTF-8 handling the sources call: \<open>std::str::from_utf8\<close> (validation),
  \<open>String::from_utf8_lossy\<close>, and the scalar values of \<open>char\<close> with their encoding. A
  \<open>String\<close> is modelled by its bytes, a \<open>char\<close> by its code point. \<open>utf8_scan\<close> is the
  standard library's step over the next character (the well-formed sequences of the Unicode
  standard): \<open>Inr n\<close> is a valid character of \<open>n\<close> bytes, \<open>Inl n\<close> an ill-formed
  maximal subpart of \<open>n\<close> bytes.
\<close>

section \<open>Scanning one character\<close>

definition is_cont :: "u8 \<Rightarrow> bool" where
  "is_cont b \<longleftrightarrow> 0x80 \<le> b \<and> b \<le> 0xBF"

text \<open>The second byte allowed after a three- or four-byte lead.\<close>

definition second3_ok :: "u8 \<Rightarrow> u8 \<Rightarrow> bool" where
  "second3_ok b0 b1 \<longleftrightarrow>
     (if b0 = 0xE0 then 0xA0 \<le> b1 \<and> b1 \<le> 0xBF
      else if b0 = 0xED then 0x80 \<le> b1 \<and> b1 \<le> 0x9F
      else is_cont b1)"

definition second4_ok :: "u8 \<Rightarrow> u8 \<Rightarrow> bool" where
  "second4_ok b0 b1 \<longleftrightarrow>
     (if b0 = 0xF0 then 0x90 \<le> b1 \<and> b1 \<le> 0xBF
      else if b0 = 0xF4 then 0x80 \<le> b1 \<and> b1 \<le> 0x8F
      else is_cont b1)"

definition opt_ok :: "('a \<Rightarrow> bool) \<Rightarrow> 'a option \<Rightarrow> bool" where
  "opt_ok p x \<longleftrightarrow> (case x of Some y \<Rightarrow> p y | None \<Rightarrow> False)"

definition utf8_scan :: "bytes \<Rightarrow> nat + nat" where
  "utf8_scan bs = (case bs of [] \<Rightarrow> Inl 0 | b0 # rest \<Rightarrow>
     if b0 < 0x80 then Inr 1
     else if 0xC2 \<le> b0 \<and> b0 \<le> 0xDF then
       (if opt_ok is_cont (get_at rest 0) then Inr 2 else Inl 1)
     else if 0xE0 \<le> b0 \<and> b0 \<le> 0xEF then
       (if opt_ok (second3_ok b0) (get_at rest 0) then
          (if opt_ok is_cont (get_at rest 1) then Inr 3 else Inl 2)
        else Inl 1)
     else if 0xF0 \<le> b0 \<and> b0 \<le> 0xF4 then
       (if opt_ok (second4_ok b0) (get_at rest 0) then
          (if opt_ok is_cont (get_at rest 1) then
             (if opt_ok is_cont (get_at rest 2) then Inr 4 else Inl 3)
           else Inl 2)
        else Inl 1)
     else Inl 1)"

lemma opt_ok_Some: "opt_ok p x \<longleftrightarrow> (\<exists>y. x = Some y \<and> p y)"
  by (auto simp: opt_ok_def split: option.splits)

lemma get_at_Some: "get_at xs i = Some y \<longleftrightarrow> i < length xs \<and> xs ! i = y"
  by (auto simp: get_at_def)

lemma utf8_scan_Inr_bounds: "utf8_scan bs = Inr n \<Longrightarrow> 0 < n \<and> n \<le> length bs \<and> n \<le> 4"
  by (auto simp: utf8_scan_def opt_ok_Some get_at_Some Suc_le_eq split: list.splits if_splits)

lemma utf8_scan_Inl_bounds: "bs \<noteq> [] \<Longrightarrow> utf8_scan bs = Inl n \<Longrightarrow> 0 < n \<and> n \<le> length bs \<and> n \<le> 3"
  by (auto simp: utf8_scan_def opt_ok_Some get_at_Some Suc_le_eq split: list.splits if_splits)

lemma get_at_append_Some: "get_at xs i = Some y \<Longrightarrow> get_at (xs @ ys) i = Some y"
  by (auto simp: get_at_def nth_append split: if_splits)

lemma utf8_scan_append:
  assumes "utf8_scan bs = Inr n"
  shows "utf8_scan (bs @ cs) = Inr n"
  using assms
  by (cases bs)
    (auto simp: utf8_scan_def opt_ok_Some get_at_append_Some split: if_splits)

section \<open>Validation and lossy decoding\<close>

text \<open>\<open>std::str::from_utf8(bs).is_ok()\<close>.\<close>

function utf8_valid :: "bytes \<Rightarrow> bool" where
  "utf8_valid bs =
     (if bs = [] then True
      else case utf8_scan bs of Inr n \<Rightarrow> utf8_valid (drop n bs) | Inl _ \<Rightarrow> False)"
  by pat_completeness auto
termination
  by (relation "measure length") (auto dest: utf8_scan_Inr_bounds)

declare utf8_valid.simps [simp del]

text \<open>\<open>String::from_utf8_lossy(bs)\<close>: each ill-formed subpart becomes U+FFFD.\<close>

definition replacement_bytes :: bytes where
  "replacement_bytes = [0xEF, 0xBF, 0xBD]"

function utf8_lossy :: "bytes \<Rightarrow> bytes" where
  "utf8_lossy bs =
     (if bs = [] then []
      else case utf8_scan bs of
        Inr n \<Rightarrow> take n bs @ utf8_lossy (drop n bs)
      | Inl n \<Rightarrow> replacement_bytes @ utf8_lossy (drop n bs))"
  by pat_completeness auto
termination
  by (relation "measure length") (auto dest: utf8_scan_Inr_bounds utf8_scan_Inl_bounds)

declare utf8_lossy.simps [simp del]

lemma utf8_valid_Nil [simp]: "utf8_valid []"
  by (simp add: utf8_valid.simps)

lemma utf8_lossy_Nil [simp]: "utf8_lossy [] = []"
  by (simp add: utf8_lossy.simps)

lemma utf8_valid_step:
  "utf8_scan bs = Inr n \<Longrightarrow> utf8_valid bs = utf8_valid (drop n bs)"
  by (subst utf8_valid.simps) (auto dest: utf8_scan_Inr_bounds)

lemma utf8_valid_append: "utf8_valid as \<Longrightarrow> utf8_valid bs \<Longrightarrow> utf8_valid (as @ bs)"
proof (induction as rule: utf8_valid.induct)
  case (1 as)
  show ?case
  proof (cases "as = []")
    case True
    with 1 show ?thesis by simp
  next
    case False
    with 1 obtain n where n: "utf8_scan as = Inr n" "utf8_valid (drop n as)"
      by (subst (asm) (2) utf8_valid.simps) (auto split: sum.splits)
    with 1 False have "utf8_valid (drop n as @ bs)" by simp
    with n utf8_scan_append [OF n(1), of bs] utf8_scan_Inr_bounds [OF n(1)]
    show ?thesis by (simp add: utf8_valid_step)
  qed
qed

lemma utf8_lossy_id: "utf8_valid bs \<Longrightarrow> utf8_lossy bs = bs"
proof (induction bs rule: utf8_valid.induct)
  case (1 bs)
  show ?case
  proof (cases "bs = []")
    case False
    with 1 obtain n where n: "utf8_scan bs = Inr n" "utf8_valid (drop n bs)"
      by (subst (asm) (2) utf8_valid.simps) (auto split: sum.splits)
    with 1 False have "utf8_lossy (drop n bs) = drop n bs" by simp
    with n False show ?thesis by (subst utf8_lossy.simps) simp
  qed simp
qed

lemma utf8_valid_one:
  assumes "utf8_scan bs = Inr n"
  shows "utf8_valid (take n bs)"
proof -
  have "utf8_scan (take n bs) = Inr n"
    using assms
    by (cases bs)
      (auto simp: utf8_scan_def opt_ok_Some get_at_Some take_Cons' nth_Cons' split: if_splits)
  then show ?thesis by (simp add: utf8_valid_step)
qed

lemma utf8_lossy_valid: "utf8_valid (utf8_lossy bs)"
proof (induction bs rule: utf8_lossy.induct)
  case (1 bs)
  have r: "utf8_valid replacement_bytes"
    by (simp add: replacement_bytes_def utf8_valid_step [of _ 3] utf8_scan_def opt_ok_def
      second3_ok_def is_cont_def get_at_def)
  show ?case
  proof (cases "bs = []")
    case False
    then show ?thesis
      using 1 r
      by (subst utf8_lossy.simps) (auto split: sum.splits intro!: utf8_valid_append utf8_valid_one)
  qed simp
qed

section \<open>Scalar values\<close>

text \<open>A Rust \<open>char\<close> is a code point that is not a surrogate.\<close>

definition is_scalar :: "nat \<Rightarrow> bool" where
  "is_scalar c \<longleftrightarrow> c < 0xD800 \<or> (0xE000 \<le> c \<and> c < 0x110000)"

text \<open>\<open>char::encode_utf8\<close>.\<close>

definition encode_utf8 :: "nat \<Rightarrow> bytes" where
  "encode_utf8 c =
     (if c < 0x80 then [of_nat c]
      else if c < 0x800 then [of_nat (0xC0 + c div 64), of_nat (0x80 + c mod 64)]
      else if c < 0x10000 then
        [of_nat (0xE0 + c div 4096), of_nat (0x80 + c div 64 mod 64), of_nat (0x80 + c mod 64)]
      else
        [of_nat (0xF0 + c div 262144), of_nat (0x80 + c div 4096 mod 64),
         of_nat (0x80 + c div 64 mod 64), of_nat (0x80 + c mod 64)])"

text \<open>The code point of a valid character's bytes: \<open>s.chars().next()\<close>.\<close>

definition decode_char :: "bytes \<Rightarrow> nat" where
  "decode_char bs = (case map unat bs of
       [a] \<Rightarrow> a
     | [a, b] \<Rightarrow> (a - 0xC0) * 64 + (b - 0x80)
     | [a, b, c] \<Rightarrow> (a - 0xE0) * 4096 + (b - 0x80) * 64 + (c - 0x80)
     | [a, b, c, d] \<Rightarrow> (a - 0xF0) * 262144 + (b - 0x80) * 4096 + (c - 0x80) * 64 + (d - 0x80)
     | _ \<Rightarrow> 0)"

subsection \<open>Characters and their encodings\<close>

lemma is_cont_nat: "is_cont b \<longleftrightarrow> 0x80 \<le> unat b \<and> unat b < 0xC0"
  by (auto simp: is_cont_def word_le_nat_alt)

lemma second3_nat:
  "second3_ok b0 b1 \<longleftrightarrow> 0x80 \<le> unat b1 \<and> unat b1 < 0xC0 \<and>
     (unat b0 = 0xE0 \<longrightarrow> 0xA0 \<le> unat b1) \<and> (unat b0 = 0xED \<longrightarrow> unat b1 < 0xA0)"
  by (auto simp: second3_ok_def is_cont_def word_le_nat_alt word_unat_eq_iff)

lemma second4_nat:
  "second4_ok b0 b1 \<longleftrightarrow> 0x80 \<le> unat b1 \<and> unat b1 < 0xC0 \<and>
     (unat b0 = 0xF0 \<longrightarrow> 0x90 \<le> unat b1) \<and> (unat b0 = 0xF4 \<longrightarrow> unat b1 < 0x90)"
  by (auto simp: second4_ok_def is_cont_def word_le_nat_alt word_unat_eq_iff)

lemmas scan_nat = is_cont_nat second3_nat second4_nat word_le_nat_alt word_less_nat_alt

lemma utf8_scan_scalar:
  assumes "utf8_scan bs = Inr (length bs)"
  shows "is_scalar (decode_char bs)"
proof -
  have b: "length bs \<le> 4" "0 < length bs" using utf8_scan_Inr_bounds [OF assms] by auto
  then consider a where "bs = [a]" | a b where "bs = [a, b]" | a b c where "bs = [a, b, c]"
    | a b c d where "bs = [a, b, c, d]"
    by (cases bs; cases "tl bs"; cases "tl (tl bs)"; cases "tl (tl (tl bs))") auto
  then show ?thesis
  proof cases
    case 1
    then show ?thesis using assms
      by (auto simp: utf8_scan_def decode_char_def is_scalar_def scan_nat opt_ok_def get_at_def split: if_splits)
  next
    case (2 a b)
    then show ?thesis using assms
      by (auto simp: utf8_scan_def decode_char_def is_scalar_def scan_nat opt_ok_def get_at_def split: if_splits)
  next
    case (3 a b c)
    then have "unat a div 16 = 14" "0x80 \<le> unat b" "unat b < 0xC0" "0x80 \<le> unat c" "unat c < 0xC0"
      "unat a = 0xE0 \<longrightarrow> 0xA0 \<le> unat b" "unat a = 0xED \<longrightarrow> unat b < 0xA0"
      using assms by (auto simp: utf8_scan_def scan_nat opt_ok_def get_at_def split: if_splits)
    moreover have "is_scalar ((x - 0xE0) * 4096 + (y - 0x80) * 64 + (z - 0x80))"
      if "x div 16 = 14" "0x80 \<le> y" "y < 0xC0" "0x80 \<le> z" "z < 0xC0"
        "x = 0xED \<longrightarrow> y < 0xA0" for x y z :: nat
    proof -
      from that have "x < 0xED \<or> x = 0xED \<or> (0xEE \<le> x \<and> x < 0xF0)" "0xE0 \<le> x" by linarith+
      then show ?thesis using that unfolding is_scalar_def by (elim disjE) linarith+
    qed
    ultimately show ?thesis using 3 by (simp add: decode_char_def)
  next
    case (4 a b c d)
    then have "0xF0 \<le> unat a" "unat a \<le> 0xF4" "0x80 \<le> unat b" "unat b < 0xC0" "0x80 \<le> unat c" "unat c < 0xC0"
      "0x80 \<le> unat d" "unat d < 0xC0" "unat a = 0xF0 \<longrightarrow> 0x90 \<le> unat b" "unat a = 0xF4 \<longrightarrow> unat b < 0x90"
      using assms by (auto simp: utf8_scan_def scan_nat opt_ok_def get_at_def split: if_splits)
    moreover have "is_scalar ((x - 0xF0) * 262144 + (y - 0x80) * 4096 + (z - 0x80) * 64 + (w - 0x80))"
      if "0xF0 \<le> x" "x \<le> 0xF4" "0x80 \<le> y" "y < 0xC0" "0x80 \<le> z" "z < 0xC0" "0x80 \<le> w" "w < 0xC0"
        "x = 0xF0 \<longrightarrow> 0x90 \<le> y" "x = 0xF4 \<longrightarrow> y < 0x90" for x y z w :: nat
    proof -
      from that have "x = 0xF0 \<or> (0xF0 < x \<and> x < 0xF4) \<or> x = 0xF4" by linarith
      then show ?thesis using that unfolding is_scalar_def by (elim disjE) linarith+
    qed
    ultimately show ?thesis using 4 by (simp add: decode_char_def)
  qed
qed

lemma scalar_cases:
  assumes "is_scalar c"
  obtains "c < 0x80" | "0x80 \<le> c" "c < 0x800" | "0x800 \<le> c" "c < 0x10000" "c < 0xD800 \<or> 0xE000 \<le> c"
    | "0x10000 \<le> c" "c < 0x110000"
proof -
  have "c < 0x80 \<or> (0x80 \<le> c \<and> c < 0x800) \<or> (0x800 \<le> c \<and> c < 0x10000 \<and> (c < 0xD800 \<or> 0xE000 \<le> c))
    \<or> (0x10000 \<le> c \<and> c < 0x110000)"
    using assms unfolding is_scalar_def by linarith
  then show thesis using that by blast
qed

text \<open>The digits of a code point in base 64.\<close>

lemma base64_digits3:
  assumes "c < 0x10000"
  obtains x y z :: nat where "c = x * 4096 + y * 64 + z" "x < 16" "y < 64" "z < 64"
    "c div 4096 = x" "c div 64 mod 64 = y" "c mod 64 = z"
proof
  have q: "c div 4096 = c div 64 div 64" by (simp add: div_mult2_eq [symmetric])
  have "c = c div 64 * 64 + c mod 64" "c div 64 = c div 64 div 64 * 64 + c div 64 mod 64" by simp_all
  then show "c = c div 4096 * 4096 + c div 64 mod 64 * 64 + c mod 64" unfolding q by linarith
qed (use assms in auto)

lemma base64_digits4:
  assumes "c < 0x110000"
  obtains w x y z :: nat where "c = w * 262144 + x * 4096 + y * 64 + z" "w < 5" "x < 64" "y < 64" "z < 64"
    "c div 262144 = w" "c div 4096 mod 64 = x" "c div 64 mod 64 = y" "c mod 64 = z"
proof
  have q: "c div 262144 = c div 64 div 64 div 64" "c div 4096 = c div 64 div 64"
    by (simp_all add: div_mult2_eq [symmetric])
  have "c = c div 64 * 64 + c mod 64" "c div 64 = c div 64 div 64 * 64 + c div 64 mod 64"
    "c div 64 div 64 = c div 64 div 64 div 64 * 64 + c div 64 div 64 mod 64" by simp_all
  then show "c = c div 262144 * 262144 + c div 4096 mod 64 * 4096 + c div 64 mod 64 * 64 + c mod 64"
    unfolding q by linarith
qed (use assms in auto)

lemma scan1I: "unat a < 128 \<Longrightarrow> utf8_scan [a] = Inr 1"
  by (simp add: utf8_scan_def scan_nat)

lemma scan2I:
  "0xC2 \<le> unat a \<Longrightarrow> unat a \<le> 0xDF \<Longrightarrow> 0x80 \<le> unat b \<Longrightarrow> unat b < 0xC0 \<Longrightarrow> utf8_scan [a, b] = Inr 2"
  by (simp add: utf8_scan_def scan_nat opt_ok_def)

lemma scan3I:
  assumes "0xE0 \<le> unat a" "unat a \<le> 0xEF" "second3_ok a b" "is_cont c"
  shows "utf8_scan [a, b, c] = Inr 3"
  using assms by (simp add: utf8_scan_def word_le_nat_alt word_less_nat_alt opt_ok_def get_at_def)

lemma scan4I:
  assumes "0xF0 \<le> unat a" "unat a \<le> 0xF4" "second4_ok a b" "is_cont c" "is_cont d"
  shows "utf8_scan [a, b, c, d] = Inr 4"
  using assms by (simp add: utf8_scan_def word_le_nat_alt word_less_nat_alt opt_ok_def get_at_def)

lemma unat_byte: "n < 256 \<Longrightarrow> unat (of_nat n :: u8) = n"
  by simp

lemma encode_utf8_scan:
  assumes "is_scalar c"
  shows "utf8_scan (encode_utf8 c) = Inr (length (encode_utf8 c))"
  using assms
proof (cases rule: scalar_cases)
  case 1
  then show ?thesis by (simp add: encode_utf8_def scan1I [simplified])
next
  case 2
  then have "2 \<le> c div 64" "c div 64 < 32" by simp_all
  with 2 have "utf8_scan (encode_utf8 c) = Inr 2"
    by (simp add: encode_utf8_def scan2I unat_byte del: of_nat_add)
  with 2 show ?thesis by (simp add: encode_utf8_def)
next
  case 3
  obtain x y z where d: "c = x * 4096 + y * 64 + z" "x < 16" "y < 64" "z < 64"
    "c div 4096 = x" "c div 64 mod 64 = y" "c mod 64 = z" using base64_digits3 3 by blast
  have "x = 0 \<longrightarrow> 32 \<le> y" "x = 13 \<longrightarrow> y < 32" using d(1-4) 3 by linarith+
  with d(2-4) have "utf8_scan [of_nat (0xE0 + x), of_nat (0x80 + y), of_nat (0x80 + z)] = Inr 3"
    by (intro scan3I) (simp_all only: is_cont_nat second3_nat unat_byte, simp_all)
  with 3 d(5-) show ?thesis by (simp add: encode_utf8_def del: of_nat_add)
next
  case 4
  obtain w x y z where d: "c = w * 262144 + x * 4096 + y * 64 + z" "w < 5" "x < 64" "y < 64" "z < 64"
    "c div 262144 = w" "c div 4096 mod 64 = x" "c div 64 mod 64 = y" "c mod 64 = z"
    using base64_digits4 4 by blast
  have "w = 0 \<longrightarrow> 16 \<le> x" "w = 4 \<longrightarrow> x < 16" using d(1-5) 4 by linarith+
  with d(2-5) have "utf8_scan [of_nat (0xF0 + w), of_nat (0x80 + x), of_nat (0x80 + y), of_nat (0x80 + z)] = Inr 4"
    by (intro scan4I) (simp_all only: is_cont_nat second4_nat unat_byte, simp_all)
  with 4 d(6-) show ?thesis by (simp add: encode_utf8_def del: of_nat_add)
qed

lemma encode_decode_char:
  assumes "is_scalar c"
  shows "decode_char (encode_utf8 c) = c"
  using assms
proof (cases rule: scalar_cases)
  case 1
  then show ?thesis by (simp add: encode_utf8_def decode_char_def del: of_nat_add)
next
  case 2
  then show ?thesis by (simp add: encode_utf8_def decode_char_def del: of_nat_add)
next
  case 3
  obtain x y z where d: "c = x * 4096 + y * 64 + z" "x < 16" "y < 64" "z < 64"
    "c div 4096 = x" "c div 64 mod 64 = y" "c mod 64 = z" using base64_digits3 3 by blast
  have "decode_char (encode_utf8 c) = x * 4096 + y * 64 + z"
    using 3 d(2-) by (simp add: encode_utf8_def decode_char_def del: of_nat_add)
  then show ?thesis using d(1) by simp
next
  case 4
  obtain w x y z where d: "c = w * 262144 + x * 4096 + y * 64 + z" "w < 5" "x < 64" "y < 64" "z < 64"
    "c div 262144 = w" "c div 4096 mod 64 = x" "c div 64 mod 64 = y" "c mod 64 = z"
    using base64_digits4 4 by blast
  have "decode_char (encode_utf8 c) = w * 262144 + x * 4096 + y * 64 + z"
    using 4 d(2-) by (simp add: encode_utf8_def decode_char_def del: of_nat_add)
  then show ?thesis using d(1) by simp
qed

lemma encode_utf8_valid: "is_scalar c \<Longrightarrow> utf8_valid (encode_utf8 c)"
  by (simp add: utf8_valid_step [OF encode_utf8_scan])

end
