(* ===== verification/VtParser.thy ===== *)
theory VtParser
  imports Utf8
begin

text \<open>
  \<open>crates/posh-term/src/parser.rs\<close>: the VT500 escape-sequence parser. \<open>parser\<close> is the
  struct's state, one definition per method; a method that pushes onto \<open>out\<close> returns the actions
  it pushed beside the new state. The eight-bit counters of the UTF-8 accumulator are naturals (they
  never exceed four), \<open>cur_val\<close> keeps its 32-bit width. \<open>advance_all\<close> feeds a byte string.
\<close>

section \<open>Actions and state\<close>

definition MAX_PARAMS :: nat where "MAX_PARAMS = 32"
definition MAX_SUBPARAMS :: nat where "MAX_SUBPARAMS = 16"
definition MAX_INTERMEDIATES :: nat where "MAX_INTERMEDIATES = 2"
definition MAX_OSC :: nat where "MAX_OSC = 4 * 1024 * 1024"
definition MAX_DCS :: nat where "MAX_DCS = 64 * 1024"
definition MAX_APC :: nat where "MAX_APC = 96 * 1024 * 1024"

text \<open>A \<open>char\<close> is its code point. \<open>Csi params intermediates private final_byte\<close>.\<close>

datatype action =
    Print nat
  | Execute u8
  | Csi "u16 list list" bytes u8 u8
  | Esc bytes u8
  | Osc bytes bool
  | Dcs "u16 list list" bytes u8 bytes
  | Apc bytes

datatype vt_state =
    Ground | Escape | EscapeIntermediate | CsiEntry | CsiParam | CsiIntermediate | CsiIgnore
  | OscString | DcsEntry | DcsParam | DcsIntermediate | DcsPassthrough | DcsIgnore
  | SosPmString | ApcString

record parser =
  state :: vt_state
  utf8 :: bytes
  utf8_len :: nat
  utf8_need :: nat
  params :: "u16 list list"
  cur_parts :: "u16 list"
  cur_val :: u32
  part_seen :: bool
  intermediates :: bytes
  private_marker :: u8
  dcs_final :: u8
  string_buf :: bytes
  string_overflow :: bool

type_synonym step = "parser \<times> action list"

definition parser_new :: parser where
  "parser_new = \<lparr>state = Ground, utf8 = [0, 0, 0, 0], utf8_len = 0, utf8_need = 0, params = [],
     cur_parts = [], cur_val = 0, part_seen = False, intermediates = [], private_marker = 0,
     dcs_final = 0, string_buf = [], string_overflow = False\<rparr>"

definition mid_escape :: "parser \<Rightarrow> bool" where
  "mid_escape p \<longleftrightarrow> state p \<in> {Escape, EscapeIntermediate, CsiEntry, CsiParam, CsiIntermediate}"

definition clear :: "parser \<Rightarrow> parser" where
  "clear p = p\<lparr>params := [], cur_parts := [], cur_val := 0, part_seen := False,
     intermediates := [], private_marker := 0\<rparr>"

definition start_string :: "vt_state \<Rightarrow> parser \<Rightarrow> parser" where
  "start_string st p = p\<lparr>string_buf := [], string_overflow := False, state := st\<rparr>"

definition utf8_reset :: "parser \<Rightarrow> parser" where
  "utf8_reset p = p\<lparr>utf8_len := 0, utf8_need := 0\<rparr>"

definition goto :: "vt_state \<Rightarrow> parser \<Rightarrow> parser" where
  "goto st p = p\<lparr>state := st\<rparr>"

text \<open>A byte pattern \<open>lo..=hi\<close>, and the C0 controls the escape states execute.\<close>

definition within :: "u8 \<Rightarrow> u8 \<Rightarrow> u8 \<Rightarrow> bool" where
  "within lo hi b \<longleftrightarrow> lo \<le> b \<and> b \<le> hi"

definition c0_executed :: "u8 \<Rightarrow> bool" where
  "c0_executed b \<longleftrightarrow> within 0x00 0x17 b \<or> b = 0x19 \<or> within 0x1C 0x1F b"

section \<open>C1 controls\<close>

definition c1 :: "parser \<Rightarrow> u8 \<Rightarrow> step" where
  "c1 p b =
     (if b = 0x90 then (goto DcsEntry (clear p), [])
      else if b = 0x98 \<or> b = 0x9E then (start_string SosPmString p, [])
      else if b = 0x9B then (goto CsiEntry (clear p), [])
      else if b = 0x9C then (goto Ground p, [])
      else if b = 0x9D then (start_string OscString p, [])
      else if b = 0x9F then (start_string ApcString p, [])
      else (p, [Execute b]))"

text \<open>\<open>anywhere\<close> returns \<open>None\<close> where the method returns false.\<close>

definition anywhere :: "parser \<Rightarrow> u8 \<Rightarrow> step option" where
  "anywhere p b =
     (if b = 0x1B then Some (goto Escape p, [])
      else if b = 0x18 \<or> b = 0x1A then Some (goto Ground p, [Execute b])
      else if within 0x80 0x9F b then Some (c1 (goto Ground p) b)
      else None)"

definition or_anywhere :: "parser \<Rightarrow> u8 \<Rightarrow> step \<Rightarrow> step" where
  "or_anywhere p b k = (case anywhere p b of Some r \<Rightarrow> r | None \<Rightarrow> k)"

section \<open>Ground state and UTF-8\<close>

definition REPLACEMENT :: nat where "REPLACEMENT = 0xFFFD"

text \<open>\<open>ground\<close> with no character pending: the method's final \<open>match\<close>.\<close>

definition ground_fresh :: "parser \<Rightarrow> u8 \<Rightarrow> step" where
  "ground_fresh p b =
     (if b = 0x1B then (goto Escape p, [])
      else if within 0x00 0x1F b then (p, [Execute b])
      else if within 0x20 0x7E b then (p, [Print (unat b)])
      else if b = 0x7F then (p, [])
      else if within 0x80 0x9F b then c1 p b
      else if within 0xA0 0xBF b then (p, [Print REPLACEMENT])
      else if within 0xC2 0xDF b then (p\<lparr>utf8 := (utf8 p)[0 := b], utf8_len := 1, utf8_need := 1\<rparr>, [])
      else if within 0xE0 0xEF b then (p\<lparr>utf8 := (utf8 p)[0 := b], utf8_len := 1, utf8_need := 2\<rparr>, [])
      else if within 0xF0 0xF4 b then (p\<lparr>utf8 := (utf8 p)[0 := b], utf8_len := 1, utf8_need := 3\<rparr>, [])
      else (p, [Print REPLACEMENT]))"

definition ground :: "parser \<Rightarrow> u8 \<Rightarrow> step" where
  "ground p b =
     (if utf8_need p > 0 then
        (if within 0x80 0xBF b then
           (let p = p\<lparr>utf8 := (utf8 p)[utf8_len p := b], utf8_len := utf8_len p + 1,
                      utf8_need := utf8_need p - 1\<rparr>
            in if utf8_need p = 0 then
                 (let s = take (utf8_len p) (utf8 p)
                  in (utf8_reset p, [Print (if utf8_valid s then decode_char s else REPLACEMENT)]))
               else (p, []))
         else
           (case ground_fresh (utf8_reset p) b of (p', out) \<Rightarrow> (p', Print REPLACEMENT # out)))
      else ground_fresh p b)"

section \<open>Escape sequences\<close>

definition push_intermediate :: "u8 \<Rightarrow> parser \<Rightarrow> parser" where
  "push_intermediate b p = p\<lparr>intermediates := intermediates p @ [b]\<rparr>"

text \<open>The guarded push: the byte is dropped once \<open>MAX_INTERMEDIATES\<close> are held.\<close>

definition push_intermediate_capped :: "u8 \<Rightarrow> parser \<Rightarrow> parser" where
  "push_intermediate_capped b p =
     (if length (intermediates p) < MAX_INTERMEDIATES then push_intermediate b p else p)"

definition escape :: "parser \<Rightarrow> u8 \<Rightarrow> step" where
  "escape p b = or_anywhere p b
     (if c0_executed b then (p, [Execute b])
      else if within 0x20 0x2F b then (goto EscapeIntermediate (push_intermediate b (clear p)), [])
      else if b = 0x5B then (goto CsiEntry (clear p), [])
      else if b = 0x5D then (start_string OscString p, [])
      else if b = 0x50 then (goto DcsEntry (clear p), [])
      else if b = 0x5F then (start_string ApcString p, [])
      else if b = 0x58 \<or> b = 0x5E then (start_string SosPmString p, [])
      else if within 0x30 0x7E b then (goto Ground p, [Esc [] b])
      else (p, []))"

definition escape_intermediate :: "parser \<Rightarrow> u8 \<Rightarrow> step" where
  "escape_intermediate p b = or_anywhere p b
     (if c0_executed b then (p, [Execute b])
      else if within 0x20 0x2F b \<and> length (intermediates p) < MAX_INTERMEDIATES
        then (push_intermediate b p, [])
      else if within 0x30 0x7E b
        then (goto Ground (p\<lparr>intermediates := []\<rparr>), [Esc (intermediates p) b])
      else (p, []))"

section \<open>Control sequences\<close>

definition param_digit :: "u8 \<Rightarrow> parser \<Rightarrow> parser" where
  "param_digit b p =
     p\<lparr>cur_val := min (cur_val p * 10 + ucast (b - 0x30)) 65535, part_seen := True\<rparr>"

definition param_colon :: "parser \<Rightarrow> parser" where
  "param_colon p =
     p\<lparr>cur_parts := (if length (cur_parts p) < MAX_SUBPARAMS then cur_parts p @ [ucast (cur_val p)]
                     else cur_parts p),
       cur_val := 0, part_seen := True\<rparr>"

definition param_semicolon :: "parser \<Rightarrow> parser" where
  "param_semicolon p =
     p\<lparr>params := (if length (params p) < MAX_PARAMS then params p @ [cur_parts p @ [ucast (cur_val p)]]
                  else params p),
       cur_parts := [], cur_val := 0, part_seen := True\<rparr>"

text \<open>The parameters \<open>take_params\<close> returns, and the parser it leaves.\<close>

definition taken_params :: "parser \<Rightarrow> u16 list list" where
  "taken_params p =
     (if (part_seen p \<or> cur_parts p \<noteq> []) \<and> length (params p) < MAX_PARAMS
      then params p @ [cur_parts p @ [ucast (cur_val p)]] else params p)"

definition take_params :: "parser \<Rightarrow> parser \<times> u16 list list" where
  "take_params p =
     (p\<lparr>params := [], cur_parts := [], cur_val := 0, part_seen := False\<rparr>, taken_params p)"

definition csi_dispatch :: "parser \<Rightarrow> u8 \<Rightarrow> step" where
  "csi_dispatch p b = (case take_params p of (p', ps) \<Rightarrow>
     (goto Ground (p'\<lparr>intermediates := []\<rparr>), [Csi ps (intermediates p') (private_marker p') b]))"

definition csi_entry :: "parser \<Rightarrow> u8 \<Rightarrow> step" where
  "csi_entry p b = or_anywhere p b
     (if c0_executed b then (p, [Execute b])
      else if within 0x20 0x2F b then (goto CsiIntermediate (push_intermediate b p), [])
      else if within 0x30 0x39 b then (goto CsiParam (param_digit b p), [])
      else if b = 0x3A then (goto CsiParam (param_colon p), [])
      else if b = 0x3B then (goto CsiParam (param_semicolon p), [])
      else if within 0x3C 0x3F b then (goto CsiParam (p\<lparr>private_marker := b\<rparr>), [])
      else if within 0x40 0x7E b then csi_dispatch p b
      else (p, []))"

definition csi_param :: "parser \<Rightarrow> u8 \<Rightarrow> step" where
  "csi_param p b = or_anywhere p b
     (if c0_executed b then (p, [Execute b])
      else if within 0x30 0x39 b then (param_digit b p, [])
      else if b = 0x3A then (param_colon p, [])
      else if b = 0x3B then (param_semicolon p, [])
      else if within 0x3C 0x3F b then (goto CsiIgnore p, [])
      else if within 0x20 0x2F b then (goto CsiIntermediate (push_intermediate_capped b p), [])
      else if within 0x40 0x7E b then csi_dispatch p b
      else (p, []))"

definition csi_intermediate :: "parser \<Rightarrow> u8 \<Rightarrow> step" where
  "csi_intermediate p b = or_anywhere p b
     (if c0_executed b then (p, [Execute b])
      else if within 0x20 0x2F b \<and> length (intermediates p) < MAX_INTERMEDIATES
        then (push_intermediate b p, [])
      else if within 0x30 0x3F b then (goto CsiIgnore p, [])
      else if within 0x40 0x7E b then csi_dispatch p b
      else (p, []))"

definition csi_ignore :: "parser \<Rightarrow> u8 \<Rightarrow> step" where
  "csi_ignore p b = or_anywhere p b
     (if c0_executed b then (p, [Execute b])
      else if within 0x40 0x7E b then (goto Ground (clear p), [])
      else (p, []))"

section \<open>Operating-system commands, APC, SOS and PM strings\<close>

definition push_string_byte :: "u8 \<Rightarrow> nat \<Rightarrow> parser \<Rightarrow> parser" where
  "push_string_byte b cap p =
     (if length (string_buf p) < cap then p\<lparr>string_buf := string_buf p @ [b]\<rparr>
      else p\<lparr>string_overflow := True\<rparr>)"

definition finish_osc :: "bool \<Rightarrow> parser \<Rightarrow> step" where
  "finish_osc bel p =
     (p\<lparr>string_buf := [], string_overflow := False, state := Ground\<rparr>,
      if string_overflow p then [] else [Osc (string_buf p) bel])"

definition osc_string :: "parser \<Rightarrow> u8 \<Rightarrow> step" where
  "osc_string p b =
     (if b = 0x07 then finish_osc True p
      else if b = 0x1B then (case finish_osc False p of (p', out) \<Rightarrow> (goto Escape p', out))
      else if b = 0x18 \<or> b = 0x1A then (goto Ground p, [])
      else if within 0x00 0x06 b \<or> within 0x08 0x17 b \<or> b = 0x19 \<or> within 0x1C 0x1F b then (p, [])
      else (push_string_byte b MAX_OSC p, []))"

definition apc_string :: "parser \<Rightarrow> u8 \<Rightarrow> step" where
  "apc_string p b =
     (if b = 0x1B then
        (p\<lparr>string_buf := [], string_overflow := False, state := Escape\<rparr>,
         if string_overflow p then [] else [Apc (string_buf p)])
      else if b = 0x18 \<or> b = 0x1A then (goto Ground p, [])
      else (push_string_byte b MAX_APC p, []))"

definition sos_pm :: "parser \<Rightarrow> u8 \<Rightarrow> step" where
  "sos_pm p b =
     (if b = 0x1B then (goto Escape p, [])
      else if b = 0x18 \<or> b = 0x1A \<or> b = 0x9C then (goto Ground p, [])
      else (p, []))"

section \<open>Device control strings\<close>

definition dcs_hook :: "u8 \<Rightarrow> parser \<Rightarrow> parser" where
  "dcs_hook b p = p\<lparr>dcs_final := b, string_buf := [], string_overflow := False, state := DcsPassthrough\<rparr>"

definition dcs_entry :: "parser \<Rightarrow> u8 \<Rightarrow> step" where
  "dcs_entry p b = or_anywhere p b
     (if within 0x30 0x39 b then (goto DcsParam (param_digit b p), [])
      else if b = 0x3A \<or> b = 0x3B then
        (goto DcsParam (if b = 0x3A then param_colon p else param_semicolon p), [])
      else if within 0x3C 0x3F b then (goto DcsParam (p\<lparr>private_marker := b\<rparr>), [])
      else if within 0x20 0x2F b then (goto DcsIntermediate (push_intermediate b p), [])
      else if within 0x40 0x7E b then (dcs_hook b p, [])
      else (p, []))"

definition dcs_param :: "parser \<Rightarrow> u8 \<Rightarrow> step" where
  "dcs_param p b = or_anywhere p b
     (if within 0x30 0x39 b then (param_digit b p, [])
      else if b = 0x3A then (param_colon p, [])
      else if b = 0x3B then (param_semicolon p, [])
      else if within 0x3C 0x3F b then (goto DcsIgnore p, [])
      else if within 0x20 0x2F b then (goto DcsIntermediate (push_intermediate_capped b p), [])
      else if within 0x40 0x7E b then (dcs_hook b p, [])
      else (p, []))"

definition dcs_intermediate :: "parser \<Rightarrow> u8 \<Rightarrow> step" where
  "dcs_intermediate p b = or_anywhere p b
     (if within 0x20 0x2F b \<and> length (intermediates p) < MAX_INTERMEDIATES
        then (push_intermediate b p, [])
      else if within 0x30 0x3F b then (goto DcsIgnore p, [])
      else if within 0x40 0x7E b then (dcs_hook b p, [])
      else (p, []))"

definition dcs_unhook :: "parser \<Rightarrow> step" where
  "dcs_unhook p =
     (if string_overflow p then (clear (p\<lparr>string_buf := [], string_overflow := False\<rparr>), [])
      else (case take_params (p\<lparr>string_buf := []\<rparr>) of (p', ps) \<Rightarrow>
        (clear (p'\<lparr>intermediates := [], string_overflow := False\<rparr>),
         [Dcs ps (intermediates p') (dcs_final p') (string_buf p)])))"

definition dcs_passthrough :: "parser \<Rightarrow> u8 \<Rightarrow> step" where
  "dcs_passthrough p b =
     (if b = 0x1B then (case dcs_unhook p of (p', out) \<Rightarrow> (goto Escape p', out))
      else if b = 0x9C then (case dcs_unhook p of (p', out) \<Rightarrow> (goto Ground p', out))
      else if b = 0x18 \<or> b = 0x1A then (goto Ground ((clear p)\<lparr>string_buf := []\<rparr>), [])
      else (push_string_byte b MAX_DCS p, []))"

definition dcs_ignore :: "parser \<Rightarrow> u8 \<Rightarrow> parser" where
  "dcs_ignore p b =
     (if b = 0x1B then goto Escape p
      else if b = 0x18 \<or> b = 0x1A \<or> b = 0x9C then goto Ground p
      else p)"

section \<open>The dispatcher\<close>

definition advance :: "parser \<Rightarrow> u8 \<Rightarrow> step" where
  "advance p b = (case state p of
       Ground \<Rightarrow> ground p b
     | Escape \<Rightarrow> escape p b
     | EscapeIntermediate \<Rightarrow> escape_intermediate p b
     | CsiEntry \<Rightarrow> csi_entry p b
     | CsiParam \<Rightarrow> csi_param p b
     | CsiIntermediate \<Rightarrow> csi_intermediate p b
     | CsiIgnore \<Rightarrow> csi_ignore p b
     | OscString \<Rightarrow> osc_string p b
     | DcsEntry \<Rightarrow> dcs_entry p b
     | DcsParam \<Rightarrow> dcs_param p b
     | DcsIntermediate \<Rightarrow> dcs_intermediate p b
     | DcsPassthrough \<Rightarrow> dcs_passthrough p b
     | DcsIgnore \<Rightarrow> (dcs_ignore p b, [])
     | SosPmString \<Rightarrow> sos_pm p b
     | ApcString \<Rightarrow> apc_string p b)"

fun advance_all :: "parser \<Rightarrow> bytes \<Rightarrow> step" where
  "advance_all p [] = (p, [])"
| "advance_all p (b # bs) =
     (case advance p b of (p', out) \<Rightarrow> case advance_all p' bs of (p'', out') \<Rightarrow> (p'', out @ out'))"

text \<open>\<open>param\<close> and \<open>param_or\<close>: the dispatchers' view of one parameter.\<close>

definition param :: "u16 list list \<Rightarrow> nat \<Rightarrow> u16 \<Rightarrow> u16" where
  "param ps i d = (case get_at ps i of Some (v # _) \<Rightarrow> v | _ \<Rightarrow> d)"

definition param_or :: "u16 list list \<Rightarrow> nat \<Rightarrow> u16 \<Rightarrow> u16" where
  "param_or ps i d = (let v = param ps i 0 in if v = 0 then d else v)"

end
