(* ===== verification/VtParserFacts.thy ===== *)
theory VtParserFacts
  imports VtParser
begin

text \<open>
  What the escape-sequence parser guarantees: the bounds of its state and of every action it emits
  (no index of the UTF-8 accumulator is ever out of range), that text and control sequences are
  parsed back to what was printed, that only the states of \<open>mid_escape\<close> dispatch a sequence, and
  that a cancel byte puts the parser in a state no later output can tell from a new one.
\<close>

section \<open>The state invariant\<close>

text \<open>The length of the character a lead byte announces.\<close>

definition lead_len :: "u8 \<Rightarrow> nat" where
  "lead_len b = (if within 0xC2 0xDF b then 2 else if within 0xE0 0xEF b then 3
     else if within 0xF0 0xF4 b then 4 else 0)"

definition utf8_ok :: "parser \<Rightarrow> bool" where
  "utf8_ok p \<longleftrightarrow> length (utf8 p) = 4 \<and> (0 < utf8_need p \<longrightarrow> state p = Ground \<and> 0 < utf8_len p \<and>
     lead_len (utf8 p ! 0) = utf8_len p + utf8_need p)"

text \<open>A semicolon does not check the subparameter cap, so a parameter has up to 17 parts.\<close>

definition params_bounded :: "u16 list list \<Rightarrow> bool" where
  "params_bounded ps \<longleftrightarrow> length ps \<le> MAX_PARAMS \<and>
     (\<forall>q \<in> set ps. 0 < length q \<and> length q \<le> MAX_SUBPARAMS + 1)"

definition string_cap :: "vt_state \<Rightarrow> nat" where
  "string_cap st = (if st = OscString then MAX_OSC else if st = DcsPassthrough then MAX_DCS else MAX_APC)"

definition parser_ok :: "parser \<Rightarrow> bool" where
  "parser_ok p \<longleftrightarrow> utf8_ok p \<and> params_bounded (params p) \<and> length (cur_parts p) \<le> MAX_SUBPARAMS \<and>
     cur_val p \<le> 65535 \<and> length (intermediates p) \<le> MAX_INTERMEDIATES \<and>
     (state p = CsiEntry \<or> state p = DcsEntry \<longrightarrow> intermediates p = []) \<and>
     length (string_buf p) \<le> string_cap (state p)"

fun action_ok :: "action \<Rightarrow> bool" where
  "action_ok (Print c) = is_scalar c"
| "action_ok (Execute b) = (b < 0x20 \<or> within 0x80 0x9F b)"
| "action_ok (Csi ps im pr b) =
     (params_bounded ps \<and> length im \<le> MAX_INTERMEDIATES \<and> within 0x40 0x7E b)"
| "action_ok (Esc im b) = (length im \<le> MAX_INTERMEDIATES \<and> within 0x30 0x7E b)"
| "action_ok (Osc d _) = (length d \<le> MAX_OSC)"
| "action_ok (Dcs ps im b d) =
     (params_bounded ps \<and> length im \<le> MAX_INTERMEDIATES \<and> length d \<le> MAX_DCS)"
| "action_ok (Apc d) = (length d \<le> MAX_APC)"

definition step_ok :: "step \<Rightarrow> bool" where
  "step_ok r \<longleftrightarrow> parser_ok (fst r) \<and> list_all action_ok (snd r)"

lemma parser_new_ok: "parser_ok parser_new"
  by (simp add: parser_ok_def parser_new_def utf8_ok_def params_bounded_def)

text \<open>The helpers keep the invariant; \<open>quiet\<close> is a parser with no character pending.\<close>

definition quiet :: "parser \<Rightarrow> bool" where
  "quiet p \<longleftrightarrow> parser_ok p \<and> utf8_need p = 0"

lemmas helper_defs = goto_def clear_def start_string_def push_intermediate_def
  push_intermediate_capped_def param_digit_def param_colon_def param_semicolon_def
  push_string_byte_def dcs_hook_def utf8_reset_def

lemmas ok_defs = quiet_def parser_ok_def utf8_ok_def params_bounded_def string_cap_def
  MAX_PARAMS_def MAX_SUBPARAMS_def MAX_INTERMEDIATES_def MAX_OSC_def MAX_DCS_def MAX_APC_def

lemma within_nat: "within lo hi b \<longleftrightarrow> unat lo \<le> unat b \<and> unat b \<le> unat hi"
  by (simp add: within_def word_le_nat_alt)

lemma quiet_goto:
  "quiet p \<Longrightarrow> st \<notin> {CsiEntry, DcsEntry, OscString, DcsPassthrough} \<Longrightarrow> quiet (goto st p)"
  by (auto simp: goto_def ok_defs split: if_splits)

lemma clear_intermediates: "intermediates (clear p) = []"
  by (simp add: clear_def)

lemma quiet_clear: "quiet p \<Longrightarrow> quiet (clear p)"
  by (auto simp: clear_def ok_defs)

lemma quiet_goto_clear:
  "quiet p \<Longrightarrow> st \<notin> {OscString, DcsPassthrough} \<Longrightarrow> quiet (goto st (clear p))"
  by (auto simp: goto_def clear_def ok_defs split: if_splits)

lemma quiet_start_string:
  "quiet p \<Longrightarrow> st \<notin> {CsiEntry, DcsEntry} \<Longrightarrow> quiet (start_string st p)"
  by (auto simp: start_string_def ok_defs)

lemma quiet_params:
  "quiet p \<Longrightarrow> quiet (param_digit b p)"
  "quiet p \<Longrightarrow> quiet (param_colon p)"
  "quiet p \<Longrightarrow> quiet (param_semicolon p)"
  by (auto simp: param_digit_def param_colon_def param_semicolon_def ok_defs)

lemma quiet_push_intermediate:
  "quiet p \<Longrightarrow> st \<in> {EscapeIntermediate, CsiIntermediate, DcsIntermediate} \<Longrightarrow> intermediates p = [] \<Longrightarrow>
     quiet (goto st (push_intermediate b p))"
  "quiet p \<Longrightarrow> st \<in> {EscapeIntermediate, CsiIntermediate, DcsIntermediate} \<Longrightarrow>
     quiet (goto st (push_intermediate_capped b p))"
  "quiet p \<Longrightarrow> state p \<notin> {CsiEntry, DcsEntry} \<Longrightarrow> length (intermediates p) < MAX_INTERMEDIATES \<Longrightarrow>
     quiet (push_intermediate b p)"
  by (auto simp: push_intermediate_def push_intermediate_capped_def goto_def ok_defs split: if_splits)

lemma quiet_fields:
  "quiet p \<Longrightarrow> quiet (p\<lparr>private_marker := b\<rparr>)"
  "quiet p \<Longrightarrow> quiet (dcs_hook b p)"
  "quiet p \<Longrightarrow> cap = string_cap (state p) \<Longrightarrow> quiet (push_string_byte b cap p)"
  "quiet p \<Longrightarrow> st \<notin> {CsiEntry, DcsEntry} \<Longrightarrow>
     quiet (p\<lparr>string_buf := [], string_overflow := False, state := st\<rparr>)"
  "quiet p \<Longrightarrow> quiet (p\<lparr>intermediates := []\<rparr>)"
  by (auto simp: dcs_hook_def push_string_byte_def ok_defs split: if_splits)

lemmas quiet_intros = quiet_goto quiet_goto_clear quiet_clear quiet_start_string quiet_params
  quiet_push_intermediate quiet_fields

lemma step_okI: "quiet p \<Longrightarrow> list_all action_ok out \<Longrightarrow> step_ok (p, out)"
  by (simp add: step_ok_def quiet_def)

lemma quiet_taken:
  "quiet p \<Longrightarrow> params_bounded (taken_params p)"
  "quiet p \<Longrightarrow> quiet (fst (take_params p))"
  "quiet p \<Longrightarrow> length (intermediates p) \<le> MAX_INTERMEDIATES"
  by (auto simp: taken_params_def take_params_def ok_defs)

lemma c0_executed_ok: "c0_executed b \<Longrightarrow> b < 0x20"
  by (auto simp: c0_executed_def within_nat word_less_nat_alt)

lemma c1_ok:
  assumes "quiet p" "state p = Ground" "within 0x80 0x9F b"
  shows "step_ok (c1 p b)"
  using assms by (auto simp: c1_def simp: step_okI quiet_intros)

lemma anywhere_ok:
  assumes "quiet p" "anywhere p b = Some r"
  shows "step_ok r"
proof -
  have "quiet (goto Ground p)" "state (goto Ground p) = Ground"
    using quiet_goto [OF assms(1), of Ground] by (simp_all add: goto_def)
  with c1_ok [OF this] assms show ?thesis
    by (auto simp: anywhere_def simp: step_okI quiet_intros split: if_splits)
qed

lemma or_anywhere_ok:
  assumes "quiet p" "step_ok k"
  shows "step_ok (or_anywhere p b k)"
  using assms anywhere_ok by (auto simp: or_anywhere_def split: option.splits)

lemma csi_dispatch_ok:
  assumes "quiet p" "within 0x40 0x7E b"
  shows "step_ok (csi_dispatch p b)"
proof -
  have "quiet (goto Ground ((fst (take_params p))\<lparr>intermediates := []\<rparr>))"
    by (intro quiet_intros quiet_taken assms) simp
  then show ?thesis using assms quiet_taken [OF assms(1)]
    by (auto simp: csi_dispatch_def take_params_def intro!: step_okI)
qed

section \<open>Every state keeps the invariant\<close>

lemma escape_ok:
  assumes "quiet p"
  shows "step_ok (escape p b)"
  unfolding escape_def
  by (rule or_anywhere_ok [OF assms])
    (auto simp: c0_executed_ok assms clear_intermediates step_okI quiet_intros)

lemma escape_intermediate_ok:
  assumes "quiet p" "state p = EscapeIntermediate"
  shows "step_ok (escape_intermediate p b)"
  unfolding escape_intermediate_def
  by (rule or_anywhere_ok [OF assms(1)])
    (auto simp: c0_executed_ok assms quiet_taken(3) simp: step_okI quiet_intros)

lemma csi_entry_ok:
  assumes "quiet p" "state p = CsiEntry"
  shows "step_ok (csi_entry p b)"
proof -
  have "intermediates p = []" using assms by (simp add: quiet_def parser_ok_def)
  then show ?thesis
    unfolding csi_entry_def
    by (intro or_anywhere_ok [OF assms(1)])
      (auto simp: c0_executed_ok assms simp: step_okI quiet_intros csi_dispatch_ok)
qed

lemma csi_param_ok:
  assumes "quiet p" "state p = CsiParam"
  shows "step_ok (csi_param p b)"
  unfolding csi_param_def
  by (rule or_anywhere_ok [OF assms(1)])
    (auto simp: c0_executed_ok assms simp: step_okI quiet_intros csi_dispatch_ok)

lemma csi_intermediate_ok:
  assumes "quiet p" "state p = CsiIntermediate"
  shows "step_ok (csi_intermediate p b)"
  unfolding csi_intermediate_def
  by (rule or_anywhere_ok [OF assms(1)])
    (auto simp: c0_executed_ok assms simp: step_okI quiet_intros csi_dispatch_ok)

lemma csi_ignore_ok:
  assumes "quiet p"
  shows "step_ok (csi_ignore p b)"
  unfolding csi_ignore_def
  by (rule or_anywhere_ok [OF assms])
    (auto simp: c0_executed_ok assms simp: step_okI quiet_intros)

lemma osc_string_ok:
  assumes "quiet p" "state p = OscString"
  shows "step_ok (osc_string p b)"
proof -
  have "length (string_buf p) \<le> MAX_OSC" using assms by (simp add: quiet_def parser_ok_def string_cap_def)
  moreover have "quiet (goto Escape (p\<lparr>string_buf := [], string_overflow := False, state := Ground\<rparr>))"
    by (intro quiet_intros assms) simp_all
  ultimately show ?thesis
    using assms unfolding osc_string_def finish_osc_def
    by (auto simp: string_cap_def simp: step_okI quiet_intros)
qed

lemma apc_string_ok:
  assumes "quiet p" "state p = ApcString"
  shows "step_ok (apc_string p b)"
proof -
  have "length (string_buf p) \<le> MAX_APC" using assms by (simp add: quiet_def parser_ok_def string_cap_def)
  then show ?thesis
    using assms unfolding apc_string_def
    by (auto simp: string_cap_def simp: step_okI quiet_intros)
qed

lemma sos_pm_ok:
  assumes "quiet p"
  shows "step_ok (sos_pm p b)"
  unfolding sos_pm_def using assms by (auto simp: step_okI quiet_intros)

lemma dcs_entry_ok:
  assumes "quiet p" "state p = DcsEntry"
  shows "step_ok (dcs_entry p b)"
proof -
  have "intermediates p = []" using assms by (simp add: quiet_def parser_ok_def)
  then show ?thesis
    unfolding dcs_entry_def
    by (intro or_anywhere_ok [OF assms(1)]) (auto simp: assms simp: step_okI quiet_intros)
qed

lemma dcs_param_ok:
  assumes "quiet p"
  shows "step_ok (dcs_param p b)"
  unfolding dcs_param_def
  by (rule or_anywhere_ok [OF assms(1)]) (auto simp: assms simp: step_okI quiet_intros)

lemma dcs_intermediate_ok:
  assumes "quiet p" "state p = DcsIntermediate"
  shows "step_ok (dcs_intermediate p b)"
  unfolding dcs_intermediate_def
  by (rule or_anywhere_ok [OF assms(1)]) (auto simp: assms simp: step_okI quiet_intros)

lemma dcs_unhook_ok:
  assumes "quiet p" "state p = DcsPassthrough"
  shows "quiet (fst (dcs_unhook p)) \<and> list_all action_ok (snd (dcs_unhook p))"
  using assms
  by (auto simp: dcs_unhook_def take_params_def taken_params_def clear_def ok_defs)

lemma dcs_passthrough_ok:
  assumes "quiet p" "state p = DcsPassthrough"
  shows "step_ok (dcs_passthrough p b)"
proof -
  obtain q out where u: "dcs_unhook p = (q, out)" by force
  have q: "quiet q" "list_all action_ok out" using dcs_unhook_ok [OF assms] u by simp_all
  have "goto Ground ((clear p)\<lparr>string_buf := []\<rparr>) = (goto Ground (clear p))\<lparr>string_buf := []\<rparr>"
    by (simp add: goto_def)
  moreover have "quiet ((goto Ground (clear p))\<lparr>string_buf := []\<rparr>)"
    using quiet_goto_clear [OF assms(1), of Ground] by (auto simp: ok_defs)
  ultimately show ?thesis
    unfolding dcs_passthrough_def u using assms q
    by (auto simp: string_cap_def simp: step_okI quiet_intros quiet_fields)
qed

lemma dcs_ignore_ok:
  assumes "quiet p"
  shows "step_ok (dcs_ignore p b, [])"
  using assms by (auto simp: dcs_ignore_def simp: step_okI quiet_intros)

section \<open>Ground\<close>

lemma lead_start_ok:
  assumes "quiet p" "state p = Ground" "lead_len b = Suc n" "0 < n"
  shows "step_ok (p\<lparr>utf8 := (utf8 p)[0 := b], utf8_len := 1, utf8_need := n\<rparr>, [])"
  using assms by (simp add: step_ok_def ok_defs)

lemma ground_fresh_ok:
  assumes "quiet p" "state p = Ground"
  shows "step_ok (ground_fresh p b)"
proof -
  have "step_ok (p\<lparr>utf8 := (utf8 p)[0 := b], utf8_len := 1, utf8_need := n\<rparr>, [])"
    if "lead_len b = Suc n" "0 < n" for n using lead_start_ok [OF assms that] .
  moreover have "lead_len b = 2" if "within 0xC2 0xDF b" using that by (simp add: lead_len_def)
  moreover have "lead_len b = 3" if "within 0xE0 0xEF b"
    using that by (simp add: lead_len_def within_nat)
  moreover have "lead_len b = 4" if "within 0xF0 0xF4 b"
    using that by (simp add: lead_len_def within_nat)
  moreover have "b < 0x20" if "within 0 0x1F b" using that by (simp add: within_nat word_less_nat_alt)
  moreover have "is_scalar (unat b)" if "within 0x20 0x7E b" using that by (simp add: within_nat is_scalar_def)
  moreover have "is_scalar REPLACEMENT" by (simp add: REPLACEMENT_def is_scalar_def)
  ultimately show ?thesis
    unfolding ground_fresh_def using assms
    by (auto simp: step_okI quiet_intros c1_ok)
qed

text \<open>A completed buffer that validates is one character.\<close>

lemma valid_one_char:
  assumes "utf8_valid s" "length s = lead_len (s ! 0)" "s \<noteq> []"
  shows "utf8_scan s = Inr (length s)"
proof -
  from assms(1,3) obtain n where n: "utf8_scan s = Inr n"
    by (subst (asm) utf8_valid.simps) (auto split: sum.splits)
  then show ?thesis using assms(2,3)
    by (cases s)
      (auto simp: utf8_scan_def lead_len_def within_nat word_less_nat_alt word_le_nat_alt split: if_splits)
qed

lemma ground_ok:
  assumes "parser_ok p" "state p = Ground"
  shows "step_ok (ground p b)"
proof (cases "0 < utf8_need p")
  case False
  with assms show ?thesis using ground_fresh_ok [of p b] by (simp add: ground_def quiet_def)
next
  case True
  have r: "quiet (utf8_reset p)" "state (utf8_reset p) = Ground"
    using assms by (auto simp: utf8_reset_def ok_defs)
  have fresh: "step_ok (ground_fresh (utf8_reset p) b)" by (rule ground_fresh_ok [OF r])
  have scalar: "is_scalar REPLACEMENT" by (simp add: REPLACEMENT_def is_scalar_def)
  show ?thesis
  proof (cases "within 0x80 0xBF b")
    case False
    with True fresh scalar show ?thesis
      by (cases "ground_fresh (utf8_reset p) b") (simp add: ground_def step_ok_def)
  next
    case cont: True
    define q where "q = p\<lparr>utf8 := (utf8 p)[utf8_len p := b], utf8_len := utf8_len p + 1,
      utf8_need := utf8_need p - 1\<rparr>"
    have len: "length (utf8 p) = 4" "0 < utf8_len p" "lead_len (utf8 p ! 0) = utf8_len p + utf8_need p"
      using assms True by (auto simp: ok_defs)
    have "lead_len c \<le> 4" for c by (simp add: lead_len_def)
    with len(3) have le: "utf8_len p + utf8_need p \<le> 4" by metis
    have okq: "parser_ok q"
      using assms True len le by (auto simp: q_def ok_defs)
    have g: "ground p b = (if utf8_need q = 0 then (utf8_reset q, [Print (if utf8_valid (take (utf8_len q) (utf8 q))
        then decode_char (take (utf8_len q) (utf8 q)) else REPLACEMENT)]) else (q, []))"
      unfolding ground_def Let_def q_def [symmetric] using True cont by simp
    show ?thesis
    proof (cases "utf8_need q = 0")
      case False
      with okq show ?thesis by (simp add: g step_ok_def)
    next
      case full: True
      define s where "s = take (utf8_len q) (utf8 q)"
      have "length s = lead_len (s ! 0)" "s \<noteq> []"
        using full len le True by (auto simp: s_def q_def)
      then have "is_scalar (if utf8_valid s then decode_char s else REPLACEMENT)"
        using utf8_scan_scalar [OF valid_one_char] scalar by auto
      moreover have "parser_ok (utf8_reset q)" using okq by (auto simp: utf8_reset_def ok_defs)
      ultimately show ?thesis
        using full by (simp add: g s_def [symmetric] step_ok_def split: if_split_asm)
    qed
  qed
qed

lemma advance_ok:
  assumes "parser_ok p"
  shows "step_ok (advance p b)"
proof (cases "state p = Ground")
  case True
  with ground_ok [OF assms] show ?thesis by (simp add: advance_def)
next
  case False
  with assms have "quiet p" by (auto simp: ok_defs)
  then show ?thesis using False
    by (auto simp: advance_def escape_ok escape_intermediate_ok csi_entry_ok csi_param_ok
        csi_intermediate_ok csi_ignore_ok osc_string_ok apc_string_ok sos_pm_ok dcs_entry_ok dcs_param_ok
        dcs_intermediate_ok dcs_passthrough_ok dcs_ignore_ok split: vt_state.splits)
qed

lemma advance_all_ok: "parser_ok p \<Longrightarrow> step_ok (advance_all p bs)"
proof (induction bs arbitrary: p)
  case Nil
  then show ?case by (simp add: step_ok_def)
next
  case (Cons b bs)
  from advance_ok [OF Cons.prems, of b] Cons.IH [of "fst (advance p b)"] show ?case
    by (auto simp: step_ok_def split: prod.splits)
qed

section \<open>Resynchronisation\<close>

text \<open>
  Two parsers agree when they are in the same state and agree on the fields that state still reads;
  every other field is cleared before it is read again.
\<close>

definition collecting :: "vt_state \<Rightarrow> bool" where
  "collecting st \<longleftrightarrow> st \<in> {CsiEntry, CsiParam, CsiIntermediate, DcsEntry, DcsParam, DcsIntermediate,
     DcsPassthrough}"

definition same_params :: "parser \<Rightarrow> parser \<Rightarrow> bool" where
  "same_params p q \<longleftrightarrow> params p = params q \<and> cur_parts p = cur_parts q \<and> cur_val p = cur_val q \<and>
     part_seen p = part_seen q \<and> intermediates p = intermediates q \<and> private_marker p = private_marker q"

definition same_string :: "parser \<Rightarrow> parser \<Rightarrow> bool" where
  "same_string p q \<longleftrightarrow> string_buf p = string_buf q \<and> string_overflow p = string_overflow q"

definition agrees :: "parser \<Rightarrow> parser \<Rightarrow> bool" where
  "agrees p q \<longleftrightarrow> state p = state q \<and> utf8_need p = utf8_need q \<and>
     (0 < utf8_need p \<longrightarrow> utf8_len p = utf8_len q \<and> take (utf8_len p) (utf8 p) = take (utf8_len p) (utf8 q)) \<and>
     (collecting (state p) \<longrightarrow> same_params p q) \<and>
     (state p = EscapeIntermediate \<longrightarrow> intermediates p = intermediates q) \<and>
     (state p \<in> {OscString, ApcString, DcsPassthrough} \<longrightarrow> same_string p q) \<and>
     (state p = DcsPassthrough \<longrightarrow> dcs_final p = dcs_final q)"

definition steps_agree :: "step \<Rightarrow> step \<Rightarrow> bool" where
  "steps_agree r s \<longleftrightarrow> agrees (fst r) (fst s) \<and> snd r = snd s"

lemmas agree_defs = agrees_def collecting_def same_params_def same_string_def steps_agree_def

lemma steps_agree_pair: "steps_agree (p, out) (q, out') \<longleftrightarrow> agrees p q \<and> out = out'"
  by (simp add: steps_agree_def)

lemma c1_agree:
  assumes "utf8_need p = 0" "utf8_need q = 0" "state p = Ground" "state q = Ground"
  shows "steps_agree (c1 p b) (c1 q b)"
  using assms by (simp add: c1_def agree_defs goto_def clear_def start_string_def)

lemma or_anywhere_agree:
  assumes "utf8_need p = 0" "utf8_need q = 0" "steps_agree k k'"
  shows "steps_agree (or_anywhere p b k) (or_anywhere q b k')"
proof -
  have "steps_agree (c1 (goto Ground p) b) (c1 (goto Ground q) b)"
    using assms(1,2) by (intro c1_agree) (simp_all add: goto_def)
  with assms show ?thesis
    by (auto simp: or_anywhere_def anywhere_def) (simp_all add: agree_defs goto_def)
qed

lemma dispatch_agree:
  assumes "utf8_need p = 0" "utf8_need q = 0" "same_params p q"
  shows "steps_agree (csi_dispatch p b) (csi_dispatch q b)"
  using assms by (simp add: csi_dispatch_def take_params_def taken_params_def agree_defs goto_def)

lemma advance_agree:
  assumes "utf8_need p = 0" "utf8_need q = 0" "agrees p q" "state p \<noteq> Ground"
  shows "steps_agree (advance p b) (advance q b)"
proof -
  have st: "state q = state p" using assms(3) by (simp add: agrees_def)
  note defs = steps_agree_pair agrees_def collecting_def same_params_def same_string_def goto_def clear_def start_string_def push_intermediate_def
    push_intermediate_capped_def param_digit_def param_colon_def param_semicolon_def
    push_string_byte_def dcs_hook_def
  show ?thesis
  proof (cases "state p")
    case Ground
    with assms show ?thesis by simp
  next
    case Escape
    show ?thesis
      unfolding advance_def st Escape vt_state.case escape_def
      by (rule or_anywhere_agree [OF assms(1,2)], insert assms(1-3) st Escape, simp add: defs)
  next
    case EscapeIntermediate
    show ?thesis
      unfolding advance_def st EscapeIntermediate vt_state.case escape_intermediate_def
      by (rule or_anywhere_agree [OF assms(1,2)], insert assms(1-3) st EscapeIntermediate, simp add: defs)
  next
    case CsiEntry
    then have sp: "same_params p q" using assms(3) by (simp add: agree_defs)
    note d = dispatch_agree [OF assms(1,2) sp, of b]
    show ?thesis
      unfolding advance_def st CsiEntry vt_state.case csi_entry_def
      by (rule or_anywhere_agree [OF assms(1,2)], insert assms(1-3) st CsiEntry sp d, simp add: defs)
  next
    case CsiParam
    then have sp: "same_params p q" using assms(3) by (simp add: agree_defs)
    note d = dispatch_agree [OF assms(1,2) sp, of b]
    show ?thesis
      unfolding advance_def st CsiParam vt_state.case csi_param_def
      by (rule or_anywhere_agree [OF assms(1,2)], insert assms(1-3) st CsiParam sp d, simp add: defs)
  next
    case CsiIntermediate
    then have sp: "same_params p q" using assms(3) by (simp add: agree_defs)
    note d = dispatch_agree [OF assms(1,2) sp, of b]
    show ?thesis
      unfolding advance_def st CsiIntermediate vt_state.case csi_intermediate_def
      by (rule or_anywhere_agree [OF assms(1,2)], insert assms(1-3) st CsiIntermediate sp d, simp add: defs)
  next
    case CsiIgnore
    show ?thesis
      unfolding advance_def st CsiIgnore vt_state.case csi_ignore_def
      by (rule or_anywhere_agree [OF assms(1,2)], insert assms(1-3) st CsiIgnore, simp add: defs)
  next
    case OscString
    then show ?thesis using assms st unfolding advance_def
      by (simp add: osc_string_def finish_osc_def defs)
  next
    case DcsEntry
    show ?thesis
      unfolding advance_def st DcsEntry vt_state.case dcs_entry_def
      by (rule or_anywhere_agree [OF assms(1,2)], insert assms(1-3) st DcsEntry, simp add: defs)
  next
    case DcsParam
    show ?thesis
      unfolding advance_def st DcsParam vt_state.case dcs_param_def
      by (rule or_anywhere_agree [OF assms(1,2)], insert assms(1-3) st DcsParam, simp add: defs)
  next
    case DcsIntermediate
    show ?thesis
      unfolding advance_def st DcsIntermediate vt_state.case dcs_intermediate_def
      by (rule or_anywhere_agree [OF assms(1,2)], insert assms(1-3) st DcsIntermediate, simp add: defs)
  next
    case DcsPassthrough
    then show ?thesis using assms st unfolding advance_def
      by (simp add: dcs_passthrough_def dcs_unhook_def take_params_def taken_params_def defs)
  next
    case DcsIgnore
    then show ?thesis using assms st unfolding advance_def by (simp add: dcs_ignore_def defs)
  next
    case SosPmString
    then show ?thesis using assms st unfolding advance_def by (simp add: sos_pm_def defs)
  next
    case ApcString
    then show ?thesis using assms st unfolding advance_def by (simp add: apc_string_def defs)
  qed
qed

lemma ground_fresh_agree:
  assumes "utf8_need p = 0" "utf8_need q = 0" "state p = Ground" "state q = Ground"
    "length (utf8 p) = 4" "length (utf8 q) = 4"
  shows "steps_agree (ground_fresh p b) (ground_fresh q b)"
proof -
  have "take 1 ((utf8 p)[0 := b]) = take 1 ((utf8 q)[0 := b])"
    using assms(5,6) by (cases "utf8 p"; cases "utf8 q") auto
  then show ?thesis
    using c1_agree [OF assms(1-4), of b] assms
    unfolding ground_fresh_def
    by (simp add: steps_agree_pair agrees_def collecting_def goto_def)
qed

lemma take_update_same:
  assumes "take n xs = take n ys" "n < length xs" "n < length ys"
  shows "take (Suc n) (xs[n := b]) = take (Suc n) (ys[n := b])"
  using assms by (simp add: take_Suc_conv_app_nth)

lemma ground_agree:
  assumes ok: "parser_ok p" "parser_ok q" and ag: "agrees p q" and st: "state p = Ground"
  shows "steps_agree (ground p b) (ground q b)"
proof (cases "0 < utf8_need p")
  case False
  with assms show ?thesis
    using ground_fresh_agree [of p q b] by (simp add: ground_def agrees_def ok_defs)
next
  case True
  have st': "state q = Ground" "utf8_need q = utf8_need p" "utf8_len q = utf8_len p"
    using ag st True by (simp_all add: agrees_def)
  have fresh: "steps_agree (ground_fresh (utf8_reset p) b) (ground_fresh (utf8_reset q) b)"
    using ok st st' by (intro ground_fresh_agree) (simp_all add: utf8_reset_def ok_defs)
  have len: "length (utf8 p) = 4" "length (utf8 q) = 4" "lead_len (utf8 p ! 0) = utf8_len p + utf8_need p"
    using ok True by (auto simp: ok_defs)
  have "lead_len c \<le> 4" for c by (simp add: lead_len_def)
  with len(3) have "utf8_len p + utf8_need p \<le> 4" by metis
  moreover have "take (utf8_len p) (utf8 p) = take (utf8_len p) (utf8 q)"
    using ag True unfolding agrees_def by blast
  ultimately have t: "take (Suc (utf8_len p)) ((utf8 p)[utf8_len p := b]) =
      take (Suc (utf8_len p)) ((utf8 q)[utf8_len p := b])"
    using True len(1,2) by (intro take_update_same) simp_all
  show ?thesis
    using True st st' fresh t
    by (cases "ground_fresh (utf8_reset p) b"; cases "ground_fresh (utf8_reset q) b")
      (simp add: ground_def Let_def utf8_reset_def agree_defs)
qed

lemma agree_step:
  assumes "parser_ok p" "parser_ok q" "agrees p q"
  shows "steps_agree (advance p b) (advance q b)"
proof (cases "state p = Ground")
  case True
  moreover have "state q = Ground" using True assms(3) by (simp add: agrees_def)
  ultimately show ?thesis using ground_agree [OF assms True] by (simp add: advance_def)
next
  case False
  then have "utf8_need p = 0" using assms(1) by (auto simp: ok_defs)
  with False assms(3) advance_agree [of p q b] show ?thesis by (simp add: agrees_def)
qed

lemma agree_all:
  "parser_ok p \<Longrightarrow> parser_ok q \<Longrightarrow> agrees p q \<Longrightarrow> snd (advance_all p bs) = snd (advance_all q bs)"
proof (induction bs arbitrary: p q)
  case (Cons b bs)
  then show ?case
    using advance_ok [of p b] advance_ok [of q b] agree_step [of p q b]
    by (cases "advance p b"; cases "advance q b") (simp add: step_ok_def steps_agree_def split: prod.splits, metis snd_conv)
qed simp

lemma cancel_to_ground:
  assumes "parser_ok p" "b = 0x18 \<or> b = 0x1A"
  shows "state (fst (advance p b)) = Ground \<and> utf8_need (fst (advance p b)) = 0"
proof -
  have "state p \<noteq> Ground \<longrightarrow> utf8_need p = 0" using assms(1) by (auto simp: ok_defs)
  with assms(2) show ?thesis
    by (cases "state p")
      (auto simp: advance_def ground_def ground_fresh_def utf8_reset_def within_nat escape_def
        escape_intermediate_def csi_entry_def csi_param_def csi_intermediate_def csi_ignore_def osc_string_def
        dcs_entry_def dcs_param_def dcs_intermediate_def dcs_passthrough_def dcs_ignore_def sos_pm_def
        apc_string_def or_anywhere_def anywhere_def goto_def clear_def)
qed

lemma advance_all_append:
  "advance_all p (xs @ ys) =
     (case advance_all p xs of (q, out) \<Rightarrow> case advance_all q ys of (r, out') \<Rightarrow> (r, out @ out'))"
  by (induction xs arbitrary: p) (simp_all split: prod.splits)

lemma advance_all_single: "advance_all p [b] = advance p b"
  by (cases "advance p b") simp

text \<open>
  C5. Whatever bytes are fed to a new parser, its state stays within its bounds (no index past the
  UTF-8 accumulator, at most 32 parameters of at most 17 parts, at most two intermediates, every string
  within its cap) and so is every action it emits: printed characters are Unicode scalar values,
  strings respect their caps, final bytes are in their ranges.
\<close>

theorem parser_bounded:
  "parser_ok (fst (advance_all parser_new bs)) \<and> list_all action_ok (snd (advance_all parser_new bs))"
  using advance_all_ok [OF parser_new_ok, of bs] by (simp add: step_ok_def)

text \<open>
  C11. A CAN or SUB byte resynchronises the parser. Whatever came before it, the actions emitted for
  the bytes that follow are those a new parser emits for them.
\<close>

lemma cancel_resynchronises:
  "snd (advance_all (fst (advance_all parser_new (pre @ [0x18]))) bs) = snd (advance_all parser_new bs) \<and>
   snd (advance_all (fst (advance_all parser_new (pre @ [0x1A]))) bs) = snd (advance_all parser_new bs)"
proof -
  have "snd (advance_all (fst (advance_all parser_new (pre @ [b]))) bs) = snd (advance_all parser_new bs)"
    if "b = 0x18 \<or> b = 0x1A" for b
  proof -
    have ok: "parser_ok (fst (advance_all parser_new pre))"
      using advance_all_ok [OF parser_new_ok, of pre] by (simp add: step_ok_def)
    have eq: "fst (advance_all parser_new (pre @ [b])) = fst (advance (fst (advance_all parser_new pre)) b)"
      by (simp add: advance_all_append advance_all_single split: prod.splits)
    then have "agrees (fst (advance_all parser_new (pre @ [b]))) parser_new"
      using cancel_to_ground [OF ok that] by (simp add: agrees_def collecting_def parser_new_def)
    moreover have "parser_ok (fst (advance_all parser_new (pre @ [b])))"
      using advance_ok [OF ok, of b] by (simp add: eq step_ok_def)
    ultimately show ?thesis using agree_all parser_new_ok by blast
  qed
  then show ?thesis by simp
qed

section \<open>Where sequences are dispatched\<close>

text \<open>A byte emits a sequence to dispatch only from the states of \<open>mid_escape\<close>.\<close>

fun dispatches :: "action \<Rightarrow> bool" where
  "dispatches (Csi _ _ _ _) = True"
| "dispatches (Esc _ _) = True"
| "dispatches _ = False"

lemma anywhere_quiet: "anywhere p b = Some r \<Longrightarrow> list_all (\<lambda>a. \<not> dispatches a) (snd r)"
  by (auto simp: anywhere_def c1_def split: if_splits)

lemma or_anywhere_quiet:
  "list_all (\<lambda>a. \<not> dispatches a) (snd k) \<Longrightarrow> list_all (\<lambda>a. \<not> dispatches a) (snd (or_anywhere p b k))"
  using anywhere_quiet by (auto simp: or_anywhere_def split: option.splits)

lemma ground_fresh_quiet: "list_all (\<lambda>a. \<not> dispatches a) (snd (ground_fresh p b))"
  by (simp add: ground_fresh_def c1_def)

text \<open>
  C10: \<open>mid_escape\<close> is exact for its purpose: a byte can complete a CSI or ESC sequence (and so
  dispatch a screen switch) only when the parser is in one of its states.
\<close>

lemma dispatch_needs_mid_escape:
  assumes "\<not> mid_escape p"
  shows "list_all (\<lambda>a. \<not> dispatches a) (snd (advance p b))"
  using assms ground_fresh_quiet [of p b] ground_fresh_quiet [of "utf8_reset p" b]
  by (cases "state p"; cases "ground_fresh (utf8_reset p) b")
    (simp_all add: mid_escape_def advance_def ground_def Let_def csi_ignore_def osc_string_def finish_osc_def
      dcs_entry_def dcs_param_def dcs_intermediate_def dcs_passthrough_def dcs_unhook_def take_params_def
      sos_pm_def apc_string_def or_anywhere_quiet split: prod.splits)

lemma dispatch_needs_mid_escape_witness:
  "list_all (\<lambda>a. \<not> dispatches a) (snd (advance parser_new 0x6D))"
  by (rule dispatch_needs_mid_escape) (simp add: mid_escape_def parser_new_def)

end
