(* ===== verification/VtSequences.thy ===== *)
theory VtSequences
  imports VtParserFacts
begin

text \<open>
  Round trips of the escape-sequence parser: text, control sequences and operating-system commands
  are parsed back from the bytes that spell them, and where a device control string ends.
\<close>

lemma silent_append: "advance_all p xs = (q, []) \<Longrightarrow> snd (advance_all p (xs @ ys)) = snd (advance_all q ys)"
  by (simp add: advance_all_append split: prod.splits)

lemma snd_advance_two:
  "snd (advance_all p [a, b]) = snd (advance p a) @ snd (advance (fst (advance p a)) b)"
  by (simp split: prod.splits)

section \<open>Text\<close>

definition printable :: "nat \<Rightarrow> bool" where
  "printable c \<longleftrightarrow> is_scalar c \<and> 0x20 \<le> c \<and> c \<noteq> 0x7F"

definition idle :: "parser \<Rightarrow> bool" where
  "idle p \<longleftrightarrow> state p = Ground \<and> utf8_need p = 0 \<and> length (utf8 p) = 4"

lemma feed_cont:
  assumes "state p = Ground" "utf8_need p = Suc n" "is_cont b"
    and q: "q = p\<lparr>utf8 := (utf8 p)[utf8_len p := b], utf8_len := utf8_len p + 1, utf8_need := n\<rparr>"
  shows "advance p b =
    (if n = 0 then (utf8_reset q, [Print (if utf8_valid (take (utf8_len q) (utf8 q))
           then decode_char (take (utf8_len q) (utf8 q)) else REPLACEMENT)])
     else (q, []))"
  unfolding q using assms(1-3) by (simp add: advance_def ground_def Let_def within_def is_cont_def)

lemma feed_conts:
  assumes "state p = Ground" "utf8_need p = length bs" "bs \<noteq> []" "list_all is_cont bs"
    "utf8_len p + length bs \<le> 4" "length (utf8 p) = 4"
  shows "\<exists>q. idle q \<and> advance_all p bs =
    (q, [Print (if utf8_valid (take (utf8_len p) (utf8 p) @ bs)
       then decode_char (take (utf8_len p) (utf8 p) @ bs) else REPLACEMENT)])"
  using assms
proof (induction bs arbitrary: p)
  case Nil
  then show ?case by simp
next
  case (Cons b bs)
  define q where "q = p\<lparr>utf8 := (utf8 p)[utf8_len p := b], utf8_len := utf8_len p + 1, utf8_need := length bs\<rparr>"
  have t: "take (utf8_len q) (utf8 q) = take (utf8_len p) (utf8 p) @ [b]"
    using Cons.prems by (simp add: q_def take_Suc_conv_app_nth)
  have step: "advance p b = (if bs = [] then (utf8_reset q, [Print (if utf8_valid (take (utf8_len q) (utf8 q))
      then decode_char (take (utf8_len q) (utf8 q)) else REPLACEMENT)]) else (q, []))"
    using feed_cont [OF Cons.prems(1) _ _ q_def] Cons.prems by simp
  show ?case
  proof (cases "bs = []")
    case True
    then show ?thesis using Cons.prems
      by (intro exI [of _ "utf8_reset q"])
        (simp add: advance_all_single step t idle_def utf8_reset_def, simp add: q_def)
  next
    case False
    then have "\<exists>r. idle r \<and> advance_all q bs = (r, [Print (if utf8_valid (take (utf8_len q) (utf8 q) @ bs)
       then decode_char (take (utf8_len q) (utf8 q) @ bs) else REPLACEMENT)])"
      using Cons.prems by (intro Cons.IH) (simp_all add: q_def)
    with False show ?thesis by (auto simp: step t)
  qed
qed

lemma scan_shape:
  assumes "utf8_scan (b # bs) = Inr (Suc (length bs))" "bs \<noteq> []"
  shows "lead_len b = Suc (length bs) \<and> list_all is_cont bs"
proof -
  have "length bs \<le> 3" using utf8_scan_Inr_bounds [OF assms(1)] by simp
  with assms(2) consider x where "bs = [x]" | x y where "bs = [x, y]" | x y z where "bs = [x, y, z]"
    by (cases bs; cases "tl bs"; cases "tl (tl bs)") auto
  then show ?thesis
  proof cases
    case 1
    with assms show ?thesis
      by (auto simp: utf8_scan_def lead_len_def within_def opt_ok_def split: if_splits)
  next
    case 2
    with assms show ?thesis
      by (auto simp: utf8_scan_def lead_len_def within_nat opt_ok_def scan_nat split: if_splits)
  next
    case 3
    with assms show ?thesis
      by (auto simp: utf8_scan_def lead_len_def within_nat opt_ok_def scan_nat get_at_def split: if_splits)
  qed
qed

lemma lead_fresh:
  assumes "lead_len b = Suc n" "0 < n"
  shows "ground_fresh p b = (p\<lparr>utf8 := (utf8 p)[0 := b], utf8_len := 1, utf8_need := n\<rparr>, [])"
  using assms
  by (auto simp: ground_fresh_def lead_len_def within_nat split: if_splits)

lemma feed_char:
  assumes "idle p" "printable c"
  shows "\<exists>q. idle q \<and> advance_all p (encode_utf8 c) = (q, [Print c])"
proof -
  have sc: "is_scalar c" using assms(2) by (simp add: printable_def)
  note scan = encode_utf8_scan [OF sc] and dec = encode_decode_char [OF sc]
  have "encode_utf8 c \<noteq> []" by (simp add: encode_utf8_def)
  then obtain b bs where e: "encode_utf8 c = b # bs" by (cases "encode_utf8 c") auto
  show ?thesis
  proof (cases "bs = []")
    case True
    with e have "c < 0x80" "b = of_nat c" by (auto simp: encode_utf8_def split: if_splits)
    then have "unat b = c" by simp
    with assms e True \<open>c < 0x80\<close> show ?thesis
      by (intro exI [of _ p])
        (simp add: advance_all_single advance_def ground_def ground_fresh_def within_nat idle_def printable_def
          word_unat_eq_iff)
  next
    case False
    with scan e have sh: "lead_len b = Suc (length bs)" "list_all is_cont bs" using scan_shape by auto
    have le: "length bs \<le> 3" using utf8_scan_Inr_bounds [OF scan] e by simp
    define q where "q = p\<lparr>utf8 := (utf8 p)[0 := b], utf8_len := 1, utf8_need := length bs\<rparr>"
    have step: "advance p b = (q, [])"
      using lead_fresh [OF sh(1), of p] False assms(1)
      by (simp add: advance_def ground_def idle_def q_def)
    have "take 1 (utf8 q) = [b]" using assms(1) by (cases "utf8 p") (simp_all add: q_def idle_def)
    then have t: "take (utf8_len q) (utf8 q) @ bs = encode_utf8 c" by (simp add: q_def e)
    from False sh(2) le assms(1) have "\<exists>r. idle r \<and> advance_all q bs =
      (r, [Print (if utf8_valid (take (utf8_len q) (utf8 q) @ bs)
       then decode_char (take (utf8_len q) (utf8 q) @ bs) else REPLACEMENT)])"
      by (intro feed_conts) (simp_all add: q_def idle_def)
    then obtain r where "idle r" "advance_all q bs = (r, [Print c])"
      unfolding t using encode_utf8_valid [OF sc] dec by auto
    then show ?thesis unfolding e using step by auto
  qed
qed

text \<open>
  C9. Text survives. The UTF-8 encoding of any sequence of printable characters (every scalar value
  but the C0 controls and DEL), fed to a new parser, prints exactly those characters.
\<close>

lemma text_roundtrip:
  assumes "list_all printable cs"
  shows "snd (advance_all parser_new (concat (map encode_utf8 cs))) = map Print cs"
proof -
  have "\<exists>q. advance_all p (concat (map encode_utf8 cs)) = (q, map Print cs)" if "idle p" for p
    using assms that
  proof (induction cs arbitrary: p)
    case (Cons c cs)
    from feed_char [OF Cons.prems(2), of c] Cons.prems(1) obtain q
      where q: "idle q" "advance_all p (encode_utf8 c) = (q, [Print c])" by auto
    with Cons.IH [of q] Cons.prems(1) show ?case by (auto simp: advance_all_append)
  qed simp
  from this [of parser_new] show ?thesis by (auto simp: idle_def parser_new_def)
qed

lemma text_roundtrip_witness:
  "snd (advance_all parser_new (concat (map encode_utf8 [0x41, 0xE9, 0x4E2D, 0x1F600]))) =
     map Print [0x41, 0xE9, 0x4E2D, 0x1F600]"
  by (rule text_roundtrip) (simp add: printable_def is_scalar_def)

section \<open>Control sequences\<close>

text \<open>The text of a control sequence: decimal parameters, colons within, semicolons between.\<close>

fun decimal :: "nat \<Rightarrow> bytes" where
  "decimal n = (if n < 10 then [of_nat (0x30 + n)] else decimal (n div 10) @ [of_nat (0x30 + n mod 10)])"

declare decimal.simps [simp del]

fun joined :: "u8 \<Rightarrow> bytes list \<Rightarrow> bytes" where
  "joined sep [] = []"
| "joined sep [x] = x"
| "joined sep (x # y # xs) = x @ sep # joined sep (y # xs)"

definition param_text :: "u16 list \<Rightarrow> bytes" where
  "param_text q = joined 0x3A (map (\<lambda>v. decimal (unat v)) q)"

definition csi_text :: "u16 list list \<Rightarrow> bytes \<Rightarrow> u8 \<Rightarrow> u8 \<Rightarrow> bytes" where
  "csi_text ps im pr b = [0x1B, 0x5B] @ (if pr = 0 then [] else [pr]) @ joined 0x3B (map param_text ps) @ im @ [b]"

definition reading :: "parser \<Rightarrow> bool" where
  "reading p \<longleftrightarrow> state p = CsiEntry \<or> state p = CsiParam"

lemma anywhere_plain: "unat b \<noteq> 0x1B \<Longrightarrow> unat b \<noteq> 0x18 \<Longrightarrow> unat b \<noteq> 0x1A \<Longrightarrow> unat b < 0x80 \<Longrightarrow> anywhere p b = None"
  by (auto simp: anywhere_def within_nat)

lemma goto_same: "state p = st \<Longrightarrow> goto st p = p"
  by (simp add: goto_def)

lemma param_state:
  "state (param_digit b p) = state p" "state (param_colon p) = state p" "state (param_semicolon p) = state p"
  by (simp_all add: param_digit_def param_colon_def param_semicolon_def)

lemma param_byte_cases:
  assumes "within 0x30 0x3B b"
  shows "anywhere p b = None" "\<not> c0_executed b" "\<not> within 0x20 0x2F b"
    "within 0x30 0x39 b \<or> \<not> within 0x30 0x39 b \<and> (b = 0x3A \<or> b = 0x3B)"
  using assms by (auto intro!: anywhere_plain simp: within_nat c0_executed_def word_unat_eq_iff)

lemma advance_reading:
  assumes "reading p" "within 0x30 0x3B b"
  shows "advance p b = (goto CsiParam
    (if within 0x30 0x39 b then param_digit b p else if b = 0x3A then param_colon p else param_semicolon p), [])"
proof -
  note c = param_byte_cases [OF assms(2)]
  from assms(1) consider "state p = CsiEntry" | "state p = CsiParam" by (auto simp: reading_def)
  then show ?thesis
  proof cases
    case 1
    then have "advance p b = csi_entry p b" by (simp add: advance_def)
    with c show ?thesis unfolding csi_entry_def or_anywhere_def by (elim disjE conjE) simp_all
  next
    case 2
    then have "advance p b = csi_param p b" by (simp add: advance_def)
    with c 2 show ?thesis unfolding csi_param_def or_anywhere_def
      by (elim disjE conjE) (simp_all add: goto_same param_state)
  qed
qed

lemma digits_read:
  assumes "reading p" "cur_val p = 0" "n \<le> 65535"
  shows "advance_all p (decimal n) = (p\<lparr>state := CsiParam, cur_val := of_nat n, part_seen := True\<rparr>, [])"
  using assms
proof (induction n rule: decimal.induct)
  case (1 n)
  have digit: "advance q (of_nat (0x30 + d)) =
      (q\<lparr>state := CsiParam, cur_val := of_nat (m * 10 + d), part_seen := True\<rparr>, [])"
    if "reading q" "cur_val q = of_nat m" "d < 10" "m * 10 + d \<le> 65535" for q d m
  proof -
    have w: "within 0x30 0x3B (of_nat (0x30 + d))" "within 0x30 0x39 (of_nat (0x30 + d))"
      using that(3) by (simp_all add: within_nat unat_byte del: of_nat_add)
    have "of_nat (0x30 + d) - 0x30 = (of_nat d :: u8)" by simp
    moreover have "ucast (of_nat d :: u8) = (of_nat d :: u32)"
      using that(3) by (simp add: word_unat_eq_iff unsigned_ucast_eq take_bit_nat_eq_self)
    moreover have "of_nat m * 10 + of_nat d = (of_nat (m * 10 + d) :: u32)" by simp
    moreover have "min (of_nat (m * 10 + d) :: u32) 65535 = of_nat (m * 10 + d)"
      using that(4) by (intro min_absorb1) (simp add: word_le_nat_alt del: of_nat_add)
    ultimately show ?thesis using advance_reading [OF that(1) w(1)] w(2) that(2)
      by (simp add: goto_def param_digit_def del: of_nat_add)
  qed
  show ?case
  proof (cases "n < 10")
    case True
    with digit [of p 0 n] 1 show ?thesis
      by (simp add: decimal.simps [of n] advance_all_single del: of_nat_add)
  next
    case False
    then have "advance_all p (decimal (n div 10)) =
        (p\<lparr>state := CsiParam, cur_val := of_nat (n div 10), part_seen := True\<rparr>, [])"
      using 1 by simp
    moreover have "n div 10 * 10 + n mod 10 = n" by simp
    ultimately show ?thesis
      using False 1 digit [of "p\<lparr>state := CsiParam, cur_val := of_nat (n div 10), part_seen := True\<rparr>" "n div 10" "n mod 10"]
      by (subst decimal.simps) (simp add: advance_all_append advance_all_single reading_def del: of_nat_add)
  qed
qed

lemma of_nat_unat_ucast: "ucast (of_nat (unat (v :: u16)) :: u32) = v"
  by (simp add: word_unat_eq_iff unsigned_ucast_eq take_bit_word_eq_self)

lemma ucast_32_16: "ucast (ucast (v :: u16) :: u32) = v"
  using of_nat_unat_ucast [of v] by simp

lemma param_read:
  assumes "reading p" "cur_val p = 0" "q \<noteq> []" "length (cur_parts p) + length q \<le> MAX_SUBPARAMS + 1"
  shows "advance_all p (param_text q) =
    (p\<lparr>state := CsiParam, cur_parts := cur_parts p @ butlast q, cur_val := of_nat (unat (last q)),
       part_seen := True\<rparr>, [])"
  using assms
proof (induction q arbitrary: p)
  case Nil
  then show ?case by simp
next
  case (Cons v q)
  have v: "unat v \<le> 65535" using unat_lt16 [of v] by linarith
  note d = digits_read [OF Cons.prems(1,2) v]
  show ?case
  proof (cases q)
    case Nil
    then show ?thesis using d by (simp add: param_text_def)
  next
    case (Cons v' q')
    let ?p = "p\<lparr>state := CsiParam, cur_val := of_nat (unat v), part_seen := True\<rparr>"
    let ?q = "p\<lparr>state := CsiParam, cur_parts := cur_parts p @ [v], cur_val := 0, part_seen := True\<rparr>"
    have "advance ?p 0x3A = (?q, [])"
      using advance_reading [of ?p "0x3A"] Cons.prems(4) Cons of_nat_unat_ucast [of v]
      by (simp add: reading_def within_nat goto_def param_colon_def)
    moreover have "advance_all ?q (param_text q) =
        (?q\<lparr>state := CsiParam, cur_parts := cur_parts ?q @ butlast q, cur_val := of_nat (unat (last q)),
          part_seen := True\<rparr>, [])"
      using Cons.prems Cons by (intro Cons.IH) (simp_all add: reading_def)
    ultimately show ?thesis using d Cons by (simp add: param_text_def advance_all_append)
  qed
qed

lemma params_read:
  assumes "reading p" "cur_val p = 0" "cur_parts p = []" "ps \<noteq> []" "length (params p) + length ps \<le> MAX_PARAMS"
    "\<forall>q \<in> set ps. 0 < length q \<and> length q \<le> MAX_SUBPARAMS + 1"
  shows "advance_all p (joined 0x3B (map param_text ps)) =
    (p\<lparr>state := CsiParam, params := params p @ butlast ps, cur_parts := butlast (last ps),
       cur_val := of_nat (unat (last (last ps))), part_seen := True\<rparr>, [])"
  using assms
proof (induction ps arbitrary: p)
  case Nil
  then show ?case by simp
next
  case (Cons q ps)
  have q: "q \<noteq> []" "length (cur_parts p) + length q \<le> MAX_SUBPARAMS + 1" using Cons.prems by auto
  note d = param_read [OF Cons.prems(1,2) q]
  show ?case
  proof (cases ps)
    case Nil
    then show ?thesis using d Cons.prems(3) by simp
  next
    case (Cons q' ps')
    let ?p = "p\<lparr>state := CsiParam, cur_parts := butlast q, cur_val := of_nat (unat (last q)), part_seen := True\<rparr>"
    let ?q = "p\<lparr>state := CsiParam, params := params p @ [q], cur_val := 0, cur_parts := [], part_seen := True\<rparr>"
    have "advance ?p 0x3B = (?q, [])"
      using advance_reading [of ?p "0x3B"] Cons.prems(5) Cons of_nat_unat_ucast [of "last q"] q(1)
      by (simp add: reading_def within_nat goto_def param_semicolon_def)
    moreover have "advance_all ?q (joined 0x3B (map param_text ps)) =
        (?q\<lparr>state := CsiParam, params := params ?q @ butlast ps, cur_parts := butlast (last ps),
          cur_val := of_nat (unat (last (last ps))), part_seen := True\<rparr>, [])"
      using Cons.prems Cons by (intro Cons.IH) (simp_all add: reading_def)
    ultimately show ?thesis using d Cons Cons.prems(3) by (simp add: advance_all_append)
  qed
qed

text \<open>The state an \<open>ESC [\<close> and a private marker leave.\<close>

lemma csi_start:
  assumes "idle i" "pr = 0 \<or> within 0x3C 0x3F pr"
  shows "\<exists>p. advance_all i ([0x1B, 0x5B] @ (if pr = 0 then [] else [pr])) = (p, []) \<and> reading p \<and>
     params p = [] \<and> cur_parts p = [] \<and> cur_val p = 0 \<and> \<not> part_seen p \<and> intermediates p = [] \<and>
     private_marker p = pr \<and> utf8 p = utf8 i \<and> utf8_need p = 0"
proof -
  let ?e = "goto CsiEntry (clear (goto Escape i))"
  have "advance i 0x1B = (goto Escape i, [])"
    using assms(1) by (simp add: idle_def advance_def ground_def ground_fresh_def)
  moreover have "advance (goto Escape i) 0x5B = (?e, [])"
    by (simp add: advance_def goto_def escape_def or_anywhere_def anywhere_plain c0_executed_def within_nat)
  moreover have "advance ?e pr = (goto CsiParam (?e\<lparr>private_marker := pr\<rparr>), [])" if "within 0x3C 0x3F pr"
  proof -
    have "anywhere ?e pr = None" "\<not> c0_executed pr" "\<not> within 0x20 0x2F pr" "\<not> within 0x30 0x39 pr"
      "pr \<noteq> 0x3A" "pr \<noteq> 0x3B"
      using that by (auto intro!: anywhere_plain simp: within_nat c0_executed_def)
    with that show ?thesis by (simp add: advance_def csi_entry_def or_anywhere_def goto_def)
  qed
  ultimately show ?thesis using assms
    by (auto simp: idle_def reading_def goto_def clear_def within_nat)
qed

lemma advance_intermediate:
  assumes "reading p \<or> state p = CsiIntermediate" "within 0x20 0x2F b" "length (intermediates p) < MAX_INTERMEDIATES"
  shows "advance p b = (goto CsiIntermediate (push_intermediate b p), [])"
proof -
  have c: "anywhere p b = None" "\<not> c0_executed b" "\<not> within 0x30 0x39 b" "b \<noteq> 0x3A" "b \<noteq> 0x3B" "\<not> within 0x3C 0x3F b"
    using assms(2) by (auto intro!: anywhere_plain simp: within_nat c0_executed_def)
  from assms(1) consider "state p = CsiEntry" | "state p = CsiParam" | "state p = CsiIntermediate"
    by (auto simp: reading_def)
  then show ?thesis
  proof cases
    case 3
    then have "state (push_intermediate b p) = CsiIntermediate" by (simp add: push_intermediate_def)
    with 3 c assms(2,3) show ?thesis
      by (simp add: advance_def csi_intermediate_def or_anywhere_def goto_same)
  qed (use c assms(2,3) in \<open>simp_all add: advance_def csi_entry_def csi_param_def or_anywhere_def
      push_intermediate_capped_def\<close>)
qed

lemma intermediates_read:
  assumes "reading p \<or> state p = CsiIntermediate" "list_all (within 0x20 0x2F) im"
    "length (intermediates p) + length im \<le> MAX_INTERMEDIATES"
  shows "advance_all p im = (p\<lparr>state := if im = [] then state p else CsiIntermediate,
    intermediates := intermediates p @ im\<rparr>, [])"
  using assms
proof (induction im arbitrary: p)
  case (Cons b im)
  have "advance_all (goto CsiIntermediate (push_intermediate b p)) im =
    ((goto CsiIntermediate (push_intermediate b p))\<lparr>state := CsiIntermediate,
      intermediates := intermediates p @ [b] @ im\<rparr>, [])"
    using Cons.prems Cons.IH [of "goto CsiIntermediate (push_intermediate b p)"]
    by (simp add: goto_def push_intermediate_def split: if_splits)
  with Cons.prems advance_intermediate [of p b] show ?case
    by (simp add: goto_def push_intermediate_def)
qed simp

lemma advance_final:
  assumes "reading p \<or> state p = CsiIntermediate" "within 0x40 0x7E b"
  shows "advance p b = csi_dispatch p b"
proof -
  have c: "anywhere p b = None" "\<not> c0_executed b" "\<not> within 0x30 0x39 b" "b \<noteq> 0x3A" "b \<noteq> 0x3B"
    "\<not> within 0x3C 0x3F b" "\<not> within 0x20 0x2F b" "\<not> within 0x30 0x3F b"
    using assms(2) by (auto intro!: anywhere_plain simp: within_nat c0_executed_def)
  from assms(1) consider "state p = CsiEntry" | "state p = CsiParam" | "state p = CsiIntermediate"
    by (auto simp: reading_def)
  then show ?thesis
    by cases (use c assms(2) in \<open>simp_all add: advance_def csi_entry_def csi_param_def csi_intermediate_def
      or_anywhere_def\<close>)
qed

lemma params_taken:
  assumes "params p = []" "cur_parts p = []" "cur_val p = 0" "\<not> part_seen p" "reading p" "params_bounded ps"
  shows "\<exists>q. advance_all p (joined 0x3B (map param_text ps)) = (q, []) \<and> taken_params q = ps \<and>
    reading q \<and> intermediates q = intermediates p \<and> private_marker q = private_marker p \<and>
    utf8 q = utf8 p \<and> utf8_need q = utf8_need p"
proof (cases "ps = []")
  case True
  then show ?thesis using assms by (intro exI [of _ p]) (simp add: taken_params_def)
next
  case False
  then have "last ps \<noteq> []" using assms(6) by (auto simp: params_bounded_def dest: last_in_set)
  moreover have "length (butlast ps) < MAX_PARAMS" using False assms(6)
    by (cases ps rule: rev_cases) (simp_all add: params_bounded_def)
  ultimately show ?thesis
    using params_read [of p ps] False assms by (simp add: params_bounded_def taken_params_def reading_def ucast_32_16)
qed

text \<open>
  C6. Every control sequence within the parser's bounds is parsed back from its text, wherever the parser is
  between two sequences or characters: up to 32 parameters of one to 17 parts, any 16-bit values, any private
  marker, up to two intermediates, any final byte give exactly one \<open>Csi\<close> action with those fields, and
  leave the parser in the ground state again, ready for the next.
\<close>

theorem csi_roundtrip:
  assumes "idle i" "params_bounded ps" "list_all (within 0x20 0x2F) im" "length im \<le> MAX_INTERMEDIATES"
    and "pr = 0 \<or> within 0x3C 0x3F pr" "within 0x40 0x7E b"
  shows "\<exists>j. advance_all i (csi_text ps im pr b) = (j, [Csi ps im pr b]) \<and> idle j"
proof -
  obtain p where p: "advance_all i ([0x1B, 0x5B] @ (if pr = 0 then [] else [pr])) = (p, [])"
    "reading p" "params p = []" "cur_parts p = []" "cur_val p = 0" "\<not> part_seen p" "intermediates p = []"
    "private_marker p = pr" "utf8 p = utf8 i" "utf8_need p = 0" using csi_start [OF assms(1,5)] by blast
  obtain q where q: "advance_all p (joined 0x3B (map param_text ps)) = (q, [])" "taken_params q = ps"
    "reading q" "intermediates q = []" "private_marker q = pr" "utf8 q = utf8 i" "utf8_need q = 0"
    using params_taken [OF p(3-6,2) assms(2)] p(7-10) by auto
  let ?r = "q\<lparr>state := if im = [] then state q else CsiIntermediate, intermediates := im\<rparr>"
  have r: "advance_all q im = (?r, [])" using intermediates_read [of q im] q assms(3,4) by simp
  have "advance ?r b = csi_dispatch ?r b"
    using q(3) by (intro advance_final assms) (auto simp: reading_def)
  moreover have "taken_params ?r = ps" using q(2) by (auto simp add: taken_params_def split: if_split_asm)
  ultimately obtain j where f: "advance ?r b = (j, [Csi ps im pr b])" "idle j"
    using q(5-7) assms(1) by (auto simp: csi_dispatch_def take_params_def idle_def goto_def)
  have "csi_text ps im pr b = (([0x1B, 0x5B] @ (if pr = 0 then [] else [pr])) @
    joined 0x3B (map param_text ps)) @ im @ [b]" by (simp add: csi_text_def)
  then have "advance_all i (csi_text ps im pr b) = (j, [Csi ps im pr b])" using p(1) q(1) r f(1)
    by (simp only: advance_all_append advance_all_single) (simp split: prod.splits)
  with f(2) show ?thesis by blast
qed

theorem csi_roundtrip_witness:
  "\<exists>j. advance_all parser_new (csi_text [[38, 2, 255], [65535], [0]] [0x20] 0x3F 0x6D) =
    (j, [Csi [[38, 2, 255], [65535], [0]] [0x20] 0x3F 0x6D]) \<and> idle j"
  by (rule csi_roundtrip) (simp_all add: params_bounded_def MAX_PARAMS_def MAX_SUBPARAMS_def
    MAX_INTERMEDIATES_def within_nat idle_def parser_new_def)

section \<open>Operating-system commands\<close>

lemma osc_content:
  assumes "state p = OscString" "unat b \<ge> 0x20"
  shows "advance p b = (push_string_byte b MAX_OSC p, [])"
proof -
  have "b \<noteq> 0x07" "b \<noteq> 0x1B" "b \<noteq> 0x18" "b \<noteq> 0x1A" "b \<noteq> 0x19" using assms(2) by auto
  then show ?thesis using assms by (simp add: advance_def osc_string_def within_nat)
qed

lemma osc_contents:
  assumes "state p = OscString" "list_all (\<lambda>b. 0x20 \<le> unat b) d"
  shows "\<exists>q. advance_all p d = (q, []) \<and> state q = OscString \<and>
    string_overflow q = (string_overflow p \<or> d \<noteq> [] \<and> MAX_OSC < length (string_buf p) + length d) \<and>
    (length (string_buf p) + length d \<le> MAX_OSC \<longrightarrow> string_buf q = string_buf p @ d)"
  using assms
proof (induction d arbitrary: p)
  case (Cons b d)
  let ?q = "push_string_byte b MAX_OSC p"
  have "state ?q = OscString" using Cons.prems by (simp add: push_string_byte_def)
  with Cons.IH [of ?q] Cons.prems(2) obtain q where q: "advance_all ?q d = (q, [])" "state q = OscString"
    "string_overflow q = (string_overflow ?q \<or> d \<noteq> [] \<and> MAX_OSC < length (string_buf ?q) + length d)"
    "length (string_buf ?q) + length d \<le> MAX_OSC \<longrightarrow> string_buf q = string_buf ?q @ d" by auto
  have "advance p b = (?q, [])" using Cons.prems by (simp add: osc_content)
  with q show ?case
    by (intro exI [of _ q]) (auto simp: push_string_byte_def split: if_splits)
qed simp

text \<open>
  C8. An operating-system command whose payload holds no C0 control is delivered byte for byte,
  bytes above 0x7F included, and marked with the terminator that ended it; a payload past
  \<open>MAX_OSC\<close> is dropped whole.
\<close>

lemma osc_roundtrip:
  assumes "list_all (\<lambda>b. 0x20 \<le> unat b) d"
  shows "snd (advance_all parser_new ([0x1B, 0x5D] @ d @ [0x07])) =
      (if length d \<le> MAX_OSC then [Osc d True] else []) \<and>
    snd (advance_all parser_new ([0x1B, 0x5D] @ d @ [0x1B, 0x5C])) =
      (if length d \<le> MAX_OSC then [Osc d False] else []) @ [Esc [] 0x5C]"
proof -
  let ?s = "start_string OscString (goto Escape parser_new)"
  have "advance parser_new 0x1B = (goto Escape parser_new, [])"
    by (simp add: advance_def ground_def ground_fresh_def parser_new_def)
  moreover have "advance (goto Escape parser_new) 0x5D = (?s, [])"
    by (simp add: advance_def goto_def escape_def or_anywhere_def anywhere_plain c0_executed_def within_nat)
  ultimately have pre: "advance_all parser_new [0x1B, 0x5D] = (?s, [])" by simp
  have s: "state ?s = OscString" "string_buf ?s = []" "\<not> string_overflow ?s" by (simp_all add: start_string_def)
  from osc_contents [OF s(1) assms] s obtain q where
    q: "advance_all ?s d = (q, [])" "state q = OscString" "string_overflow q = (MAX_OSC < length d)"
      "length d \<le> MAX_OSC \<longrightarrow> string_buf q = d" by (auto simp: MAX_OSC_def)
  have "snd (advance q 0x07) = (if length d \<le> MAX_OSC then [Osc d True] else [])"
    using q(2-4) by (simp add: advance_def osc_string_def finish_osc_def)
  moreover have "snd (advance q 0x1B) = (if length d \<le> MAX_OSC then [Osc d False] else [])"
    "state (fst (advance q 0x1B)) = Escape"
    using q(2-4) by (simp_all add: advance_def osc_string_def finish_osc_def goto_def)
  moreover have "snd (advance r 0x5C) = [Esc [] 0x5C]" if "state r = Escape" for r
    using that by (simp add: advance_def escape_def or_anywhere_def anywhere_plain c0_executed_def within_nat)
  ultimately show ?thesis
    by (simp only: silent_append [OF pre] silent_append [OF q(1)] snd_advance_two advance_all_single)
qed

lemma osc_roundtrip_witness:
  "snd (advance_all parser_new ([0x1B, 0x5D] @ [0x32, 0x3B, 0xC3, 0xA9] @ [0x07])) = [Osc [0x32, 0x3B, 0xC3, 0xA9] True] \<and>
   snd (advance_all parser_new ([0x1B, 0x5D] @ [0x32, 0x3B, 0xC3, 0xA9] @ [0x1B, 0x5C])) =
     [Osc [0x32, 0x3B, 0xC3, 0xA9] False] @ [Esc [] 0x5C]"
  using osc_roundtrip [of "[0x32, 0x3B, 0xC3, 0xA9]"] by (simp add: MAX_OSC_def)

text \<open>
  A device control string does not treat every byte from 0x80 to 0xFF as content: 0x9C, which
  occurs inside UTF-8 text (here the check mark E2 9C 93), ends it, and the rest of the payload leaves
  the parser as controls and text.
\<close>

lemma dcs_ends_inside_utf8:
  "snd (advance_all parser_new ([0x1B, 0x50, 0x71] @ encode_utf8 0x2713 @ [0x41, 0x1B, 0x5C])) =
    [Dcs [] [] 0x71 [0xE2], Execute 0x93, Print 0x41, Esc [] 0x5C]"
proof -
  let ?e = "goto Escape parser_new"
  let ?d = "goto DcsEntry (clear ?e)"
  let ?h = "dcs_hook 0x71 ?d"
  let ?g = "goto Ground (clear ((?h)\<lparr>string_buf := []\<rparr>))"
  have "encode_utf8 0x2713 = [0xE2, 0x9C, 0x93]" by (simp add: encode_utf8_def)
  moreover have "advance parser_new 0x1B = (?e, [])"
    by (simp add: advance_def ground_def ground_fresh_def parser_new_def)
  moreover have "advance ?e 0x50 = (?d, [])"
    by (simp add: advance_def goto_def escape_def or_anywhere_def anywhere_plain c0_executed_def within_nat)
  moreover have "advance ?d 0x71 = (?h, [])"
    by (simp add: advance_def goto_def dcs_entry_def or_anywhere_def anywhere_plain within_nat)
  moreover have "advance ?h 0xE2 = (?h\<lparr>string_buf := [0xE2]\<rparr>, [])"
    by (simp add: advance_def dcs_hook_def dcs_passthrough_def push_string_byte_def MAX_DCS_def)
  moreover have "advance (?h\<lparr>string_buf := [0xE2]\<rparr>) 0x9C = (?g, [Dcs [] [] 0x71 [0xE2]])"
    by (simp add: advance_def dcs_hook_def dcs_passthrough_def dcs_unhook_def take_params_def taken_params_def
        clear_def goto_def)
  moreover have "advance ?g 0x93 = (?g, [Execute 0x93])"
    by (simp add: advance_def goto_def dcs_hook_def ground_def ground_fresh_def c1_def within_nat clear_def parser_new_def)
  moreover have "advance ?g 0x41 = (?g, [Print 0x41])"
    by (simp add: advance_def goto_def dcs_hook_def ground_def ground_fresh_def within_nat clear_def parser_new_def)
  moreover have "advance ?g 0x1B = (goto Escape ?g, [])"
    by (simp add: advance_def goto_def dcs_hook_def ground_def ground_fresh_def within_nat clear_def parser_new_def)
  moreover have "advance (goto Escape ?g) 0x5C = (goto Ground (goto Escape ?g), [Esc [] 0x5C])"
    by (simp add: advance_def goto_def escape_def or_anywhere_def anywhere_plain c0_executed_def within_nat)
  ultimately show ?thesis by (simp split: prod.splits)
qed

end
