(* ===== verification/Caps.thy ===== *)
theory Caps
  imports Utf8
begin

text \<open>
  \<open>crates/posh-proto/src/caps.rs\<close>: the capability table that rides behind the EXTENSION bit of
  both datagram directions, and the payload codecs of its entries. Strings are their UTF-8 bytes; an
  \<open>f64\<close> metric, which the code only copies, is its 64-bit pattern. Display-only text
  (\<open>SessionEnd::label\<close>, \<open>SessionActivity::label\<close>, \<open>ServerIdent::build\<close>) is not
  modelled.
\<close>

section \<open>Capability ids\<close>

definition FLAG_EXTENSION :: u8 where "FLAG_EXTENSION = 0x02"
definition CAP_PROTOCOL_VERSION :: u8 where "CAP_PROTOCOL_VERSION = 0"
definition CAP_EXIT_STATUS :: u8 where "CAP_EXIT_STATUS = 1"
definition CAP_SCROLLBACK :: u8 where "CAP_SCROLLBACK = 3"
definition CAP_MORPH :: u8 where "CAP_MORPH = 4"
definition CAP_BASE_SUM :: u8 where "CAP_BASE_SUM = 5"
definition CAP_AGENT_FORWARD :: u8 where "CAP_AGENT_FORWARD = 6"
definition CAP_AGENT_DATA :: u8 where "CAP_AGENT_DATA = 7"
definition CAP_AGENT_ACK :: u8 where "CAP_AGENT_ACK = 8"
definition CAP_LOSSY :: u8 where "CAP_LOSSY = 9"
definition CAP_SCROLLBACK2 :: u8 where "CAP_SCROLLBACK2 = 10"
definition CAP_KITTY_KEYBOARD :: u8 where "CAP_KITTY_KEYBOARD = 11"
definition CAP_COALESCE :: u8 where "CAP_COALESCE = 12"
definition CAP_SERVER_IDENT :: u8 where "CAP_SERVER_IDENT = 13"
definition CAP_SERVER_STATE :: u8 where "CAP_SERVER_STATE = 14"
definition CAP_SESSION_ACTIVITY :: u8 where "CAP_SESSION_ACTIVITY = 15"
definition CAP_CLIENT_IDENT :: u8 where "CAP_CLIENT_IDENT = 16"
definition CAP_CLIENT_STATE :: u8 where "CAP_CLIENT_STATE = 17"
definition CAP_CLIENT_UPSTREAM :: u8 where "CAP_CLIENT_UPSTREAM = 18"
definition CAP_EXIT_CAUSE :: u8 where "CAP_EXIT_CAUSE = 19"
definition CAP_SESSION_KIND :: u8 where "CAP_SESSION_KIND = 20"
definition CAP_PUSH_CMD :: u8 where "CAP_PUSH_CMD = 21"
definition CAP_PUSH_CMD_REQUEST :: u8 where "CAP_PUSH_CMD_REQUEST = 22"
definition CAP_PACED :: u8 where "CAP_PACED = 23"
definition CAP_SCROLLBACK2_EXTENT :: u8 where "CAP_SCROLLBACK2_EXTENT = 24"
definition CAP_DIAG :: u8 where "CAP_DIAG = 224"
definition CAP_METRICS :: u8 where "CAP_METRICS = 225"
definition PACED_VERSION :: u8 where "PACED_VERSION = 1"
definition SCROLLBACK2_EXTENT_VERSION :: u8 where "SCROLLBACK2_EXTENT_VERSION = 1"
definition PROTOCOL_VERSION :: u8 where "PROTOCOL_VERSION = 1"

record cap =
  cap_id :: u8
  payload :: bytes

section \<open>The table\<close>

definition encode_entry :: "cap \<Rightarrow> bytes" where
  "encode_entry c = cap_id c # of_nat (length (payload c)) # payload c"

definition encode_table :: "cap list \<Rightarrow> bytes" where
  "encode_table caps = of_nat (length caps) # concat (map encode_entry caps)"

text \<open>The loop of \<open>decode_table\<close>: \<open>n\<close> entries still to read at offset \<open>at\<close>.\<close>

fun decode_entries :: "nat \<Rightarrow> bytes \<Rightarrow> nat \<Rightarrow> (cap list \<times> nat) result" where
  "decode_entries 0 data at = Inr ([], at)"
| "decode_entries (Suc n) data at =
     (case (get_at data at, get_at data (at + 1)) of
        (Some i, Some len) \<Rightarrow>
          (case get_slice data (at + 2) (at + 2 + unat len) of
             None \<Rightarrow> Inl ''capability payload truncated''
           | Some p \<Rightarrow>
               (case decode_entries n data (at + 2 + unat len) of
                  Inl e \<Rightarrow> Inl e
                | Inr (cs, end) \<Rightarrow> Inr (\<lparr>cap_id = i, payload = p\<rparr> # cs, end)))
      | _ \<Rightarrow> Inl ''capability entry truncated'')"

definition decode_table :: "bytes \<Rightarrow> (cap list \<times> nat) result" where
  "decode_table data = (case data of
       [] \<Rightarrow> Inl ''capability table truncated''
     | count # _ \<Rightarrow> decode_entries (unat count) data 1)"

definition own_table :: "cap list \<Rightarrow> cap list" where
  "own_table extra = \<lparr>cap_id = CAP_PROTOCOL_VERSION, payload = [PROTOCOL_VERSION]\<rparr> # extra"

definition find_cap :: "cap list \<Rightarrow> u8 \<Rightarrow> cap option" where
  "find_cap caps i = find (\<lambda>c. cap_id c = i) caps"

definition find_all :: "cap list \<Rightarrow> u8 \<Rightarrow> cap list" where
  "find_all caps i = filter (\<lambda>c. cap_id c = i) caps"

section \<open>Why a session ended\<close>

datatype session_end = Exited | Killed | Signaled u8 | Failed

fun encode_exit_cause :: "session_end \<Rightarrow> bytes" where
  "encode_exit_cause Exited = [1]"
| "encode_exit_cause Killed = [2]"
| "encode_exit_cause (Signaled signo) = [3, signo]"
| "encode_exit_cause Failed = [4]"

definition decode_exit_cause :: "bytes \<Rightarrow> session_end option" where
  "decode_exit_cause p = (case p of
       [] \<Rightarrow> None
     | k # rest \<Rightarrow>
         (if k = 1 then Some Exited
          else if k = 2 then Some Killed
          else if k = 3 then (case rest of signo # _ \<Rightarrow> Some (Signaled signo) | [] \<Rightarrow> None)
          else if k = 4 then Some Failed
          else None))"

section \<open>Identity and activity\<close>

record server_ident =
  version :: bytes
  git_sha :: bytes
  pid :: u32
  start_unix_ms :: u64

definition SERVER_IDENT_FMT :: u8 where "SERVER_IDENT_FMT = 1"

text \<open>A length byte and the string, as the identity and activity payloads hold them.\<close>

definition put_str :: "bytes \<Rightarrow> bytes" where
  "put_str s = of_nat (length s) # s"

text \<open>The decoders' \<open>take_str\<close>: the string at an offset, lossily decoded, and the offset after it.\<close>

definition take_str :: "bytes \<Rightarrow> nat \<Rightarrow> (bytes \<times> nat) option" where
  "take_str p off = (case get_at p off of
       None \<Rightarrow> None
     | Some len \<Rightarrow>
         (case get_slice p (off + 1) (off + 1 + unat len) of
            None \<Rightarrow> None
          | Some s \<Rightarrow> Some (utf8_lossy s, off + 1 + unat len)))"

definition encode_server_ident :: "server_ident \<Rightarrow> cap" where
  "encode_server_ident x =
     \<lparr>cap_id = CAP_SERVER_IDENT,
      payload = [SERVER_IDENT_FMT] @ le_bytes 4 (pid x) @ le_bytes 8 (start_unix_ms x) @
        put_str (take 80 (version x)) @ put_str (take 80 (git_sha x))\<rparr>"

definition decode_server_ident :: "bytes \<Rightarrow> server_ident result" where
  "decode_server_ident p =
     (let err = Inl ''malformed SERVER_IDENT payload'' in
      if length p < 14 \<or> p ! 0 \<noteq> SERVER_IDENT_FMT then err
      else case take_str p 13 of
        None \<Rightarrow> err
      | Some (ver, off) \<Rightarrow>
          (case take_str p off of
             None \<Rightarrow> err
           | Some (sha, end) \<Rightarrow>
               if end \<noteq> length p then err
               else Inr \<lparr>version = ver, git_sha = sha, pid = le_val (subslice 1 5 p),
                         start_unix_ms = le_val (subslice 5 13 p)\<rparr>))"

record session_activity =
  process :: bytes
  title :: bytes

definition SESSION_ACTIVITY_FMT :: u8 where "SESSION_ACTIVITY_FMT = 1"

text \<open>\<open>str::is_char_boundary\<close>, and the loop that steps back to one.\<close>

definition is_char_boundary :: "bytes \<Rightarrow> nat \<Rightarrow> bool" where
  "is_char_boundary s i \<longleftrightarrow>
     i = 0 \<or> (if length s \<le> i then i = length s else \<not> is_cont (s ! i))"

fun boundary_below :: "bytes \<Rightarrow> nat \<Rightarrow> nat" where
  "boundary_below s 0 = 0"
| "boundary_below s (Suc n) = (if is_char_boundary s (Suc n) then Suc n else boundary_below s n)"

definition clamp_activity :: "bytes \<Rightarrow> bytes" where
  "clamp_activity s = take (boundary_below s (min (length s) 128)) s"

definition encode_session_activity :: "session_activity \<Rightarrow> cap" where
  "encode_session_activity a =
     \<lparr>cap_id = CAP_SESSION_ACTIVITY,
      payload = [SESSION_ACTIVITY_FMT] @ put_str (clamp_activity (process a)) @
        put_str (clamp_activity (title a))\<rparr>"

definition decode_session_activity :: "bytes \<Rightarrow> session_activity result" where
  "decode_session_activity p =
     (let err = Inl ''malformed SESSION_ACTIVITY payload'' in
      if get_at p 0 \<noteq> Some SESSION_ACTIVITY_FMT then err
      else case take_str p 1 of
        None \<Rightarrow> err
      | Some (proc, off) \<Rightarrow>
          (case take_str p off of
             None \<Rightarrow> err
           | Some (ttl, end) \<Rightarrow>
               if end \<noteq> length p then err else Inr \<lparr>process = proc, title = ttl\<rparr>))"

section \<open>Session kind\<close>

datatype session_kind = Unknown | Anonymous | Named | System

fun kind_to_byte :: "session_kind \<Rightarrow> u8" where
  "kind_to_byte Unknown = 0"
| "kind_to_byte Anonymous = 1"
| "kind_to_byte Named = 2"
| "kind_to_byte System = 3"

definition kind_from_byte :: "u8 \<Rightarrow> session_kind" where
  "kind_from_byte b = (if b = 1 then Anonymous else if b = 2 then Named else if b = 3 then System else Unknown)"

fun kind_as_str :: "session_kind \<Rightarrow> bytes" where
  "kind_as_str Unknown = ascii ''unknown''"
| "kind_as_str Anonymous = ascii ''anonymous''"
| "kind_as_str Named = ascii ''named''"
| "kind_as_str System = ascii ''system''"

definition kind_parse :: "bytes \<Rightarrow> session_kind option" where
  "kind_parse s = (if s = ascii ''anonymous'' then Some Anonymous
     else if s = ascii ''named'' then Some Named else None)"

definition encode_session_kind :: "session_kind \<Rightarrow> cap" where
  "encode_session_kind k = \<lparr>cap_id = CAP_SESSION_KIND, payload = [kind_to_byte k]\<rparr>"

definition decode_session_kind :: "bytes \<Rightarrow> session_kind option" where
  "decode_session_kind p = (case p of [b] \<Rightarrow> Some (kind_from_byte b) | _ \<Rightarrow> None)"

section \<open>Requests and versions\<close>

definition encode_push_cmd :: cap where
  "encode_push_cmd = \<lparr>cap_id = CAP_PUSH_CMD, payload = []\<rparr>"

definition encode_push_cmd_request :: "u64 \<Rightarrow> cap" where
  "encode_push_cmd_request token = \<lparr>cap_id = CAP_PUSH_CMD_REQUEST, payload = be_bytes 8 token\<rparr>"

definition decode_push_cmd_request :: "bytes \<Rightarrow> u64 option" where
  "decode_push_cmd_request p = (case get_slice p 0 8 of
       None \<Rightarrow> None
     | Some t \<Rightarrow> (let token = be_val t in if token \<noteq> 0 then Some token else None))"

definition encode_paced :: cap where
  "encode_paced = \<lparr>cap_id = CAP_PACED, payload = [PACED_VERSION]\<rparr>"

definition decode_paced :: "bytes \<Rightarrow> u8 option" where
  "decode_paced p = opt_filter (\<lambda>v. v \<noteq> 0) (get_at p 0)"

definition decode_kitty_keyboard :: "bytes \<Rightarrow> u8 option" where
  "decode_kitty_keyboard p = (case p of [flags] \<Rightarrow> Some (flags AND 0x1F) | _ \<Rightarrow> None)"

section \<open>Scrollback v2 entries\<close>

record scrollback2_client =
  ring_depth :: u8
  sb2_epoch :: u8
  acked_rows :: u64

definition encode_scrollback2_client :: "scrollback2_client \<Rightarrow> cap" where
  "encode_scrollback2_client c =
     \<lparr>cap_id = CAP_SCROLLBACK2, payload = [ring_depth c, sb2_epoch c] @ le_bytes 8 (acked_rows c)\<rparr>"

definition decode_scrollback2_client :: "bytes \<Rightarrow> scrollback2_client result" where
  "decode_scrollback2_client p =
     (if length p \<noteq> 10 then Inl ''SCROLLBACK2 client payload is not 10 bytes''
      else Inr \<lparr>ring_depth = p ! 0, sb2_epoch = p ! 1, acked_rows = le_val (subslice 2 10 p)\<rparr>)"

definition encode_scrollback2_ack :: "u8 \<Rightarrow> cap" where
  "encode_scrollback2_ack ep = \<lparr>cap_id = CAP_SCROLLBACK2, payload = [0x02, ep]\<rparr>"

definition decode_scrollback2_ack :: "bytes \<Rightarrow> u8 result" where
  "decode_scrollback2_ack p =
     (if length p \<noteq> 2 \<or> p ! 0 \<noteq> 0x02 then Inl ''SCROLLBACK2 ack payload is not {0x02, epoch}''
      else Inr (p ! 1))"

record scrollback2_extent =
  ext_epoch :: u8
  avail_rows :: u64
  evicted_upto :: u64

definition extent_merge :: "scrollback2_extent \<Rightarrow> scrollback2_extent \<Rightarrow> scrollback2_extent" where
  "extent_merge x newer = x\<lparr>avail_rows := max (avail_rows x) (avail_rows newer),
     evicted_upto := max (evicted_upto x) (evicted_upto newer)\<rparr>"

definition SCROLLBACK2_EXTENT_V1_LEN :: nat where "SCROLLBACK2_EXTENT_V1_LEN = 18"

definition encode_scrollback2_extent_request :: cap where
  "encode_scrollback2_extent_request =
     \<lparr>cap_id = CAP_SCROLLBACK2_EXTENT, payload = [SCROLLBACK2_EXTENT_VERSION]\<rparr>"

definition decode_scrollback2_extent_request :: "bytes \<Rightarrow> u8 option" where
  "decode_scrollback2_extent_request p = opt_filter (\<lambda>v. v \<noteq> 0) (get_at p 0)"

definition encode_scrollback2_extent :: "scrollback2_extent \<Rightarrow> cap" where
  "encode_scrollback2_extent x =
     \<lparr>cap_id = CAP_SCROLLBACK2_EXTENT,
      payload = [SCROLLBACK2_EXTENT_VERSION, ext_epoch x] @ le_bytes 8 (avail_rows x) @
        le_bytes 8 (evicted_upto x)\<rparr>"

definition decode_scrollback2_extent :: "bytes \<Rightarrow> scrollback2_extent option" where
  "decode_scrollback2_extent payload_bytes =
     (case get_slice payload_bytes 0 SCROLLBACK2_EXTENT_V1_LEN of
        None \<Rightarrow> None
      | Some p \<Rightarrow>
          if p ! 0 = 0 then None
          else Some \<lparr>ext_epoch = p ! 1, avail_rows = le_val (subslice 2 10 p),
                     evicted_upto = le_val (subslice 10 18 p)\<rparr>)"

section \<open>Agent-stream entries\<close>

definition AGENT_DATA_OFFSET_LEN :: nat where "AGENT_DATA_OFFSET_LEN = 8"
definition AGENT_DATA_MAX :: nat where "AGENT_DATA_MAX = 255 - AGENT_DATA_OFFSET_LEN"
definition MAX_AGENT_DATA_CAPS :: nat where "MAX_AGENT_DATA_CAPS = 239"

text \<open>\<open>data.chunks(n)\<close> for a positive \<open>n\<close>.\<close>

function chunks :: "nat \<Rightarrow> 'a list \<Rightarrow> 'a list list" where
  "chunks n xs = (if xs = [] \<or> n = 0 then [] else take n xs # chunks n (drop n xs))"
  by pat_completeness auto
termination
  by (relation "measure (\<lambda>(_, xs). length xs)") auto

declare chunks.simps [simp del]

fun agent_caps :: "u64 \<Rightarrow> bytes list \<Rightarrow> cap list" where
  "agent_caps offset [] = []"
| "agent_caps offset (chunk # rest) =
     \<lparr>cap_id = CAP_AGENT_DATA, payload = be_bytes 8 offset @ chunk\<rparr> #
     agent_caps (offset + of_nat (length chunk)) rest"

definition encode_agent_data :: "u64 \<Rightarrow> bytes \<Rightarrow> cap list" where
  "encode_agent_data base data = agent_caps base (take MAX_AGENT_DATA_CAPS (chunks AGENT_DATA_MAX data))"

definition decode_agent_data :: "bytes \<Rightarrow> (u64 \<times> bytes) result" where
  "decode_agent_data p = (case get_slice p 0 8 of
       None \<Rightarrow> Inl ''AGENT_DATA payload shorter than offset prefix''
     | Some h \<Rightarrow> Inr (be_val h, drop 8 p))"

definition encode_agent_ack :: "u64 \<Rightarrow> cap" where
  "encode_agent_ack offset = \<lparr>cap_id = CAP_AGENT_ACK, payload = be_bytes 8 offset\<rparr>"

definition decode_agent_ack :: "bytes \<Rightarrow> u64 result" where
  "decode_agent_ack p =
     (if length p = 8 then Inr (be_val p) else Inl ''AGENT_ACK payload is not a u64'')"

section \<open>Diagnostics\<close>

record agent_diag =
  live_channels :: u32
  next_channel_id :: u32
  symlink_ok :: bool
  bytes_sent :: u64
  bytes_queued :: u64

record server_diag =
  diag_current_num :: u64
  diag_acked_num :: u64
  term_gen :: u64
  outstanding :: u32
  pty_open :: bool
  diag_pid :: u32
  agent :: "agent_diag option"

definition bool_byte :: "bool \<Rightarrow> u8" where
  "bool_byte b = (if b then 1 else 0)"

definition agent_resent :: "agent_diag \<Rightarrow> u64" where
  "agent_resent a = (if bytes_queued a \<le> bytes_sent a then bytes_sent a - bytes_queued a else 0)"

definition encode_server_diag :: "server_diag \<Rightarrow> cap" where
  "encode_server_diag d =
     \<lparr>cap_id = CAP_DIAG,
      payload = be_bytes 8 (diag_current_num d) @ be_bytes 8 (diag_acked_num d) @ be_bytes 8 (term_gen d) @
        be_bytes 4 (outstanding d) @ [bool_byte (pty_open d)] @ be_bytes 4 (diag_pid d) @
        (case agent d of
           None \<Rightarrow> []
         | Some a \<Rightarrow> be_bytes 4 (live_channels a) @ be_bytes 4 (next_channel_id a) @
             [bool_byte (symlink_ok a)] @ be_bytes 8 (bytes_sent a) @ be_bytes 8 (bytes_queued a))\<rparr>"

definition decode_server_diag :: "bytes \<Rightarrow> server_diag result" where
  "decode_server_diag p =
     (let u64_at = (\<lambda>k. be_val (subslice k (k + 8) p) :: u64);
          u32_at = (\<lambda>k. be_val (subslice k (k + 4) p) :: u32);
          shape = (if length p = 29 then Some (0, None, False)
                   else if length p = 33 then Some (u32_at 29, None, False)
                   else if length p = 38 then Some (0, Some 29, False)
                   else if length p = 42 then Some (u32_at 29, Some 33, False)
                   else if length p = 58 then Some (u32_at 29, Some 33, True)
                   else None)
      in case shape of
           None \<Rightarrow> Inl ''CAP_DIAG payload is not 29/33/38/42/58 bytes''
         | Some (the_pid, agent_off, counters) \<Rightarrow>
             Inr \<lparr>diag_current_num = u64_at 0, diag_acked_num = u64_at 8, term_gen = u64_at 16,
                  outstanding = u32_at 24, pty_open = (p ! 28 \<noteq> 0), diag_pid = the_pid,
                  agent = map_option (\<lambda>k. \<lparr>live_channels = u32_at k, next_channel_id = u32_at (k + 4),
                    symlink_ok = (p ! (k + 8) \<noteq> 0),
                    bytes_sent = (if counters then u64_at (k + 9) else 0),
                    bytes_queued = (if counters then u64_at (k + 17) else 0)\<rparr>) agent_off\<rparr>)"

definition METRICS_FIELDS :: nat where "METRICS_FIELDS = 7"
definition METRICS_VERSION :: u8 where "METRICS_VERSION = 2"

text \<open>The fields are the bit patterns of the \<open>f64\<close>s.\<close>

definition encode_metrics :: "u64 list \<Rightarrow> cap" where
  "encode_metrics fs =
     \<lparr>cap_id = CAP_METRICS, payload = METRICS_VERSION # concat (map (le_bytes 8) fs)\<rparr>"

definition decode_metrics :: "bytes \<Rightarrow> u64 list option" where
  "decode_metrics p =
     (if get_at p 0 \<noteq> Some METRICS_VERSION then None
      else map_option (\<lambda>body. map le_val (chunks 8 body)) (get_slice p 1 (1 + 8 * METRICS_FIELDS)))"

end
