(* ===== verification/CapsFacts.thy ===== *)
theory CapsFacts
  imports Caps
begin

text \<open>
  Round trips of the capability table and of its entries: what is encoded decodes to itself, and the
  table decoder accepts nothing but encodings.
\<close>

section \<open>The table\<close>

definition cap_fits :: "cap \<Rightarrow> bool" where
  "cap_fits c \<longleftrightarrow> length (payload c) \<le> 255"

lemma get_at_prefix: "i = length pre + k \<Longrightarrow> get_at (pre @ xs) i = get_at xs k"
  by simp

lemma get_slice_prefix:
  "lo = length pre + a \<Longrightarrow> hi = length pre + b \<Longrightarrow> get_slice (pre @ xs) lo hi = get_slice xs a b"
  by (simp add: get_slice_def subslice_def)

lemma get_slice_front: "n = length xs \<Longrightarrow> get_slice (xs @ ys) 0 n = Some xs"
  by (simp add: get_slice_def subslice_def)

lemma unat_length_byte: "length xs \<le> 255 \<Longrightarrow> unat (of_nat (length xs) :: u8) = length xs"
  by simp

lemma decode_entries_encode:
  assumes "\<forall>c \<in> set caps. cap_fits c"
  shows "decode_entries (length caps) (pre @ concat (map encode_entry caps) @ rest) (length pre) =
    Inr (caps, length pre + length (concat (map encode_entry caps)))"
  using assms
proof (induction caps arbitrary: pre)
  case (Cons c caps)
  let ?d = "pre @ concat (map encode_entry (c # caps)) @ rest"
  have l: "unat (of_nat (length (payload c)) :: u8) = length (payload c)"
    using Cons.prems by (intro unat_length_byte) (simp add: cap_fits_def)
  have a: "get_at ?d (length pre) = Some (cap_id c)" "get_at ?d (length pre + 1) = Some (of_nat (length (payload c)))"
    by (simp_all only: get_at_prefix [of _ _ 0] get_at_prefix [of _ _ 1] Nat.add_0_right)
      (simp_all add: encode_entry_def)
  have "get_slice ?d (length pre + 2) (length pre + 2 + length (payload c)) =
      get_slice ((cap_id c # of_nat (length (payload c)) # payload c) @ concat (map encode_entry caps) @ rest)
        2 (2 + length (payload c))"
    by (subst get_slice_prefix [of _ _ 2 _ "2 + length (payload c)"]) (simp_all add: encode_entry_def)
  also have "\<dots> = Some (payload c)" by (simp add: get_slice_def subslice_def)
  finally have s: "get_slice ?d (length pre + 2) (length pre + 2 + length (payload c)) = Some (payload c)" .
  have "decode_entries (length caps) ((pre @ encode_entry c) @ concat (map encode_entry caps) @ rest)
      (length (pre @ encode_entry c)) =
      Inr (caps, length (pre @ encode_entry c) + length (concat (map encode_entry caps)))"
    using Cons by (intro Cons.IH) simp
  then have r: "decode_entries (length caps) ?d (length pre + 2 + length (payload c)) =
      Inr (caps, length pre + length (concat (map encode_entry (c # caps))))"
    by (simp add: encode_entry_def)
  show ?case
    using a s r l by (simp only: list.size decode_entries.simps add_Suc_right add_0_right) simp
qed simp

lemma decode_entries_canonical:
  "decode_entries n data at = Inr (caps, end) \<Longrightarrow> at \<le> length data \<Longrightarrow>
     length caps = n \<and> at \<le> end \<and> end \<le> length data \<and> (\<forall>c \<in> set caps. cap_fits c) \<and>
     subslice at end data = concat (map encode_entry caps)"
proof (induction n arbitrary: "at" caps "end")
  case 0
  then show ?case by (simp add: subslice_def)
next
  case (Suc n)
  from Suc.prems obtain i len p cs where
    d: "get_at data at = Some i" "get_at data (at + 1) = Some len"
      "get_slice data (at + 2) (at + 2 + unat len) = Some p"
      "decode_entries n data (at + 2 + unat len) = Inr (cs, end)" "caps = \<lparr>cap_id = i, payload = p\<rparr> # cs"
    by (auto split: option.splits sum.splits)
  have p: "at + 2 + unat len \<le> length data" "p = subslice (at + 2) (at + 2 + unat len) data"
    using d(3) by (auto simp: get_slice_def split: if_splits)
  with Suc.IH [OF d(4)] have ih: "length cs = n" "at + 2 + unat len \<le> end" "end \<le> length data"
    "\<forall>c \<in> set cs. cap_fits c" "subslice (at + 2 + unat len) end data = concat (map encode_entry cs)"
    by auto
  have lp: "length p = unat len" using p by simp
  have "drop at data = i # len # drop (at + 2) data"
    using d(1,2) by (auto simp: get_at_def Cons_nth_drop_Suc split: if_splits)
  then have "subslice at end data = i # len # take (end - (at + 2)) (drop (at + 2) data)"
    using ih(2) by (simp add: subslice_def take_Cons' numeral_2_eq_2)
  also have "take (end - (at + 2)) (drop (at + 2) data) = p @ subslice (at + 2 + unat len) end data"
  proof -
    have "end - (at + 2) = unat len + (end - (at + 2 + unat len))" using ih(2) by simp
    then show ?thesis unfolding p(2) subslice_def by (simp add: take_add add.commute add.left_commute)
  qed
  finally have "subslice at end data = concat (map encode_entry caps)"
    using ih(5) lp d(5) by (simp add: encode_entry_def)
  moreover have "cap_fits \<lparr>cap_id = i, payload = p\<rparr>" using lp unat_lt8 [of len] by (simp add: cap_fits_def)
  ultimately show ?case using ih d(5) by auto
qed

text \<open>
  C7. The capability table's two directions agree. A table of at most 255 entries of at most 255
  payload bytes decodes to its entries and length whatever follows it in the message; and every input
  the decoder accepts begins with the encoding of what it returned, whose length is what it reports.
\<close>

theorem caps_table_exact:
  "decode_table data = Inr (caps, n) \<longleftrightarrow>
     length caps \<le> 255 \<and> list_all cap_fits caps \<and> n = length (encode_table caps) \<and>
     take n data = encode_table caps"
proof
  assume d: "decode_table data = Inr (caps, n)"
  then obtain c ds where c: "data = c # ds" by (auto simp: decode_table_def split: list.splits)
  with d have e: "decode_entries (unat c) data 1 = Inr (caps, n)" by (simp add: decode_table_def)
  from decode_entries_canonical [OF e] c have f: "length caps = unat c" "1 \<le> n" "n \<le> length data"
    "\<forall>c \<in> set caps. cap_fits c" "subslice 1 n data = concat (map encode_entry caps)" by auto
  have "take n data = c # subslice 1 n data" using c f(2) by (cases n) (simp_all add: subslice_def)
  also have "c = of_nat (length caps)" using f(1) by simp
  finally have t: "take n data = encode_table caps" using f(5) by (simp add: encode_table_def)
  moreover have "n = length (encode_table caps)" using t f(3) by (metis length_take min_absorb2)
  ultimately show "length caps \<le> 255 \<and> list_all cap_fits caps \<and> n = length (encode_table caps) \<and>
      take n data = encode_table caps"
    using f(1,4) unat_lt8 [of c] by (simp add: list_all_iff)
next
  assume a: "length caps \<le> 255 \<and> list_all cap_fits caps \<and> n = length (encode_table caps) \<and>
     take n data = encode_table caps"
  then have "data = encode_table caps @ drop n data" by (metis append_take_drop_id)
  then obtain rest where r: "data = of_nat (length caps) # concat (map encode_entry caps) @ rest"
    by (simp add: encode_table_def)
  have "decode_entries (length caps) ([of_nat (length caps)] @ concat (map encode_entry caps) @ rest)
      (length [of_nat (length caps) :: u8]) = Inr (caps, length [of_nat (length caps) :: u8] +
        length (concat (map encode_entry caps)))"
    using a by (intro decode_entries_encode) (simp add: list_all_iff)
  with a show "decode_table data = Inr (caps, n)"
    by (simp add: r decode_table_def encode_table_def)
qed

section \<open>Agent-stream chunks\<close>

lemma concat_chunks: "0 < n \<Longrightarrow> concat (chunks n xs) = xs"
  by (induction n xs rule: chunks.induct) (subst chunks.simps, simp)

lemma chunks_bounded: "c \<in> set (chunks n xs) \<Longrightarrow> 0 < length c \<and> length c \<le> n"
proof (induction n xs rule: chunks.induct)
  case (1 n xs)
  then show ?case by (subst (asm) (2) chunks.simps) (auto split: if_splits)
qed

lemma take_chunks: "0 < n \<Longrightarrow> concat (take k (chunks n xs)) = take (k * n) xs"
proof (induction k arbitrary: xs)
  case (Suc k)
  then show ?case
    by (subst chunks.simps) (auto simp: take_add [symmetric])
qed simp

text \<open>The chunk list a table carries, read back.\<close>

fun contiguous :: "u64 \<Rightarrow> (u64 \<times> bytes) list \<Rightarrow> bool" where
  "contiguous base [] = True"
| "contiguous base ((off, d) # rest) = (off = base \<and> contiguous (base + of_nat (length d)) rest)"

lemma decode_agent_caps:
  "\<exists>ds. map (\<lambda>c. decode_agent_data (payload c)) (agent_caps base cs) = map Inr ds \<and>
     contiguous base ds \<and> map snd ds = cs"
proof (induction cs arbitrary: base)
  case (Cons c cs)
  from Cons.IH [of "base + of_nat (length c)"] obtain ds where
    ds: "map (\<lambda>c. decode_agent_data (payload c)) (agent_caps (base + of_nat (length c)) cs) = map Inr ds"
      "contiguous (base + of_nat (length c)) ds" "map snd ds = cs" by blast
  have "decode_agent_data (be_bytes 8 base @ c) = Inr (base, c)"
    by (simp add: decode_agent_data_def get_slice_front)
  with ds show ?case by (intro exI [of _ "(base, c) # ds"]) simp
qed simp

text \<open>
  C13. Agent data survives its ride in the table. The entries made of a stream run fit the table (at
  most 239 entries of at most 255 bytes), and decoded in order they are contiguous chunks starting at
  the run's base whose contents are the run's first 59033 bytes.
\<close>

lemma agent_data_roundtrip:
  "length (encode_agent_data base data) \<le> MAX_AGENT_DATA_CAPS \<and>
   list_all cap_fits (encode_agent_data base data) \<and>
   (\<exists>ds. map (\<lambda>c. decode_agent_data (payload c)) (find_all (encode_agent_data base data) CAP_AGENT_DATA) = map Inr ds \<and>
     contiguous base ds \<and> concat (map snd ds) = take (MAX_AGENT_DATA_CAPS * AGENT_DATA_MAX) data)"
proof -
  let ?cs = "take MAX_AGENT_DATA_CAPS (chunks AGENT_DATA_MAX data)"
  have len: "length (agent_caps b cs) = length cs" for b cs by (induction cs arbitrary: b) simp_all
  have ids: "find_all (agent_caps b cs) CAP_AGENT_DATA = agent_caps b cs" for b cs
    by (induction cs arbitrary: b) (simp_all add: find_all_def)
  have fits: "list_all cap_fits (agent_caps b cs)" if "\<forall>c \<in> set cs. length c \<le> AGENT_DATA_MAX" for b cs
    using that by (induction cs arbitrary: b)
      (simp_all add: cap_fits_def AGENT_DATA_MAX_def AGENT_DATA_OFFSET_LEN_def)
  have "concat ?cs = take (MAX_AGENT_DATA_CAPS * AGENT_DATA_MAX) data"
    by (rule take_chunks) (simp add: AGENT_DATA_MAX_def AGENT_DATA_OFFSET_LEN_def)
  moreover have "\<forall>c \<in> set ?cs. length c \<le> AGENT_DATA_MAX"
    using chunks_bounded by (metis in_set_takeD)
  ultimately show ?thesis
    using decode_agent_caps [of base ?cs] fits [of ?cs base]
    unfolding encode_agent_data_def ids by (auto simp: len)
qed

section \<open>Fixed-layout entries\<close>

lemma bool_byte_neq0 [simp]: "bool_byte b \<noteq> 0 \<longleftrightarrow> b"
  by (simp add: bool_byte_def)

lemma server_diag_core: "length (payload (encode_server_diag d)) = (if agent d = None then 33 else 58)"
  by (simp add: encode_server_diag_def split: option.splits)

lemma server_diag_roundtrip: "decode_server_diag (payload (encode_server_diag d)) = Inr d"
proof (cases "agent d")
  case None
  then show ?thesis
    using server_diag_core [of d]
    by (simp add: decode_server_diag_def Let_def)
      (simp add: encode_server_diag_def subslice_def nth_append)
next
  case (Some a)
  then show ?thesis
    using server_diag_core [of d]
    by (simp add: decode_server_diag_def Let_def)
      (simp add: encode_server_diag_def subslice_def nth_append)
qed

lemma exit_cause_roundtrip: "decode_exit_cause (encode_exit_cause e) = Some e"
  by (cases e) (simp_all add: decode_exit_cause_def)

lemma kind_roundtrip: "decode_session_kind (payload (encode_session_kind k)) = Some k"
  by (cases k) (simp_all add: decode_session_kind_def encode_session_kind_def kind_from_byte_def)

lemma scrollback2_client_roundtrip:
  "decode_scrollback2_client (payload (encode_scrollback2_client c)) = Inr c"
  by (simp add: decode_scrollback2_client_def encode_scrollback2_client_def subslice_def)

lemma scrollback2_extent_roundtrip:
  "decode_scrollback2_extent (payload (encode_scrollback2_extent x) @ later) = Some x"
  by (simp add: decode_scrollback2_extent_def encode_scrollback2_extent_def get_slice_def subslice_def
      SCROLLBACK2_EXTENT_V1_LEN_def SCROLLBACK2_EXTENT_VERSION_def)

lemma chunks_concat_fixed:
  assumes "0 < n" "\<forall>x \<in> set xs. length x = n"
  shows "chunks n (concat xs) = xs"
  using assms(2)
proof (induction xs)
  case (Cons x xs)
  then have "x \<noteq> []" using assms(1) by auto
  with Cons show ?case using assms(1) by (subst chunks.simps) simp
qed (simp add: chunks.simps)

lemma length_concat_fixed: "\<forall>x \<in> set xs. length x = n \<Longrightarrow> length (concat xs) = n * length xs"
  by (induction xs) auto

lemma metrics_roundtrip:
  assumes "length fs = METRICS_FIELDS"
  shows "decode_metrics (payload (encode_metrics fs)) = Some fs"
proof -
  have l: "length (concat (map (le_bytes 8) fs)) = 8 * METRICS_FIELDS"
    using length_concat_fixed [of "map (le_bytes 8) fs" 8] assms by simp
  have "chunks 8 (concat (map (le_bytes 8) fs)) = map (le_bytes 8) fs"
    by (rule chunks_concat_fixed) simp_all
  with l show ?thesis
    by (simp add: decode_metrics_def encode_metrics_def get_slice_def subslice_def o_def)
qed

text \<open>
  C18. Every fixed-layout entry decodes to what was encoded: the server's diagnostic state with and
  without its agent block, the scrollback v2 advertisement, acknowledgement and extent (the last also
  with fields a later version appends), the end cause, the session kind, a nonzero push token and the
  agent acknowledgement.
\<close>

lemma fixed_entries_roundtrip:
  "decode_server_diag (payload (encode_server_diag d)) = Inr d \<and>
   decode_scrollback2_client (payload (encode_scrollback2_client c)) = Inr c \<and>
   decode_scrollback2_ack (payload (encode_scrollback2_ack ep)) = Inr ep \<and>
   decode_scrollback2_extent (payload (encode_scrollback2_extent x) @ later) = Some x \<and>
   decode_exit_cause (encode_exit_cause e) = Some e \<and>
   decode_session_kind (payload (encode_session_kind k)) = Some k \<and>
   decode_push_cmd_request (payload (encode_push_cmd_request t) @ later) = (if t = 0 then None else Some t) \<and>
   decode_agent_ack (payload (encode_agent_ack t)) = Inr t"
  by (simp add: server_diag_roundtrip scrollback2_client_roundtrip scrollback2_extent_roundtrip
      exit_cause_roundtrip kind_roundtrip decode_scrollback2_ack_def encode_scrollback2_ack_def
      decode_push_cmd_request_def encode_push_cmd_request_def get_slice_front decode_agent_ack_def
      encode_agent_ack_def Let_def)

section \<open>Strings in entries\<close>

lemma utf8_valid_ascii: "list_all (\<lambda>b. b < 0x80) s \<Longrightarrow> utf8_valid s"
  by (induction s) (simp_all add: utf8_valid_step [of _ 1] utf8_scan_def)

lemma length_put_str [simp]: "length (put_str s) = Suc (length s)"
  by (simp add: put_str_def)

lemma take_str_put:
  assumes "length s \<le> 255" "utf8_valid s"
  shows "take_str (pre @ put_str s @ rest) (length pre) = Some (s, length pre + 1 + length s)"
proof -
  have l: "unat (of_nat (length s) :: u8) = length s" using assms(1) by (rule unat_length_byte)
  have "get_at (pre @ put_str s @ rest) (length pre) = Some (of_nat (length s))"
    by (subst get_at_prefix [of _ _ 0]) (simp_all add: put_str_def)
  moreover have "get_slice (pre @ put_str s @ rest) (length pre + 1) (length pre + 1 + length s) = Some s"
    by (subst get_slice_prefix [of _ _ 1 _ "1 + length s"]) (simp_all add: put_str_def get_slice_def subslice_def)
  ultimately show ?thesis
    unfolding take_str_def by (simp only: option.case l) (simp add: utf8_lossy_id [OF assms(2)])
qed

lemma take_str_put_at:
  "off = length pre \<Longrightarrow> length s \<le> 255 \<Longrightarrow> utf8_valid s \<Longrightarrow>
     take_str (pre @ put_str s @ rest) off = Some (s, off + 1 + length s)"
  using take_str_put by simp

text \<open>
  C16. An identity whose strings fit the 80-byte fields decodes to itself.
\<close>

lemma server_ident_roundtrip:
  assumes "length (version x) \<le> 80" "length (git_sha x) \<le> 80" "utf8_valid (version x)" "utf8_valid (git_sha x)"
  shows "decode_server_ident (payload (encode_server_ident x)) = Inr x"
proof -
  let ?h = "[SERVER_IDENT_FMT] @ le_bytes 4 (pid x) @ le_bytes 8 (start_unix_ms x)"
  let ?p = "?h @ put_str (version x) @ put_str (git_sha x)"
  have e: "payload (encode_server_ident x) = ?p" using assms(1,2) by (simp add: encode_server_ident_def)
  have v: "take_str ?p 13 = Some (version x, 14 + length (version x))"
    using take_str_put_at [of 13 ?h "version x" "put_str (git_sha x)"] assms by simp
  have g: "take_str ?p (14 + length (version x)) = Some (git_sha x, length ?p)"
    using take_str_put_at [of "14 + length (version x)" "?h @ put_str (version x)" "git_sha x" "[]"] assms
    by (simp add: put_str_def)
  have "length ?p \<ge> 14" by (simp add: put_str_def)
  then show ?thesis
    unfolding e decode_server_ident_def Let_def v g option.case prod.case
    by (simp add: subslice_def)
qed

lemma server_ident_roundtrip_witness:
  "decode_server_ident (payload (encode_server_ident
     \<lparr>version = [0x31, 0x2E, 0x32], git_sha = [0x61, 0x62], pid = 4711, start_unix_ms = 1700000000000\<rparr>)) =
   Inr \<lparr>version = [0x31, 0x2E, 0x32], git_sha = [0x61, 0x62], pid = 4711, start_unix_ms = 1700000000000\<rparr>"
  by (rule server_ident_roundtrip) (simp_all add: utf8_valid_ascii)

lemma boundary_below_ok: "n \<le> length s \<Longrightarrow> boundary_below s n \<le> n \<and> is_char_boundary s (boundary_below s n)"
  by (induction n) (auto simp: is_char_boundary_def)

lemma second_ok_cont: "second3_ok a b \<Longrightarrow> is_cont b" "second4_ok a b \<Longrightarrow> is_cont b"
  by (simp_all add: second3_nat second4_nat is_cont_nat)

lemma scan_tail:
  assumes "utf8_scan (a # r) = Inr n"
  shows "(2 \<le> n \<longrightarrow> is_cont (r ! 0)) \<and> (3 \<le> n \<longrightarrow> is_cont (r ! 1)) \<and> (4 \<le> n \<longrightarrow> is_cont (r ! 2))"
  using assms second_ok_cont
  by (simp add: utf8_scan_def opt_ok_def get_at_def split: if_splits)

lemma scan_conts:
  assumes "utf8_scan s = Inr n" "0 < i" "i < n"
  shows "is_cont (s ! i)"
proof (cases s)
  case Nil
  with assms show ?thesis by (simp add: utf8_scan_def)
next
  case (Cons a r)
  from assms utf8_scan_Inr_bounds [OF assms(1)] have "i = 1 \<or> i = 2 \<or> i = 3" by linarith
  with scan_tail [of a r n] assms Cons show ?thesis by (auto simp: nth_Cons')
qed

lemma utf8_valid_take_boundary:
  "utf8_valid s \<Longrightarrow> n \<le> length s \<Longrightarrow> is_char_boundary s n \<Longrightarrow> utf8_valid (take n s)"
proof (induction s arbitrary: n rule: utf8_valid.induct)
  case (1 s)
  show ?case
  proof (cases "s = [] \<or> n = 0")
    case True
    then show ?thesis by auto
  next
    case False
    with 1 obtain k where k: "utf8_scan s = Inr k" "utf8_valid (drop k s)"
      by (subst (asm) (2) utf8_valid.simps) (auto split: sum.splits)
    have kb: "0 < k" "k \<le> length s" using utf8_scan_Inr_bounds [OF k(1)] by auto
    have "k \<le> n"
    proof (rule ccontr)
      assume "\<not> k \<le> n"
      with False kb have "is_cont (s ! n)" "n < length s" using scan_conts [OF k(1), of n] by auto
      with 1(4) False show False by (simp add: is_char_boundary_def)
    qed
    moreover have "is_char_boundary (drop k s) (n - k)"
    proof (cases "n = length s")
      case True
      then show ?thesis by (simp add: is_char_boundary_def)
    next
      case l: False
      with 1(3,4) False have "\<not> is_cont (s ! n)" "n < length s" by (simp_all add: is_char_boundary_def)
      then show ?thesis using \<open>k \<le> n\<close> kb by (simp add: is_char_boundary_def)
    qed
    moreover have "n - k \<le> length (drop k s)" using 1(3) by simp
    moreover have "s \<noteq> []" using False by simp
    ultimately have "utf8_valid (take (n - k) (drop k s))" using 1(1) k by blast
    moreover have "take n s = take k s @ take (n - k) (drop k s)"
      using \<open>k \<le> n\<close> by (metis le_add_diff_inverse take_add)
    ultimately show ?thesis using utf8_valid_append [OF utf8_valid_one [OF k(1)]] by simp
  qed
qed

lemma clamp_activity_ok:
  "utf8_valid s \<Longrightarrow> utf8_valid (clamp_activity s) \<and> length (clamp_activity s) \<le> 128"
  using boundary_below_ok [of "min (length s) 128" s]
  by (auto simp: clamp_activity_def intro: utf8_valid_take_boundary)

lemma clamp_activity_short: "length s \<le> 128 \<Longrightarrow> clamp_activity s = s"
  by (cases "length s") (simp_all add: clamp_activity_def is_char_boundary_def)

text \<open>
  C17. An activity label survives its entry: whatever the process name and title, the decoder returns
  each cut to at most 128 bytes on a character boundary (so still valid UTF-8, a prefix of the string,
  and the whole of it when it fits).
\<close>

lemma session_activity_roundtrip:
  assumes "utf8_valid (process a)" "utf8_valid (title a)"
  shows "\<exists>p t. decode_session_activity (payload (encode_session_activity a)) = Inr \<lparr>process = p, title = t\<rparr> \<and>
    p = take (length p) (process a) \<and> t = take (length t) (title a) \<and> utf8_valid p \<and> utf8_valid t \<and>
    length p \<le> 128 \<and> length t \<le> 128 \<and>
    (length (process a) \<le> 128 \<longrightarrow> p = process a) \<and> (length (title a) \<le> 128 \<longrightarrow> t = title a)"
proof -
  let ?p = "clamp_activity (process a)" and ?t = "clamp_activity (title a)"
  let ?b = "[SESSION_ACTIVITY_FMT] @ put_str ?p @ put_str ?t"
  note p = clamp_activity_ok [OF assms(1)] and t = clamp_activity_ok [OF assms(2)]
  have "take_str ?b 1 = Some (?p, 2 + length ?p)"
    using take_str_put_at [of 1 "[SESSION_ACTIVITY_FMT]" ?p "put_str ?t"] p by simp
  moreover have "take_str ?b (2 + length ?p) = Some (?t, length ?b)"
    using take_str_put_at [of "2 + length ?p" "[SESSION_ACTIVITY_FMT] @ put_str ?p" ?t "[]"] t
    by (simp add: put_str_def)
  ultimately have "decode_session_activity ?b = Inr \<lparr>process = ?p, title = ?t\<rparr>"
    by (simp add: decode_session_activity_def Let_def)
  moreover have "clamp_activity s = take (length (clamp_activity s)) s" for s
    by (simp add: clamp_activity_def min_def)
  ultimately show ?thesis
    using p t clamp_activity_short by (intro exI [of _ ?p] exI [of _ ?t]) (simp add: encode_session_activity_def)
qed

lemma session_activity_roundtrip_witness:
  "\<exists>p t. decode_session_activity (payload (encode_session_activity
      \<lparr>process = [0x76, 0x69], title = replicate 127 0x61 @ [0xC3, 0xA9]\<rparr>)) = Inr \<lparr>process = p, title = t\<rparr> \<and>
    p = take (length p) [0x76, 0x69] \<and> t = take (length t) (replicate 127 0x61 @ [0xC3, 0xA9]) \<and>
    utf8_valid p \<and> utf8_valid t \<and> length p \<le> 128 \<and> length t \<le> 128 \<and>
    (length ([0x76, 0x69] :: bytes) \<le> 128 \<longrightarrow> p = [0x76, 0x69]) \<and>
    (length (replicate 127 0x61 @ [0xC3, 0xA9 :: u8]) \<le> 128 \<longrightarrow> t = replicate 127 0x61 @ [0xC3, 0xA9])"
proof -
  have "utf8_valid (replicate n 0x61)" for n by (simp add: utf8_valid_ascii list_all_iff)
  moreover have "utf8_valid [0xC3, 0xA9]"
    by (simp add: utf8_valid_step [of _ 2] utf8_scan_def opt_ok_def is_cont_def)
  ultimately have "utf8_valid (replicate 127 0x61 @ [0xC3, 0xA9])" by (rule utf8_valid_append)
  moreover have "utf8_valid [0x76, 0x69]" by (simp add: utf8_valid_ascii)
  ultimately show ?thesis
    using session_activity_roundtrip [of "\<lparr>process = [0x76, 0x69], title = replicate 127 0x61 @ [0xC3, 0xA9]\<rparr>"]
    by simp
qed

end
