(* ===== verification/Frame.thy ===== *)
theory Frame
  imports CapsFacts
begin

text \<open>
  \<open>crates/posh-proto/src/frame.rs\<close>: the prefix/suffix diff, the base checksum and the
  server-to-client frame, and the client-to-server \<open>ClientMessage\<close> of
  \<open>crates/posh/src/remote/sync.rs\<close>, which shares the flags byte and capability table. The decoders
  read the fixed fields from the rest of the datagram after the table.
\<close>

section \<open>The prefix/suffix diff\<close>

text \<open>A counting loop: \<open>while k < limit && p(k) { k += 1 }\<close>.\<close>

function count_while :: "(nat \<Rightarrow> bool) \<Rightarrow> nat \<Rightarrow> nat \<Rightarrow> nat" where
  "count_while p limit k = (if k < limit \<and> p k then count_while p limit (k + 1) else k)"
  by pat_completeness auto
termination
  by (relation "measure (\<lambda>(_, limit, k). limit - k)") auto

declare count_while.simps [simp del]

definition diff_prefix :: "bytes \<Rightarrow> bytes \<Rightarrow> nat" where
  "diff_prefix old new =
     count_while (\<lambda>i. old ! i = new ! i) (min (length old) (length new)) 0"

definition diff_suffix :: "bytes \<Rightarrow> bytes \<Rightarrow> nat" where
  "diff_suffix old new =
     count_while (\<lambda>i. old ! (length old - 1 - i) = new ! (length new - 1 - i))
       (min (length old) (length new) - diff_prefix old new) 0"

definition make_diff :: "bytes \<Rightarrow> bytes \<Rightarrow> bytes" where
  "make_diff old new =
     (let pre = diff_prefix old new; suf = diff_suffix old new
      in le_bytes 4 (of_nat pre :: u32) @ le_bytes 4 (of_nat suf :: u32) @
         subslice pre (length new - suf) new)"

definition apply_diff :: "bytes \<Rightarrow> bytes \<Rightarrow> bytes option" where
  "apply_diff old diff =
     (if length diff < 8 then None
      else (let pre = unat (le_val (subslice 0 4 diff) :: u32);
                suf = unat (le_val (subslice 4 8 diff) :: u32)
            in if pre + suf > length old then None
               else Some (take pre old @ drop 8 diff @ drop (length old - suf) old)))"

text \<open>FNV-1a.\<close>

definition base_checksum :: "bytes \<Rightarrow> u32" where
  "base_checksum bs = fold (\<lambda>b h. (h XOR ucast b) * 0x01000193) bs 0x811C9DC5"

section \<open>Flags and the capability table\<close>

definition HEARTBEAT_INTERVAL :: nat where "HEARTBEAT_INTERVAL = 3000"
definition FLAG_SHUTDOWN :: u8 where "FLAG_SHUTDOWN = 1"
definition FLAG_ECHO :: u8 where "FLAG_ECHO = 4"
definition FLAG_OVERLAY :: u8 where "FLAG_OVERLAY = 8"
definition FLAG_SERVER_LOG :: u8 where "FLAG_SERVER_LOG = 16"
definition FLAG_WEDGE :: u8 where "FLAG_WEDGE = 32"

definition flags_with_extension :: "u8 \<Rightarrow> cap list \<Rightarrow> u8" where
  "flags_with_extension flags table = (if table = [] then flags else flags OR FLAG_EXTENSION)"

definition decode_flags_and_caps :: "bytes \<Rightarrow> (u8 \<times> cap list \<times> nat) result" where
  "decode_flags_and_caps data = (case data of
       [] \<Rightarrow> Inl ''message too short''
     | first # rest \<Rightarrow>
         (if first AND FLAG_EXTENSION = 0 then Inr (first, [], 1)
          else case decode_table rest of
            Inl e \<Rightarrow> Inl e
          | Inr (table, used) \<Rightarrow> Inr (first AND NOT FLAG_EXTENSION, table, 1 + used)))"

text \<open>The head both messages encode: the flags byte and, when there is one, the table.\<close>

definition encode_head :: "u8 \<Rightarrow> cap list \<Rightarrow> bytes" where
  "encode_head flags caps =
     flags_with_extension flags caps # (if caps = [] then [] else encode_table caps)"

section \<open>Server frames\<close>

datatype frame_body =
    Full bytes
  | Diff u64 "u32 option" bytes
  | Empty
  | Morph u64 "u32 option" bytes
  | Scrollback u64 "bytes list"
  | Scrollback2 u8 u64 "bytes list"

record server_frame =
  flags :: u8
  caps :: "cap list"
  frame_num :: u64
  input_ack :: u64
  echo_ack :: u64
  body :: frame_body

definition BODY_FULL :: u8 where "BODY_FULL = 0"
definition BODY_DIFF :: u8 where "BODY_DIFF = 1"
definition BODY_EMPTY :: u8 where "BODY_EMPTY = 2"
definition BODY_SCROLLBACK :: u8 where "BODY_SCROLLBACK = 3"
definition BODY_MORPH :: u8 where "BODY_MORPH = 4"
definition BODY_DIFF_SUM :: u8 where "BODY_DIFF_SUM = 5"
definition BODY_MORPH_SUM :: u8 where "BODY_MORPH_SUM = 6"
definition BODY_SCROLLBACK2 :: u8 where "BODY_SCROLLBACK2 = 7"

lemmas body_tags = BODY_FULL_def BODY_DIFF_def BODY_EMPTY_def BODY_SCROLLBACK_def BODY_MORPH_def
  BODY_DIFF_SUM_def BODY_MORPH_SUM_def BODY_SCROLLBACK2_def

definition MAX_SCROLLBACK_ROWS :: nat where "MAX_SCROLLBACK_ROWS = 2 ^ 20"

definition encode_row :: "bytes \<Rightarrow> bytes" where
  "encode_row row = le_bytes 2 (of_nat (length row) :: u16) @ row"

definition encode_rows :: "bytes list \<Rightarrow> bytes" where
  "encode_rows rows = le_bytes 4 (of_nat (length rows) :: u32) @ concat (map encode_row rows)"

definition encode_sum :: "u32 option \<Rightarrow> bytes" where
  "encode_sum s = (case s of Some v \<Rightarrow> le_bytes 4 v | None \<Rightarrow> [])"

fun encode_body :: "frame_body \<Rightarrow> bytes" where
  "encode_body (Full bs) = BODY_FULL # bs"
| "encode_body (Diff base s diff) =
     (if s = None then BODY_DIFF else BODY_DIFF_SUM) # le_bytes 8 base @ encode_sum s @ diff"
| "encode_body (Morph base s esc) =
     (if s = None then BODY_MORPH else BODY_MORPH_SUM) # le_bytes 8 base @ encode_sum s @ esc"
| "encode_body Empty = [BODY_EMPTY]"
| "encode_body (Scrollback base rows) = BODY_SCROLLBACK # le_bytes 8 base @ encode_rows rows"
| "encode_body (Scrollback2 ep off rows) = BODY_SCROLLBACK2 # ep # le_bytes 8 off @ encode_rows rows"

definition encode_frame :: "server_frame \<Rightarrow> bytes" where
  "encode_frame f = encode_head (flags f) (caps f) @ le_bytes 8 (frame_num f) @
     le_bytes 8 (input_ack f) @ le_bytes 8 (echo_ack f) @ encode_body (body f)"

text \<open>
  The row loop of both scrollback bodies: \<open>n\<close> rows still to read from offset \<open>p\<close>. The
  label \<open>l\<close> starts the loop's error messages.
\<close>

fun decode_rows :: "string \<Rightarrow> nat \<Rightarrow> bytes \<Rightarrow> nat \<Rightarrow> bytes list result" where
  "decode_rows l 0 data p = Inr []"
| "decode_rows l (Suc n) data p =
     (case (get_at data p, get_at data (p + 1)) of
        (Some lo, Some hi) \<Rightarrow>
          (let len = unat (le_val [lo, hi] :: u16) in
           case get_slice data (p + 2) (p + 2 + len) of
             None \<Rightarrow> Inl (l @ '' row truncated'')
           | Some row \<Rightarrow>
               (case decode_rows l n data (p + 2 + len) of
                  Inl e \<Rightarrow> Inl e
                | Inr rows \<Rightarrow> Inr (row # rows)))
      | _ \<Rightarrow> Inl (l @ '' row header truncated''))"

text \<open>The count check before the loop, and the loop, at offset \<open>p\<close>.\<close>

definition decode_row_block :: "string \<Rightarrow> bytes \<Rightarrow> nat \<Rightarrow> bytes list result" where
  "decode_row_block l data p =
     (let appended = unat (le_val (subslice (p - 4) p data) :: u32)
      in if appended > MAX_SCROLLBACK_ROWS \<or> appended * 2 > length data - p
         then Inl (l @ '' row count exceeds body'')
         else decode_rows l appended data p)"

definition decode_body :: "bytes \<Rightarrow> frame_body result" where
  "decode_body d =
     (let kind = d ! 0; base = le_val (subslice 1 9 d) :: u64; s = le_val (subslice 9 13 d) :: u32
      in if kind = BODY_FULL then Inr (Full (drop 1 d))
         else if kind = BODY_DIFF then
           (if length d < 9 then Inl ''diff frame too short'' else Inr (Diff base None (drop 9 d)))
         else if kind = BODY_DIFF_SUM then
           (if length d < 13 then Inl ''diff-sum frame too short'' else Inr (Diff base (Some s) (drop 13 d)))
         else if kind = BODY_MORPH then
           (if length d < 9 then Inl ''morph frame too short'' else Inr (Morph base None (drop 9 d)))
         else if kind = BODY_MORPH_SUM then
           (if length d < 13 then Inl ''morph-sum frame too short'' else Inr (Morph base (Some s) (drop 13 d)))
         else if kind = BODY_EMPTY then Inr Empty
         else if kind = BODY_SCROLLBACK then
           (if length d < 13 then Inl ''scrollback frame too short''
            else case decode_row_block ''scrollback'' d 13 of Inl e \<Rightarrow> Inl e | Inr rows \<Rightarrow> Inr (Scrollback base rows))
         else if kind = BODY_SCROLLBACK2 then
           (if length d < 14 then Inl ''scrollback2 frame too short''
            else case decode_row_block ''scrollback2'' d 14 of
              Inl e \<Rightarrow> Inl e
            | Inr rows \<Rightarrow> Inr (Scrollback2 (d ! 1) (le_val (subslice 2 10 d)) rows))
         else Inl ''unknown frame body kind'')"

definition decode_frame :: "bytes \<Rightarrow> server_frame result" where
  "decode_frame data = (case decode_flags_and_caps data of
       Inl e \<Rightarrow> Inl e
     | Inr (fl, cs, at) \<Rightarrow>
         (if length data < at + 25 then Inl ''server frame too short''
          else case decode_body (drop (at + 24) data) of
            Inl e \<Rightarrow> Inl e
          | Inr b \<Rightarrow> Inr \<lparr>flags = fl, caps = cs, frame_num = le_val (subslice at (at + 8) data),
              input_ack = le_val (subslice (at + 8) (at + 16) data),
              echo_ack = le_val (subslice (at + 16) (at + 24) data), body = b\<rparr>))"

section \<open>Client messages\<close>

definition CLIENT_FLAG_SHUTDOWN :: u8 where "CLIENT_FLAG_SHUTDOWN = 1"
definition CLIENT_FLAG_ESCAPE :: u8 where "CLIENT_FLAG_ESCAPE = 4"
definition CLIENT_FLAG_LOG_ON :: u8 where "CLIENT_FLAG_LOG_ON = 8"
definition CLIENT_FLAG_LOG_OFF :: u8 where "CLIENT_FLAG_LOG_OFF = 16"
definition CLIENT_FLAG_RESYNC :: u8 where "CLIENT_FLAG_RESYNC = 32"

record client_message =
  msg_flags :: u8
  msg_caps :: "cap list"
  acked_frame :: u64
  rows :: u16
  cols :: u16
  input_base :: u64
  input :: bytes

definition encode_client_message :: "client_message \<Rightarrow> bytes" where
  "encode_client_message m = encode_head (msg_flags m) (msg_caps m) @ le_bytes 8 (acked_frame m) @
     le_bytes 2 (rows m) @ le_bytes 2 (cols m) @ le_bytes 8 (input_base m) @ input m"

definition decode_client_message :: "bytes \<Rightarrow> client_message result" where
  "decode_client_message data = (case decode_flags_and_caps data of
       Inl e \<Rightarrow> Inl e
     | Inr (fl, cs, at) \<Rightarrow>
         (if length data < at + 20 then Inl ''client message too short''
          else Inr \<lparr>msg_flags = fl, msg_caps = cs, acked_frame = le_val (subslice at (at + 8) data),
            rows = le_val [data ! (at + 8), data ! (at + 9)],
            cols = le_val [data ! (at + 10), data ! (at + 11)],
            input_base = le_val (subslice (at + 12) (at + 20) data),
            input = drop (at + 20) data\<rparr>))"

end
