(* ===== verification/FrameFacts.thy ===== *)
theory FrameFacts
  imports Frame
begin

text \<open>
  What the frame codec guarantees: a diff applied to its base gives the new dump, and frames and
  messages decode to what was encoded.
\<close>

section \<open>The diff\<close>

lemma count_while_bounds:
  "k \<le> limit \<Longrightarrow> k \<le> count_while p limit k \<and> count_while p limit k \<le> limit \<and>
     (\<forall>i. k \<le> i \<and> i < count_while p limit k \<longrightarrow> p i)"
proof (induction p limit k rule: count_while.induct)
  case (1 p limit k)
  show ?case
  proof (cases "k < limit \<and> p k")
    case True
    then have "count_while p limit k = count_while p limit (k + 1)" by (subst count_while.simps) simp
    with 1 True show ?thesis by (auto simp: Suc_le_eq) (metis le_neq_implies_less)
  next
    case False
    then have "count_while p limit k = k" by (subst count_while.simps) auto
    with 1 show ?thesis by auto
  qed
qed

lemma diff_prefix_ok:
  "diff_prefix old new \<le> length old" "diff_prefix old new \<le> length new"
  "take (diff_prefix old new) old = take (diff_prefix old new) new"
proof -
  note b = count_while_bounds [of 0 "min (length old) (length new)" "\<lambda>i. old ! i = new ! i"]
  show le: "diff_prefix old new \<le> length old" "diff_prefix old new \<le> length new"
    using b by (simp_all add: diff_prefix_def)
  show "take (diff_prefix old new) old = take (diff_prefix old new) new"
    using b le by (intro nth_equalityI) (auto simp: diff_prefix_def)
qed

lemma diff_suffix_ok:
  "diff_prefix old new + diff_suffix old new \<le> length old" "diff_prefix old new + diff_suffix old new \<le> length new"
  "drop (length old - diff_suffix old new) old = drop (length new - diff_suffix old new) new"
proof -
  note b = count_while_bounds [of 0 "min (length old) (length new) - diff_prefix old new"
      "\<lambda>i. old ! (length old - 1 - i) = new ! (length new - 1 - i)"]
  show le: "diff_prefix old new + diff_suffix old new \<le> length old"
    "diff_prefix old new + diff_suffix old new \<le> length new"
    using b diff_prefix_ok(1,2) [of old new] unfolding diff_suffix_def by linarith+
  let ?s = "diff_suffix old new"
  show "drop (length old - ?s) old = drop (length new - ?s) new"
  proof (rule nth_equalityI)
    fix i assume "i < length (drop (length old - ?s) old)"
    then have i: "i < ?s" using le by simp
    have all: "\<forall>i < ?s. old ! (length old - 1 - i) = new ! (length new - 1 - i)"
      using b unfolding diff_suffix_def by blast
    have "?s - 1 - i < ?s" using i by linarith
    with all have "old ! (length old - 1 - (?s - 1 - i)) = new ! (length new - 1 - (?s - 1 - i))" by blast
    moreover have "length old - 1 - (?s - 1 - i) = length old - ?s + i"
      "length new - 1 - (?s - 1 - i) = length new - ?s + i" using i le by linarith+
    ultimately show "drop (length old - ?s) old ! i = drop (length new - ?s) new ! i" using le i by simp
  qed (use le in simp)
qed

lemma diff_roundtrip_base:
  assumes "length old < 2 ^ 32"
  shows "apply_diff old (make_diff old new) = Some new"
proof -
  let ?p = "diff_prefix old new" and ?s = "diff_suffix old new"
  note p = diff_prefix_ok [of old new] and s = diff_suffix_ok [of old new]
  have u: "unat (of_nat ?p :: u32) = ?p" "unat (of_nat ?s :: u32) = ?s"
    using assms s(1) by simp_all
  have "take ?p old @ subslice ?p (length new - ?s) new @ drop (length old - ?s) old = new"
  proof -
    have "take ?p new @ subslice ?p (length new - ?s) new = take (length new - ?s) new"
      using s(2) by (simp add: subslice_def take_add [symmetric])
    then show ?thesis by (simp only: p(3) s(3) append.assoc [symmetric] append_take_drop_id)
  qed
  then show ?thesis
    using s(1) by (simp add: apply_diff_def make_diff_def Let_def u subslice_def)
qed

text \<open>
  C8. Applying the diff of two dumps to the old one gives the new one, for every old dump shorter
  than 4 GiB (the lengths are sent in 32 bits).
\<close>

theorem diff_roundtrip:
  assumes "length old < 2 ^ 32"
  shows "apply_diff old (make_diff old new) = Some new"
  using assms by (rule diff_roundtrip_base)

theorem diff_roundtrip_witness:
  "apply_diff [1, 2, 3, 4] (make_diff [1, 2, 3, 4] [1, 2, 9, 9, 4]) = Some [1, 2, 9, 9, 4]"
  by (rule diff_roundtrip) simp

section \<open>The head\<close>

definition head_fits :: "u8 \<Rightarrow> cap list \<Rightarrow> bool" where
  "head_fits fl cs \<longleftrightarrow> fl AND FLAG_EXTENSION = 0 \<and> length cs \<le> 255 \<and> list_all cap_fits cs"

lemma extension_bit: "(fl OR FLAG_EXTENSION) AND FLAG_EXTENSION \<noteq> 0"
proof -
  have "bit ((fl OR FLAG_EXTENSION) AND FLAG_EXTENSION) 1"
    by (simp add: FLAG_EXTENSION_def bit_simps)
  then show ?thesis by (metis bit_0_eq bot_apply bot_bool_def)
qed

lemma strip_extension: "fl AND FLAG_EXTENSION = 0 \<Longrightarrow> (fl OR FLAG_EXTENSION) AND NOT FLAG_EXTENSION = fl"
proof (rule bit_word_eqI)
  fix n assume a: "fl AND FLAG_EXTENSION = 0" "n < LENGTH(8)"
  then have "bit (fl AND FLAG_EXTENSION) n \<longleftrightarrow> False" by simp
  then show "bit ((fl OR FLAG_EXTENSION) AND NOT FLAG_EXTENSION) n = bit fl n"
    using a(2) by (auto simp: bit_and_iff bit_or_iff bit_not_iff)
qed

lemma decode_encode_table:
  assumes "length cs \<le> 255" "list_all cap_fits cs"
  shows "decode_table (encode_table cs @ rest) = Inr (cs, length (encode_table cs))"
proof -
  have "decode_entries (length cs) ([of_nat (length cs)] @ concat (map encode_entry cs) @ rest)
      (length [of_nat (length cs) :: u8]) = Inr (cs, length [of_nat (length cs) :: u8] +
        length (concat (map encode_entry cs)))"
    using assms by (intro decode_entries_encode) (simp add: list_all_iff)
  with assms show ?thesis by (simp add: decode_table_def encode_table_def)
qed

lemma decode_head:
  assumes "head_fits fl cs"
  shows "decode_flags_and_caps (encode_head fl cs @ rest) = Inr (fl, cs, length (encode_head fl cs))"
  using assms decode_encode_table [of cs rest] extension_bit [of fl] strip_extension [of fl]
  by (auto simp: head_fits_def encode_head_def flags_with_extension_def decode_flags_and_caps_def)

section \<open>Frames and messages\<close>

lemma length_encode_rows_ge: "2 * length rs \<le> length (concat (map encode_row rs))"
  by (induction rs) (simp_all add: encode_row_def)

text \<open>Rows whose length fits are read back; the reading goes on behind them.\<close>

lemma decode_rows_after:
  assumes "\<forall>r \<in> set rs. length r < 65536"
  shows "decode_rows l (length rs + n) (pre @ concat (map encode_row rs) @ tail) (length pre) =
    (case decode_rows l n (pre @ concat (map encode_row rs) @ tail) (length (pre @ concat (map encode_row rs))) of
       Inl e \<Rightarrow> Inl e | Inr xs \<Rightarrow> Inr (rs @ xs))"
  using assms
proof (induction rs arbitrary: pre)
  case Nil
  then show ?case by (simp split: sum.split)
next
  case (Cons r rs)
  let ?d = "pre @ concat (map encode_row (r # rs)) @ tail"
  have w: "unat (of_nat (length r) :: u16) = length r" using Cons.prems by simp
  obtain lo hi where lh: "le_bytes 2 (of_nat (length r) :: u16) = [lo, hi]"
    by (simp add: le_bytes_def upt_conv_Cons)
  then have v: "le_val [lo, hi] = (of_nat (length r) :: u16)"
    using u16le.dec_enc [of "of_nat (length r)"] by simp
  have d: "?d = pre @ lo # hi # r @ concat (map encode_row rs) @ tail" by (simp add: encode_row_def lh)
  have g: "get_at ?d (length pre) = Some lo" "get_at ?d (length pre + 1) = Some hi"
    unfolding d by (simp_all only: get_at_prefix [of _ _ 0] get_at_prefix [of _ _ 1] Nat.add_0_right) simp_all
  have sl: "get_slice ?d (length pre + 2) (length pre + 2 + length r) = Some r"
    unfolding d by (subst get_slice_prefix [of _ _ 2 _ "2 + length r"]) (simp_all add: get_slice_def subslice_def)
  have len: "length (pre @ encode_row r) = length pre + 2 + length r" by (simp add: encode_row_def)
  have dr: "decode_rows l (length rs + n) ?d (length pre + 2 + length r) =
      (case decode_rows l n ?d (length (pre @ concat (map encode_row (r # rs)))) of Inl e \<Rightarrow> Inl e | Inr xs \<Rightarrow> Inr (rs @ xs))"
    using Cons.IH [of "pre @ encode_row r"] Cons.prems unfolding len by (simp del: length_append)
  show ?case
    by (simp only: list.size decode_rows.simps add_Suc_right add_Suc add_0_right g option.case prod.case Let_def v w sl dr)
      (simp split: sum.split)
qed

lemma decode_encode_rows:
  assumes "\<forall>r \<in> set rs. length r < 65536"
  shows "decode_rows l (length rs) (pre @ concat (map encode_row rs)) (length pre) = Inr rs"
  using decode_rows_after [OF assms, of l 0 pre "[]"] by simp

text \<open>What is read of a row of any length that ends the block.\<close>

definition clipped_row :: "bytes \<Rightarrow> bytes" where
  "clipped_row row = take (length row mod 65536) row"

lemma decode_last_row: "decode_rows l (Suc 0) (pre @ encode_row row) (length pre) = Inr [clipped_row row]"
proof -
  have w: "unat (of_nat (length row) :: u16) = length row mod 65536" by (simp add: unat_of_nat)
  obtain lo hi where lh: "le_bytes 2 (of_nat (length row) :: u16) = [lo, hi]"
    by (simp add: le_bytes_def upt_conv_Cons)
  then have v: "le_val [lo, hi] = (of_nat (length row) :: u16)"
    using u16le.dec_enc [of "of_nat (length row)"] by simp
  have g: "get_at (pre @ encode_row row) (length pre) = Some lo" "get_at (pre @ encode_row row) (length pre + 1) = Some hi"
    by (simp_all add: encode_row_def lh get_at_def nth_append)
  have sl: "get_slice (pre @ encode_row row) (length pre + 2) (length pre + 2 + length row mod 65536) = Some (clipped_row row)"
    by (simp add: encode_row_def lh get_slice_def subslice_def clipped_row_def)
  show ?thesis
    by (simp only: decode_rows.simps g option.case prod.case Let_def v w sl sum.case)
qed

lemma decode_long_row:
  assumes "\<forall>r \<in> set rs. length r < 65536" "length rs < MAX_SCROLLBACK_ROWS" "p = length pre + 4"
  shows "decode_row_block l (pre @ encode_rows (rs @ [row])) p = Inr (rs @ [clipped_row row])"
proof -
  let ?n = "le_bytes 4 (of_nat (length (rs @ [row])) :: u32)"
  have n: "unat (of_nat (length (rs @ [row])) :: u32) = length rs + 1"
    using assms(2) by (simp add: MAX_SCROLLBACK_ROWS_def unat_of_nat del: of_nat_Suc)
  have "decode_rows l (length rs + Suc 0) ((pre @ ?n) @ concat (map encode_row rs) @ encode_row row) (length (pre @ ?n)) =
      Inr (rs @ [clipped_row row])"
    unfolding decode_rows_after [OF assms(1)]
    using decode_last_row [of l "(pre @ ?n) @ concat (map encode_row rs)" row] by simp
  moreover have "2 * length rs + 2 \<le> length (concat (map encode_row rs) @ encode_row row)"
    using length_encode_rows_ge [of "rs @ [row]"] by simp
  ultimately show ?thesis
    using n assms(2,3) by (simp add: decode_row_block_def Let_def encode_rows_def subslice_def del: of_nat_Suc)
qed

definition rows_fit :: "bytes list \<Rightarrow> bool" where
  "rows_fit rs \<longleftrightarrow> length rs \<le> MAX_SCROLLBACK_ROWS \<and> list_all (\<lambda>r. length r < 65536) rs"

lemma decode_row_block_ok:
  assumes "rows_fit rs" "p = length pre + 4"
  shows "decode_row_block l (pre @ encode_rows rs) p = Inr rs"
proof -
  have n: "unat (of_nat (length rs) :: u32) = length rs"
    using assms(1) by (simp add: rows_fit_def MAX_SCROLLBACK_ROWS_def)
  have "decode_rows l (length rs) ((pre @ le_bytes 4 (of_nat (length rs) :: u32)) @ concat (map encode_row rs))
      (length (pre @ le_bytes 4 (of_nat (length rs) :: u32))) = Inr rs"
    using assms(1) by (intro decode_encode_rows) (simp add: rows_fit_def list_all_iff)
  then show ?thesis
    using n assms length_encode_rows_ge [of rs]
    by (simp add: decode_row_block_def Let_def encode_rows_def subslice_def rows_fit_def)
qed

fun body_fits :: "frame_body \<Rightarrow> bool" where
  "body_fits (Scrollback _ rs) = rows_fit rs"
| "body_fits (Scrollback2 _ _ rs) = rows_fit rs"
| "body_fits _ = True"

lemma decode_encode_body: "body_fits b \<Longrightarrow> decode_body (encode_body b) = Inr b"
proof (cases b)
  case (Diff base s d)
  then show ?thesis
    by (cases s) (simp_all add: decode_body_def body_tags Let_def encode_sum_def subslice_def)
next
  case (Morph base s d)
  then show ?thesis
    by (cases s) (simp_all add: decode_body_def body_tags Let_def encode_sum_def subslice_def)
next
  case (Scrollback base rs)
  assume "body_fits b"
  then have "decode_row_block ''scrollback'' ((BODY_SCROLLBACK # le_bytes 8 base) @ encode_rows rs) 13 = Inr rs"
    using Scrollback by (intro decode_row_block_ok) simp_all
  then show ?thesis using Scrollback
    by (simp add: decode_body_def body_tags Let_def subslice_def) (simp add: encode_rows_def)
next
  case (Scrollback2 ep off rs)
  assume "body_fits b"
  then have "decode_row_block ''scrollback2'' ((BODY_SCROLLBACK2 # ep # le_bytes 8 off) @ encode_rows rs) 14 = Inr rs"
    using Scrollback2 by (intro decode_row_block_ok) simp_all
  then show ?thesis using Scrollback2
    by (simp add: decode_body_def body_tags Let_def subslice_def) (simp add: encode_rows_def)
qed (simp_all add: decode_body_def body_tags)

lemma decode_frame_fields:
  assumes "\<And>rest. decode_flags_and_caps (h @ rest) = Inr (fl, cs, length h)"
    and "decode_body b = Inr x" "0 < length b"
  shows "decode_frame (h @ le_bytes 8 n @ le_bytes 8 i @ le_bytes 8 e @ b) =
    Inr \<lparr>flags = fl, caps = cs, frame_num = n, input_ack = i, echo_ack = e, body = x\<rparr>"
proof -
  let ?r = "le_bytes 8 n @ le_bytes 8 i @ le_bytes 8 e @ b"
  have s: "subslice (length h + a) (length h + c) (h @ ?r) = subslice a c ?r" for a c
    by (rule subslice_append_skip) simp_all
  have d: "drop (length h + 24) (h @ ?r) = b" by simp
  have l: "\<not> length (h @ ?r) < length h + 25" using assms(3) by simp
  show ?thesis
    unfolding decode_frame_def assms(1) sum.case prod.case d assms(2) s s [of 0, simplified]
    using l by (simp add: subslice_def)
qed

text \<open>
  C9. A frame decodes to itself, whatever its body, when its flags leave the EXTENSION bit to the
  encoder, its table fits and its scrollback rows are at most \<open>2^20\<close> and shorter than 65536 bytes.
\<close>

theorem server_frame_roundtrip:
  assumes "head_fits (flags f) (caps f)" "body_fits (body f)"
  shows "decode_frame (encode_frame f) = Inr f"
proof -
  let ?h = "encode_head (flags f) (caps f)"
  have "0 < length (encode_body (body f))" by (cases "body f") simp_all
  from decode_frame_fields [OF decode_head [OF assms(1)] decode_encode_body [OF assms(2)] this]
  show ?thesis by (simp add: encode_frame_def)
qed

theorem server_frame_roundtrip_witness:
  "decode_frame (encode_frame \<lparr>flags = FLAG_ECHO, caps = [\<lparr>cap_id = CAP_SCROLLBACK2, payload = [2, 1]\<rparr>],
      frame_num = 9, input_ack = 4, echo_ack = 3, body = Scrollback2 1 7 [[0x61], []]\<rparr>) =
    Inr \<lparr>flags = FLAG_ECHO, caps = [\<lparr>cap_id = CAP_SCROLLBACK2, payload = [2, 1]\<rparr>],
      frame_num = 9, input_ack = 4, echo_ack = 3, body = Scrollback2 1 7 [[0x61], []]\<rparr>"
  by (rule server_frame_roundtrip)
    (simp_all add: head_fits_def cap_fits_def rows_fit_def MAX_SCROLLBACK_ROWS_def FLAG_ECHO_def FLAG_EXTENSION_def)

text \<open>
  C21. A client message decodes to itself when its flags leave the EXTENSION bit to the encoder and
  its table fits.
\<close>

lemma client_message_roundtrip:
  assumes "head_fits (msg_flags m) (msg_caps m)"
  shows "decode_client_message (encode_client_message m) = Inr m"
proof -
  let ?h = "encode_head (msg_flags m) (msg_caps m)"
  have two: "\<exists>lo hi. le_bytes 2 (w :: u16) = [lo, hi] \<and> le_val [lo, hi] = w" for w
    using u16le.dec_enc [of w] by (simp add: le_bytes_def upt_conv_Cons)
  obtain a b where r: "le_bytes 2 (rows m) = [a, b]" "le_val [a, b] = rows m" using two by blast
  obtain c d where c: "le_bytes 2 (cols m) = [c, d]" "le_val [c, d] = cols m" using two by blast
  show ?thesis
    using decode_head [OF assms] r c
    by (simp add: decode_client_message_def encode_client_message_def subslice_def nth_append del: le_val.simps)
qed

lemma client_message_roundtrip_witness:
  "decode_client_message (encode_client_message \<lparr>msg_flags = 32, msg_caps = [], acked_frame = 5, rows = 24,
      cols = 80, input_base = 11, input = [0x6C, 0x73]\<rparr>) =
    Inr \<lparr>msg_flags = 32, msg_caps = [], acked_frame = 5, rows = 24, cols = 80, input_base = 11,
      input = [0x6C, 0x73]\<rparr>"
  by (rule client_message_roundtrip) (simp add: head_fits_def FLAG_EXTENSION_def)

text \<open>
  C10. A scrollback row of 65536 bytes or more is not transmitted faithfully. Its length is sent modulo
  \<open>2^16\<close>: as the last row of a body of either kind, behind any rows that fit, it arrives without an error
  as its first so many bytes, of which there are none when the length is a multiple of \<open>2^16\<close>.
\<close>

theorem long_row_corrupts:
  assumes "65536 \<le> length row" "\<forall>r \<in> set rs. length r < 65536" "length rs < MAX_SCROLLBACK_ROWS"
    "head_fits (flags f) (caps f)" "b = Scrollback2 ep off \<or> b = Scrollback base"
  shows "decode_frame (encode_frame (f\<lparr>body := b (rs @ [row])\<rparr>)) =
      Inr (f\<lparr>body := b (rs @ [take (length row mod 65536) row])\<rparr>) \<and>
    rs @ [take (length row mod 65536) row] \<noteq> rs @ [row]"
proof
  have "decode_row_block ''scrollback2'' ((BODY_SCROLLBACK2 # ep # le_bytes 8 off) @ encode_rows (rs @ [row])) 14 = Inr (rs @ [clipped_row row])"
    "decode_row_block ''scrollback'' ((BODY_SCROLLBACK # le_bytes 8 base) @ encode_rows (rs @ [row])) 13 = Inr (rs @ [clipped_row row])"
    using assms(2,3) by (simp_all only: decode_long_row length_Cons length_append length_le_bytes)
  then have d: "decode_body (encode_body (b (rs @ [row]))) = Inr (b (rs @ [clipped_row row]))"
    using assms(5) by (auto simp: decode_body_def body_tags Let_def subslice_def encode_rows_def)
  have "0 < length (encode_body (b (rs @ [row])))" using assms(5) by auto
  from decode_frame_fields [OF decode_head [OF assms(4)] d this]
  show "decode_frame (encode_frame (f\<lparr>body := b (rs @ [row])\<rparr>)) = Inr (f\<lparr>body := b (rs @ [take (length row mod 65536) row])\<rparr>)"
    by (simp add: encode_frame_def clipped_row_def)
  have "length (take (length row mod 65536) row) < length row" using assms(1) by simp
  then show "rs @ [take (length row mod 65536) row] \<noteq> rs @ [row]" by (metis append_same_eq last_snoc less_irrefl)
qed

theorem long_row_corrupts_witness:
  "decode_frame (encode_frame (\<lparr>flags = 0, caps = [], frame_num = 1, input_ack = 0, echo_ack = 0, body = Empty\<rparr>
      \<lparr>body := Scrollback2 1 0 ([[0x41]] @ [replicate 65537 0x61])\<rparr>)) =
    Inr (\<lparr>flags = 0, caps = [], frame_num = 1, input_ack = 0, echo_ack = 0, body = Empty\<rparr>
      \<lparr>body := Scrollback2 1 0 ([[0x41]] @ [take (length (replicate 65537 (0x61 :: u8)) mod 65536) (replicate 65537 0x61)])\<rparr>) \<and>
   [[0x41 :: u8]] @ [take (length (replicate 65537 (0x61 :: u8)) mod 65536) (replicate 65537 0x61)] \<noteq> [[0x41]] @ [replicate 65537 0x61]"
  by (rule long_row_corrupts [where b = "Scrollback2 1 0" and ep = 1 and off = 0]) (simp_all add: head_fits_def MAX_SCROLLBACK_ROWS_def)

end
