(* ===== verification/FrameSync.thy ===== *)
theory FrameSync
  imports FrameFacts
begin

text \<open>
  \<open>crates/posh-proto/src/framesync/\<close>: the two visible-frame codecs and the frame producer. A
  rendered \<open>Snapshot\<close> is a value of type \<open>'s\<close>, and the escape delta between two of
  them, \<open>display::new_frame(true, ..)\<close>, is the parameter \<open>new_frame\<close>: the display painter is
  not modelled. The \<open>Rc\<close>s of the producer share immutable data, so they are plain values here.
  Frame numbers keep their 64-bit width.
\<close>

section \<open>Codec selection\<close>

datatype frame_sync = SyncDumpDiff | SyncMorph

definition frame_sync_parse :: "string option \<Rightarrow> frame_sync" where
  "frame_sync_parse v = (if v = Some ''morph'' then SyncMorph else SyncDumpDiff)"

fun advertises_morph :: "frame_sync \<Rightarrow> bool" where
  "advertises_morph SyncMorph = True"
| "advertises_morph SyncDumpDiff = False"

section \<open>Encoders\<close>

record 's baseline =
  base_num :: u64
  base_dump :: bytes
  base_snapshot :: 's
  base_alt_screen :: bool
  base_rows :: u16
  base_cols :: u16

record 's current_frame =
  cur_dump :: bytes
  cur_snapshot :: 's
  cur_alt_screen :: bool
  cur_rows :: u16
  cur_cols :: u16

definition dumpdiff_encode :: "'s baseline option \<Rightarrow> 's current_frame \<Rightarrow> frame_body" where
  "dumpdiff_encode acked cur = (case acked of
       Some b \<Rightarrow>
         (let diff = make_diff (base_dump b) (cur_dump cur)
          in if length diff + 8 < length (cur_dump cur) then Diff (base_num b) None diff
             else Full (cur_dump cur))
     | None \<Rightarrow> Full (cur_dump cur))"

definition morph_expressible :: "'s baseline \<Rightarrow> 's current_frame \<Rightarrow> bool" where
  "morph_expressible b cur \<longleftrightarrow> base_alt_screen b = cur_alt_screen cur \<and>
     base_rows b = cur_rows cur \<and> base_cols b = cur_cols cur"

definition morph_encode ::
  "('s \<Rightarrow> 's \<Rightarrow> bytes) \<Rightarrow> 's baseline option \<Rightarrow> 's current_frame \<Rightarrow> frame_body" where
  "morph_encode new_frame acked cur = (case acked of
       Some b \<Rightarrow>
         (if morph_expressible b cur
          then Morph (base_num b) None (new_frame (base_snapshot b) (cur_snapshot cur))
          else dumpdiff_encode None cur)
     | None \<Rightarrow> dumpdiff_encode None cur)"

section \<open>Appliers\<close>

text \<open>
  The terminal model the client keeps, by the operations the appliers call: a fresh terminal without
  scrollback, feeding bytes, its size, and resizing.
\<close>

record 't terminal_ops =
  term_new :: "u16 \<Rightarrow> u16 \<Rightarrow> 't"
  term_process :: "'t \<Rightarrow> bytes \<Rightarrow> 't"
  term_rows :: "'t \<Rightarrow> u16"
  term_cols :: "'t \<Rightarrow> u16"
  term_resize :: "'t \<Rightarrow> u16 \<Rightarrow> u16 \<Rightarrow> 't"

datatype apply_outcome = Advanced bytes | AdvancedNoDump | ReackAndWait | NoChange

definition rebuild :: "'t terminal_ops \<Rightarrow> u16 \<Rightarrow> u16 \<Rightarrow> bytes \<Rightarrow> 't" where
  "rebuild T r c bs =
     (let t = term_process T (term_new T r c) bs
      in if term_rows T t \<noteq> r \<or> term_cols T t \<noteq> c then term_resize T t r c else t)"

definition dumpdiff_apply ::
  "'t terminal_ops \<Rightarrow> u16 \<Rightarrow> u16 \<Rightarrow> bytes \<Rightarrow> 't \<Rightarrow> frame_body \<Rightarrow> 't \<times> apply_outcome" where
  "dumpdiff_apply T r c applied_data t b = (case b of
       Empty \<Rightarrow> (t, NoChange)
     | Full bs \<Rightarrow> (rebuild T r c bs, Advanced bs)
     | Diff _ _ diff \<Rightarrow>
         (case apply_diff applied_data diff of
            Some bs \<Rightarrow> (rebuild T r c bs, Advanced bs)
          | None \<Rightarrow> (t, ReackAndWait))
     | _ \<Rightarrow> (t, ReackAndWait))"

definition morph_apply ::
  "'t terminal_ops \<Rightarrow> u16 \<Rightarrow> u16 \<Rightarrow> bytes \<Rightarrow> 't \<Rightarrow> frame_body \<Rightarrow> 't \<times> apply_outcome" where
  "morph_apply T r c applied_data t b = (case b of
       Morph _ _ esc \<Rightarrow> (term_process T t esc, AdvancedNoDump)
     | _ \<Rightarrow> dumpdiff_apply T r c applied_data t b)"

definition applier ::
  "frame_sync \<Rightarrow> 't terminal_ops \<Rightarrow> u16 \<Rightarrow> u16 \<Rightarrow> bytes \<Rightarrow> 't \<Rightarrow> frame_body \<Rightarrow> 't \<times> apply_outcome" where
  "applier s = (case s of SyncDumpDiff \<Rightarrow> dumpdiff_apply | SyncMorph \<Rightarrow> morph_apply)"

section \<open>The frame producer\<close>

record 's produced_frame =
  num :: u64
  data :: bytes
  snapshot :: 's
  alt_screen :: bool
  dims :: "u16 \<times> u16"
  sb_total :: u64

record 's frame_producer =
  current :: "'s produced_frame"
  acked_num :: u64
  acked_data :: "bytes option"
  acked_baseline :: "('s \<times> bool \<times> (u16 \<times> u16)) option"
  outstanding :: "'s produced_frame list"
  last_visible_num :: u64
  visible_directly_acked :: bool

text \<open>\<open>blank\<close> is \<open>Snapshot::blank(rows, cols)\<close>.\<close>

definition producer_new :: "'s \<Rightarrow> u16 \<Rightarrow> u16 \<Rightarrow> 's frame_producer" where
  "producer_new blank r c =
     \<lparr>current = \<lparr>num = 0, data = [], snapshot = blank, alt_screen = False, dims = (r, c), sb_total = 0\<rparr>,
      acked_num = 0, acked_data = Some [], acked_baseline = Some (blank, False, (r, c)),
      outstanding = [], last_visible_num = 0, visible_directly_acked = True\<rparr>"

definition has_acked_base :: "'s frame_producer \<Rightarrow> bool" where
  "has_acked_base p \<longleftrightarrow> acked_data p \<noteq> None"

definition rotate_current :: "'s produced_frame \<Rightarrow> 's frame_producer \<Rightarrow> 's frame_producer" where
  "rotate_current nxt p =
     (let out = outstanding p @ [current p]
      in p\<lparr>current := nxt, outstanding := (if length out > 8 then tl out else out)\<rparr>)"

definition advance_visible ::
  "bytes \<Rightarrow> 's \<Rightarrow> bool \<Rightarrow> u16 \<times> u16 \<Rightarrow> u64 \<Rightarrow> 's frame_producer \<Rightarrow> 's frame_producer" where
  "advance_visible dump snap alt dm sbt p =
     (let n = num (current p) + 1;
          p = p\<lparr>last_visible_num := n, visible_directly_acked := False\<rparr>
      in rotate_current \<lparr>num = n, data = dump, snapshot = snap, alt_screen = alt, dims = dm,
           sb_total = sbt\<rparr> p)"

definition advance_scrollback :: "u64 \<Rightarrow> 's frame_producer \<Rightarrow> 's frame_producer" where
  "advance_scrollback sbt p =
     (let (d, s, a, dm) = (case (acked_data p, acked_baseline p) of
            (Some d, Some (s, a, dm)) \<Rightarrow> (d, s, a, dm)
          | _ \<Rightarrow> (data (current p), snapshot (current p), alt_screen (current p), dims (current p)));
          n = num (current p) + 1
      in rotate_current \<lparr>num = n, data = d, snapshot = s, alt_screen = a, dims = dm, sb_total = sbt\<rparr> p)"

definition advance_scrollback_after_visible :: "u64 \<Rightarrow> 's frame_producer \<Rightarrow> 's frame_producer" where
  "advance_scrollback_after_visible sbt p =
     rotate_current \<lparr>num = num (current p) + 1, data = data (current p), snapshot = snapshot (current p),
       alt_screen = alt_screen (current p), dims = dims (current p), sb_total = sbt\<rparr> p"

definition acked_view :: "'s frame_producer \<Rightarrow> 's baseline option" where
  "acked_view p = (case (acked_data p, acked_baseline p) of
       (Some d, Some (s, a, dm)) \<Rightarrow>
         Some \<lparr>base_num = acked_num p, base_dump = d, base_snapshot = s, base_alt_screen = a,
               base_rows = fst dm, base_cols = snd dm\<rparr>
     | _ \<Rightarrow> None)"

definition current_view :: "'s frame_producer \<Rightarrow> 's current_frame" where
  "current_view p = \<lparr>cur_dump = data (current p), cur_snapshot = snapshot (current p),
     cur_alt_screen = alt_screen (current p), cur_rows = fst (dims (current p)),
     cur_cols = snd (dims (current p))\<rparr>"

definition encode_visible :: "('s \<Rightarrow> 's \<Rightarrow> bytes) \<Rightarrow> bool \<Rightarrow> 's frame_producer \<Rightarrow> frame_body" where
  "encode_visible new_frame use_morph p =
     (if use_morph then morph_encode new_frame (acked_view p) (current_view p)
      else dumpdiff_encode (acked_view p) (current_view p))"

text \<open>The frame an ack confirms: the current one, or one still outstanding.\<close>

definition held_frame :: "u64 \<Rightarrow> 's frame_producer \<Rightarrow> 's produced_frame option" where
  "held_frame n p = (if n = num (current p) then Some (current p)
     else find (\<lambda>f. num f = n) (outstanding p))"

definition ack :: "u64 \<Rightarrow> 's frame_producer \<Rightarrow> 's frame_producer \<times> u64 option" where
  "ack n p =
     (if n \<le> acked_num p \<or> n > num (current p) then (p, None)
      else
        (let p = p\<lparr>acked_num := n,
               visible_directly_acked := (if n = last_visible_num p then True else visible_directly_acked p)\<rparr>;
             (p, r) = (case held_frame n p of
                Some f \<Rightarrow> (p\<lparr>acked_data := Some (data f),
                   acked_baseline := Some (snapshot f, alt_screen f, dims f)\<rparr>, Some (sb_total f))
              | None \<Rightarrow> (p\<lparr>acked_data := None, acked_baseline := None\<rparr>, None))
         in (p\<lparr>outstanding := filter (\<lambda>f. num f \<ge> n) (outstanding p)\<rparr>, r)))"

definition drop_acked_base :: "'s frame_producer \<Rightarrow> 's frame_producer" where
  "drop_acked_base p = p\<lparr>acked_data := None, acked_baseline := None\<rparr>"

definition visible_frame_leapt :: "'s frame_producer \<Rightarrow> bool" where
  "visible_frame_leapt p \<longleftrightarrow> acked_num p > last_visible_num p \<and> \<not> visible_directly_acked p"

end
