(* ===== verification/FrameSyncFacts.thy ===== *)
theory FrameSyncFacts
  imports FrameSync
begin

text \<open>
  What the frame producer and the codecs guarantee: over any history of the producer's operations an
  ack recovers exactly the frame it names while that frame is among the newest nine, and drops the base
  (so the next body is self-contained) otherwise; and a body applied at its base yields the dump it was
  encoded from.
\<close>

section \<open>Codecs\<close>

lemma dumpdiff_applies:
  assumes "\<And>b. acked = Some b \<Longrightarrow> applied = base_dump b \<and> length applied < 2 ^ 32"
  shows "dumpdiff_apply T r c applied t (dumpdiff_encode acked cur) =
    (rebuild T r c (cur_dump cur), Advanced (cur_dump cur))"
  using assms by (cases acked) (auto simp: dumpdiff_encode_def dumpdiff_apply_def Let_def diff_roundtrip_base)

section \<open>The producer over its history\<close>

datatype 's producer_op =
    AdvanceVisible bytes 's bool "u16 \<times> u16" u64
  | AdvanceScrollback u64
  | AdvanceScrollbackAfter u64
  | AckFrame u64
  | DropBase

fun producer_step :: "'s producer_op \<Rightarrow> 's frame_producer \<Rightarrow> 's frame_producer" where
  "producer_step (AdvanceVisible d s a dm t) p = advance_visible d s a dm t p"
| "producer_step (AdvanceScrollback t) p = advance_scrollback t p"
| "producer_step (AdvanceScrollbackAfter t) p = advance_scrollback_after_visible t p"
| "producer_step (AckFrame n) p = fst (ack n p)"
| "producer_step DropBase p = drop_acked_base p"

text \<open>The frames produced so far, oldest first, beside the producer.\<close>

fun is_advance :: "'s producer_op \<Rightarrow> bool" where
  "is_advance (AckFrame _) = False"
| "is_advance DropBase = False"
| "is_advance _ = True"

fun run_producer :: "'s producer_op list \<Rightarrow> 's produced_frame list \<times> 's frame_producer \<Rightarrow>
    's produced_frame list \<times> 's frame_producer" where
  "run_producer [] hp = hp"
| "run_producer (op # ops) (h, p) =
     (let q = producer_step op p
      in run_producer ops (if is_advance op then h @ [current q] else h, q))"

definition start_producer :: "'s \<Rightarrow> u16 \<Rightarrow> u16 \<Rightarrow> 's produced_frame list \<times> 's frame_producer" where
  "start_producer blank r c = ([current (producer_new blank r c)], producer_new blank r c)"

text \<open>
  The invariant: frame \<open>i\<close> of the history has number \<open>i\<close>, the newest is current, the outstanding
  ones are a run of at most eight ending before it which reaches back to the ack or is full, and the
  acked base, when held, is the acked frame's.
\<close>

definition frame_base :: "'s produced_frame \<Rightarrow> 's \<times> bool \<times> (u16 \<times> u16)" where
  "frame_base f = (snapshot f, alt_screen f, dims f)"

definition producer_ok :: "'s produced_frame list \<times> 's frame_producer \<Rightarrow> bool" where
  "producer_ok hp \<longleftrightarrow> (case hp of (h, p) \<Rightarrow>
     length h \<le> 2 ^ 64 \<and> h \<noteq> [] \<and> (\<forall>i < length h. unat (num (h ! i)) = i) \<and> current p = last h \<and>
     unat (acked_num p) < length h \<and> unat (last_visible_num p) < length h \<and>
     (\<exists>lo. lo < length h \<and> outstanding p = drop lo (butlast h) \<and> length h - 1 - lo \<le> 8 \<and>
        (lo \<le> unat (acked_num p) \<or> lo + 9 = length h)) \<and>
     (acked_data p = None \<and> acked_baseline p = None \<or>
      acked_data p = Some (data (h ! unat (acked_num p))) \<and>
      acked_baseline p = Some (frame_base (h ! unat (acked_num p)))))"

lemma producer_ok_start: "producer_ok (start_producer blank r c)"
  by (simp add: producer_ok_def start_producer_def producer_new_def frame_base_def)

lemma current_number:
  assumes "producer_ok (h, p)"
  shows "unat (num (current p)) = length h - 1"
proof -
  have "h \<noteq> []" "\<forall>i < length h. unat (num (h ! i)) = i" "current p = last h"
    using assms by (simp_all add: producer_ok_def)
  then show ?thesis by (simp add: last_conv_nth)
qed

lemma rotate_ok:
  assumes "producer_ok (h, p)" "unat (num f) = length h" "length h < 2 ^ 64"
    and q: "acked_num q = acked_num p" "acked_data q = acked_data p" "acked_baseline q = acked_baseline p"
      "outstanding q = outstanding p" "current q = current p" "unat (last_visible_num q) \<le> length h"
  shows "producer_ok (h @ [f], rotate_current f q)"
proof -
  from assms(1) obtain lo where lo: "lo < length h" "outstanding p = drop lo (butlast h)"
    "length h - 1 - lo \<le> 8" "lo \<le> unat (acked_num p) \<or> lo + 9 = length h"
    and h: "h \<noteq> []" "\<forall>i < length h. unat (num (h ! i)) = i" "current p = last h"
      "unat (acked_num p) < length h"
      "acked_data p = None \<and> acked_baseline p = None \<or>
       acked_data p = Some (data (h ! unat (acked_num p))) \<and>
       acked_baseline p = Some (frame_base (h ! unat (acked_num p)))"
    by (auto simp: producer_ok_def)
  have out: "outstanding p @ [current p] = drop lo h"
    using lo(1,2) h(1,3) by (metis append_butlast_last_id drop_append diff_is_0_eq' drop0 length_butlast
      less_Suc_eq_le Suc_pred' length_greater_0_conv)
  define lo' where "lo' = (if length h - lo > 8 then Suc lo else lo)"
  have rot: "outstanding (rotate_current f q) = drop lo' h"
    using out lo by (simp add: rotate_current_def Let_def q lo'_def drop_Suc tl_drop)
  have "\<exists>lo. lo < length (h @ [f]) \<and> outstanding (rotate_current f q) = drop lo (butlast (h @ [f])) \<and>
      length (h @ [f]) - 1 - lo \<le> 8 \<and> (lo \<le> unat (acked_num p) \<or> lo + 9 = length (h @ [f]))"
    using lo rot by (intro exI [of _ lo']) (auto simp: lo'_def)
  moreover have "acked_num (rotate_current f q) = acked_num p" "current (rotate_current f q) = f"
    "acked_data (rotate_current f q) = acked_data p" "acked_baseline (rotate_current f q) = acked_baseline p"
    "last_visible_num (rotate_current f q) = last_visible_num q"
    by (simp_all add: rotate_current_def Let_def q)
  ultimately show ?thesis
    using h assms(2,3) q(6) by (auto simp: producer_ok_def nth_append less_Suc_eq)
qed

lemma next_number:
  assumes "producer_ok (h, p)" "length h < 2 ^ 64"
  shows "unat (num (current p) + 1) = length h"
proof -
  have l: "unat (num (current p)) = length h - 1" "0 < length h"
    using current_number [OF assms(1)] assms(1) by (auto simp: producer_ok_def)
  then have "unat (num (current p)) + 1 < 2 ^ LENGTH(64)" using assms(2) by simp
  from unat_add_of_nat [of "num (current p)" 1] this l show ?thesis by simp
qed

lemma producer_advance_ok:
  assumes "producer_ok (h, p)" "length h < 2 ^ 64" "is_advance op"
  shows "producer_ok (h @ [current (producer_step op p)], producer_step op p)"
proof -
  note n = next_number [OF assms(1,2)]
  have cur: "current (rotate_current f q) = f" for f :: "'a produced_frame" and q
    by (simp add: rotate_current_def Let_def)
  have lv: "unat (last_visible_num p) \<le> length h" using assms(1) by (simp add: producer_ok_def)
  show ?thesis
  proof (cases op)
    case (AdvanceVisible d s a dm t)
    then show ?thesis
      unfolding AdvanceVisible producer_step.simps advance_visible_def Let_def cur
      by (intro rotate_ok [OF assms(1)]) (use n assms(2) in simp_all)
  next
    case (AdvanceScrollback t)
    then show ?thesis
      unfolding AdvanceScrollback producer_step.simps advance_scrollback_def Let_def split_beta cur
      by (intro rotate_ok [OF assms(1)]) (use n assms(2) lv in simp_all)
  next
    case (AdvanceScrollbackAfter t)
    then show ?thesis
      unfolding AdvanceScrollbackAfter producer_step.simps advance_scrollback_after_visible_def cur
      by (intro rotate_ok [OF assms(1)]) (use n assms(2) lv in simp_all)
  qed (use assms(3) in simp_all)
qed

lemma drop_base_ok: "producer_ok (h, p) \<Longrightarrow> producer_ok (h, drop_acked_base p)"
  by (auto simp: producer_ok_def drop_acked_base_def)

lemma find_numbered:
  assumes "\<forall>i < length fs. unat (num (fs ! i)) = lo + i"
  shows "find (\<lambda>f. num f = n) fs =
    (if lo \<le> unat n \<and> unat n < lo + length fs then Some (fs ! (unat n - lo)) else None)"
  using assms
proof (induction fs arbitrary: lo)
  case (Cons f fs)
  have f: "unat (num f) = lo" using Cons.prems by (auto dest: spec [of _ 0])
  have "\<forall>i < length fs. unat (num (fs ! i)) = Suc lo + i"
    using Cons.prems by (auto dest: spec [of _ "Suc i" for i])
  note ih = Cons.IH [OF this]
  show ?case
  proof (cases "num f = n")
    case True
    with f show ?thesis by auto
  next
    case False
    then have "unat n \<noteq> lo" using f by (metis word_unat_eq_iff)
    with False ih show ?thesis by (auto simp: Suc_diff_le nth_Cons')
  qed
qed simp

lemma filter_numbered:
  assumes "\<forall>i < length fs. unat (num (fs ! i)) = lo + i"
  shows "filter (\<lambda>f. num f \<ge> n) fs = drop (unat n - lo) fs"
  using assms
proof (induction fs arbitrary: lo)
  case (Cons f fs)
  have f: "unat (num f) = lo" using Cons.prems by (auto dest: spec [of _ 0])
  have "\<forall>i < length fs. unat (num (fs ! i)) = Suc lo + i"
    using Cons.prems by (auto dest: spec [of _ "Suc i" for i])
  note ih = Cons.IH [OF this]
  show ?case
  proof (cases "unat n \<le> lo")
    case True
    with f ih show ?thesis by (simp add: word_le_nat_alt)
  next
    case False
    then have "unat n - lo = Suc (unat n - Suc lo)" by linarith
    with False f ih show ?thesis by (simp add: word_le_nat_alt)
  qed
qed simp

text \<open>What an ack does, in terms of the history.\<close>

lemma ack_history:
  assumes ok: "producer_ok (h, p)" and n: "\<not> (n \<le> acked_num p \<or> n > num (current p))"
  shows "producer_ok (h, fst (ack n p)) \<and> acked_num (fst (ack n p)) = n \<and>
    current (fst (ack n p)) = current p \<and>
    (if length h \<le> unat n + 9
     then snd (ack n p) = Some (sb_total (h ! unat n)) \<and> acked_data (fst (ack n p)) = Some (data (h ! unat n)) \<and>
       acked_baseline (fst (ack n p)) = Some (frame_base (h ! unat n))
     else snd (ack n p) = None \<and> acked_data (fst (ack n p)) = None \<and> acked_baseline (fst (ack n p)) = None)"
proof -
  from ok obtain lo where lo: "lo < length h" "outstanding p = drop lo (butlast h)"
    "length h - 1 - lo \<le> 8" "lo \<le> unat (acked_num p) \<or> lo + 9 = length h"
    and h: "length h \<le> 2 ^ 64" "h \<noteq> []" "\<forall>i < length h. unat (num (h ! i)) = i" "current p = last h"
      "unat (acked_num p) < length h" "unat (last_visible_num p) < length h"
    by (auto simp: producer_ok_def)
  note cur = current_number [OF ok]
  have nb1: "unat (acked_num p) < unat n" "unat n \<le> length h - 1"
    using n cur by (simp_all add: word_le_nat_alt word_less_nat_alt not_le not_less)
  moreover have "0 < length h" using h(2) by simp
  ultimately have nb: "unat (acked_num p) < unat n" "unat n < length h" by linarith+
  have outn: "\<forall>i < length (outstanding p). unat (num (outstanding p ! i)) = lo + i"
    using lo(1,2) h(3) by (auto simp: nth_butlast)
  have lout: "length (outstanding p) = length h - 1 - lo" using lo(2) by simp
  have held: "held_frame n p = (if lo \<le> unat n then Some (h ! unat n) else None)"
  proof (cases "n = num (current p)")
    case True
    then have "unat n = length h - 1" using cur by simp
    with True h(2,4) lo(1) show ?thesis by (simp add: held_frame_def last_conv_nth)
  next
    case False
    then have "unat n \<noteq> length h - 1" using cur by (metis word_unat_eq_iff)
    with nb(2) have m: "unat n < length h - 1" by linarith
    have "find (\<lambda>f. num f = n) (outstanding p) = (if lo \<le> unat n then Some (h ! unat n) else None)"
      unfolding find_numbered [OF outn] using m lo(1) lout by (auto simp: lo(2) nth_butlast)
    with False show ?thesis by (simp add: held_frame_def)
  qed
  have cond: "lo \<le> unat n \<longleftrightarrow> length h \<le> unat n + 9"
    using lo nb by linarith
  have out: "filter (\<lambda>f. num f \<ge> n) (outstanding p) = drop (max lo (unat n)) (butlast h)"
    unfolding filter_numbered [OF outn] by (simp add: lo(2) max_def)
  have step: "ack n p = (let q = p\<lparr>acked_num := n,
      visible_directly_acked := (if n = last_visible_num p then True else visible_directly_acked p),
      acked_data := (if lo \<le> unat n then Some (data (h ! unat n)) else None),
      acked_baseline := (if lo \<le> unat n then Some (frame_base (h ! unat n)) else None),
      outstanding := drop (max lo (unat n)) (butlast h)\<rparr>
     in (q, if lo \<le> unat n then Some (sb_total (h ! unat n)) else None))"
  proof -
    have hf: "held_frame n (p\<lparr>acked_num := n, visible_directly_acked := v\<rparr>) = held_frame n p" for v
      by (simp add: held_frame_def)
    show ?thesis using n unfolding ack_def Let_def hf held
      by (simp add: out frame_base_def)
  qed
  have "\<exists>lo'. lo' < length h \<and> drop (max lo (unat n)) (butlast h) = drop lo' (butlast h) \<and>
      length h - 1 - lo' \<le> 8 \<and> (lo' \<le> unat n \<or> lo' + 9 = length h)"
    using lo nb by (intro exI [of _ "max lo (unat n)"]) auto
  then have "producer_ok (h, fst (ack n p))"
    using h nb unfolding step Let_def by (auto simp: producer_ok_def)
  then show ?thesis unfolding step Let_def cond by simp
qed

lemma ack_ok: "producer_ok (h, p) \<Longrightarrow> producer_ok (h, fst (ack n p))"
  using ack_history [of h p n] by (cases "n \<le> acked_num p \<or> n > num (current p)") (auto simp: ack_def)

lemma run_producer_ok:
  "producer_ok (h, p) \<Longrightarrow> length h + length ops \<le> 2 ^ 64 \<Longrightarrow> producer_ok (run_producer ops (h, p))"
proof (induction ops arbitrary: h p)
  case (Cons op ops)
  show ?case
  proof (cases "is_advance op")
    case True
    with Cons.prems have "producer_ok (h @ [current (producer_step op p)], producer_step op p)"
      by (intro producer_advance_ok) auto
    with True Cons show ?thesis by (simp add: Let_def)
  next
    case False
    then have "producer_ok (h, producer_step op p)"
      using Cons.prems(1) ack_ok drop_base_ok by (cases op) auto
    with False Cons show ?thesis by (simp add: Let_def)
  qed
qed simp

section \<open>The abstract producer\<close>

text \<open>
  What the producer promises: the frames produced, numbered from 0, the number of the frame last acknowledged,
  and whether that frame is the base of the next diff. A growth frame repeats the base's screen, or the newest
  frame's; a base is held when its frame was acknowledged among the newest nine and not given up since.
\<close>

record 's producer_spec =
  made :: "'s produced_frame list"
  base_at :: nat
  base_held :: bool

definition spec_new :: "'s \<Rightarrow> u16 \<Rightarrow> u16 \<Rightarrow> 's producer_spec" where
  "spec_new blank r c = \<lparr>made = [\<lparr>num = 0, data = [], snapshot = blank, alt_screen = False, dims = (r, c), sb_total = 0\<rparr>],
     base_at = 0, base_held = True\<rparr>"

definition produce :: "'s produced_frame \<Rightarrow> 's producer_spec \<Rightarrow> 's producer_spec" where
  "produce f s = s\<lparr>made := made s @ [f\<lparr>num := of_nat (length (made s))\<rparr>]\<rparr>"

fun spec_step :: "'s producer_op \<Rightarrow> 's producer_spec \<Rightarrow> 's producer_spec" where
  "spec_step (AdvanceVisible d x a dm t) s =
     produce \<lparr>num = 0, data = d, snapshot = x, alt_screen = a, dims = dm, sb_total = t\<rparr> s"
| "spec_step (AdvanceScrollback t) s =
     produce ((if base_held s then made s ! base_at s else last (made s))\<lparr>sb_total := t\<rparr>) s"
| "spec_step (AdvanceScrollbackAfter t) s = produce ((last (made s))\<lparr>sb_total := t\<rparr>) s"
| "spec_step (AckFrame n) s =
     (if base_at s < unat n \<and> unat n < length (made s)
      then s\<lparr>base_at := unat n, base_held := (length (made s) \<le> unat n + 9)\<rparr> else s)"
| "spec_step DropBase s = s\<lparr>base_held := False\<rparr>"

text \<open>The abstraction relation.\<close>

definition producer_rel :: "'s frame_producer \<Rightarrow> 's producer_spec \<Rightarrow> bool" where
  "producer_rel p s \<longleftrightarrow> producer_ok (made s, p) \<and> base_at s = unat (acked_num p) \<and> (base_held s \<longleftrightarrow> acked_data p \<noteq> None)"

lemma producer_rel_new: "producer_rel (producer_new blank r c) (spec_new blank r c)"
  using producer_ok_start [of blank r c] by (simp add: producer_rel_def spec_new_def start_producer_def producer_new_def)

lemma ack_range:
  assumes "producer_ok (h, p)"
  shows "\<not> (n \<le> acked_num p \<or> n > num (current p)) \<longleftrightarrow> unat (acked_num p) < unat n \<and> unat n < length h"
proof -
  have "unat (num (current p)) = length h - 1" "0 < length h"
    using current_number [OF assms] assms by (auto simp: producer_ok_def)
  then show ?thesis by (auto simp: word_le_nat_alt word_less_nat_alt not_le not_less)
qed

lemma advance_rel:
  assumes "producer_rel p s" "length (made s) < 2 ^ 64" "is_advance op"
    "acked_num (producer_step op p) = acked_num p" "acked_data (producer_step op p) = acked_data p"
    "spec_step op s = produce f s" "current (producer_step op p) = f\<lparr>num := of_nat (length (made s))\<rparr>"
  shows "producer_rel (producer_step op p) (spec_step op s)"
  using producer_advance_ok [OF _ assms(2,3), of p] assms by (simp add: producer_rel_def produce_def)

lemma producer_step_rel:
  assumes r: "producer_rel p s" and l: "length (made s) < 2 ^ 64"
  shows "producer_rel (producer_step op p) (spec_step op s)"
proof -
  have ok: "producer_ok (made s, p)" using r by (simp add: producer_rel_def)
  have n: "num (current p) + 1 = of_nat (length (made s))"
    using next_number [OF ok l] l by (simp add: word_unat_eq_iff unat_of_nat)
  have cur: "current (rotate_current f q) = f" "acked_num (rotate_current f q) = acked_num q"
    "acked_data (rotate_current f q) = acked_data q" for f :: "'a produced_frame" and q
    by (simp_all add: rotate_current_def Let_def)
  have last: "current p = last (made s)" using ok by (simp add: producer_ok_def)
  show ?thesis
  proof (cases op)
    case (AdvanceVisible d x a dm t)
    show ?thesis unfolding AdvanceVisible
      by (rule advance_rel [OF r l, where f = "\<lparr>num = 0, data = d, snapshot = x, alt_screen = a, dims = dm, sb_total = t\<rparr>"])
        (simp_all add: advance_visible_def Let_def cur n)
  next
    case (AdvanceScrollback t)
    have b: "acked_data p = None \<and> acked_baseline p = None \<and> \<not> base_held s \<or>
        acked_data p = Some (data (made s ! base_at s)) \<and> base_held s \<and>
        acked_baseline p = Some (frame_base (made s ! base_at s))"
      using r by (auto simp: producer_rel_def producer_ok_def)
    show ?thesis unfolding AdvanceScrollback
      by (rule advance_rel [OF r l, where f = "(if base_held s then made s ! base_at s else last (made s))\<lparr>sb_total := t\<rparr>"])
        (use b n in \<open>auto simp: advance_scrollback_def Let_def cur frame_base_def last split_beta intro!: produced_frame.equality\<close>)
  next
    case (AdvanceScrollbackAfter t)
    show ?thesis unfolding AdvanceScrollbackAfter
      by (rule advance_rel [OF r l, where f = "(last (made s))\<lparr>sb_total := t\<rparr>"])
        (use n in \<open>auto simp: advance_scrollback_after_visible_def cur last intro!: produced_frame.equality\<close>)
  next
    case (AckFrame k)
    show ?thesis
    proof (cases "unat (acked_num p) < unat k \<and> unat k < length (made s)")
      case True
      then have "\<not> (k \<le> acked_num p \<or> k > num (current p))" using ack_range [OF ok] by blast
      from ack_history [OF ok this] r True show ?thesis
        by (cases "length (made s) \<le> unat k + 9") (auto simp: AckFrame producer_rel_def)
    next
      case False
      then have "k \<le> acked_num p \<or> k > num (current p)" using ack_range [OF ok] by blast
      then have "ack k p = (p, None)" by (auto simp: ack_def)
      with False r show ?thesis by (auto simp: AckFrame producer_rel_def)
    qed
  next
    case DropBase
    then show ?thesis using r drop_base_ok [of "made s" p] by (auto simp: producer_rel_def) (simp_all add: drop_acked_base_def)
  qed
qed

lemma spec_step_length: "length (made (spec_step op s)) \<le> Suc (length (made s))"
  by (cases op) (simp_all add: produce_def)

lemma producer_run_rel:
  "producer_rel p s \<Longrightarrow> length (made s) + length ops \<le> 2 ^ 64 \<Longrightarrow> producer_rel (fold producer_step ops p) (fold spec_step ops s)"
proof (induction ops arbitrary: p s)
  case (Cons op ops)
  then have "producer_rel (producer_step op p) (spec_step op s)" by (intro producer_step_rel) simp_all
  then show ?case using Cons.IH Cons.prems(2) spec_step_length [of op s] by fastforce
qed simp

text \<open>
  C11. The producer implements its specification. After any operations, the newest frame, the number last
  acknowledged and the base are those of the specification; an ack returns the scrollback total of the frame it
  names exactly when the frame is newer than the last one acknowledged, was produced, and is among the newest nine;
  the DumpDiff body is the full dump or a diff from the base, under the base's number, and applied at the base's
  dump (below 4 GiB) it yields the newest dump; the morph body is the painter's delta from the base's snapshot when
  screen and size are the base's, else the full dump.
\<close>

theorem producer_refines:
  assumes "length ops < 2 ^ 64" "p = fold producer_step ops (producer_new blank r c)"
    "s = fold spec_step ops (spec_new blank r c)" "base = made s ! base_at s" "cur = last (made s)"
    "length (data base) < 2 ^ 32"
  shows "current p = cur \<and> unat (acked_num p) = base_at s \<and> base_at s < length (made s) \<and> has_acked_base p = base_held s \<and>
    snd (ack n p) = (if base_at s < unat n \<and> unat n < length (made s) \<and> length (made s) \<le> unat n + 9
      then Some (sb_total (made s ! unat n)) else None) \<and>
    (encode_visible nf False p = Full (data cur) \<or>
      base_held s \<and> encode_visible nf False p = Diff (acked_num p) None (make_diff (data base) (data cur))) \<and>
    dumpdiff_apply T tr tc (data base) t (encode_visible nf False p) = (rebuild T tr tc (data cur), Advanced (data cur)) \<and>
    encode_visible nf True p = (if base_held s \<and> alt_screen base = alt_screen cur \<and> dims base = dims cur
      then Morph (acked_num p) None (nf (snapshot base) (snapshot cur)) else Full (data cur))"
proof -
  have r: "producer_rel p s"
    using producer_run_rel [OF producer_rel_new [of blank r c], of ops] assms(1-3) by (simp add: spec_new_def)
  then have ok: "producer_ok (made s, p)" and a: "base_at s = unat (acked_num p)" "base_held s \<longleftrightarrow> acked_data p \<noteq> None"
    by (simp_all add: producer_rel_def)
  have cur: "current p = cur" "base_at s < length (made s)" using ok a(1) assms(5) by (auto simp: producer_ok_def)
  have view: "acked_view p = (if base_held s then Some \<lparr>base_num = acked_num p, base_dump = data base, base_snapshot = snapshot base,
      base_alt_screen = alt_screen base, base_rows = fst (dims base), base_cols = snd (dims base)\<rparr> else None)"
    using ok a assms(4) by (auto simp: producer_ok_def acked_view_def frame_base_def)
  have "snd (ack n p) = (if base_at s < unat n \<and> unat n < length (made s) \<and> length (made s) \<le> unat n + 9
      then Some (sb_total (made s ! unat n)) else None)"
  proof (cases "unat (acked_num p) < unat n \<and> unat n < length (made s)")
    case True
    then have "\<not> (n \<le> acked_num p \<or> n > num (current p))" using ack_range [OF ok] by blast
    from ack_history [OF ok this] True a(1) show ?thesis by (auto split: if_splits)
  next
    case False
    then have "n \<le> acked_num p \<or> n > num (current p)" using ack_range [OF ok] by blast
    then have "ack n p = (p, None)" by (auto simp: ack_def)
    with False a(1) show ?thesis by auto
  qed
  moreover have "encode_visible nf False p = Full (data cur) \<or>
      base_held s \<and> encode_visible nf False p = Diff (acked_num p) None (make_diff (data base) (data cur))"
    by (simp add: encode_visible_def dumpdiff_encode_def view current_view_def cur Let_def)
  moreover have "dumpdiff_apply T tr tc (data base) t (encode_visible nf False p) = (rebuild T tr tc (data cur), Advanced (data cur))"
  proof -
    have "dumpdiff_apply T tr tc (data base) t (dumpdiff_encode (acked_view p) (current_view p)) =
        (rebuild T tr tc (cur_dump (current_view p)), Advanced (cur_dump (current_view p)))"
      by (rule dumpdiff_applies) (use assms(6) in \<open>auto simp: view split: if_splits\<close>)
    then show ?thesis by (simp add: encode_visible_def current_view_def cur)
  qed
  moreover have "encode_visible nf True p = (if base_held s \<and> alt_screen base = alt_screen cur \<and> dims base = dims cur
      then Morph (acked_num p) None (nf (snapshot base) (snapshot cur)) else Full (data cur))"
    by (auto simp: encode_visible_def morph_encode_def morph_expressible_def dumpdiff_encode_def view current_view_def cur prod_eq_iff)
  ultimately show ?thesis using cur a by (auto simp: has_acked_base_def)
qed

text \<open>Two frames of 16 bytes, the first acknowledged.\<close>

definition two_ops :: "nat producer_op list" where
  "two_ops = [AdvanceVisible (replicate 16 1) 7 False (24, 80) 0, AckFrame 1, AdvanceVisible (replicate 15 1 @ [2]) 8 False (24, 80) 5]"

lemma two_ops_base: "made (fold spec_step two_ops (spec_new 0 24 80)) ! base_at (fold spec_step two_ops (spec_new 0 24 80)) =
    \<lparr>num = 1, data = replicate 16 1, snapshot = 7, alt_screen = False, dims = (24, 80), sb_total = 0\<rparr>"
  by (simp add: two_ops_def spec_new_def produce_def)

theorem producer_refines_witness:
  "\<exists>p :: nat frame_producer. p = fold producer_step two_ops (producer_new 0 24 80) \<and> unat (acked_num p) = 1 \<and>
     current p = last (made (fold spec_step two_ops (spec_new 0 24 80))) \<and> snd (ack 2 p) = Some 5"
proof -
  let ?s = "fold spec_step two_ops (spec_new 0 24 80)" and ?p = "fold producer_step two_ops (producer_new 0 24 80)"
  have s: "base_at ?s = 1" "length (made ?s) = 3" "sb_total (made ?s ! 2) = 5"
    by (simp_all add: two_ops_def spec_new_def produce_def)
  have "length two_ops < 2 ^ 64" "length (data (made ?s ! base_at ?s)) < 2 ^ 32"
    unfolding two_ops_base by (simp_all add: two_ops_def)
  note w = producer_refines [OF this(1) refl refl refl refl this(2), where n = 2]
  have "current ?p = last (made ?s)" "unat (acked_num ?p) = base_at ?s"
    "snd (ack 2 ?p) = (if base_at ?s < unat (2 :: u64) \<and> unat (2 :: u64) < length (made ?s) \<and> length (made ?s) \<le> unat (2 :: u64) + 9
      then Some (sb_total (made ?s ! unat (2 :: u64))) else None)"
    by (rule w [THEN conjunct1], rule w [THEN conjunct2, THEN conjunct1],
      rule w [THEN conjunct2, THEN conjunct2, THEN conjunct2, THEN conjunct2, THEN conjunct1])
  with s show ?thesis by simp
qed

end
