(* ===== verification/Framing.thy ===== *)
theory Framing
  imports Prelude
begin

text \<open>
  Records read from a byte stream that arrives in arbitrary pieces: the interface the session
  IPC's frame buffer and the agent channel's record decoder share. \<open>head\<close> looks at the front of
  the buffered bytes: it wants more, finds them corrupt, or finds a record (possibly one to be
  skipped) of a certain length. The laws say that a verdict once given does not change when more bytes
  arrive; from them follows that how the stream was cut into pieces does not matter.
\<close>

section \<open>Reading records\<close>

datatype 'a head =
    More
  | Corrupt string
  | Found "'a option" nat

definition item_list :: "'a option \<Rightarrow> 'a list" where
  "item_list x = (case x of Some a \<Rightarrow> [a] | None \<Rightarrow> [])"

text \<open>All complete records at the front, the bytes left, and the error that stopped the reading.\<close>

function records :: "(bytes \<Rightarrow> 'a head) \<Rightarrow> bytes \<Rightarrow> 'a list \<times> bytes \<times> string option" where
  "records hd1 bs = (case hd1 bs of
       More \<Rightarrow> ([], bs, None)
     | Corrupt e \<Rightarrow> ([], bs, Some e)
     | Found x n \<Rightarrow>
         (if n = 0 \<or> length bs < n then ([], bs, None)
          else case records hd1 (drop n bs) of (xs, rest, e) \<Rightarrow> (item_list x @ xs, rest, e)))"
  by pat_completeness auto
termination
  by (relation "measure (\<lambda>(_, bs). length bs)") auto

declare records.simps [simp del]

text \<open>The same, the stream arriving piece by piece; reading stops for good at an error.\<close>

fun read_pieces :: "(bytes \<Rightarrow> 'a head) \<Rightarrow> bytes \<Rightarrow> bytes list \<Rightarrow> 'a list \<times> bytes \<times> string option" where
  "read_pieces hd1 buf [] = ([], buf, None)"
| "read_pieces hd1 buf (p # ps) = (case records hd1 (buf @ p) of
       (xs, rest, Some e) \<Rightarrow> (xs, rest, Some e)
     | (xs, rest, None) \<Rightarrow> (case read_pieces hd1 rest ps of (ys, r, e) \<Rightarrow> (xs @ ys, r, e)))"

section \<open>The interface\<close>

locale record_stream =
  fixes hd1 :: "bytes \<Rightarrow> 'a head"
  assumes found_bounds: "hd1 bs = Found x n \<Longrightarrow> 0 < n \<and> n \<le> length bs"
    and found_stable: "hd1 bs = Found x n \<Longrightarrow> hd1 (bs @ more) = Found x n"
    and corrupt_stable: "hd1 bs = Corrupt e \<Longrightarrow> hd1 (bs @ more) = Corrupt e"
    and empty_more: "hd1 [] = More"
begin

lemma records_More: "hd1 bs = More \<Longrightarrow> records hd1 bs = ([], bs, None)"
  by (simp add: records.simps)

lemma records_Corrupt: "hd1 bs = Corrupt e \<Longrightarrow> records hd1 bs = ([], bs, Some e)"
  by (simp add: records.simps)

lemma records_Found:
  assumes "hd1 bs = Found x n"
  shows "records hd1 bs = (case records hd1 (drop n bs) of (xs, rest, e) \<Rightarrow> (item_list x @ xs, rest, e))"
  using assms found_bounds [OF assms] by (subst records.simps) simp

text \<open>Reading what has arrived first and the rest later is reading it all at once.\<close>

lemma records_append:
  "records hd1 (bs @ more) = (case records hd1 bs of
      (xs, rest, Some e) \<Rightarrow> (xs, rest @ more, Some e)
    | (xs, rest, None) \<Rightarrow> (case records hd1 (rest @ more) of (ys, r, e) \<Rightarrow> (xs @ ys, r, e)))"
proof (induction bs rule: measure_induct_rule [where f = length])
  case (less bs)
  show ?case
  proof (cases "hd1 bs")
    case More
    then show ?thesis by (simp add: records_More split: prod.splits)
  next
    case (Corrupt e)
    then show ?thesis using corrupt_stable [OF Corrupt] by (simp add: records_Corrupt)
  next
    case (Found x n)
    have n: "0 < n" "n \<le> length bs" using found_bounds [OF Found] by auto
    then have "length (drop n bs) < length bs" by simp
    from less [OF this] n show ?thesis
      by (simp add: records_Found [OF Found] records_Found [OF found_stable [OF Found]]
          split: prod.splits option.splits)
  qed
qed

lemma read_pieces_concat:
  assumes "records hd1 (buf @ concat ps) = (xs, rest, None)"
  shows "ps \<noteq> [] \<Longrightarrow> read_pieces hd1 buf ps = (xs, rest, None)"
  using assms
proof (induction ps arbitrary: buf xs rest)
  case (Cons p ps)
  have r: "records hd1 ((buf @ p) @ concat ps) = (xs, rest, None)" using Cons.prems by simp
  obtain ys mid e where m: "records hd1 (buf @ p) = (ys, mid, e)" by (cases "records hd1 (buf @ p)")
  with r have e: "e = None" unfolding records_append [of "buf @ p" "concat ps"]
    by (auto split: option.splits prod.splits)
  with m r obtain zs where z: "records hd1 (mid @ concat ps) = (zs, rest, None)" "xs = ys @ zs"
    unfolding records_append [of "buf @ p" "concat ps"] by (auto split: prod.splits)
  show ?case
  proof (cases "ps = []")
    case True
    have "records hd1 mid = ([], mid, None)"
    proof -
      have "records hd1 (buf @ p) = (case records hd1 mid of (ws, r, e) \<Rightarrow> (ys @ ws, r, e))"
        using records_append [of "buf @ p" "[]"] m e by simp
      with m e show ?thesis by (auto split: prod.splits)
    qed
    with True z m e show ?thesis by simp
  next
    case False
    with Cons.IH [OF _ z(1)] m e z(2) show ?thesis by simp
  qed
qed simp

text \<open>Reading without an error stops only where more bytes are wanted.\<close>

lemma records_rest_More: "records hd1 bs = (xs, rest, None) \<Longrightarrow> hd1 rest = More"
proof (induction bs arbitrary: xs rule: measure_induct_rule [where f = length])
  case (less bs)
  show ?case
  proof (cases "hd1 bs")
    case More
    with less.prems show ?thesis by (simp add: records_More)
  next
    case (Corrupt e)
    with less.prems show ?thesis by (simp add: records_Corrupt)
  next
    case (Found x n)
    with less.prems obtain ys where "records hd1 (drop n bs) = (ys, rest, None)"
      by (auto simp: records_Found split: prod.splits)
    moreover have "length (drop n bs) < length bs" using found_bounds [OF Found] by auto
    ultimately show ?thesis using less.IH by blast
  qed
qed

text \<open>A stream of well-formed records: each is found whole, and kept or skipped as its head says.\<close>

lemma records_written:
  assumes "\<And>a. a \<in> set as \<Longrightarrow> hd1 (enc a) = Found (view a) (length (enc a))"
    and "hd1 tail = More"
  shows "records hd1 (concat (map enc as) @ tail) = (concat (map (\<lambda>a. item_list (view a)) as), tail, None)"
  using assms(1)
proof (induction as)
  case Nil
  then show ?case using assms(2) by (simp add: records_More)
next
  case (Cons a as)
  have "hd1 (enc a) = Found (view a) (length (enc a))" using Cons.prems by simp
  from found_stable [OF this, of "concat (map enc as) @ tail"] Cons show ?case
    by (simp add: records_Found)
qed

text \<open>What has been read of the first part of a stream is the first part of what it holds.\<close>

lemma records_prefix:
  assumes "records hd1 (bs @ more) = (as, rest, None)"
  obtains xs ys mid where "records hd1 bs = (xs, mid, None)" "as = xs @ ys" "records hd1 (mid @ more) = (ys, rest, None)"
proof -
  obtain xs mid e where m: "records hd1 bs = (xs, mid, e)" by (cases "records hd1 bs")
  have e: "e = None" using assms m unfolding records_append [of bs more] by (cases e) auto
  show thesis using assms m e that unfolding records_append [of bs more] by (auto split: prod.splits)
qed

end

end
