(* ===== verification/Streams.thy ===== *)
theory Streams
  imports Prelude
begin

text \<open>
  The reliable input stream and the echo acknowledgement of \<open>crates/posh/src/remote/sync.rs\<close>
  (\<open>InputOutbox\<close>, \<open>InputInbox\<close>, \<open>EchoAck\<close>), and the stream over a network that may
  lose, duplicate and reorder everything. Stream offsets keep their 64-bit width; clocks (milliseconds
  since start) are naturals.
\<close>

section \<open>The client's outbox\<close>

record input_outbox =
  base :: u64
  buf :: bytes

definition outbox_new :: input_outbox where
  "outbox_new = \<lparr>base = 0, buf = []\<rparr>"

definition outbox_push :: "bytes \<Rightarrow> input_outbox \<Rightarrow> input_outbox" where
  "outbox_push bs x = x\<lparr>buf := buf x @ bs\<rparr>"

definition outbox_ack :: "u64 \<Rightarrow> input_outbox \<Rightarrow> input_outbox" where
  "outbox_ack up_to x =
     (if up_to > base x
      then (let n = min (unat (up_to - base x)) (length (buf x))
            in x\<lparr>buf := drop n (buf x), base := base x + of_nat n\<rparr>)
      else x)"

definition end_offset :: "input_outbox \<Rightarrow> u64" where
  "end_offset x = base x + of_nat (length (buf x))"

section \<open>The server's inbox\<close>

record input_inbox =
  next_offset :: u64

definition inbox_new :: input_inbox where
  "inbox_new = \<lparr>next_offset = 0\<rparr>"

definition inbox_resume :: "u64 \<Rightarrow> input_inbox" where
  "inbox_resume n = \<lparr>next_offset = n\<rparr>"

definition inbox_accept :: "u64 \<Rightarrow> bytes \<Rightarrow> input_inbox \<Rightarrow> input_inbox \<times> bytes option" where
  "inbox_accept b d x =
     (if b > next_offset x then (x, None)
      else (let skip = unat (next_offset x - b)
            in if skip \<ge> length d then (x, None)
               else (x\<lparr>next_offset := b + of_nat (length d)\<rparr>, Some (drop skip d))))"

section \<open>The stream over an unreliable network\<close>

text \<open>
  \<open>pushed\<close> and \<open>applied\<close> record what the client typed and what the server has handed to the
  application; \<open>wire\<close> holds every message ever sent and \<open>acks\<close> every acknowledgement, so that
  delivering is choosing any of them, any number of times, in any order. A message may carry only the
  first part of the pending bytes (the agent stream sends what fits).
\<close>

record link =
  outbox :: input_outbox
  inbox :: input_inbox
  pushed :: bytes
  applied :: bytes
  wire :: "(u64 \<times> bytes) set"
  acks :: "u64 set"

definition link_new :: link where
  "link_new = \<lparr>outbox = outbox_new, inbox = inbox_new, pushed = [], applied = [], wire = {}, acks = {}\<rparr>"

inductive link_step :: "link \<Rightarrow> link \<Rightarrow> bool" where
  Push: "length (pushed l) + length bs < 2 ^ 64 \<Longrightarrow>
    link_step l (l\<lparr>outbox := outbox_push bs (outbox l), pushed := pushed l @ bs\<rparr>)"
| Send: "link_step l (l\<lparr>wire := insert (base (outbox l), take k (buf (outbox l))) (wire l)\<rparr>)"
| Deliver: "(b, d) \<in> wire l \<Longrightarrow> inbox_accept b d (inbox l) = (x, fresh) \<Longrightarrow>
    link_step l (l\<lparr>inbox := x, applied := applied l @ (case fresh of Some f \<Rightarrow> f | None \<Rightarrow> [])\<rparr>)"
| Ack: "link_step l (l\<lparr>acks := insert (next_offset (inbox l)) (acks l)\<rparr>)"
| DeliverAck: "a \<in> acks l \<Longrightarrow> link_step l (l\<lparr>outbox := outbox_ack a (outbox l)\<rparr>)"

inductive_cases link_stepE: "link_step l l'"

definition link_ok :: "link \<Rightarrow> bool" where
  "link_ok l \<longleftrightarrow> length (pushed l) < 2 ^ 64 \<and>
     unat (base (outbox l)) \<le> unat (next_offset (inbox l)) \<and>
     unat (next_offset (inbox l)) \<le> length (pushed l) \<and>
     buf (outbox l) = drop (unat (base (outbox l))) (pushed l) \<and>
     applied l = take (unat (next_offset (inbox l))) (pushed l) \<and>
     (\<forall>(b, d) \<in> wire l. unat b \<le> unat (base (outbox l)) \<and> unat b + length d \<le> length (pushed l) \<and>
        d = take (length d) (drop (unat b) (pushed l))) \<and>
     (\<forall>a \<in> acks l. unat a \<le> unat (next_offset (inbox l)))"

lemma link_ok_new: "link_ok link_new"
  by (simp add: link_ok_def link_new_def outbox_new_def inbox_new_def)

lemma inbox_accept_stream:
  assumes "unat b + length d \<le> length s" "d = take (length d) (drop (unat b) s)" "length s < 2 ^ 64"
    "unat b \<le> unat (next_offset x)"
  shows "\<exists>x' fresh. inbox_accept b d x = (x', fresh) \<and>
    unat (next_offset x') = max (unat (next_offset x)) (unat b + length d) \<and>
    take (unat (next_offset x)) s @ (case fresh of Some f \<Rightarrow> f | None \<Rightarrow> []) = take (unat (next_offset x')) s"
proof -
  let ?n = "unat (next_offset x)"
  have le: "b \<le> next_offset x" using assms(4) by (simp add: word_le_nat_alt)
  have skip: "unat (next_offset x - b) = ?n - unat b" by (rule unat_sub_le [OF le])
  show ?thesis
  proof (cases "?n - unat b \<ge> length d")
    case True
    with le skip assms(4) show ?thesis by (auto simp: inbox_accept_def Let_def)
  next
    case False
    have "unat b + length d < 2 ^ LENGTH(64)" using assms(1,3) by simp
    from unat_add_of_nat [OF this] have u: "unat (b + of_nat (length d)) = unat b + length d" .
    have "drop (?n - unat b) d = drop (?n - unat b) (take (length d) (drop (unat b) s))"
      using assms(2) by simp
    also have "\<dots> = take (unat b + length d - ?n) (drop ?n s)"
      using assms(4) by (simp add: drop_take add.commute)
    finally have "take ?n s @ drop (?n - unat b) d = take (unat b + length d) s"
      using False assms(4) by (simp add: take_add [symmetric])
    with False le skip u show ?thesis
      by (auto simp: inbox_accept_def Let_def not_less [symmetric])
  qed
qed

lemma outbox_ack_stream:
  assumes "buf x = drop (unat (base x)) s" "unat a \<le> length s" "length s < 2 ^ 64" "unat (base x) \<le> length s"
  shows "unat (base (outbox_ack a x)) = max (unat a) (unat (base x)) \<and>
    buf (outbox_ack a x) = drop (unat (base (outbox_ack a x))) s"
proof (cases "a > base x")
  case False
  then have "outbox_ack a x = x" by (simp add: outbox_ack_def)
  moreover have "unat a \<le> unat (base x)" using False by (simp add: not_less word_le_nat_alt)
  ultimately show ?thesis using assms(1) by (simp add: max_def)
next
  case True
  have "unat (a - base x) = unat a - unat (base x)" using True by (intro unat_sub_le) simp
  moreover have "unat (base x) < unat a" using True by (simp add: word_less_nat_alt)
  moreover have "unat (base x + of_nat (unat a - unat (base x))) = unat a"
    using True calculation assms by (subst unat_add_of_nat) simp_all
  ultimately show ?thesis using True assms by (simp add: outbox_ack_def Let_def min_def)
qed

lemma link_step_ok: "link_step l l' \<Longrightarrow> link_ok l \<Longrightarrow> link_ok l'"
proof (induction rule: link_step.induct)
  case (Push l bs)
  have "d = take (length d) (drop (unat b) (pushed l @ bs)) \<and> unat b + length d \<le> length (pushed l @ bs)"
    if "(b, d) \<in> wire l" for b d
    using Push.prems that by (auto simp: link_ok_def)
  with Push show ?case by (fastforce simp: link_ok_def outbox_push_def)
next
  case (Send l k)
  let ?b = "unat (base (outbox l))"
  have "?b \<le> length (pushed l)" using Send by (simp add: link_ok_def)
  then have "?b + length (take k (drop ?b (pushed l))) \<le> length (pushed l)" by simp
  moreover have "take k (drop ?b (pushed l)) = take (length (take k (drop ?b (pushed l)))) (drop ?b (pushed l))"
    by (simp add: min_def)
  ultimately show ?case using Send by (simp add: link_ok_def)
next
  case (Deliver b d l x fresh)
  then have w: "unat b \<le> unat (base (outbox l))" "unat b + length d \<le> length (pushed l)"
    "d = take (length d) (drop (unat b) (pushed l))" by (auto simp: link_ok_def)
  then have "unat b \<le> unat (next_offset (inbox l))" "length (pushed l) < 2 ^ 64"
    using Deliver.prems by (auto simp: link_ok_def)
  from inbox_accept_stream [OF w(2,3) this(2,1)] Deliver.hyps(2) have
    "unat (next_offset x) = max (unat (next_offset (inbox l))) (unat b + length d)"
    "take (unat (next_offset (inbox l))) (pushed l) @ (case fresh of Some f \<Rightarrow> f | None \<Rightarrow> []) =
       take (unat (next_offset x)) (pushed l)" by auto
  with Deliver.prems w(2) show ?case by (fastforce simp: link_ok_def)
next
  case (Ack l)
  then show ?case by (simp add: link_ok_def)
next
  case (DeliverAck a l)
  then have "unat a \<le> unat (next_offset (inbox l))" by (simp add: link_ok_def)
  with outbox_ack_stream [of "outbox l" "pushed l" a] DeliverAck.prems show ?case
    by (fastforce simp: link_ok_def)
qed

lemma link_reachable_ok: "link_step\<^sup>*\<^sup>* link_new l \<Longrightarrow> link_ok l"
  by (induction rule: rtranclp_induct) (auto intro: link_ok_new link_step_ok)

text \<open>
  C12. Over a network that loses, duplicates and reorders messages and acknowledgements at will, the
  server's application receives exactly a prefix of what the client typed, each byte once and in order,
  the client keeps every byte the server has not acknowledged, and the gap the inbox guards against
  never arises.
\<close>

theorem input_stream_reliable:
  assumes "link_step\<^sup>*\<^sup>* link_new l"
  shows "applied l = take (unat (next_offset (inbox l))) (pushed l) \<and>
    pushed l = take (unat (base (outbox l))) (applied l) @ buf (outbox l) \<and>
    (\<forall>(b, d) \<in> wire l. b \<le> next_offset (inbox l))"
proof -
  have ok: "link_ok l" by (rule link_reachable_ok [OF assms])
  then have "take (unat (base (outbox l))) (applied l) = take (unat (base (outbox l))) (pushed l)"
    by (simp add: link_ok_def min_def)
  with ok show ?thesis by (fastforce simp: link_ok_def word_le_nat_alt)
qed

lemma link_one: "link_step\<^sup>*\<^sup>* link_new (link_new\<lparr>outbox := outbox_push [0x6C] outbox_new, pushed := [0x6C]\<rparr>)"
proof -
  have "link_step link_new (link_new\<lparr>outbox := outbox_push [0x6C] (outbox link_new), pushed := pushed link_new @ [0x6C]\<rparr>)"
    by (rule Push) (simp add: link_new_def)
  then show ?thesis by (simp add: link_new_def r_into_rtranclp)
qed

text \<open>An instance: two bytes typed; the first is sent alone, then both; both arrive first, the shorter message after them, twice.\<close>

definition link_overtaken :: link where
  "link_overtaken = \<lparr>outbox = \<lparr>base = 0, buf = [0x6C, 0x73]\<rparr>, inbox = \<lparr>next_offset = 2\<rparr>, pushed = [0x6C, 0x73],
     applied = [0x6C, 0x73], wire = {(0, [0x6C]), (0, [0x6C, 0x73])}, acks = {}\<rparr>"

lemma link_overtaken_reached: "link_step\<^sup>*\<^sup>* link_new link_overtaken"
proof -
  let ?o = "\<lparr>base = 0, buf = [0x6C, 0x73]\<rparr>" and ?t = "[0x6C, 0x73]"
  define l1 where "l1 = \<lparr>outbox = ?o, inbox = inbox_new, pushed = ?t, applied = [], wire = {}, acks = {}\<rparr>"
  define l2 where "l2 = l1\<lparr>wire := {(0, [0x6C])}\<rparr>"
  define l3 where "l3 = l2\<lparr>wire := {(0, [0x6C]), (0, ?t)}\<rparr>"
  define l4 where "l4 = l3\<lparr>inbox := \<lparr>next_offset = 2\<rparr>, applied := ?t\<rparr>"
  have "link_step link_new l1" using Push [of link_new ?t] by (simp add: link_new_def l1_def outbox_push_def outbox_new_def)
  moreover have "link_step l1 l2" using Send [of l1 1] by (simp add: l1_def l2_def)
  moreover have "link_step l2 l3" using Send [of l2 2] by (simp add: l1_def l2_def l3_def insert_commute)
  moreover have "link_step l3 l4" using Deliver [of 0 ?t l3 "\<lparr>next_offset = 2\<rparr>" "Some ?t"]
    by (simp add: l1_def l2_def l3_def l4_def inbox_accept_def inbox_new_def)
  moreover have "link_step l4 l4" using Deliver [of 0 "[0x6C]" l4 "\<lparr>next_offset = 2\<rparr>" None]
    by (simp add: l1_def l2_def l3_def l4_def inbox_accept_def)
  moreover have "l4 = link_overtaken" by (simp add: l1_def l2_def l3_def l4_def link_overtaken_def)
  ultimately show ?thesis by (metis converse_rtranclp_into_rtranclp rtranclp.rtrancl_refl)
qed

theorem input_stream_reliable_witness:
  "applied link_overtaken = take (unat (next_offset (inbox link_overtaken))) (pushed link_overtaken) \<and>
   pushed link_overtaken = take (unat (base (outbox link_overtaken))) (applied link_overtaken) @ buf (outbox link_overtaken) \<and>
   applied link_overtaken = [0x6C, 0x73]"
  using input_stream_reliable [OF link_overtaken_reached] by (simp add: link_overtaken_def)

text \<open>
  The stream can always make up for what the network did. From every reachable state, sending
  the pending bytes, delivering them, acknowledging and delivering the acknowledgement leaves
  everything typed applied and nothing pending.
\<close>

lemma input_stream_recovers:
  assumes "link_step\<^sup>*\<^sup>* link_new l"
  shows "\<exists>l'. link_step\<^sup>*\<^sup>* l l' \<and> pushed l' = pushed l \<and> applied l' = pushed l \<and> buf (outbox l') = []"
proof -
  have ok: "link_ok l" by (rule link_reachable_ok [OF assms])
  let ?b = "base (outbox l)" and ?d = "buf (outbox l)"
  define l1 where "l1 = l\<lparr>wire := insert (?b, take (length ?d) ?d) (wire l)\<rparr>"
  obtain x fresh where x: "inbox_accept ?b ?d (inbox l1) = (x, fresh)" by force
  define l2 where "l2 = l1\<lparr>inbox := x, applied := applied l1 @ (case fresh of Some f \<Rightarrow> f | None \<Rightarrow> [])\<rparr>"
  define l3 where "l3 = l2\<lparr>acks := insert (next_offset (inbox l2)) (acks l2)\<rparr>"
  define l4 where "l4 = l3\<lparr>outbox := outbox_ack (next_offset (inbox l2)) (outbox l3)\<rparr>"
  have s1: "link_step l l1" unfolding l1_def by (rule Send)
  have s2: "link_step l1 l2" unfolding l2_def
    by (rule Deliver [where b = ?b and d = ?d]) (use x in \<open>simp_all add: l1_def\<close>)
  have s3: "link_step l2 l3" unfolding l3_def by (rule Ack)
  have s4: "link_step l3 l4" unfolding l4_def by (rule DeliverAck) (simp add: l3_def)
  have o: "link_ok l1" "link_ok l2" "link_ok l4"
    using ok s1 s2 s3 s4 link_step_ok by blast+
  have lens: "unat ?b + length ?d = length (pushed l)" using ok by (simp add: link_ok_def)
  have same: "pushed l1 = pushed l" "pushed l2 = pushed l" "pushed l4 = pushed l" "inbox l4 = inbox l2"
    "applied l4 = applied l2" "inbox l2 = x" "inbox l1 = inbox l"
    by (simp_all add: l1_def l2_def l3_def l4_def)
  have "unat (next_offset x) = length (pushed l)"
  proof -
    have "unat ?b \<le> unat (next_offset (inbox l1))" "length (pushed l) < 2 ^ 64"
      "?d = take (length ?d) (drop (unat ?b) (pushed l))"
      using ok by (auto simp: link_ok_def same)
    from inbox_accept_stream [of ?b ?d "pushed l" "inbox l1", OF _ this(3,2,1)] lens x
    have "unat (next_offset x) = max (unat (next_offset (inbox l1))) (length (pushed l))" by auto
    moreover have "unat (next_offset (inbox l1)) \<le> length (pushed l)" using ok by (simp add: link_ok_def same)
    ultimately show ?thesis by simp
  qed
  then have a: "applied l4 = pushed l" using o(3) by (simp add: link_ok_def same)
  have "outbox l3 = outbox l" by (simp add: l3_def l2_def l1_def)
  then have "unat (base (outbox l4)) = length (pushed l)"
    using outbox_ack_stream [of "outbox l" "pushed l" "next_offset x"] ok \<open>unat (next_offset x) = length (pushed l)\<close>
    by (simp add: l4_def same link_ok_def)
  then have "buf (outbox l4) = []" using o(3) by (simp add: link_ok_def same)
  moreover have "link_step\<^sup>*\<^sup>* l l4" using s1 s2 s3 s4 by (meson converse_rtranclp_into_rtranclp rtranclp.rtrancl_refl)
  ultimately show ?thesis using a same(3) by blast
qed

lemma input_stream_recovers_witness:
  "\<exists>l'. link_step\<^sup>*\<^sup>* (link_new\<lparr>outbox := outbox_push [0x6C] outbox_new, pushed := [0x6C]\<rparr>) l' \<and>
     pushed l' = pushed (link_new\<lparr>outbox := outbox_push [0x6C] outbox_new, pushed := [0x6C]\<rparr>) \<and>
     applied l' = pushed (link_new\<lparr>outbox := outbox_push [0x6C] outbox_new, pushed := [0x6C]\<rparr>) \<and>
     buf (outbox l') = []"
  by (rule input_stream_recovers [OF link_one])

section \<open>The echo acknowledgement\<close>

definition ECHO_TIMEOUT :: nat where "ECHO_TIMEOUT = 50"

text \<open>Pending entries are (offset, time written), oldest first.\<close>

record echo_ack =
  echo_pending :: "(u64 \<times> nat) list"
  acked :: u64

definition echo_resume :: "u64 \<Rightarrow> echo_ack" where
  "echo_resume a = \<lparr>echo_pending = [], acked = a\<rparr>"

definition echo_record :: "u64 \<Rightarrow> nat \<Rightarrow> echo_ack \<Rightarrow> echo_ack" where
  "echo_record off now e =
     (let newest = (if echo_pending e = [] then acked e else fst (last (echo_pending e)))
      in if off > newest then e\<lparr>echo_pending := echo_pending e @ [(off, now)]\<rparr> else e)"

text \<open>The loop of \<open>update\<close> over the pending entries, and the update itself.\<close>

fun echo_mature :: "nat \<Rightarrow> (u64 \<times> nat) list \<Rightarrow> u64 \<Rightarrow> bool \<Rightarrow> (u64 \<times> nat) list \<times> u64 \<times> bool" where
  "echo_mature now [] a changed = ([], a, changed)"
| "echo_mature now ((off, at) # ps) a changed =
     (if now - at < ECHO_TIMEOUT then ((off, at) # ps, a, changed)
      else echo_mature now ps off True)"

definition echo_update :: "nat \<Rightarrow> echo_ack \<Rightarrow> echo_ack \<times> bool" where
  "echo_update now e = (case echo_mature now (echo_pending e) (acked e) False of
     (ps, a, changed) \<Rightarrow> (e\<lparr>echo_pending := ps, acked := a\<rparr>, changed))"

definition restamp_pending :: "nat \<Rightarrow> echo_ack \<Rightarrow> echo_ack" where
  "restamp_pending now e =
     (if echo_pending e = [] then e
      else e\<lparr>echo_pending := [(fst (last (echo_pending e)), now)]\<rparr>)"

definition echo_wait_time :: "nat \<Rightarrow> echo_ack \<Rightarrow> nat option" where
  "echo_wait_time now e = (case echo_pending e of
       [] \<Rightarrow> None
     | (_, at) # _ \<Rightarrow> Some (at + ECHO_TIMEOUT - now))"

datatype echo_op = Record u64 | Update | Restamp

fun echo_step :: "nat \<Rightarrow> echo_op \<Rightarrow> echo_ack \<Rightarrow> echo_ack" where
  "echo_step now (Record off) e = echo_record off now e"
| "echo_step now Update e = fst (echo_update now e)"
| "echo_step now Restamp e = restamp_pending now e"

fun echo_run :: "(nat \<times> echo_op) list \<Rightarrow> echo_ack \<Rightarrow> echo_ack" where
  "echo_run [] e = e"
| "echo_run ((t, op) # ops) e = echo_run ops (echo_step t op e)"

text \<open>Offsets and times grow along the queue; every offset is past the ack, no time past the clock.\<close>

definition echo_ok :: "nat \<Rightarrow> echo_ack \<Rightarrow> bool" where
  "echo_ok now e \<longleftrightarrow> sorted_wrt (\<lambda>(o1, t1) (o2, t2). o1 < o2 \<and> t1 \<le> t2) (echo_pending e) \<and>
     (\<forall>(off, at) \<in> set (echo_pending e). acked e < off \<and> at \<le> now)"

lemma echo_mature_split:
  "echo_mature now ps a changed =
     (dropWhile (\<lambda>(_, at). ECHO_TIMEOUT \<le> now - at) ps,
      (case takeWhile (\<lambda>(_, at). ECHO_TIMEOUT \<le> now - at) ps of [] \<Rightarrow> a | rs \<Rightarrow> fst (last rs)),
      changed \<or> takeWhile (\<lambda>(_, at). ECHO_TIMEOUT \<le> now - at) ps \<noteq> [])"
  by (induction now ps a changed rule: echo_mature.induct) (auto split: list.splits)

lemma echo_step_ok:
  assumes "echo_ok t0 e" "t0 \<le> t"
  shows "echo_ok t (echo_step t op e) \<and> acked e \<le> acked (echo_step t op e)"
proof (cases op)
  case (Record off)
  have ok: "echo_ok t e" using assms by (fastforce simp: echo_ok_def)
  show ?thesis
  proof (cases "echo_pending e = []")
    case True
    with Record ok show ?thesis by (auto simp: echo_record_def echo_ok_def Let_def)
  next
    case False
    then obtain ps o1 t1 where p: "echo_pending e = ps @ [(o1, t1)]" by (cases "echo_pending e" rule: rev_cases) auto
    with ok have "t1 \<le> t" "acked e < o1" "\<forall>(o2, t2) \<in> set ps. o2 < o1 \<and> t2 \<le> t1"
      by (auto simp: echo_ok_def sorted_wrt_append)
    with Record ok p show ?thesis
      by (fastforce simp: echo_record_def echo_ok_def Let_def sorted_wrt_append)
  qed
next
  case Update
  let ?P = "\<lambda>(_, at). ECHO_TIMEOUT \<le> t - at"
  let ?ps = "echo_pending e"
  have ok: "sorted_wrt (\<lambda>(o1, t1) (o2, t2). o1 < o2 \<and> t1 \<le> t2) (takeWhile ?P ?ps @ dropWhile ?P ?ps)"
    "\<forall>(off, at) \<in> set ?ps. acked e < off \<and> at \<le> t"
    using assms by (fastforce simp: echo_ok_def)+
  then have "\<forall>x \<in> set ?ps. acked e < fst x \<and> snd x \<le> t" by auto
  then have sub: "\<forall>x \<in> set (takeWhile ?P ?ps) \<union> set (dropWhile ?P ?ps). acked e < fst x \<and> snd x \<le> t"
    by (meson UnE set_takeWhileD set_dropWhileD)
  show ?thesis
  proof (cases "takeWhile ?P ?ps" rule: rev_cases)
    case Nil
    then show ?thesis using Update ok sub
      by (auto simp: echo_update_def echo_mature_split echo_ok_def)
  next
    case (snoc rs r)
    have "\<forall>x \<in> set (dropWhile ?P ?ps). fst r < fst x" "acked e < fst r"
      using ok(1) sub unfolding snoc by (auto simp: sorted_wrt_append)
    moreover have "\<forall>x \<in> set (dropWhile ?P ?ps). snd x \<le> t" using sub by blast
    moreover have "sorted_wrt (\<lambda>(o1, t1) (o2, t2). o1 < o2 \<and> t1 \<le> t2) (dropWhile ?P ?ps)"
      using ok(1) by (simp add: sorted_wrt_append)
    moreover have "echo_step t op e = e\<lparr>echo_pending := dropWhile ?P ?ps, acked := fst r\<rparr>"
      using snoc Update by (cases rs) (simp_all add: echo_update_def echo_mature_split)
    ultimately show ?thesis by (fastforce simp: echo_ok_def)
  qed
next
  case Restamp
  then show ?thesis using assms
    by (cases "echo_pending e" rule: rev_cases) (auto simp: restamp_pending_def echo_ok_def)
qed

text \<open>A run whose clock never goes back.\<close>

definition clock_ok :: "nat \<Rightarrow> (nat \<times> echo_op) list \<Rightarrow> bool" where
  "clock_ok t ops \<longleftrightarrow> sorted (t # map fst ops)"

lemma echo_run_ok:
  "echo_ok t0 e \<Longrightarrow> clock_ok t0 ops \<Longrightarrow> (\<forall>(t, _) \<in> set ops. t \<le> now) \<Longrightarrow> t0 \<le> now \<Longrightarrow>
     echo_ok now (echo_run ops e) \<and> acked e \<le> acked (echo_run ops e)"
proof (induction ops arbitrary: t0 e)
  case Nil
  then show ?case by (fastforce simp: echo_ok_def)
next
  case (Cons x ops)
  obtain t op where x: "x = (t, op)" by force
  have "t0 \<le> t" "clock_ok t ops" using Cons.prems(2) by (auto simp: clock_ok_def x)
  from echo_step_ok [OF Cons.prems(1) this(1)] Cons.IH [OF _ this(2)] Cons.prems(3)
  show ?case by (auto simp: x intro: order_trans)
qed

lemma sorted_ripe:
  assumes "sorted_wrt (\<lambda>(o1, t1) (o2, t2). o1 < o2 \<and> t1 \<le> t2) ps"
  shows "takeWhile (\<lambda>(_, at). ECHO_TIMEOUT \<le> now - at) ps = filter (\<lambda>(_, at). ECHO_TIMEOUT \<le> now - at) ps \<and>
    dropWhile (\<lambda>(_, at). ECHO_TIMEOUT \<le> now - at) ps = filter (\<lambda>(_, at). \<not> ECHO_TIMEOUT \<le> now - at) ps"
  using assms
proof (induction ps)
  case (Cons x ps)
  obtain off at where x: "x = (off, at)" by force
  show ?case
  proof (cases "ECHO_TIMEOUT \<le> now - at")
    case True
    with Cons show ?thesis by (simp add: x)
  next
    case False
    have "\<forall>(o2, t2) \<in> set ps. at \<le> t2" using Cons.prems by (auto simp: x)
    then have "\<forall>(o2, t2) \<in> set ps. \<not> ECHO_TIMEOUT \<le> now - t2"
      using False by (auto dest!: bspec)
    then have "filter (\<lambda>(_, at). ECHO_TIMEOUT \<le> now - at) ps = []"
      "filter (\<lambda>(_, at). \<not> ECHO_TIMEOUT \<le> now - at) ps = ps"
      by (auto simp: filter_empty_conv filter_id_conv)
    with False show ?thesis by (simp add: x)
  qed
qed simp

text \<open>An update in terms of the queue: it takes the ripe entries off and acknowledges the largest.\<close>

lemma echo_update_ripe:
  assumes "echo_ok now e"
  shows "echo_pending (fst (echo_update now e)) = filter (\<lambda>x. now - snd x < ECHO_TIMEOUT) (echo_pending e) \<and>
    acked (fst (echo_update now e)) = Max (insert (acked e) (fst ` {x \<in> set (echo_pending e). ECHO_TIMEOUT \<le> now - snd x})) \<and>
    (snd (echo_update now e) \<longleftrightarrow> (\<exists>x \<in> set (echo_pending e). ECHO_TIMEOUT \<le> now - snd x))"
proof -
  let ?P = "\<lambda>(_ :: u64, at). ECHO_TIMEOUT \<le> now - at"
  let ?r = "filter ?P (echo_pending e)"
  have s: "sorted_wrt (\<lambda>(o1, t1) (o2, t2). o1 < o2 \<and> t1 \<le> t2) (echo_pending e)"
    and gt: "\<forall>(off, at) \<in> set (echo_pending e). acked e < off" using assms by (auto simp: echo_ok_def)
  note ripe = sorted_ripe [OF s, of now]
  have u: "echo_update now e = (e\<lparr>echo_pending := filter (\<lambda>(_, at). \<not> ECHO_TIMEOUT \<le> now - at) (echo_pending e),
      acked := (case ?r of [] \<Rightarrow> acked e | rs \<Rightarrow> fst (last rs))\<rparr>, ?r \<noteq> [])"
    using ripe by (simp add: echo_update_def echo_mature_split)
  have set_r: "{x \<in> set (echo_pending e). ECHO_TIMEOUT \<le> now - snd x} = set ?r" by auto
  have sr: "sorted_wrt (\<lambda>(o1, t1) (o2, t2). o1 < o2 \<and> t1 \<le> t2) ?r" using s by (rule sorted_wrt_filter)
  have mx: "(case ?r of [] \<Rightarrow> acked e | rs \<Rightarrow> fst (last rs)) = Max (insert (acked e) (fst ` set ?r))"
  proof (cases ?r rule: rev_cases)
    case (snoc rs x)
    have "\<forall>y \<in> set rs. fst y < fst x" using sr unfolding snoc by (auto simp: sorted_wrt_append)
    moreover have "x \<in> set (echo_pending e)" using snoc by (metis filter_is_subset in_set_conv_decomp subsetD)
    then have "acked e < fst x" using gt by auto
    ultimately have "Max (insert (acked e) (fst ` set (rs @ [x]))) = fst x"
      by (intro Max_eqI) (auto intro: less_imp_le)
    with snoc show ?thesis by (cases rs) auto
  qed simp
  have f: "filter (\<lambda>(_, at). \<not> ECHO_TIMEOUT \<le> now - at) (echo_pending e) = filter (\<lambda>x. now - snd x < ECHO_TIMEOUT) (echo_pending e)"
    by (rule filter_cong) (auto simp: not_le)
  have "?r \<noteq> [] \<longleftrightarrow> (\<exists>x \<in> set (echo_pending e). ECHO_TIMEOUT \<le> now - snd x)"
    by (force simp: filter_empty_conv)
  then show ?thesis unfolding set_r by (simp add: u mx f)
qed

text \<open>
  The specification keeps every offset ever written with the time its grace period began: when it was written,
  or when the writer last found it still unwritten (\<open>Restamp\<close>) while it was not echoed. An update
  acknowledges the largest offset whose grace period is over.
\<close>

record echo_spec =
  written :: "(u64 \<times> nat) list"
  echoed :: u64

fun echo_spec_step :: "nat \<Rightarrow> echo_op \<Rightarrow> echo_spec \<Rightarrow> echo_spec" where
  "echo_spec_step now (Record off) s = s\<lparr>written := written s @ [(off, now)]\<rparr>"
| "echo_spec_step now Update s =
     s\<lparr>echoed := Max (insert (echoed s) (fst ` {x \<in> set (written s). ECHO_TIMEOUT \<le> now - snd x}))\<rparr>"
| "echo_spec_step now Restamp s =
     s\<lparr>written := map (\<lambda>(off, at). (off, if echoed s < off then now else at)) (written s)\<rparr>"

definition echo_spec_run :: "(nat \<times> echo_op) list \<Rightarrow> echo_spec \<Rightarrow> echo_spec" where
  "echo_spec_run = fold (\<lambda>(t, op). echo_spec_step t op)"

text \<open>The queue holds some of the written offsets, and for each one not echoed a later one that is ripe no later.\<close>

definition echo_rel :: "nat \<Rightarrow> echo_ack \<Rightarrow> echo_spec \<Rightarrow> bool" where
  "echo_rel now e s \<longleftrightarrow> echo_ok now e \<and> acked e = echoed s \<and> set (echo_pending e) \<subseteq> set (written s) \<and>
     (\<forall>x \<in> set (written s). echoed s < fst x \<longrightarrow> (\<exists>y \<in> set (echo_pending e). fst x \<le> fst y \<and> snd y \<le> snd x))"

lemma echo_ok_later: "echo_ok t0 e \<Longrightarrow> t0 \<le> t \<Longrightarrow> echo_ok t e"
  by (fastforce simp: echo_ok_def)

lemma ripe_max:
  fixes a :: u64
  assumes "P \<subseteq> W" "finite W" "\<forall>x \<in> W. a < fst x \<longrightarrow> (\<exists>y \<in> P. fst x \<le> fst y)"
  shows "Max (insert a (fst ` P)) = Max (insert a (fst ` W))"
proof (rule antisym)
  have fP: "finite P" using assms(1,2) by (rule finite_subset)
  show "Max (insert a (fst ` P)) \<le> Max (insert a (fst ` W))"
    using assms(1,2) by (intro Max_mono) auto
  show "Max (insert a (fst ` W)) \<le> Max (insert a (fst ` P))"
  proof (rule Max.boundedI)
    fix o1 assume "o1 \<in> insert a (fst ` W)"
    then consider "o1 \<le> a" | x where "x \<in> W" "o1 = fst x" "a < fst x" by fastforce
    then show "o1 \<le> Max (insert a (fst ` P))"
    proof cases
      case 1
      also have "a \<le> Max (insert a (fst ` P))" using fP by simp
      finally show ?thesis .
    next
      case 2
      then obtain y where "y \<in> P" "o1 \<le> fst y" using assms(3) by auto
      moreover have "fst y \<le> Max (insert a (fst ` P))" using \<open>y \<in> P\<close> fP by (intro Max_ge) auto
      ultimately show ?thesis by (meson order_trans)
    qed
  qed (use assms(2) in auto)
qed

lemma echo_step_rel:
  assumes "echo_rel t0 e s" "t0 \<le> t"
  shows "echo_rel t (echo_step t op e) (echo_spec_step t op s)"
proof -
  have ok: "echo_ok t e" "echo_ok t (echo_step t op e)" and a: "acked e = echoed s"
    and sub: "set (echo_pending e) \<subseteq> set (written s)"
    and cover: "\<forall>x \<in> set (written s). echoed s < fst x \<longrightarrow> (\<exists>y \<in> set (echo_pending e). fst x \<le> fst y \<and> snd y \<le> snd x)"
    using assms echo_ok_later echo_step_ok [of t0 e t op] by (auto simp: echo_rel_def)
  show ?thesis
  proof (cases op)
    case (Record off)
    show ?thesis
    proof (cases "echo_pending e" rule: rev_cases)
      case Nil
      then show ?thesis using ok(2) a cover by (fastforce simp: echo_rel_def Record echo_record_def Let_def)
    next
      case (snoc ps y)
      have "snd y \<le> t" using ok(1) snoc by (auto simp: echo_ok_def)
      then show ?thesis using ok(2) a sub cover snoc
        by (fastforce simp: echo_rel_def Record echo_record_def Let_def)
    qed
  next
    case Update
    let ?P = "{x \<in> set (echo_pending e). ECHO_TIMEOUT \<le> t - snd x}"
    let ?W = "{x \<in> set (written s). ECHO_TIMEOUT \<le> t - snd x}"
    note u = echo_update_ripe [OF ok(1)]
    have "\<exists>y \<in> ?P. fst x \<le> fst y" if "x \<in> ?W" "echoed s < fst x" for x
      using cover that by fastforce
    then have m: "Max (insert (acked e) (fst ` ?P)) = Max (insert (echoed s) (fst ` ?W))"
      unfolding a using sub by (intro ripe_max) auto
    have "\<exists>y \<in> set (echo_pending (fst (echo_update t e))). fst x \<le> fst y \<and> snd y \<le> snd x"
      if x: "x \<in> set (written s)" "Max (insert (echoed s) (fst ` ?W)) < fst x" for x
    proof -
      have "echoed s \<le> Max (insert (echoed s) (fst ` ?W))" by simp
      then have "echoed s < fst x" using x(2) by (rule le_less_trans)
      then obtain y where y: "y \<in> set (echo_pending e)" "fst x \<le> fst y" "snd y \<le> snd x" using cover x(1) by blast
      have "y \<notin> ?P"
      proof
        assume "y \<in> ?P"
        then have "fst y \<le> Max (insert (acked e) (fst ` ?P))" by (intro Max_ge) auto
        then have "fst y < fst x" unfolding m using x(2) by (rule le_less_trans)
        then show False using y(2) by simp
      qed
      then have "y \<in> set (echo_pending (fst (echo_update t e)))" unfolding conjunct1 [OF u] using y(1) by simp
      then show ?thesis using y by blast
    qed
    then show ?thesis using ok(2) sub u m a unfolding Update echo_rel_def by auto
  next
    case Restamp
    show ?thesis
    proof (cases "echo_pending e" rule: rev_cases)
      case Nil
      then have "\<forall>x \<in> set (written s). \<not> echoed s < fst x" using cover by auto
      then have "map (\<lambda>(off, at). (off, if echoed s < off then t else at)) (written s) = written s"
        by (intro map_idI) auto
      then show ?thesis using ok(2) a cover Nil by (simp add: echo_rel_def Restamp restamp_pending_def)
    next
      case (snoc ps y)
      have y: "echoed s < fst y" "y \<in> set (written s)" "\<forall>z \<in> set (echo_pending e). fst z \<le> fst y"
        using ok(1) a sub snoc by (auto simp: echo_ok_def sorted_wrt_append)
      have "(fst y, t) \<in> (\<lambda>(off, at). (off, if echoed s < off then t else at)) ` set (written s)"
        using y(1,2) by (intro image_eqI [of _ _ y]) (simp_all add: split_beta)
      moreover have "fst x \<le> fst y" if "x \<in> set (written s)" "echoed s < fst x" for x
        using cover that y(3) by (meson order_trans)
      ultimately show ?thesis using ok(2) a snoc
        by (auto simp: echo_rel_def Restamp restamp_pending_def split: if_splits)
    qed
  qed
qed

lemma echo_run_rel:
  "echo_rel t0 e s \<Longrightarrow> clock_ok t0 ops \<Longrightarrow> (\<forall>(t, _) \<in> set ops. t \<le> now) \<Longrightarrow> t0 \<le> now \<Longrightarrow>
     echo_rel now (echo_run ops e) (echo_spec_run ops s)"
proof (induction ops arbitrary: t0 e s)
  case Nil
  then show ?case using echo_ok_later by (auto simp: echo_rel_def echo_spec_run_def)
next
  case (Cons x ops)
  obtain t op where x: "x = (t, op)" by force
  have "t0 \<le> t" "clock_ok t ops" using Cons.prems(2) by (auto simp: clock_ok_def x)
  from Cons.IH [OF echo_step_rel [OF Cons.prems(1) this(1), of op] this(2)] Cons.prems(3)
  show ?case by (auto simp: x echo_spec_run_def)
qed

text \<open>
  C13. The echo acknowledgement is exact. After any operations with a clock that does not go back, whatever
  the queue has dropped or collapsed, the offset acknowledged is that of the specification: the largest one
  written whose grace period of 50 ms, begun again by every restamp while it was not echoed, was over at some
  update. A further update reports that it moved exactly when it does, and the wait time is the time to the
  first update that moves, none when everything written has been echoed.
\<close>

theorem echo_ack_exact:
  assumes "clock_ok start ops" "\<forall>(t, _) \<in> set ops. t \<le> now" "start \<le> now"
    "e = echo_run ops (echo_resume a)" "s = echo_spec_run ops \<lparr>written = [], echoed = a\<rparr>"
  shows "acked e = echoed s \<and>
    (snd (echo_update now e) \<longleftrightarrow> echoed (echo_spec_step now Update s) \<noteq> echoed s) \<and>
    echo_wait_time now e = (if \<exists>x \<in> set (written s). echoed s < fst x
      then Some (LEAST k. snd (echo_update (now + k) e)) else None)"
proof -
  have "echo_rel start (echo_resume a) \<lparr>written = [], echoed = a\<rparr>"
    by (simp add: echo_rel_def echo_resume_def echo_ok_def)
  from echo_run_rel [OF this assms(1-3)] have r: "echo_rel now e s" by (simp add: assms(4,5))
  then have ok: "echo_ok now e" and a: "acked e = echoed s" by (simp_all add: echo_rel_def)
  have step: "echo_rel now (fst (echo_update now e)) (echo_spec_step now Update s)"
    using echo_step_rel [OF r order_refl, of Update] by simp
  have gt: "acked e < fst x" if "x \<in> set (echo_pending e)" for x using ok that by (auto simp: echo_ok_def)
  have "snd (echo_update now e) \<longleftrightarrow> echoed (echo_spec_step now Update s) \<noteq> echoed s"
  proof -
    let ?R = "{x \<in> set (echo_pending e). ECHO_TIMEOUT \<le> now - snd x}"
    have "acked (fst (echo_update now e)) \<noteq> acked e \<longleftrightarrow> ?R \<noteq> {}"
    proof
      assume "?R \<noteq> {}"
      then obtain x where x: "x \<in> ?R" by blast
      have "fst x \<le> Max (insert (acked e) (fst ` ?R))" using x by (intro Max_ge) auto
      moreover have "acked e < fst x" using gt [of x] x by simp
      ultimately have "acked e < Max (insert (acked e) (fst ` ?R))" by (rule less_le_trans [rotated])
      then show "acked (fst (echo_update now e)) \<noteq> acked e" using echo_update_ripe [OF ok] by simp
    next
      assume n: "acked (fst (echo_update now e)) \<noteq> acked e"
      show "?R \<noteq> {}"
      proof
        assume "?R = {}"
        then have "Max (insert (acked e) (fst ` ?R)) = acked e" by (simp only: image_empty Max_singleton)
        with n echo_update_ripe [OF ok] show False by simp
      qed
    qed
    moreover have "snd (echo_update now e) \<longleftrightarrow> ?R \<noteq> {}" using echo_update_ripe [OF ok] by blast
    moreover have "acked (fst (echo_update now e)) = echoed (echo_spec_step now Update s)"
      using step unfolding echo_rel_def by blast
    ultimately show ?thesis using a by simp
  qed
  moreover have "echo_wait_time now e = (if \<exists>x \<in> set (written s). echoed s < fst x
      then Some (LEAST k. snd (echo_update (now + k) e)) else None)"
  proof (cases "echo_pending e")
    case Nil
    then show ?thesis using r by (auto simp: echo_rel_def echo_wait_time_def)
  next
    case (Cons y ps)
    have "y \<in> set (written s)" "echoed s < fst y" using r gt [of y] Cons by (auto simp: echo_rel_def)
    moreover have "snd (echo_update (now + k) e) \<longleftrightarrow> snd y + ECHO_TIMEOUT - now \<le> k" for k
    proof -
      have "echo_ok (now + k) e" using ok by (rule echo_ok_later) simp
      then have "snd (echo_update (now + k) e) \<longleftrightarrow> (\<exists>x \<in> set (echo_pending e). ECHO_TIMEOUT \<le> now + k - snd x)"
        using echo_update_ripe by blast
      also have "\<dots> \<longleftrightarrow> ECHO_TIMEOUT \<le> now + k - snd y"
        using ok Cons by (fastforce simp: echo_ok_def)
      also have "\<dots> \<longleftrightarrow> snd y + ECHO_TIMEOUT - now \<le> k" by (auto simp: ECHO_TIMEOUT_def)
      finally show ?thesis .
    qed
    then have "(LEAST k. snd (echo_update (now + k) e)) = snd y + ECHO_TIMEOUT - now" by (simp add: Least_equality)
    moreover have "echo_wait_time now e = Some (snd y + ECHO_TIMEOUT - now)" using Cons by (cases y) (simp add: echo_wait_time_def)
    ultimately show ?thesis by auto
  qed
  ultimately show ?thesis using a by blast
qed

theorem echo_ack_exact_witness:
  "\<exists>e s. e = echo_run [(0, Record 5), (40, Record 9), (60, Update)] (echo_resume 2) \<and>
     s = echo_spec_run [(0, Record 5), (40, Record 9), (60, Update)] \<lparr>written = [], echoed = 2\<rparr> \<and> echoed s = 5 \<and> acked e = echoed s"
proof -
  let ?ops = "[(0, Record 5), (40, Record 9), (60, Update)]"
  have "{x \<in> set [(5 :: u64, 0 :: nat), (9, 40)]. ECHO_TIMEOUT \<le> 60 - snd x} = {(5, 0)}" by (auto simp: ECHO_TIMEOUT_def)
  then have "echoed (echo_spec_run ?ops \<lparr>written = [], echoed = 2\<rparr>) = 5" by (simp add: echo_spec_run_def)
  moreover have "acked (echo_run ?ops (echo_resume 2)) = echoed (echo_spec_run ?ops \<lparr>written = [], echoed = 2\<rparr>)"
    using echo_ack_exact [of 0 ?ops 60 _ 2, OF _ _ _ refl refl] by (simp add: clock_ok_def)
  ultimately show ?thesis by blast
qed

end
