(* ===== verification/AgentStream.thy ===== *)
theory AgentStream
  imports Framing Streams
begin

text \<open>
  The agent channel of \<open>crates/posh/src/remote/sync.rs\<close>: the record codec (\<open>AgentRecord\<close>,
  \<open>RecordDecoder\<close>) and \<open>AgentStream\<close>, which carries records over the reliable stream in both
  directions. The record decoder is an instance of the record-stream interface.
\<close>

section \<open>Records\<close>

definition AGENT_RECORD_HEADER_LEN :: nat where "AGENT_RECORD_HEADER_LEN = 9"
definition AGENT_RECORD_PAYLOAD_MAX :: nat where "AGENT_RECORD_PAYLOAD_MAX = 256 * 1024"

datatype record_kind = Open | Data | Close | Fail

fun record_kind_to_byte :: "record_kind \<Rightarrow> u8" where
  "record_kind_to_byte Open = 0"
| "record_kind_to_byte Data = 1"
| "record_kind_to_byte Close = 2"
| "record_kind_to_byte Fail = 3"

definition record_kind_from_byte :: "u8 \<Rightarrow> record_kind result" where
  "record_kind_from_byte b =
     (if b = 0 then Inr Open else if b = 1 then Inr Data else if b = 2 then Inr Close
      else if b = 3 then Inr Fail else Inl ''agent record: unknown kind'')"

record agent_record =
  channel :: u32
  kind :: record_kind
  rec_payload :: bytes

definition record_to_bytes :: "agent_record \<Rightarrow> bytes" where
  "record_to_bytes r = be_bytes 4 (channel r) @ [record_kind_to_byte (kind r)] @
     be_bytes 4 (of_nat (length (rec_payload r)) :: u32) @ rec_payload r"

text \<open>One turn of the loop of \<open>RecordDecoder::push\<close>: what the buffer's front holds.\<close>

definition agent_head :: "bytes \<Rightarrow> agent_record head" where
  "agent_head b =
     (if length b < AGENT_RECORD_HEADER_LEN then More
      else case record_kind_from_byte (b ! 4) of
        Inl e \<Rightarrow> Corrupt e
      | Inr k \<Rightarrow>
          (let len = unat (be_val (subslice 5 9 b) :: u32) in
           if len > AGENT_RECORD_PAYLOAD_MAX then Corrupt ''agent record: payload len exceeds cap''
           else let total = AGENT_RECORD_HEADER_LEN + len in
             if length b < total then More
             else Found (Some \<lparr>channel = be_val (subslice 0 4 b), kind = k,
                    rec_payload = subslice AGENT_RECORD_HEADER_LEN total b\<rparr>) total))"

text \<open>The loop: the buffer it leaves, and the records or the error.\<close>

function decode_loop :: "bytes \<Rightarrow> agent_record list \<Rightarrow> bytes \<times> agent_record list result" where
  "decode_loop b out = (case agent_head b of
       More \<Rightarrow> (b, Inr out)
     | Corrupt e \<Rightarrow> (b, Inl e)
     | Found r n \<Rightarrow> decode_loop (drop n b) (out @ item_list r))"
  by pat_completeness auto
termination
  by (relation "measure (\<lambda>(b, _). length b)")
    (auto simp: agent_head_def AGENT_RECORD_HEADER_LEN_def Let_def split: if_splits sum.splits)

declare decode_loop.simps [simp del]

definition decoder_push :: "bytes \<Rightarrow> bytes \<Rightarrow> bytes \<times> agent_record list result" where
  "decoder_push bs b = decode_loop (b @ bs) []"

lemma agent_head_cases:
  "agent_head b = Found x n \<Longrightarrow> 9 \<le> n \<and> n \<le> length b \<and>
     n = 9 + unat (be_val (subslice 5 9 b) :: u32) \<and> n \<le> 9 + AGENT_RECORD_PAYLOAD_MAX \<and>
     (\<exists>k. record_kind_from_byte (b ! 4) = Inr k \<and>
        x = Some \<lparr>channel = be_val (subslice 0 4 b), kind = k, rec_payload = subslice 9 n b\<rparr>)"
  by (auto simp: agent_head_def AGENT_RECORD_HEADER_LEN_def Let_def split: if_splits sum.splits)

lemma subslice_append_front: "hi \<le> length b \<Longrightarrow> subslice lo hi (b @ later) = subslice lo hi b"
  by (simp add: subslice_def)

interpretation agent: record_stream agent_head
proof
  fix b x n later e
  show "agent_head b = Found x n \<Longrightarrow> 0 < n \<and> n \<le> length b"
    using agent_head_cases [of b x n] by auto
  show "agent_head b = Found x n \<Longrightarrow> agent_head (b @ later) = Found x n"
    by (auto simp: agent_head_def AGENT_RECORD_HEADER_LEN_def Let_def subslice_append_front nth_append
        split: if_splits sum.splits)
  show "agent_head b = Corrupt e \<Longrightarrow> agent_head (b @ later) = Corrupt e"
    by (auto simp: agent_head_def AGENT_RECORD_HEADER_LEN_def Let_def subslice_append_front nth_append
        split: if_splits sum.splits)
  show "agent_head [] = More"
    by (simp add: agent_head_def AGENT_RECORD_HEADER_LEN_def)
qed

lemma decode_loop_records:
  "decode_loop b out = (case records agent_head b of
     (xs, rest, None) \<Rightarrow> (rest, Inr (out @ xs)) | (xs, rest, Some e) \<Rightarrow> (rest, Inl e))"
proof (induction b out rule: decode_loop.induct)
  case (1 b out)
  show ?case
  proof (cases "agent_head b")
    case More
    then show ?thesis by (simp add: decode_loop.simps agent.records_More)
  next
    case (Corrupt e)
    then show ?thesis by (simp add: decode_loop.simps agent.records_Corrupt)
  next
    case (Found r n)
    from 1 [OF this] show ?thesis
      by (subst decode_loop.simps) (simp add: Found agent.records_Found split: prod.splits option.splits)
  qed
qed

definition record_fits :: "agent_record \<Rightarrow> bool" where
  "record_fits r \<longleftrightarrow> length (rec_payload r) \<le> AGENT_RECORD_PAYLOAD_MAX"

lemma kind_from_to: "record_kind_from_byte (record_kind_to_byte k) = Inr k"
  by (cases k) (simp_all add: record_kind_from_byte_def)

lemma agent_head_record:
  assumes "record_fits r"
  shows "agent_head (record_to_bytes r) = Found (Some r) (length (record_to_bytes r))"
proof -
  have u: "unat (of_nat (length (rec_payload r)) :: u32) = length (rec_payload r)"
    using assms by (simp add: record_fits_def AGENT_RECORD_PAYLOAD_MAX_def)
  show ?thesis
    using assms u
    by (simp add: agent_head_def record_to_bytes_def subslice_def nth_append kind_from_to Let_def record_fits_def
        AGENT_RECORD_HEADER_LEN_def)
qed

lemma written_records:
  assumes "\<forall>r \<in> set rs. record_fits r"
  shows "records agent_head (concat (map record_to_bytes rs)) = (rs, [], None)"
proof -
  have "records agent_head (concat (map record_to_bytes rs) @ []) = (concat (map (\<lambda>a. item_list (Some a)) rs), [], None)"
    using assms agent.empty_more by (intro agent.records_written) (auto simp: agent_head_record)
  moreover have "concat (map (\<lambda>a. item_list (Some a)) rs) = rs" by (induction rs) (simp_all add: item_list_def)
  ultimately show ?thesis by simp
qed

section \<open>The agent stream\<close>

record agent_stream =
  agent_outbox :: input_outbox
  agent_inbox :: input_inbox
  decoder :: bytes
  sent_bytes :: u64

definition agent_new :: agent_stream where
  "agent_new = \<lparr>agent_outbox = outbox_new, agent_inbox = inbox_new, decoder = [], sent_bytes = 0\<rparr>"

definition agent_send :: "agent_record \<Rightarrow> agent_stream \<Rightarrow> agent_stream" where
  "agent_send r a = a\<lparr>agent_outbox := outbox_push (record_to_bytes r) (agent_outbox a)\<rparr>"

text \<open>\<open>u64::saturating_add\<close> and \<open>saturating_sub\<close>.\<close>

definition saturating_add :: "u64 \<Rightarrow> u64 \<Rightarrow> u64" where
  "saturating_add x y = (if unat x + unat y < 2 ^ 64 then x + y else - 1)"

definition saturating_sub :: "u64 \<Rightarrow> u64 \<Rightarrow> u64" where
  "saturating_sub x y = (if y \<le> x then x - y else 0)"

definition mark_sent :: "nat \<Rightarrow> agent_stream \<Rightarrow> agent_stream" where
  "mark_sent len a = a\<lparr>sent_bytes := saturating_add (sent_bytes a) (of_nat len)\<rparr>"

definition queued_bytes :: "agent_stream \<Rightarrow> u64" where
  "queued_bytes a = end_offset (agent_outbox a)"

definition resent_bytes :: "agent_stream \<Rightarrow> u64" where
  "resent_bytes a = saturating_sub (sent_bytes a) (queued_bytes a)"

definition recv_ack :: "agent_stream \<Rightarrow> u64" where
  "recv_ack a = next_offset (agent_inbox a)"

definition agent_ack :: "u64 \<Rightarrow> agent_stream \<Rightarrow> agent_stream" where
  "agent_ack n a = a\<lparr>agent_outbox := outbox_ack n (agent_outbox a)\<rparr>"

definition agent_recv :: "u64 \<Rightarrow> bytes \<Rightarrow> agent_stream \<Rightarrow> agent_stream \<times> agent_record list result" where
  "agent_recv b d a = (case inbox_accept b d (agent_inbox a) of
       (x, Some fresh) \<Rightarrow>
         (case decoder_push fresh (decoder a) of (buf', r) \<Rightarrow> (a\<lparr>agent_inbox := x, decoder := buf'\<rparr>, r))
     | (x, None) \<Rightarrow> (a\<lparr>agent_inbox := x\<rparr>, Inr []))"

text \<open>Receiving a sequence of chunks; the connection is dropped at the first error.\<close>

fun agent_recv_all :: "(u64 \<times> bytes) list \<Rightarrow> agent_stream \<Rightarrow> agent_stream \<times> agent_record list result" where
  "agent_recv_all [] a = (a, Inr [])"
| "agent_recv_all ((b, d) # ms) a = (case agent_recv b d a of
       (a', Inl e) \<Rightarrow> (a', Inl e)
     | (a', Inr xs) \<Rightarrow> (case agent_recv_all ms a' of
         (a'', Inl e) \<Rightarrow> (a'', Inl e)
       | (a'', Inr ys) \<Rightarrow> (a'', Inr (xs @ ys))))"

text \<open>
  C22. A corrupt record stream stays corrupt: once \<open>push\<close> has reported an error, every later push
  reports it again, whatever bytes follow.
\<close>

lemma decoder_poisoned:
  assumes "decoder_push bs b = (b', Inl e)"
  shows "decoder_push later b' = (b' @ later, Inl e)"
proof -
  obtain xs where r: "records agent_head (b @ bs) = (xs, b', Some e)"
    using assms by (auto simp: decoder_push_def decode_loop_records split: prod.splits option.splits)
  have "records agent_head b' = ([], b', Some e)"
    using r
  proof (induction "b @ bs" arbitrary: b bs xs rule: measure_induct_rule [where f = length])
    case less
    show ?case
    proof (cases "agent_head (b @ bs)")
      case More
      with less.prems show ?thesis by (simp add: agent.records_More)
    next
      case (Corrupt e')
      with less.prems show ?thesis by (auto simp: agent.records_Corrupt)
    next
      case (Found x n)
      with less.prems obtain ys where "records agent_head (drop n (b @ bs) @ []) = (ys, b', Some e)"
        by (auto simp: agent.records_Found split: prod.splits)
      moreover have "length (drop n (b @ bs) @ []) < length (b @ bs)"
        using agent.found_bounds [OF Found] by (auto simp del: length_append drop_append)
      ultimately show ?thesis by (rule less.hyps [rotated])
    qed
  qed
  then have "records agent_head (b' @ later) = ([], b' @ later, Some e)"
    by (subst agent.records_append) simp
  then show ?thesis by (simp add: decoder_push_def decode_loop_records)
qed

lemma decoder_poisoned_witness:
  "decoder_push [1, 2, 3] [0, 0, 0, 1, 9, 0, 0, 0, 0] = ([0, 0, 0, 1, 9, 0, 0, 0, 0] @ [1, 2, 3], Inl ''agent record: unknown kind'')"
  by (rule decoder_poisoned [where bs = "[0, 0, 0, 1, 9, 0, 0, 0, 0]" and b = "[]"])
    (simp add: decoder_push_def decode_loop.simps agent_head_def AGENT_RECORD_HEADER_LEN_def record_kind_from_byte_def)

text \<open>The receiving side's invariant while it reads the stream \<open>s\<close>.\<close>

definition reading_ok :: "bytes \<Rightarrow> agent_record list \<Rightarrow> agent_stream \<Rightarrow> bool" where
  "reading_ok s out a \<longleftrightarrow> unat (recv_ack a) \<le> length s \<and>
     records agent_head (take (unat (recv_ack a)) s) = (out, decoder a, None)"

definition chunk_of :: "bytes \<Rightarrow> u64 \<times> bytes \<Rightarrow> bool" where
  "chunk_of s m \<longleftrightarrow> unat (fst m) + length (snd m) \<le> length s \<and>
     snd m = take (length (snd m)) (drop (unat (fst m)) s)"

lemma agent_recv_ok:
  assumes s: "records agent_head s = (rs, [], None)" "length s < 2 ^ 64"
    and ok: "reading_ok s out a" and m: "chunk_of s (b, d)"
  shows "\<exists>xs. agent_recv b d a = (fst (agent_recv b d a), Inr xs) \<and>
    reading_ok s (out @ xs) (fst (agent_recv b d a))"
proof (cases "unat b \<le> unat (recv_ack a)")
  case False
  then have "inbox_accept b d (agent_inbox a) = (agent_inbox a, None)"
    by (simp add: inbox_accept_def recv_ack_def word_less_nat_alt)
  with ok show ?thesis by (simp add: agent_recv_def reading_ok_def recv_ack_def)
next
  case True
  from m have c: "unat b + length d \<le> length s" "d = take (length d) (drop (unat b) s)" by (auto simp: chunk_of_def)
  from inbox_accept_stream [OF c s(2) True [unfolded recv_ack_def]] obtain x fresh where
    x: "inbox_accept b d (agent_inbox a) = (x, fresh)"
      "unat (next_offset x) = max (unat (recv_ack a)) (unat b + length d)"
      "take (unat (recv_ack a)) s @ (case fresh of Some f \<Rightarrow> f | None \<Rightarrow> []) = take (unat (next_offset x)) s"
    by (auto simp: recv_ack_def)
  have n: "unat (next_offset x) \<le> length s" using x(2) c(1) ok by (simp add: reading_ok_def)
  have r: "records agent_head (take (unat (recv_ack a)) s) = (out, decoder a, None)"
    using ok by (simp add: reading_ok_def)
  have "records agent_head (take (unat (next_offset x)) s @ drop (unat (next_offset x)) s) = (rs, [], None)"
    using s(1) by simp
  then obtain xs ys mid where p: "records agent_head (take (unat (next_offset x)) s) = (xs, mid, None)"
    by (rule agent.records_prefix)
  show ?thesis
  proof (cases fresh)
    case None
    with x(3) p r have "take (unat (next_offset x)) s = take (unat (recv_ack a)) s" by simp
    with None x(1) n r show ?thesis by (simp add: agent_recv_def reading_ok_def recv_ack_def)
  next
    case (Some f)
    have "records agent_head (take (unat (recv_ack a)) s @ f) = (xs, mid, None)" using x(3) p Some by simp
    with r obtain zs where "records agent_head (decoder a @ f) = (zs, mid, None)" "xs = out @ zs"
      unfolding agent.records_append [of "take (unat (recv_ack a)) s" f] by (auto split: prod.splits)
    with Some x(1) n p show ?thesis
      by (simp add: agent_recv_def decoder_push_def decode_loop_records reading_ok_def recv_ack_def)
  qed
qed

lemma agent_recv_all_ok:
  assumes s: "records agent_head s = (rs, [], None)" "length s < 2 ^ 64"
  shows "reading_ok s out a \<Longrightarrow> \<forall>m \<in> set ms. chunk_of s m \<Longrightarrow>
    \<exists>xs. agent_recv_all ms a = (fst (agent_recv_all ms a), Inr xs) \<and>
      reading_ok s (out @ xs) (fst (agent_recv_all ms a))"
proof (induction ms arbitrary: out a)
  case (Cons m ms)
  obtain b d where m: "m = (b, d)" by force
  from agent_recv_ok [OF s Cons.prems(1), of b d] Cons.prems(2) m obtain xs a1 where
    xs: "agent_recv b d a = (a1, Inr xs)" "reading_ok s (out @ xs) a1" by (metis list.set_intros(1))
  from Cons.IH [OF xs(2)] Cons.prems(2) obtain ys a2 where
    ys: "agent_recv_all ms a1 = (a2, Inr ys)" "reading_ok s ((out @ xs) @ ys) a2" by (metis list.set_intros(2))
  have "agent_recv_all (m # ms) a = (a2, Inr (xs @ ys))" by (simp add: m xs(1) ys(1))
  with ys(2) show ?case by simp
qed simp

text \<open>
  C14. Records cross the agent stream intact. Whatever chunks of the sender's stream arrive (cut
  anywhere, repeated, reordered, with some missing), the receiver reports no error, hands out a prefix of
  the records sent, and all of them once its acknowledgement reaches the end of the stream.
\<close>

theorem agent_stream_delivers:
  assumes "\<forall>r \<in> set rs. record_fits r" "length (concat (map record_to_bytes rs)) < 2 ^ 64"
    and "\<forall>m \<in> set ms. chunk_of (concat (map record_to_bytes rs)) m"
  shows "\<exists>a xs ys. agent_recv_all ms agent_new = (a, Inr xs) \<and> rs = xs @ ys \<and>
    (unat (recv_ack a) = length (concat (map record_to_bytes rs)) \<longrightarrow> ys = [])"
proof -
  let ?s = "concat (map record_to_bytes rs)"
  note w = written_records [OF assms(1)]
  have "reading_ok ?s [] agent_new"
    by (simp add: reading_ok_def recv_ack_def agent_new_def inbox_new_def agent.records_More agent.empty_more)
  from agent_recv_all_ok [OF w assms(2) this assms(3)] obtain xs where
    xs: "agent_recv_all ms agent_new = (fst (agent_recv_all ms agent_new), Inr xs)"
      "reading_ok ?s xs (fst (agent_recv_all ms agent_new))" by auto
  let ?n = "unat (recv_ack (fst (agent_recv_all ms agent_new)))"
  have "records agent_head (take ?n ?s @ drop ?n ?s) = (rs, [], None)" using w by simp
  then obtain xs' ys mid where p: "records agent_head (take ?n ?s) = (xs', mid, None)" "rs = xs' @ ys"
    "records agent_head (mid @ drop ?n ?s) = (ys, [], None)" by (rule agent.records_prefix)
  have "xs' = xs" using p(1) xs(2) by (simp add: reading_ok_def)
  moreover have "ys = []" if "?n = length ?s"
    using w p(1,2) unfolding that take_all [OF order.refl] by simp
  ultimately show ?thesis using xs(1) p(2)
    by (intro exI [of _ "fst (agent_recv_all ms agent_new)"] exI [of _ xs] exI [of _ ys]) auto
qed

theorem agent_stream_delivers_witness:
  "\<exists>a xs ys. agent_recv_all [(3, drop 3 (record_to_bytes \<lparr>channel = 1, kind = Data, rec_payload = [7, 8]\<rparr>)),
      (0, take 6 (record_to_bytes \<lparr>channel = 1, kind = Data, rec_payload = [7, 8]\<rparr>)),
      (3, drop 3 (record_to_bytes \<lparr>channel = 1, kind = Data, rec_payload = [7, 8]\<rparr>))] agent_new = (a, Inr xs) \<and>
    [\<lparr>channel = 1, kind = Data, rec_payload = [7, 8]\<rparr>] = xs @ ys \<and>
    (unat (recv_ack a) = length (concat (map record_to_bytes [\<lparr>channel = 1, kind = Data, rec_payload = [7, 8]\<rparr>])) \<longrightarrow> ys = [])"
  by (rule agent_stream_delivers)
    (simp_all add: record_fits_def AGENT_RECORD_PAYLOAD_MAX_def record_to_bytes_def chunk_of_def)

end
