(* ===== verification/Fragments.thy ===== *)
theory Fragments
  imports Prelude
begin

text \<open>
  Fragmentation and reassembly, \<open>crates/posh/src/remote/sync.rs\<close>: \<open>Fragment\<close> and its
  wire form, \<open>Fragmenter::make_fragments\<close>, \<open>Partial\<close> (one instruction being assembled) and
  \<open>FragmentAssembly\<close> with its two eviction bounds. Rust's panics (\<open>unwrap\<close> of a missing
  piece) are the error side of a result, so that their absence is a theorem.
\<close>

section \<open>Fragments\<close>

definition FRAG_HEADER_LEN :: nat where "FRAG_HEADER_LEN = 10"

definition FRAGMENT_CONTENTS_MAX :: nat where
  "FRAGMENT_CONTENTS_MAX = 1280 - 40 - 8 - 24 - 4 - FRAG_HEADER_LEN"

record fragment =
  frag_id :: u64
  frag_num :: u16
  is_final :: bool
  contents :: bytes

definition fragment_to_bytes :: "fragment \<Rightarrow> bytes" where
  "fragment_to_bytes f =
     (let combined = push_bit 15 (if is_final f then 1 else 0) OR (frag_num f AND 0x7fff)
      in be_bytes 8 (frag_id f) @ be_bytes 2 combined @ contents f)"

definition fragment_from_bytes :: "bytes \<Rightarrow> fragment result" where
  "fragment_from_bytes d =
     (if length d < FRAG_HEADER_LEN then Inl ''fragment too short''
      else (let combined = be_val (subslice 8 10 d) :: u16
            in Inr \<lparr>frag_id = be_val (subslice 0 8 d), frag_num = combined AND 0x7fff,
                 is_final = (combined AND 0x8000 \<noteq> 0), contents = drop FRAG_HEADER_LEN d\<rparr>))"

text \<open>
  The loop of \<open>make_fragments\<close>. It cuts nothing off when \<open>max_contents\<close> is zero, so it is a
  partial function: not returning is the value \<open>None\<close>.
\<close>

partial_function (option) fragment_loop ::
  "u64 \<Rightarrow> nat \<Rightarrow> u16 \<Rightarrow> bytes \<Rightarrow> fragment list option" where
  "fragment_loop i max_contents n rest =
     (let chunk = take max_contents rest; tail = drop max_contents rest;
          f = \<lparr>frag_id = i, frag_num = n, is_final = (tail = []), contents = chunk\<rparr>
      in if tail = [] then Some [f]
         else Option.bind (fragment_loop i max_contents (n + 1) tail) (\<lambda>fs. Some (f # fs)))"

record fragmenter =
  next_id :: u64

definition fragmenter_new :: fragmenter where
  "fragmenter_new = \<lparr>next_id = 0\<rparr>"

definition make_fragments :: "bytes \<Rightarrow> nat \<Rightarrow> fragmenter \<Rightarrow> fragmenter \<times> fragment list option" where
  "make_fragments payload max_contents fr =
     (let i = next_id fr + 1
      in (fr\<lparr>next_id := i\<rparr>, fragment_loop i max_contents 0 payload))"

section \<open>One instruction being assembled\<close>

definition MAX_FRAGMENTS :: nat where "MAX_FRAGMENTS = 12288"
definition MAX_ASSEMBLIES :: nat where "MAX_ASSEMBLIES = 8"
definition MAX_ASSEMBLY_BYTES :: nat where "MAX_ASSEMBLY_BYTES = 16 * 1024 * 1024"

record partial =
  slots :: "bytes option list"
  arrived :: nat
  total :: "nat option"
  pbytes :: nat
  touched :: nat

definition partial_new :: partial where
  "partial_new = \<lparr>slots = [], arrived = 0, total = None, pbytes = 0, touched = 0\<rparr>"

definition rejects :: "fragment \<Rightarrow> partial \<Rightarrow> bool" where
  "rejects f p \<longleftrightarrow> (let idx = unat (frag_num f) in
     idx \<ge> MAX_FRAGMENTS \<or>
     (case total p of Some t \<Rightarrow> idx \<ge> t | None \<Rightarrow> False) \<or>
     (is_final f \<and> (length (slots p) > idx + 1 \<or>
        (case total p of Some t \<Rightarrow> t \<noteq> idx + 1 | None \<Rightarrow> False))))"

definition is_duplicate :: "fragment \<Rightarrow> partial \<Rightarrow> bool" where
  "is_duplicate f p \<longleftrightarrow> (case get_at (slots p) (unat (frag_num f)) of Some (Some _) \<Rightarrow> True | _ \<Rightarrow> False)"

text \<open>\<open>Vec::resize(idx + 1, None)\<close>, taken only when the vector is shorter.\<close>

definition grown :: "nat \<Rightarrow> 'a option list \<Rightarrow> 'a option list" where
  "grown idx xs = (if length xs \<le> idx then xs @ replicate (idx + 1 - length xs) None else xs)"

definition place :: "fragment \<Rightarrow> partial \<Rightarrow> partial" where
  "place f p =
     (let idx = unat (frag_num f); ss = grown idx (slots p);
          t = (if is_final f then Some (idx + 1) else total p)
      in if ss ! idx = None
         then p\<lparr>slots := ss[idx := Some (contents f)], total := t,
                pbytes := pbytes p + length (contents f), arrived := arrived p + 1\<rparr>
         else p\<lparr>slots := ss, total := t\<rparr>)"

definition partial_add :: "fragment \<Rightarrow> partial \<Rightarrow> partial \<times> bytes option result" where
  "partial_add f p0 =
     (let p = place f p0
      in if total p = Some (arrived p) \<and> length (slots p) = arrived p
         then (case those (slots p) of
            Some pieces \<Rightarrow> (p\<lparr>slots := []\<rparr>, Inr (Some (concat pieces)))
          | None \<Rightarrow> (p, Inl ''panic: unwrap''))
         else (p, Inr None))"

section \<open>Concurrent assemblies\<close>

record assembly =
  assemblies :: "(u64 \<times> partial) list"
  buffered :: nat
  max_assemblies :: nat
  max_bytes :: nat
  clock :: nat

definition with_limits :: "nat \<Rightarrow> nat \<Rightarrow> assembly" where
  "with_limits n b = \<lparr>assemblies = [], buffered = 0, max_assemblies = n, max_bytes = b, clock = 0\<rparr>"

definition assembly_new :: assembly where
  "assembly_new = with_limits MAX_ASSEMBLIES MAX_ASSEMBLY_BYTES"

text \<open>\<open>Iterator::min_by_key\<close>: the first of the minimal elements.\<close>

fun min_by_key :: "('a \<Rightarrow> nat) \<Rightarrow> 'a list \<Rightarrow> 'a option" where
  "min_by_key k [] = None"
| "min_by_key k (x # xs) = (case min_by_key k xs of
       None \<Rightarrow> Some x
     | Some y \<Rightarrow> Some (if k x \<le> k y then x else y))"

definition remove_at :: "nat \<Rightarrow> assembly \<Rightarrow> assembly" where
  "remove_at i a = a\<lparr>buffered := buffered a - pbytes (snd (assemblies a ! i)),
     assemblies := take i (assemblies a) @ drop (i + 1) (assemblies a)\<rparr>"

definition evict_least_recently_updated :: "u64 \<Rightarrow> assembly \<Rightarrow> assembly \<times> bool" where
  "evict_least_recently_updated exclude a =
     (let victims = filter (\<lambda>i. fst (assemblies a ! i) \<noteq> exclude) [0..<length (assemblies a)]
      in case min_by_key (\<lambda>i. touched (snd (assemblies a ! i))) victims of
           Some i \<Rightarrow> (remove_at i a, True)
         | None \<Rightarrow> (a, False))"

definition remove_id :: "u64 \<Rightarrow> assembly \<Rightarrow> assembly" where
  "remove_id i a = (case position (\<lambda>e. fst e = i) (assemblies a) of
       Some k \<Rightarrow> remove_at k a
     | None \<Rightarrow> a)"

lemma min_by_key_mem: "min_by_key k xs = Some x \<Longrightarrow> x \<in> set xs"
  by (induction xs arbitrary: x) (auto split: option.splits if_splits)

lemma evict_shrinks:
  "evict_least_recently_updated i a = (a', True) \<Longrightarrow> length (assemblies a') < length (assemblies a)"
  by (auto simp: evict_least_recently_updated_def remove_at_def dest!: min_by_key_mem split: option.splits)

text \<open>The two loops of \<open>add\<close>: evict while a bound is exceeded; \<open>False\<close> when nothing is left to evict.\<close>

function evict_while :: "(assembly \<Rightarrow> bool) \<Rightarrow> u64 \<Rightarrow> assembly \<Rightarrow> assembly \<times> bool" where
  "evict_while over i a =
     (if over a then (case evict_least_recently_updated i a of
          (a', True) \<Rightarrow> evict_while over i a'
        | (a', False) \<Rightarrow> (a', False))
      else (a, True))"
  by pat_completeness auto
termination
  by (relation "measure (\<lambda>(_, _, a). length (assemblies a))") (auto simp: evict_shrinks)

declare evict_while.simps [simp del]

text \<open>The assembly of the fragment's instruction, opened if need be; \<open>None\<close> is the early return.\<close>

definition open_assembly :: "u64 \<Rightarrow> assembly \<Rightarrow> assembly \<times> nat option" where
  "open_assembly i a = (case position (\<lambda>e. fst e = i) (assemblies a) of
       Some pos \<Rightarrow> (a, Some pos)
     | None \<Rightarrow>
         (case evict_while (\<lambda>a. length (assemblies a) \<ge> max_assemblies a) i a of
            (a', False) \<Rightarrow> (a', None)
          | (a', True) \<Rightarrow>
              (a'\<lparr>assemblies := assemblies a' @ [(i, partial_new)]\<rparr>, Some (length (assemblies a')))))"

definition make_room :: "fragment \<Rightarrow> nat \<Rightarrow> assembly \<Rightarrow> assembly \<times> bool" where
  "make_room f pos a =
     (if is_duplicate f (snd (assemblies a ! pos)) then (a, True)
      else evict_while (\<lambda>a. buffered a + length (contents f) > max_bytes a) (frag_id f) a)"

definition touch :: "nat \<Rightarrow> assembly \<Rightarrow> assembly" where
  "touch pos a = a\<lparr>assemblies := (assemblies a)
     [pos := (fst (assemblies a ! pos), (snd (assemblies a ! pos))\<lparr>touched := clock a\<rparr>)]\<rparr>"

text \<open>The end of \<open>add\<close>: the fragment goes into its assembly, which leaves when it is complete.\<close>

definition feed_fragment :: "fragment \<Rightarrow> nat \<Rightarrow> assembly \<Rightarrow> assembly \<times> bytes option result" where
  "feed_fragment f pos a =
     (let e = assemblies a ! pos; (p, r) = partial_add f (snd e);
          a' = a\<lparr>assemblies := (assemblies a)[pos := (fst e, p)],
                 buffered := buffered a + (pbytes p - pbytes (snd e))\<rparr>
      in case r of
           Inr (Some payload) \<Rightarrow> (remove_at pos a', r)
         | _ \<Rightarrow> (a', r))"

definition assembly_add :: "fragment \<Rightarrow> assembly \<Rightarrow> assembly \<times> bytes option result" where
  "assembly_add f a0 =
     (case open_assembly (frag_id f) (a0\<lparr>clock := clock a0 + 1\<rparr>) of
        (a, None) \<Rightarrow> (a, Inr None)
      | (a, Some pos) \<Rightarrow>
          (if rejects f (snd (assemblies a ! pos)) then (a, Inr None)
           else case make_room f pos (touch pos a) of
             (a', False) \<Rightarrow> (remove_id (frag_id f) a', Inr None)
           | (a', True) \<Rightarrow>
               (case position (\<lambda>e. fst e = frag_id f) (assemblies a') of
                  None \<Rightarrow> (a', Inl ''panic: unwrap'')
                | Some pos' \<Rightarrow> feed_fragment f pos' a')))"

text \<open>Fragments arriving one after the other, with what each call returned.\<close>

fun assembly_run :: "fragment list \<Rightarrow> assembly \<Rightarrow> assembly \<times> bytes option result list" where
  "assembly_run [] a = (a, [])"
| "assembly_run (f # fs) a = (case assembly_add f a of
       (a1, r) \<Rightarrow> (case assembly_run fs a1 of (a2, rs) \<Rightarrow> (a2, r # rs)))"

end
