(* ===== verification/FragmentsFacts.thy ===== *)
theory FragmentsFacts
  imports Fragments
begin

text \<open>
  What fragmentation promises: the wire form of a fragment, the cut of a payload, the bounds of the
  assembly against arbitrary fragments, and reassembly in any order.
\<close>

section \<open>The wire form\<close>

lemma low15 [simp]: "(0x7fff :: u16) = mask 15" by (simp add: mask_eq_exp_minus_1)
lemma high15: "(0x8000 :: u16) = push_bit 15 1" by (simp add: push_bit_eq_mult)

lemma combined_low: "(push_bit 15 b OR (n AND mask 15)) AND mask 15 = (n AND mask 15 :: u16)"
  by (rule bit_eqI) (auto simp: bit_simps)

lemma combined_top: "(push_bit 15 x OR (n AND mask 15)) AND push_bit 15 y = (push_bit 15 (x AND y) :: u16)"
  by (rule bit_eqI) (auto simp: bit_simps)

lemma combined_high: "(push_bit 15 (if b then 1 else 0) OR (n AND mask 15)) AND 0x8000 \<noteq> (0 :: u16) \<longleftrightarrow> b"
  unfolding high15 combined_top by (cases b) (simp_all add: push_bit_eq_mult)

text \<open>
  C1. A fragment read back from its wire form is the fragment written, its number reduced to the 15 bits
  the header has for it.
\<close>

lemma fragment_roundtrip:
  "fragment_from_bytes (fragment_to_bytes f) = Inr (f\<lparr>frag_num := frag_num f AND 0x7fff\<rparr>)"
proof -
  let ?c = "push_bit 15 (if is_final f then 1 else 0) OR (frag_num f AND 0x7fff) :: u16"
  have s: "subslice 0 8 (fragment_to_bytes f) = be_bytes 8 (frag_id f)"
    "subslice 8 10 (fragment_to_bytes f) = be_bytes 2 ?c" "drop 10 (fragment_to_bytes f) = contents f"
    "\<not> length (fragment_to_bytes f) < 10"
    by (simp_all add: fragment_to_bytes_def subslice_def Let_def)
  show ?thesis
    unfolding fragment_from_bytes_def FRAG_HEADER_LEN_def s Let_def
    using s(4) combined_low [of "if is_final f then 1 else 0" "frag_num f"] combined_high [of "is_final f" "frag_num f"]
    by simp
qed

section \<open>Cutting a payload\<close>

text \<open>\<open>fs\<close> is an instruction's fragment list for the payload \<open>d\<close>: numbered from zero, the last one marked.\<close>

definition cut_of :: "u64 \<Rightarrow> bytes \<Rightarrow> fragment list \<Rightarrow> bool" where
  "cut_of i d fs \<longleftrightarrow> fs \<noteq> [] \<and> concat (map contents fs) = d \<and>
     (\<forall>k < length fs. frag_id (fs ! k) = i \<and> unat (frag_num (fs ! k)) = k \<and>
        is_final (fs ! k) = (Suc k = length fs))"

lemma fragment_loop_unfold:
  "fragment_loop i m n rest =
     (if drop m rest = [] then Some [\<lparr>frag_id = i, frag_num = n, is_final = True, contents = take m rest\<rparr>]
      else Option.bind (fragment_loop i m (n + 1) (drop m rest))
        (\<lambda>fs. Some (\<lparr>frag_id = i, frag_num = n, is_final = False, contents = take m rest\<rparr> # fs)))"
  by (subst fragment_loop.simps) (simp add: Let_def)

lemma fragment_loop_cuts:
  assumes "0 < m"
  shows "\<exists>fs. fragment_loop i m n rest = Some fs \<and> fs \<noteq> [] \<and> concat (map contents fs) = rest \<and>
    length fs = max 1 ((length rest + m - 1) div m) \<and> (\<forall>f \<in> set fs. length (contents f) \<le> m) \<and>
    (\<forall>k < length fs. frag_id (fs ! k) = i \<and> frag_num (fs ! k) = n + of_nat k \<and>
       is_final (fs ! k) = (Suc k = length fs))"
proof (induction rest arbitrary: n rule: measure_induct_rule [where f = length])
  case (less rest)
  show ?case
  proof (cases "drop m rest = []")
    case True
    then have "length rest \<le> m" by simp
    then have "max 1 ((length rest + m - 1) div m) = 1"
    proof -
      have "length rest + m - 1 < 2 * m" using \<open>length rest \<le> m\<close> assms by linarith
      then have "(length rest + m - 1) div m < 2" by (simp add: less_mult_imp_div_less)
      then show ?thesis by linarith
    qed
    with True \<open>length rest \<le> m\<close> show ?thesis by (subst fragment_loop_unfold) simp
  next
    case False
    then have l: "m < length rest" "length (drop m rest) < length rest" using assms by auto
    from less [OF l(2), of "n + 1"] obtain fs where fs: "fragment_loop i m (n + 1) (drop m rest) = Some fs"
      "fs \<noteq> []" "concat (map contents fs) = drop m rest"
      "length fs = max 1 ((length (drop m rest) + m - 1) div m)" "\<forall>f \<in> set fs. length (contents f) \<le> m"
      "\<forall>k < length fs. frag_id (fs ! k) = i \<and> frag_num (fs ! k) = n + 1 + of_nat k \<and>
         is_final (fs ! k) = (Suc k = length fs)" by blast
    have d: "(length rest + m - 1) div m = Suc ((length rest - 1) div m)"
    proof -
      have "length rest + m - 1 = (length rest - 1) + m" using l(1) by simp
      then show ?thesis using assms by (simp only: div_add_self2)
    qed
    have "length (drop m rest) + m - 1 = length rest - 1" using l(1) by simp
    moreover have "0 < (length rest - 1) div m" using l(1) assms by (simp add: div_greater_zero_iff)
    ultimately have n: "Suc (length fs) = max 1 ((length rest + m - 1) div m)" using fs(4) d by simp
    let ?f = "\<lparr>frag_id = i, frag_num = n, is_final = False, contents = take m rest\<rparr>"
    have loop: "fragment_loop i m n rest = Some (?f # fs)"
      using False fs(1) by (subst fragment_loop_unfold) simp
    have "\<forall>k < length (?f # fs). frag_id ((?f # fs) ! k) = i \<and> frag_num ((?f # fs) ! k) = n + of_nat k \<and>
        is_final ((?f # fs) ! k) = (Suc k = length (?f # fs))"
      using fs(2,6) by (auto simp: nth_Cons ac_simps split: nat.splits)
    with loop n fs(3,5) show ?thesis by (intro exI [of _ "?f # fs"]) (auto simp: l(1) less_imp_le)
  qed
qed

text \<open>
  C15. With a positive fragment size, \<open>make_fragments\<close> terminates; its fragments concatenate to the
  payload, none is larger than the size asked for, there are as many as the payload needs (one for an
  empty payload), they carry the new instruction's id and consecutive numbers, and the last alone is final.
\<close>

theorem make_fragments_cuts:
  assumes "0 < m" "length d \<le> 65535 * m"
  shows "\<exists>fs. make_fragments d m fr = (\<lparr>next_id = next_id fr + 1\<rparr>, Some fs) \<and> cut_of (next_id fr + 1) d fs \<and>
    length fs = max 1 ((length d + m - 1) div m) \<and> (\<forall>f \<in> set fs. length (contents f) \<le> m)"
proof -
  obtain fs where fs: "fragment_loop (next_id fr + 1) m 0 d = Some fs" "fs \<noteq> []" "concat (map contents fs) = d"
    "length fs = max 1 ((length d + m - 1) div m)" "\<forall>f \<in> set fs. length (contents f) \<le> m"
    "\<forall>k < length fs. frag_id (fs ! k) = next_id fr + 1 \<and> frag_num (fs ! k) = 0 + of_nat k \<and>
       is_final (fs ! k) = (Suc k = length fs)"
    using fragment_loop_cuts [OF assms(1)] by blast
  have "(length d + m - 1) div m \<le> 65535"
  proof -
    have "length d + m - 1 < 65536 * m" using assms by linarith
    then have "(length d + m - 1) div m < 65536" by (rule less_mult_imp_div_less)
    then show ?thesis by linarith
  qed
  then have "length fs < 65536" using fs(4) by linarith
  then have "cut_of (next_id fr + 1) d fs" using fs(2,3,6) by (simp add: cut_of_def)
  with fs(1,4,5) show ?thesis by (cases fr) (simp add: make_fragments_def Let_def)
qed

section \<open>One instruction\<close>

definition slot_bytes :: "bytes option list \<Rightarrow> nat" where
  "slot_bytes xs = sum_list (map (\<lambda>s. case s of None \<Rightarrow> 0 | Some b \<Rightarrow> length b) xs)"

definition present :: "'a option list \<Rightarrow> nat" where
  "present xs = length (filter (\<lambda>s. s \<noteq> None) xs)"

text \<open>The counters agree with the slots, and the slots stay within the bounds \<open>rejects\<close> enforces.\<close>

definition partial_sane :: "partial \<Rightarrow> bool" where
  "partial_sane p \<longleftrightarrow> arrived p = present (slots p) \<and> pbytes p = slot_bytes (slots p) \<and>
     length (slots p) \<le> MAX_FRAGMENTS \<and> (case total p of Some t \<Rightarrow> length (slots p) \<le> t | None \<Rightarrow> True)"

lemma present_update: "i < length xs \<Longrightarrow> xs ! i = None \<Longrightarrow> present (xs[i := Some b]) = Suc (present xs)"
  by (induction xs arbitrary: i) (auto simp: present_def nth_Cons split: nat.splits)

lemma slot_bytes_update: "i < length xs \<Longrightarrow> xs ! i = None \<Longrightarrow> slot_bytes (xs[i := Some b]) = slot_bytes xs + length b"
  by (induction xs arbitrary: i) (auto simp: slot_bytes_def nth_Cons split: nat.splits)

lemma grown_facts [simp]:
  "present (grown n xs) = present xs" "slot_bytes (grown n xs) = slot_bytes xs" "n < length (grown n xs)"
  "length (grown n xs) = max (length xs) (n + 1)"
  by (auto simp: grown_def present_def slot_bytes_def sum_list_replicate)

lemma nth_grown: "k < length (grown n xs) \<Longrightarrow> grown n xs ! k = (if k < length xs then xs ! k else None)"
  by (auto simp: grown_def nth_append split: if_splits)

lemma not_rejected:
  assumes "\<not> rejects f p" "partial_sane p"
  shows "unat (frag_num f) < MAX_FRAGMENTS" "\<And>t. total p = Some t \<Longrightarrow> unat (frag_num f) < t"
    "is_final f \<Longrightarrow> length (slots p) \<le> unat (frag_num f) + 1"
    "is_final f \<Longrightarrow> total p = None \<or> total p = Some (unat (frag_num f) + 1)"
  using assms by (auto simp: rejects_def partial_sane_def Let_def split: option.splits)

lemma partial_sane_touched [simp]: "partial_sane (p\<lparr>touched := t\<rparr>) = partial_sane p"
  by (simp add: partial_sane_def split: option.split)

lemma place_fields:
  "slots (place f p) = (let ss = grown (unat (frag_num f)) (slots p) in
     if ss ! unat (frag_num f) = None then ss[unat (frag_num f) := Some (contents f)] else ss)"
  "total (place f p) = (if is_final f then Some (unat (frag_num f) + 1) else total p)"
  "arrived (place f p) = arrived p + (if grown (unat (frag_num f)) (slots p) ! unat (frag_num f) = None then 1 else 0)"
  "pbytes (place f p) = pbytes p + (if grown (unat (frag_num f)) (slots p) ! unat (frag_num f) = None
     then length (contents f) else 0)"
  "length (slots (place f p)) = max (length (slots p)) (unat (frag_num f) + 1)"
  by (simp_all add: place_def Let_def)

lemma place_sane:
  assumes "\<not> rejects f p" "partial_sane p"
  shows "partial_sane (place f p)"
proof -
  note r = not_rejected [OF assms]
  have "case total (place f p) of Some t \<Rightarrow> length (slots (place f p)) \<le> t | None \<Rightarrow> True"
    using r assms(2) unfolding place_fields(2,5) by (auto simp: partial_sane_def split: option.splits)
  moreover have "arrived (place f p) = present (slots (place f p))" "pbytes (place f p) = slot_bytes (slots (place f p))"
    using assms(2) by (auto simp: place_fields(1,3,4) Let_def partial_sane_def present_update slot_bytes_update)
  moreover have "length (slots (place f p)) \<le> MAX_FRAGMENTS"
    using r(1) assms(2) by (simp add: place_fields(5) partial_sane_def)
  ultimately show ?thesis by (simp add: partial_sane_def)
qed

lemma place_bytes:
  assumes "partial_sane p"
  shows "pbytes (place f p) = pbytes p + (if is_duplicate f p then 0 else length (contents f))"
  by (auto simp: place_def Let_def is_duplicate_def get_at_def nth_grown split: option.splits)

lemma those_map_Some: "those (map Some ys) = Some ys"
  by (induction ys) simp_all

lemma present_simps [simp]: "present [] = 0" "present (x # xs) = (if x = None then 0 else 1) + present xs"
  by (simp_all add: present_def)

lemma present_le: "present xs \<le> length xs"
  by (simp add: present_def)

lemma all_present: "present xs = length xs \<Longrightarrow> \<exists>ys. xs = map Some ys"
proof (induction xs)
  case (Cons x xs)
  from Cons.prems present_le [of xs] obtain b where b: "x = Some b" "present xs = length xs"
    by (auto split: if_splits)
  with Cons.IH obtain ys where "xs = map Some ys" by blast
  with b(1) show ?case by (intro exI [of _ "b # ys"]) simp
qed simp

text \<open>Adding a piece that was not rejected never fails, and completes exactly when every piece is there.\<close>

lemma partial_add_cases:
  assumes "\<not> rejects f p" "partial_sane p"
  obtains (incomplete) "partial_add f p = (place f p, Inr None)"
      "\<not> (total (place f p) = Some (arrived (place f p)) \<and> length (slots (place f p)) = arrived (place f p))"
    | (complete) pieces where "partial_add f p = ((place f p)\<lparr>slots := []\<rparr>, Inr (Some (concat pieces)))"
        "slots (place f p) = map Some pieces" "total (place f p) = Some (length pieces)"
proof (cases "total (place f p) = Some (arrived (place f p)) \<and> length (slots (place f p)) = arrived (place f p)")
  case True
  moreover have "present (slots (place f p)) = arrived (place f p)"
    using place_sane [OF assms] by (simp add: partial_sane_def)
  ultimately obtain ys where ys: "slots (place f p) = map Some ys" using all_present by metis
  with True have "partial_add f p = ((place f p)\<lparr>slots := []\<rparr>, Inr (Some (concat ys)))"
    by (simp add: partial_add_def Let_def those_map_Some)
  with complete ys True show ?thesis by simp
next
  case False
  with incomplete show ?thesis by (simp add: partial_add_def Let_def)
qed

section \<open>The assemblies\<close>

text \<open>
  The bookkeeping invariant, with a condition \<open>Q\<close> on each instruction's partial. The interface
  \<open>partial_invariant\<close> collects what \<open>Q\<close> has to be stable under, for the fragments \<open>ok\<close>.
\<close>

definition asm_inv :: "(u64 \<Rightarrow> partial \<Rightarrow> bool) \<Rightarrow> assembly \<Rightarrow> bool" where
  "asm_inv Q a \<longleftrightarrow> distinct (map fst (assemblies a)) \<and>
     buffered a = sum_list (map (pbytes \<circ> snd) (assemblies a)) \<and> buffered a \<le> max_bytes a \<and>
     length (assemblies a) \<le> max_assemblies a \<and>
     (\<forall>e \<in> set (assemblies a). partial_sane (snd e) \<and> Q (fst e) (snd e))"

text \<open>What a call returned: nothing, or the pieces of a complete partial satisfying \<open>Q\<close>.\<close>

definition delivered :: "(u64 \<Rightarrow> partial \<Rightarrow> bool) \<Rightarrow> u64 \<Rightarrow> bytes option \<Rightarrow> bool" where
  "delivered Q i r \<longleftrightarrow> (case r of None \<Rightarrow> True | Some d \<Rightarrow>
     (\<exists>p pieces. Q i p \<and> slots p = map Some pieces \<and> total p = Some (length pieces) \<and> d = concat pieces))"

lemma delivered_None [simp]: "delivered Q i None"
  by (simp add: delivered_def)

definition same_limits :: "assembly \<Rightarrow> assembly \<Rightarrow> bool" where
  "same_limits a b \<longleftrightarrow> max_assemblies b = max_assemblies a \<and> max_bytes b = max_bytes a"

text \<open>What evicting may change: entries go, never the one of the instruction \<open>i\<close>.\<close>

definition evicted :: "u64 \<Rightarrow> assembly \<Rightarrow> assembly \<Rightarrow> bool" where
  "evicted i a b \<longleftrightarrow> same_limits a b \<and> set (assemblies b) \<subseteq> set (assemblies a) \<and>
     (\<forall>e \<in> set (assemblies a). fst e = i \<longrightarrow> e \<in> set (assemblies b))"

lemma remove_at_inv:
  assumes "asm_inv Q a" "k < length (assemblies a)"
  shows "asm_inv Q (remove_at k a)" "same_limits a (remove_at k a)"
    "set (assemblies (remove_at k a)) \<subseteq> set (assemblies a)"
    "e \<in> set (assemblies a) \<Longrightarrow> e \<noteq> assemblies a ! k \<Longrightarrow> e \<in> set (assemblies (remove_at k a))"
proof -
  let ?l = "take k (assemblies a)" and ?r = "drop (k + 1) (assemblies a)" and ?e = "assemblies a ! k"
  have s: "assemblies a = ?l @ ?e # ?r" using id_take_nth_drop [OF assms(2)] by simp
  have r: "assemblies (remove_at k a) = ?l @ ?r" by (simp add: remove_at_def)
  have sub: "set (?l @ ?r) \<subseteq> set (assemblies a)" by (subst (3) s) auto
  have "distinct (map fst (?l @ ?e # ?r))" using assms(1) s by (simp add: asm_inv_def)
  moreover have "buffered a = sum_list (map (pbytes \<circ> snd) (?l @ ?e # ?r))" using assms(1) s by (simp add: asm_inv_def)
  moreover have "length (?l @ ?r) \<le> length (assemblies a)" by (subst (3) s) simp
  ultimately show "asm_inv Q (remove_at k a)" using assms(1) sub
    by (auto simp: asm_inv_def remove_at_def)
  show "same_limits a (remove_at k a)" by (simp add: same_limits_def remove_at_def)
  show "set (assemblies (remove_at k a)) \<subseteq> set (assemblies a)" unfolding r by (rule sub)
  assume e: "e \<in> set (assemblies a)" "e \<noteq> ?e"
  from e(1) have "e \<in> set (?l @ ?e # ?r)" by (subst (asm) s)
  with e(2) show "e \<in> set (assemblies (remove_at k a))" unfolding r by auto
qed

lemma evict_inv:
  assumes "asm_inv Q a" "evict_least_recently_updated i a = (b, ok)"
  shows "asm_inv Q b \<and> evicted i a b"
proof (cases ok)
  case True
  with assms(2) obtain k where k: "k < length (assemblies a)" "fst (assemblies a ! k) \<noteq> i" "b = remove_at k a"
    by (auto simp: evict_least_recently_updated_def Let_def dest!: min_by_key_mem split: option.splits)
  note r = remove_at_inv [OF assms(1) k(1)]
  from r(4) k(2) have "\<forall>e \<in> set (assemblies a). fst e = i \<longrightarrow> e \<in> set (assemblies b)" unfolding k(3) by metis
  with r(1-3) show ?thesis unfolding evicted_def k(3) by blast
next
  case False
  with assms have "b = a" by (auto simp: evict_least_recently_updated_def Let_def split: option.splits)
  with assms(1) show ?thesis by (simp add: evicted_def same_limits_def)
qed

lemma evict_while_inv:
  "asm_inv Q a \<Longrightarrow> evict_while over i a = (b, ok) \<Longrightarrow>
     asm_inv Q b \<and> evicted i a b \<and> (ok \<longrightarrow> \<not> over b)"
proof (induction over i a arbitrary: b ok rule: evict_while.induct)
  case (1 over i a)
  show ?case
  proof (cases "over a")
    case False
    with 1 show ?thesis by (auto simp: evict_while.simps [of over i a] evicted_def same_limits_def)
  next
    case True
    obtain a' more where e: "evict_least_recently_updated i a = (a', more)" by force
    note inv = evict_inv [OF 1(2) e]
    show ?thesis
    proof (cases more)
      case True
      with e \<open>over a\<close> 1(3) have "evict_while over i a' = (b, ok)" by (simp add: evict_while.simps [of over i a])
      moreover have "evict_least_recently_updated i a = (a', True)" using e True by simp
      ultimately have "asm_inv Q b \<and> evicted i a' b \<and> (ok \<longrightarrow> \<not> over b)"
        using 1(1) [OF \<open>over a\<close>] inv by fastforce
      with inv show ?thesis by (auto simp: evicted_def same_limits_def)
    next
      case False
      with e \<open>over a\<close> 1(3) inv show ?thesis by (simp add: evict_while.simps [of over i a])
    qed
  qed
qed

lemma open_assembly_inv:
  assumes "asm_inv Q a" "Q i partial_new" "open_assembly i a = (b, r)"
  shows "asm_inv Q b \<and> same_limits a b \<and>
    (case r of Some pos \<Rightarrow> pos < length (assemblies b) \<and> fst (assemblies b ! pos) = i | None \<Rightarrow> True)"
proof (cases "position (\<lambda>e. fst e = i) (assemblies a)")
  case (Some k)
  then have "b = a" "r = Some k" using assms(3) by (simp_all add: open_assembly_def)
  with assms(1) position_SomeD [OF Some] show ?thesis by (simp add: same_limits_def)
next
  case None
  obtain c ok where w: "evict_while (\<lambda>a. length (assemblies a) \<ge> max_assemblies a) i a = (c, ok)" by force
  note inv = evict_while_inv [OF assms(1) w]
  show ?thesis
  proof (cases ok)
    case False
    then have "b = c" "r = None"
      using None w assms(3) by (simp_all add: open_assembly_def del: position_None_iff)
    with inv show ?thesis by (simp add: evicted_def)
  next
    case True
    have b: "b = c\<lparr>assemblies := assemblies c @ [(i, partial_new)]\<rparr>" "r = Some (length (assemblies c))"
      using None w True assms(3) by (simp_all add: open_assembly_def del: position_None_iff)
    have "set (assemblies c) \<subseteq> set (assemblies a)" using inv by (simp add: evicted_def)
    then have "i \<notin> set (map fst (assemblies c))" using None by auto
    moreover have "partial_sane partial_new"
      by (simp add: partial_sane_def partial_new_def slot_bytes_def)
    ultimately have "asm_inv Q b" using inv True assms(2)
      by (auto simp: asm_inv_def b partial_new_def)
    with b inv show ?thesis by (simp add: evicted_def same_limits_def nth_append)
  qed
qed

lemma remove_id_inv: "asm_inv Q a \<Longrightarrow> asm_inv Q (remove_id i a) \<and> same_limits a (remove_id i a)"
  by (auto simp: remove_id_def same_limits_def remove_at_inv(1) remove_at_inv(2) [unfolded same_limits_def]
      split: option.splits dest!: position_SomeD)

lemma asm_inv_update:
  assumes "asm_inv Q a" "pos < length (assemblies a)" "partial_sane p" "Q (fst (assemblies a ! pos)) p"
    and "pbytes (snd (assemblies a ! pos)) \<le> pbytes p"
    and "buffered a + (pbytes p - pbytes (snd (assemblies a ! pos))) \<le> max_bytes a"
  shows "asm_inv Q (a\<lparr>assemblies := (assemblies a)[pos := (fst (assemblies a ! pos), p)],
    buffered := buffered a + (pbytes p - pbytes (snd (assemblies a ! pos)))\<rparr>)"
proof -
  let ?e = "assemblies a ! pos"
  have "map fst ((assemblies a)[pos := (fst ?e, p)]) = map fst (assemblies a)"
    using assms(2) by (metis fst_conv list_update_id map_update nth_map)
  moreover have "sum_list (map (pbytes \<circ> snd) ((assemblies a)[pos := (fst ?e, p)])) + pbytes (snd ?e) =
      sum_list (map (pbytes \<circ> snd) (assemblies a)) + pbytes p"
  proof -
    have "pbytes (snd ?e) \<le> sum_list (map (pbytes \<circ> snd) (assemblies a))"
      using assms(2) member_le_sum_list [of "pbytes (snd ?e)" "map (pbytes \<circ> snd) (assemblies a)"] by force
    with assms(2) show ?thesis by (simp add: map_update sum_list_update)
  qed
  moreover have "\<forall>e \<in> set ((assemblies a)[pos := (fst ?e, p)]). partial_sane (snd e) \<and> Q (fst e) (snd e)"
    using assms(1,3,4) set_update_subset_insert [of "assemblies a" pos "(fst ?e, p)"] by (auto simp: asm_inv_def)
  ultimately show ?thesis using assms(1,5,6) by (auto simp: asm_inv_def)
qed

text \<open>A condition on partials that adding the fragments \<open>genuine\<close> keeps.\<close>

locale partial_invariant =
  fixes genuine :: "fragment \<Rightarrow> bool" and Q :: "u64 \<Rightarrow> partial \<Rightarrow> bool"
  assumes Q_new: "genuine f \<Longrightarrow> Q (frag_id f) partial_new"
    and Q_touched: "Q i p \<Longrightarrow> Q i (p\<lparr>touched := t\<rparr>)"
    and Q_place: "genuine f \<Longrightarrow> Q (frag_id f) p \<Longrightarrow> partial_sane p \<Longrightarrow> \<not> rejects f p \<Longrightarrow> Q (frag_id f) (place f p)"
begin

lemma touch_inv:
  assumes "asm_inv Q a" "pos < length (assemblies a)"
  shows "asm_inv Q (touch pos a)"
proof -
  let ?e = "assemblies a ! pos"
  have "partial_sane (snd ?e)" "Q (fst ?e) (snd ?e)" "buffered a \<le> max_bytes a"
    using assms by (auto simp: asm_inv_def)
  then have "asm_inv Q (a\<lparr>assemblies := (assemblies a)[pos := (fst ?e, (snd ?e)\<lparr>touched := clock a\<rparr>)],
      buffered := buffered a + (pbytes ((snd ?e)\<lparr>touched := clock a\<rparr>) - pbytes (snd ?e))\<rparr>)"
    using assms Q_touched by (intro asm_inv_update) simp_all
  then show ?thesis by (simp add: touch_def)
qed

lemma feed_inv:
  assumes "genuine f" "asm_inv Q a" "pos < length (assemblies a)" "fst (assemblies a ! pos) = frag_id f"
    and "\<not> rejects f (snd (assemblies a ! pos))"
    and "is_duplicate f (snd (assemblies a ! pos)) \<or> buffered a + length (contents f) \<le> max_bytes a"
  shows "\<exists>b r. feed_fragment f pos a = (b, Inr r) \<and> asm_inv Q b \<and> same_limits a b \<and>
    delivered Q (frag_id f) r"
proof -
  let ?p = "snd (assemblies a ! pos)"
  have "assemblies a ! pos \<in> set (assemblies a)" using assms(3) by simp
  then have sane: "partial_sane ?p" and q: "Q (frag_id f) ?p"
    using assms(2,4) by (auto simp: asm_inv_def simp del: nth_mem)
  note ps = place_sane [OF assms(5) sane] and pq = Q_place [OF assms(1) q sane assms(5)]
  have upd: "asm_inv Q (a\<lparr>assemblies := (assemblies a)[pos := (frag_id f, place f ?p)],
      buffered := buffered a + (pbytes (place f ?p) - pbytes ?p)\<rparr>)" (is "asm_inv Q ?b")
  proof -
    have "buffered a \<le> max_bytes a" using assms(2) by (simp add: asm_inv_def)
    with assms(6) have "pbytes ?p \<le> pbytes (place f ?p)"
      "buffered a + (pbytes (place f ?p) - pbytes ?p) \<le> max_bytes a"
      using place_bytes [OF sane, of f] by auto
    with asm_inv_update [OF assms(2,3) ps] pq assms(4) show ?thesis by simp
  qed
  from assms(5) sane show ?thesis
  proof (cases rule: partial_add_cases)
    case incomplete
    with upd assms(4) show ?thesis by (simp add: feed_fragment_def Let_def same_limits_def)
  next
    case (complete pieces)
    let ?c = "a\<lparr>assemblies := (assemblies a)[pos := (frag_id f, (place f ?p)\<lparr>slots := []\<rparr>)],
      buffered := buffered a + (pbytes (place f ?p) - pbytes ?p)\<rparr>"
    have "remove_at pos ?c = remove_at pos ?b" using assms(3) by (simp add: remove_at_def)
    moreover have "asm_inv Q (remove_at pos ?b)" using upd by (rule remove_at_inv(1)) (simp add: assms(3))
    moreover have "same_limits a (remove_at pos ?b)" by (simp add: remove_at_def same_limits_def)
    moreover have "feed_fragment f pos a = (remove_at pos ?c, Inr (Some (concat pieces)))"
      using complete assms(4) by (simp add: feed_fragment_def Let_def)
    ultimately show ?thesis using complete(2,3) pq by (auto simp: delivered_def)
  qed
qed

lemma make_room_inv:
  assumes "asm_inv Q a" "make_room f pos a = (b, ok)"
  shows "asm_inv Q b \<and> evicted (frag_id f) a b \<and>
    (ok \<longrightarrow> is_duplicate f (snd (assemblies a ! pos)) \<or> buffered b + length (contents f) \<le> max_bytes b)"
proof (cases "is_duplicate f (snd (assemblies a ! pos))")
  case True
  with assms show ?thesis by (simp add: make_room_def evicted_def same_limits_def)
next
  case False
  then have "evict_while (\<lambda>a. buffered a + length (contents f) > max_bytes a) (frag_id f) a = (b, ok)"
    using assms(2) by (simp add: make_room_def)
  from evict_while_inv [OF assms(1) this] show ?thesis by auto
qed

text \<open>One call of \<open>add\<close> with a genuine fragment.\<close>

lemma assembly_add_inv:
  assumes "genuine f" "asm_inv Q a0"
  shows "\<exists>b r. assembly_add f a0 = (b, Inr r) \<and> asm_inv Q b \<and> same_limits a0 b \<and>
    delivered Q (frag_id f) r"
proof -
  obtain a r where o: "open_assembly (frag_id f) (a0\<lparr>clock := clock a0 + 1\<rparr>) = (a, r)" by force
  have "asm_inv Q (a0\<lparr>clock := clock a0 + 1\<rparr>)" using assms(2) by (simp add: asm_inv_def)
  from open_assembly_inv [OF this Q_new [OF assms(1)] o] have inv: "asm_inv Q a" "same_limits a0 a"
    and pos: "\<And>pos. r = Some pos \<Longrightarrow> pos < length (assemblies a) \<and> fst (assemblies a ! pos) = frag_id f"
    by (auto simp: same_limits_def)
  show ?thesis
  proof (cases r)
    case None
    with o inv show ?thesis by (simp add: assembly_add_def)
  next
    case (Some pos)
    let ?e = "assemblies a ! pos"
    show ?thesis
    proof (cases "rejects f (snd ?e)")
      case True
      with o Some inv show ?thesis by (simp add: assembly_add_def)
    next
      case False
      note p = pos [OF Some]
      obtain b ok where m: "make_room f pos (touch pos a) = (b, ok)" by force
      from p inv(1) have t: "asm_inv Q (touch pos a)" by (intro touch_inv) simp_all
      note room = make_room_inv [OF t m]
      have lim: "same_limits a0 b" using room inv(2) by (simp add: evicted_def same_limits_def touch_def)
      let ?f = "(frag_id f, (snd ?e)\<lparr>touched := clock a\<rparr>)"
      have e: "assemblies (touch pos a) ! pos = ?f" "?f \<in> set (assemblies (touch pos a))"
        using p by (auto simp: touch_def set_update_memI)
      show ?thesis
      proof (cases ok)
        case False
        with o Some m \<open>\<not> rejects f (snd ?e)\<close>
        have "assembly_add f a0 = (remove_id (frag_id f) b, Inr None)" by (simp add: assembly_add_def)
        with remove_id_inv [of Q b "frag_id f"] room lim show ?thesis by (simp add: same_limits_def)
      next
        case True
        have fb: "?f \<in> set (assemblies b)" using room e(2) by (simp add: evicted_def)
        then obtain k where k: "position (\<lambda>e. fst e = frag_id f) (assemblies b) = Some k"
          by (cases "position (\<lambda>e. fst e = frag_id f) (assemblies b)") auto
        note kp = position_SomeD [OF k]
        have "distinct (map fst (assemblies b))" using room by (simp add: asm_inv_def)
        then have bk: "assemblies b ! k = ?f"
          using kp fb eq_key_imp_eq_value [of "assemblies b" "frag_id f" "snd ?f" "snd (assemblies b ! k)"]
          by (metis nth_mem prod.collapse fst_conv snd_conv)
        have "\<not> rejects f (snd (assemblies b ! k))" "is_duplicate f (snd (assemblies b ! k)) = is_duplicate f (snd ?f)"
          using \<open>\<not> rejects f (snd ?e)\<close> by (simp_all add: bk rejects_def)
        with feed_inv [OF assms(1), of b k] room True kp e(1) obtain c r' where
          "feed_fragment f k b = (c, Inr r')" "asm_inv Q c" "same_limits b c"
          "delivered Q (frag_id f) r'" by auto
        moreover have "assembly_add f a0 = feed_fragment f k b"
          using o Some m True k \<open>\<not> rejects f (snd ?e)\<close> by (simp add: assembly_add_def)
        ultimately show ?thesis using lim by (simp add: same_limits_def)
      qed
    qed
  qed
qed

lemma assembly_run_inv:
  "asm_inv Q a \<Longrightarrow> \<forall>f \<in> set fs. genuine f \<Longrightarrow> assembly_run fs a = (b, rs) \<Longrightarrow>
     asm_inv Q b \<and> same_limits a b \<and> length rs = length fs \<and>
     (\<forall>k < length fs. \<exists>r. rs ! k = Inr r \<and>
        delivered Q (frag_id (fs ! k)) r)"
proof (induction fs arbitrary: a b rs)
  case Nil
  then show ?case by (simp add: same_limits_def)
next
  case (Cons f fs)
  from assembly_add_inv [of f a] Cons.prems(1,2) obtain c r where c: "assembly_add f a = (c, Inr r)" "asm_inv Q c"
    "same_limits a c" "delivered Q (frag_id f) r" by auto
  obtain b' rs' where r: "assembly_run fs c = (b', rs')" by force
  with Cons.prems(3) c(1) have "b = b'" "rs = Inr r # rs'" by simp_all
  with Cons.IH [OF c(2) _ r] Cons.prems(2) c(3,4) show ?case
    by (auto simp: same_limits_def nth_Cons split: nat.split)
qed

end

section \<open>Against any fragments\<close>

interpretation bounded: partial_invariant "\<lambda>_. True" "\<lambda>_ _. True"
  by unfold_locales simp_all

lemma asm_inv_start: "asm_inv Q (with_limits n m)"
  by (simp add: asm_inv_def with_limits_def)

text \<open>
  C18. Whatever fragments a peer sends, in whatever order, \<open>add\<close> never panics and the assembly keeps
  its bounds: at most \<open>max_assemblies\<close> instructions, all of different ids, the byte counter exactly
  the bytes buffered and within \<open>max_bytes\<close>, and no instruction with more than \<open>MAX_FRAGMENTS\<close> slots.
\<close>

lemma assembly_bounded:
  "list_all (\<lambda>r. \<not> isl r) (snd (assembly_run fs (with_limits n m))) \<and>
   distinct (map fst (assemblies (fst (assembly_run fs (with_limits n m))))) \<and>
   length (assemblies (fst (assembly_run fs (with_limits n m)))) \<le> n \<and>
   buffered (fst (assembly_run fs (with_limits n m))) =
     sum_list (map (\<lambda>e. slot_bytes (slots (snd e))) (assemblies (fst (assembly_run fs (with_limits n m))))) \<and>
   buffered (fst (assembly_run fs (with_limits n m))) \<le> m \<and>
   list_all (\<lambda>e. length (slots (snd e)) \<le> MAX_FRAGMENTS) (assemblies (fst (assembly_run fs (with_limits n m))))"
proof -
  obtain b rs where r: "assembly_run fs (with_limits n m) = (b, rs)" by force
  have "\<forall>f \<in> set fs. True" by simp
  from bounded.assembly_run_inv [OF asm_inv_start this r] have inv: "asm_inv (\<lambda>_ _. True) b"
    "same_limits (with_limits n m) b" "length rs = length fs" "\<forall>k < length fs. \<exists>r. rs ! k = Inr r" by blast+
  have "sum_list (map (pbytes \<circ> snd) (assemblies b)) = sum_list (map (\<lambda>e. slot_bytes (slots (snd e))) (assemblies b))"
    using inv(1) by (intro arg_cong [where f = sum_list] map_cong) (auto simp: asm_inv_def partial_sane_def)
  moreover have "list_all (\<lambda>r. \<not> isl r) rs" unfolding list_all_length using inv(3,4) by force
  ultimately show ?thesis using inv(1,2) unfolding r
    by (auto simp: asm_inv_def same_limits_def with_limits_def partial_sane_def list_all_iff)
qed

section \<open>Against the fragments of honest senders\<close>

text \<open>
  \<open>F i\<close> is the fragment list of the instruction \<open>i\<close>. A fragment is genuine when it is one of
  its instruction's; a partial is honest when its slots hold pieces of the instruction, each in its place.
\<close>

definition payload_of :: "(u64 \<Rightarrow> fragment list) \<Rightarrow> u64 \<Rightarrow> bytes" where
  "payload_of F i = concat (map contents (F i))"

definition genuine_fragment :: "(u64 \<Rightarrow> fragment list) \<Rightarrow> fragment \<Rightarrow> bool" where
  "genuine_fragment F f \<longleftrightarrow> f \<in> set (F (frag_id f)) \<and> cut_of (frag_id f) (payload_of F (frag_id f)) (F (frag_id f))"

definition honest :: "fragment list \<Rightarrow> partial \<Rightarrow> bool" where
  "honest F p \<longleftrightarrow> length (slots p) \<le> length F \<and>
     (\<forall>k < length (slots p). slots p ! k = None \<or> slots p ! k = Some (contents (F ! k))) \<and>
     (total p = None \<or> total p = Some (length F))"

lemma cut_index:
  assumes "cut_of i d F" "f \<in> set F"
  shows "unat (frag_num f) < length F" "F ! unat (frag_num f) = f"
    "is_final f = (Suc (unat (frag_num f)) = length F)"
  using assms by (auto simp: cut_of_def in_set_conv_nth)

lemma honest_place:
  assumes "cut_of i d F" "f \<in> set F" "honest F p"
  shows "honest F (place f p)"
proof -
  note x = cut_index [OF assms(1,2)]
  have h: "slots p ! k = None \<or> slots p ! k = Some (contents (F ! k))" if "k < length (slots p)" for k
    using that assms(3) by (simp add: honest_def)
  have "slots (place f p) ! k = None \<or> slots (place f p) ! k = Some (contents (F ! k))"
    if "k < length (slots (place f p))" for k
    using that h [of k] x by (cases "k = unat (frag_num f)") (auto simp: place_fields Let_def nth_grown split: if_splits)
  moreover have "length (slots (place f p)) \<le> length F" using x(1) assms(3) by (simp add: place_fields(5) honest_def)
  moreover have "total (place f p) = None \<or> total (place f p) = Some (length F)"
    using x(3) assms(3) by (auto simp: place_fields(2) honest_def)
  ultimately show ?thesis by (simp add: honest_def)
qed

interpretation honest: partial_invariant "genuine_fragment F" "\<lambda>i. honest (F i)"
  for F
proof
  fix f :: fragment and i :: u64 and p t
  show "genuine_fragment F f \<Longrightarrow> honest (F (frag_id f)) partial_new"
    by (simp add: honest_def partial_new_def)
  show "honest (F i) p \<Longrightarrow> honest (F i) (p\<lparr>touched := t\<rparr>)"
    by (simp add: honest_def)
  show "genuine_fragment F f \<Longrightarrow> honest (F (frag_id f)) p \<Longrightarrow> partial_sane p \<Longrightarrow> \<not> rejects f p \<Longrightarrow>
      honest (F (frag_id f)) (place f p)"
    using honest_place by (auto simp: genuine_fragment_def)
qed

lemma honest_complete:
  assumes "honest F p" "slots p = map Some pieces" "total p = Some (length pieces)"
  shows "pieces = map contents F"
proof (rule nth_equalityI)
  show l: "length pieces = length (map contents F)" using assms by (auto simp: honest_def)
  show "pieces ! k = map contents F ! k" if "k < length pieces" for k
    using assms(1,2) that l by (auto simp: honest_def)
qed

text \<open>
  C16. When every fragment that arrives is one of its instruction's, whatever the order, repetitions,
  losses and evictions, each call of \<open>add\<close> returns nothing or exactly the payload of the
  instruction its fragment belongs to.
\<close>

theorem reassembly_sound:
  assumes "\<forall>f \<in> set fs. genuine_fragment F f" "k < length fs"
  shows "snd (assembly_run fs (with_limits n m)) ! k \<in>
    {Inr None, Inr (Some (payload_of F (frag_id (fs ! k))))}"
proof -
  obtain b rs where r: "assembly_run fs (with_limits n m) = (b, rs)" by force
  from honest.assembly_run_inv [OF asm_inv_start assms(1) r] assms(2) obtain x where
    x: "rs ! k = Inr x" "delivered (\<lambda>i. honest (F i)) (frag_id (fs ! k)) x" by blast
  then show ?thesis using honest_complete by (cases x) (auto simp: r payload_of_def delivered_def)
qed

definition sample_fragments :: "fragment list" where
  "sample_fragments = [\<lparr>frag_id = 1, frag_num = 0, is_final = False, contents = [1, 2]\<rparr>,
     \<lparr>frag_id = 1, frag_num = 1, is_final = True, contents = [3]\<rparr>]"

lemma sample_cut: "cut_of 1 [1, 2, 3] sample_fragments"
  by (auto simp: cut_of_def sample_fragments_def less_Suc_eq numeral_2_eq_2)

theorem make_fragments_cuts_witness:
  "\<exists>fs. make_fragments [1, 2, 3] 2 fragmenter_new = (\<lparr>next_id = next_id fragmenter_new + 1\<rparr>, Some fs) \<and>
    cut_of (next_id fragmenter_new + 1) [1, 2, 3] fs \<and>
    length fs = max 1 ((length [1, 2, 3 :: u8] + 2 - 1) div 2) \<and> (\<forall>f \<in> set fs. length (contents f) \<le> 2)"
  by (rule make_fragments_cuts) simp_all

theorem reassembly_sound_witness:
  "snd (assembly_run (rev sample_fragments) (with_limits 1 3)) ! 1 \<in>
    {Inr None, Inr (Some (payload_of (\<lambda>_. sample_fragments) (frag_id (rev sample_fragments ! 1))))}"
  by (rule reassembly_sound)
    (insert sample_cut, auto simp: genuine_fragment_def payload_of_def sample_fragments_def)

section \<open>Reassembly in any order\<close>

lemma slot_bytes_sum: "slot_bytes xs = (\<Sum>k < length xs. case xs ! k of None \<Rightarrow> 0 | Some b \<Rightarrow> length b)"
  by (simp add: slot_bytes_def sum_list_sum_nth atLeast0LessThan)

lemma honest_bytes:
  assumes "honest F p"
  shows "slot_bytes (slots p) \<le> length (concat (map contents F))"
proof -
  have "slot_bytes (slots p) \<le> (\<Sum>k < length (slots p). length (contents (F ! k)))"
    unfolding slot_bytes_sum using assms
    by (intro sum_mono) (auto simp: honest_def split: option.split)
  also have "\<dots> \<le> (\<Sum>k < length F. length (contents (F ! k)))"
    using assms by (intro sum_mono2) (auto simp: honest_def)
  also have "\<dots> = length (concat (map contents F))"
    by (simp add: length_concat sum_list_sum_nth atLeast0LessThan comp_def)
  finally show ?thesis .
qed

text \<open>The partial of an instruction of which exactly the fragments \<open>gs\<close> have arrived.\<close>

definition holds :: "fragment list \<Rightarrow> fragment list \<Rightarrow> partial \<Rightarrow> bool" where
  "holds F gs p \<longleftrightarrow> partial_sane p \<and> honest F p \<and> (total p \<noteq> None \<longleftrightarrow> last F \<in> set gs) \<and>
     (\<forall>k < length F. (k < length (slots p) \<and> slots p ! k \<noteq> None) \<longleftrightarrow> F ! k \<in> set gs)"

lemma holds_accepts:
  assumes c: "cut_of i d F" "f \<in> set F" and "length F \<le> MAX_FRAGMENTS" "holds F gs p"
  shows "\<not> rejects f p"
proof -
  note x = cut_index [OF c]
  have "length (slots p) \<le> length F" "total p = None \<or> total p = Some (length F)"
    using assms(4) by (simp_all add: holds_def honest_def)
  with x assms(3) show ?thesis by (auto simp: rejects_def Let_def)
qed

lemma holds_place:
  assumes c: "cut_of i d F" "f \<in> set F" and "length F \<le> MAX_FRAGMENTS" "holds F gs p"
  shows "holds F (gs @ [f]) (place f p)"
proof -
  note x = cut_index [OF c]
  have sane: "partial_sane p" and hon: "honest F p" using assms(4) by (simp_all add: holds_def)
  have d: "k = unat (frag_num f)" if "k < length F" "F ! k = f" for k
    using that c(1) by (auto simp: cut_of_def)
  have "is_final f \<longleftrightarrow> last F = f"
  proof -
    have "F \<noteq> []" using c(2) by auto
    then have l: "last F = F ! (length F - 1)" "length F - 1 < length F" by (auto simp: last_conv_nth)
    show ?thesis
    proof
      assume "is_final f"
      then have "unat (frag_num f) = length F - 1" using x(3) by simp
      with x(2) l(1) show "last F = f" by simp
    next
      assume "last F = f"
      then have "length F - 1 = unat (frag_num f)" using d l by simp
      with x(1,3) show "is_final f" by simp
    qed
  qed
  then have t: "total (place f p) \<noteq> None \<longleftrightarrow> last F \<in> set (gs @ [f])"
    using assms(4) by (auto simp: holds_def place_fields(2))
  have "(k < length (slots (place f p)) \<and> slots (place f p) ! k \<noteq> None) \<longleftrightarrow> F ! k \<in> set (gs @ [f])"
    if k: "k < length F" for k
  proof (cases "k = unat (frag_num f)")
    case True
    with x show ?thesis by (auto simp: place_fields Let_def)
  next
    case False
    then have "F ! k \<noteq> f" using d [OF k] by blast
    moreover have "(k < length (slots p) \<and> slots p ! k \<noteq> None) \<longleftrightarrow> F ! k \<in> set gs"
      using assms(4) k by (simp add: holds_def)
    ultimately show ?thesis using False by (auto simp: place_fields Let_def nth_grown split: if_splits)
  qed
  with t place_sane [OF holds_accepts [OF assms] sane] honest_place [OF c hon] show ?thesis
    by (simp add: holds_def)
qed

lemma holds_complete:
  assumes "cut_of i d F" "holds F gs p" "set gs \<subseteq> set F"
  shows "total p = Some (arrived p) \<and> length (slots p) = arrived p \<longleftrightarrow> set gs = set F"
proof
  assume a: "total p = Some (arrived p) \<and> length (slots p) = arrived p"
  then have l: "length (slots p) = length F" "present (slots p) = length (slots p)"
    using assms(2) by (auto simp: holds_def honest_def partial_sane_def)
  with all_present obtain ys where "slots p = map Some ys" by blast
  with l assms(2) have "\<forall>k < length F. F ! k \<in> set gs" by (auto simp: holds_def)
  with assms(3) show "set gs = set F" by (auto simp: in_set_conv_nth)
next
  assume a: "set gs = set F"
  have ne: "F \<noteq> []" using assms(1) by (simp add: cut_of_def)
  have k: "k < length (slots p) \<and> slots p ! k \<noteq> None" if "k < length F" for k
    using that a assms(2) by (simp add: holds_def)
  from k [of "length F - 1"] ne have "length F \<le> length (slots p)" by (cases F) auto
  then have l: "length (slots p) = length F" using assms(2) by (simp add: holds_def honest_def)
  have "filter (\<lambda>s. s \<noteq> None) (slots p) = slots p"
    using k l by (intro filter_True) (auto simp: in_set_conv_nth)
  then have "present (slots p) = length F" by (simp add: present_def l)
  moreover have "total p = Some (length F)"
    using a assms(2) last_in_set [OF ne] by (auto simp: holds_def honest_def)
  ultimately show "total p = Some (arrived p) \<and> length (slots p) = arrived p"
    using assms(2) l by (simp add: holds_def partial_sane_def)
qed

subsection \<open>What a call touches\<close>

lemma min_by_key_None [simp]: "min_by_key k xs = None \<longleftrightarrow> xs = []"
  by (cases xs) (auto split: option.splits)

lemma min_by_key_least: "min_by_key k xs = Some x \<Longrightarrow> y \<in> set xs \<Longrightarrow> k x \<le> k y"
proof (induction xs arbitrary: x)
  case (Cons z zs)
  show ?case
  proof (cases "min_by_key k zs")
    case (Some w)
    with Cons.IH [OF Some] Cons.prems show ?thesis by (auto split: if_splits)
  qed (use Cons.prems in auto)
qed simp

lemma remove_at_clock [simp]: "clock (remove_at k a) = clock a"
  by (simp add: remove_at_def)

lemma evict_while_clock: "evict_while over x a = (b, ok) \<Longrightarrow> clock b = clock a"
proof (induction over x a arbitrary: b ok rule: evict_while.induct)
  case (1 over x a)
  obtain c more where e: "evict_least_recently_updated x a = (c, more)" by force
  then have c: "clock c = clock a" by (auto simp: evict_least_recently_updated_def Let_def split: option.splits)
  show ?case
  proof (cases "over a \<and> more")
    case True
    with e 1(2) have "evict_while over x c = (b, ok)" by (simp add: evict_while.simps [of over x a])
    with 1(1) [OF conjunct1 [OF True] e [symmetric]] True c show ?thesis by simp
  next
    case False
    with e 1(2) c show ?thesis by (auto simp: evict_while.simps [of over x a] split: if_splits)
  qed
qed

lemma open_entries:
  assumes "asm_inv Q a" "open_assembly i a = (b, r)"
  shows "clock b = clock a \<and> (\<forall>e \<in> set (assemblies b). e \<in> set (assemblies a) \<or> e = (i, partial_new))"
proof (cases "position (\<lambda>e. fst e = i) (assemblies a)")
  case None
  obtain c ok where w: "evict_while (\<lambda>a. length (assemblies a) \<ge> max_assemblies a) i a = (c, ok)" by force
  note evict_while_inv [OF assms(1) w] evict_while_clock [OF w]
  then show ?thesis using assms(2) None w
    by (auto simp: open_assembly_def evicted_def simp del: position_None_iff split: bool.splits)
qed (use assms(2) in \<open>simp add: open_assembly_def\<close>)

lemma removed_subset: "set (take k xs @ drop (Suc k) xs) \<subseteq> set xs"
  using set_take_subset set_drop_subset by fastforce

lemma feed_entries:
  assumes "fst (assemblies a ! k) = frag_id f"
  shows "clock (fst (feed_fragment f k a)) = clock a \<and> (\<forall>e \<in> set (assemblies (fst (feed_fragment f k a))).
    e \<in> set (assemblies a) \<or> fst e = frag_id f \<and> touched (snd e) = touched (snd (assemblies a ! k)))"
proof -
  obtain p r where p: "partial_add f (snd (assemblies a ! k)) = (p, r)" by force
  have t: "touched p = touched (snd (assemblies a ! k))"
    using p by (auto simp: partial_add_def place_def Let_def split: if_splits option.splits)
  have "set (assemblies (fst (feed_fragment f k a))) \<subseteq> set ((assemblies a)[k := (frag_id f, p)])"
    using assms p removed_subset [of k "(assemblies a)[k := (frag_id f, p)]"]
    by (auto simp: feed_fragment_def remove_at_def Let_def split: sum.splits option.splits)
  then have "\<forall>e \<in> set (assemblies (fst (feed_fragment f k a))). e \<in> set (assemblies a) \<or> fst e = frag_id f \<and> touched (snd e) = touched (snd (assemblies a ! k))"
    using t set_update_subset_insert [of "assemblies a" k "(frag_id f, p)"] by auto
  moreover have "clock (fst (feed_fragment f k a)) = clock a"
    using p by (auto simp: feed_fragment_def Let_def split: sum.splits option.splits)
  ultimately show ?thesis by blast
qed

lemma remove_id_entries: "set (assemblies (remove_id i a)) \<subseteq> set (assemblies a)" "clock (remove_id i a) = clock a"
  using removed_subset [of _ "assemblies a"] by (auto simp: remove_id_def remove_at_def split: option.splits)

lemma make_room_entries:
  assumes "asm_inv Q a" "make_room f pos a = (b, ok)"
  shows "clock b = clock a \<and> set (assemblies b) \<subseteq> set (assemblies a)"
proof (cases "is_duplicate f (snd (assemblies a ! pos))")
  case False
  then have w: "evict_while (\<lambda>a. buffered a + length (contents f) > max_bytes a) (frag_id f) a = (b, ok)"
    using assms(2) by (simp add: make_room_def)
  from evict_while_inv [OF assms(1) w] evict_while_clock [OF w] show ?thesis by (simp add: evicted_def)
qed (use assms in \<open>simp add: make_room_def\<close>)

context partial_invariant
begin

text \<open>After a call every partial is an old one or the fragment's own, touched no later than now.\<close>

lemma add_entries:
  assumes g: "genuine f" and i: "asm_inv Q a0"
  shows "clock (fst (assembly_add f a0)) = clock a0 + 1 \<and> (\<forall>e \<in> set (assemblies (fst (assembly_add f a0))).
    e \<in> set (assemblies a0) \<or> fst e = frag_id f \<and>
      ((\<forall>e \<in> set (assemblies a0). touched (snd e) \<le> clock a0) \<longrightarrow> touched (snd e) \<le> clock a0 + 1))"
proof -
  let ?a0 = "a0\<lparr>clock := clock a0 + 1\<rparr>"
  obtain a r where o: "open_assembly (frag_id f) ?a0 = (a, r)" by force
  have i0: "asm_inv Q ?a0" using i by (simp add: asm_inv_def)
  note inv = open_assembly_inv [OF i0 Q_new [OF g] o] and oe = open_entries [OF i0 o, simplified]
  show ?thesis
  proof (cases r)
    case None
    with o oe show ?thesis by (fastforce simp: assembly_add_def partial_new_def)
  next
    case (Some pos)
    note p = inv [unfolded Some, simplified]
    show ?thesis
    proof (cases "rejects f (snd (assemblies a ! pos))")
      case True
      with o Some oe show ?thesis by (fastforce simp: assembly_add_def partial_new_def)
    next
      case False
      obtain b ok where m: "make_room f pos (touch pos a) = (b, ok)" by force
      have t: "asm_inv Q (touch pos a)" using p by (intro touch_inv) simp_all
      have te: "e \<in> set (assemblies a0) \<or> fst e = frag_id f \<and> touched (snd e) \<le> clock a0 + 1" if "e \<in> set (assemblies (touch pos a))" for e
        using that p oe set_update_subset_insert [of "assemblies a" pos] by (fastforce simp: touch_def partial_new_def)
      have tc: "clock (touch pos a) = clock a0 + 1" using oe by (simp add: touch_def)
      note mr = make_room_entries [OF t m]
      show ?thesis
      proof (cases "position (\<lambda>e. fst e = frag_id f) (assemblies b)")
        case None
        with o Some False m mr te tc remove_id_entries [of "frag_id f" b] show ?thesis
          by (fastforce simp: assembly_add_def simp del: position_None_iff split: bool.splits)
      next
        case (Some k)
        note k = position_SomeD [OF Some]
        then have "assemblies b ! k \<in> set (assemblies (touch pos a))" using mr by auto
        with te [OF this] k
        have be: "touched (snd (assemblies b ! k)) \<le> clock a0 + 1 \<or> assemblies b ! k \<in> set (assemblies a0)" by blast
        have "fst (assembly_add f a0) = (if ok then fst (feed_fragment f k b) else remove_id (frag_id f) b)"
          using o Some False m \<open>r = Some pos\<close> by (simp add: assembly_add_def split: bool.splits)
        moreover have "fst (assemblies b ! k) = frag_id f" using k by blast
        ultimately show ?thesis
          using feed_entries [of b k f] remove_id_entries [of "frag_id f" b] mr te tc be by (cases ok) fastforce+
      qed
    qed
  qed
qed

end

subsection \<open>Eviction spares what is fresh\<close>

lemma evict_spares:
  assumes inv: "asm_inv Q a" and stale: "e \<in> set (assemblies a)" "fst e \<noteq> x" "touched (snd e) \<le> K"
    and ev: "evict_least_recently_updated x a = (b, ok)"
  shows "ok \<and> (\<forall>e \<in> set (assemblies a). K < touched (snd e) \<longrightarrow> e \<in> set (assemblies b))"
proof -
  let ?v = "filter (\<lambda>i. fst (assemblies a ! i) \<noteq> x) [0..<length (assemblies a)]"
  let ?k = "\<lambda>i. touched (snd (assemblies a ! i))"
  obtain n where n: "n \<in> set ?v" "assemblies a ! n = e" using stale(1,2) by (auto simp: in_set_conv_nth)
  then have "?v \<noteq> []" by (metis empty_iff list.set(1))
  then obtain k where k: "min_by_key ?k ?v = Some k" by (metis min_by_key_None not_None_eq)
  have b: "b = remove_at k a" "ok" using ev k by (simp_all add: evict_least_recently_updated_def Let_def)
  have l: "k < length (assemblies a)" using min_by_key_mem [OF k] by simp
  have "touched (snd (assemblies a ! k)) \<le> K" using min_by_key_least [OF k n(1)] n(2) stale(3) by simp
  then have "e' \<in> set (assemblies b)" if "e' \<in> set (assemblies a)" "K < touched (snd e')" for e'
    using remove_at_inv(4) [OF inv l that(1)] that(2) b(1) by fastforce
  with b(2) show ?thesis by blast
qed

lemma evicted_trans: "evicted x a b \<Longrightarrow> evicted x b c \<Longrightarrow> evicted x a c"
  by (auto simp: evicted_def same_limits_def)

lemma evict_while_spares:
  "asm_inv Q a \<Longrightarrow>
   (\<And>c. asm_inv Q c \<Longrightarrow> evicted x a c \<Longrightarrow> over c \<Longrightarrow> \<exists>e \<in> set (assemblies c). fst e \<noteq> x \<and> touched (snd e) \<le> K) \<Longrightarrow>
   evict_while over x a = (b, ok) \<Longrightarrow>
   ok \<and> (\<forall>e \<in> set (assemblies a). K < touched (snd e) \<longrightarrow> e \<in> set (assemblies b))"
proof (induction over x a arbitrary: b ok rule: evict_while.induct)
  case (1 over x a)
  show ?case
  proof (cases "over a")
    case False
    with 1(4) show ?thesis by (simp add: evict_while.simps [of over x a])
  next
    case True
    obtain c more where e: "evict_least_recently_updated x a = (c, more)" by force
    have "evicted x a a" by (simp add: evicted_def same_limits_def)
    then obtain e0 where e0: "e0 \<in> set (assemblies a)" "fst e0 \<noteq> x" "touched (snd e0) \<le> K"
      using 1(3) [OF 1(2)] True by blast
    note sp = evict_spares [OF 1(2) e0 e] and ev = evict_inv [OF 1(2) e]
    then have more: "more" by blast
    have "evict_while over x c = (b, ok)" using True e more 1(4) by (simp add: evict_while.simps [of over x a])
    with 1(1) [OF True e [symmetric]] more ev 1(3) evicted_trans
    have "ok \<and> (\<forall>e \<in> set (assemblies c). K < touched (snd e) \<longrightarrow> e \<in> set (assemblies b))" by blast
    with sp show ?thesis by blast
  qed
qed

text \<open>
  The instructions \<open>J\<close> under way since the clock showed \<open>K\<close> fit the assembly together; every partial touched
  since is one of theirs.
\<close>

definition in_budget :: "(u64 \<Rightarrow> fragment list) \<Rightarrow> u64 set \<Rightarrow> nat \<Rightarrow> assembly \<Rightarrow> bool" where
  "in_budget F J K a \<longleftrightarrow> asm_inv (\<lambda>i. honest (F i)) a \<and> finite J \<and> card J \<le> max_assemblies a \<and>
     (\<Sum>j\<in>J. length (payload_of F j)) \<le> max_bytes a \<and> K \<le> clock a \<and>
     (\<forall>e \<in> set (assemblies a). K < touched (snd e) \<longrightarrow> fst e \<in> J)"

lemma honest_size: "partial_sane p \<Longrightarrow> honest (F i) p \<Longrightarrow> pbytes p \<le> length (payload_of F i)"
  using honest_bytes [of "F i" p] by (simp add: partial_sane_def payload_of_def)

lemma open_over:
  assumes b: "in_budget F J K a" and x: "x \<in> J" "x \<notin> fst ` set (assemblies a)"
    and c: "asm_inv Q c" "evicted x a c" "length (assemblies c) \<ge> max_assemblies c"
  shows "\<exists>e \<in> set (assemblies c). fst e \<noteq> x \<and> touched (snd e) \<le> K"
proof (rule ccontr)
  assume n: "\<not> ?thesis"
  have sub: "set (assemblies c) \<subseteq> set (assemblies a)" using c(2) by (simp add: evicted_def)
  have "fst ` set (assemblies c) \<subseteq> J - {x}"
  proof
    fix j assume "j \<in> fst ` set (assemblies c)"
    then obtain e where e: "e \<in> set (assemblies c)" "fst e = j" by auto
    with sub x(2) have "fst e \<noteq> x" by auto
    with n e(1) have "K < touched (snd e)" by (metis not_less)
    with b e sub \<open>fst e \<noteq> x\<close> show "j \<in> J - {x}" unfolding in_budget_def by auto
  qed
  moreover have J: "finite J" "card J \<le> max_assemblies a" using b by (simp_all add: in_budget_def)
  ultimately have "card (fst ` set (assemblies c)) \<le> card (J - {x})" by (intro card_mono) simp_all
  moreover have "card (J - {x}) < card J" using J(1) x(1) by (rule card_Diff1_less)
  moreover have "card (fst ` set (assemblies c)) = length (assemblies c)"
    using c(1) distinct_card [of "map fst (assemblies c)"] by (simp add: asm_inv_def)
  moreover have "max_assemblies c = max_assemblies a" using c(2) by (simp add: evicted_def same_limits_def)
  ultimately show False using c(3) J(2) by linarith
qed

lemma room_over:
  assumes b: "in_budget F J K a" and x: "frag_id f \<in> J" "(frag_id f, p) \<in> set (assemblies a)"
    and g: "genuine_fragment F f" "\<not> is_duplicate f p"
    and c: "asm_inv (\<lambda>i. honest (F i)) c" "evicted (frag_id f) a c" "buffered c + length (contents f) > max_bytes c"
  shows "\<exists>e \<in> set (assemblies c). fst e \<noteq> frag_id f \<and> touched (snd e) \<le> K"
proof (rule ccontr)
  assume n: "\<not> ?thesis"
  let ?x = "frag_id f" and ?g = "\<lambda>j. length (payload_of F j)" and ?S = "set (assemblies c)"
  have sub: "?S \<subseteq> set (assemblies a)" and xc: "(?x, p) \<in> ?S" and lim: "max_bytes c = max_bytes a"
    using c(2) x(2) by (auto simp: evicted_def same_limits_def)
  have J: "finite J" "(\<Sum>j\<in>J. ?g j) \<le> max_bytes a" using b by (simp_all add: in_budget_def)
  have d: "distinct (map fst (assemblies c))" and S: "\<And>e. e \<in> ?S \<Longrightarrow> partial_sane (snd e) \<and> honest (F (fst e)) (snd e)"
    using c(1) by (simp_all add: asm_inv_def)
  then have inj: "inj_on fst ?S" and dd: "distinct (assemblies c)" by (simp_all add: distinct_map)
  have ids: "fst ` (?S - {(?x, p)}) \<subseteq> J - {?x}"
  proof
    fix j assume "j \<in> fst ` (?S - {(?x, p)})"
    then obtain e where e: "e \<in> ?S" "e \<noteq> (?x, p)" "fst e = j" by auto
    then have "fst e \<noteq> ?x" using inj xc by (auto simp: inj_on_def)
    with n e(1) have "K < touched (snd e)" by (metis not_less)
    with b e sub \<open>fst e \<noteq> ?x\<close> show "j \<in> J - {?x}" unfolding in_budget_def by auto
  qed
  have "buffered c = (\<Sum>e\<in>?S. pbytes (snd e))"
    using c(1) dd by (simp add: asm_inv_def sum_list_distinct_conv_sum_set comp_def)
  also have "\<dots> = pbytes p + (\<Sum>e\<in>?S - {(?x, p)}. pbytes (snd e))" using xc by (simp add: sum.remove)
  also have "(\<Sum>e\<in>?S - {(?x, p)}. pbytes (snd e)) \<le> (\<Sum>e\<in>?S - {(?x, p)}. ?g (fst e))"
    using S honest_size by (intro sum_mono) blast
  also have "\<dots> = (\<Sum>j\<in>fst ` (?S - {(?x, p)}). ?g j)"
    using inj by (subst sum.reindex) (auto intro: inj_on_subset)
  also have "\<dots> \<le> (\<Sum>j\<in>J - {?x}. ?g j)" using J(1) ids by (intro sum_mono2) auto
  finally have "buffered c \<le> pbytes p + (\<Sum>j\<in>J - {?x}. ?g j)" by simp
  moreover have "pbytes p + length (contents f) \<le> ?g ?x"
  proof -
    have p: "partial_sane p" "honest (F ?x) p" using S [OF xc] by simp_all
    have "honest (F ?x) (place f p)" using g(1) p(2) honest_place by (auto simp: genuine_fragment_def)
    from honest_bytes [OF this] have "slot_bytes (slots (place f p)) \<le> ?g ?x" by (simp add: payload_of_def)
    moreover have "pbytes (place f p) = slot_bytes (slots (place f p))"
      using p(1) by (auto simp: place_fields(1,4) Let_def partial_sane_def slot_bytes_update)
    ultimately show ?thesis using place_bytes [OF p(1), of f] g(2) by simp
  qed
  moreover have "(\<Sum>j\<in>J. ?g j) = ?g ?x + (\<Sum>j\<in>J - {?x}. ?g j)" using J(1) x(1) by (rule sum.remove)
  ultimately show False using c(3) J(2) lim by linarith
qed

subsection \<open>A call within the budget\<close>

lemma open_within:
  assumes b: "in_budget F J K a0" and g: "genuine_fragment F f" "frag_id f \<in> J"
  obtains pos p a where "open_assembly (frag_id f) (a0\<lparr>clock := clock a0 + 1\<rparr>) = (a, Some pos)" "in_budget F J K a"
    "clock a = clock a0 + 1" "pos < length (assemblies a)" "assemblies a ! pos = (frag_id f, p)"
    "(frag_id f, p) \<in> set (assemblies a0) \<or> p = partial_new \<and> frag_id f \<notin> fst ` set (assemblies a0)"
    "\<forall>e \<in> set (assemblies a0). K < touched (snd e) \<longrightarrow> e \<in> set (assemblies a)"
proof -
  let ?a0 = "a0\<lparr>clock := clock a0 + 1\<rparr>" and ?x = "frag_id f"
  obtain a r where o: "open_assembly ?x ?a0 = (a, r)" by force
  have b0: "in_budget F J K ?a0" using b by (simp add: in_budget_def asm_inv_def)
  then have i0: "asm_inv (\<lambda>i. honest (F i)) ?a0" by (simp add: in_budget_def)
  note inv = open_assembly_inv [OF i0 honest.Q_new [OF g(1)] o] and oe = open_entries [OF i0 o, simplified]
  have ba: "in_budget F J K a" using inv oe b by (auto simp: in_budget_def same_limits_def partial_new_def)
  show ?thesis
  proof (cases "position (\<lambda>e. fst e = ?x) (assemblies a0)")
    case (Some pos)
    then have "a = ?a0" "r = Some pos" using o by (simp_all add: open_assembly_def)
    moreover note k = position_SomeD [OF Some]
    moreover from k have "assemblies a0 ! pos = (?x, snd (assemblies a0 ! pos))" by (simp add: prod_eq_iff)
    moreover from k have "assemblies a0 ! pos \<in> set (assemblies a0)" by simp
    ultimately show ?thesis using that [of a pos "snd (assemblies a0 ! pos)"] o ba by simp
  next
    case None
    then have x: "?x \<notin> fst ` set (assemblies ?a0)" by auto
    obtain c ok where w: "evict_while (\<lambda>a. length (assemblies a) \<ge> max_assemblies a) ?x ?a0 = (c, ok)" by force
    have sp: "ok \<and> (\<forall>e \<in> set (assemblies ?a0). K < touched (snd e) \<longrightarrow> e \<in> set (assemblies c))"
      by (rule evict_while_spares [OF i0 _ w]) (rule open_over [OF b0 g(2) x])
    then have "a = c\<lparr>assemblies := assemblies c @ [(?x, partial_new)]\<rparr>" "r = Some (length (assemblies c))"
      using o w None by (simp_all add: open_assembly_def del: position_None_iff)
    then show ?thesis using that [of a "length (assemblies c)" partial_new] o ba oe sp x by simp
  qed
qed

lemma add_within:
  assumes b: "in_budget F J K a0" and g: "genuine_fragment F f" "frag_id f \<in> J"
  obtains p c where "(frag_id f, p) \<in> set (assemblies a0) \<or> p = partial_new \<and> frag_id f \<notin> fst ` set (assemblies a0)"
    "\<forall>e \<in> set (assemblies a0). fst e \<noteq> frag_id f \<and> K < touched (snd e) \<longrightarrow> e \<in> set (assemblies c)"
    "asm_inv (\<lambda>i. honest (F i)) c"
    "rejects f p \<and> assembly_add f a0 = (c, Inr None) \<or> \<not> rejects f p \<and> (\<exists>k. k < length (assemblies c) \<and>
       assemblies c ! k = (frag_id f, p\<lparr>touched := clock a0 + 1\<rparr>) \<and> assembly_add f a0 = feed_fragment f k c)"
proof -
  let ?x = "frag_id f"
  obtain pos p a where o: "open_assembly ?x (a0\<lparr>clock := clock a0 + 1\<rparr>) = (a, Some pos)" and ba: "in_budget F J K a"
    and c: "clock a = clock a0 + 1" and pos: "pos < length (assemblies a)" "assemblies a ! pos = (?x, p)"
    and p: "(?x, p) \<in> set (assemblies a0) \<or> p = partial_new \<and> ?x \<notin> fst ` set (assemblies a0)"
    and sp: "\<forall>e \<in> set (assemblies a0). K < touched (snd e) \<longrightarrow> e \<in> set (assemblies a)"
    using open_within [OF b g] by metis
  have ia: "asm_inv (\<lambda>i. honest (F i)) a" using ba by (simp add: in_budget_def)
  show ?thesis
  proof (cases "rejects f p")
    case True
    then have "assembly_add f a0 = (a, Inr None)" using o pos by (simp add: assembly_add_def)
    with that [OF p _ ia] True sp show ?thesis by blast
  next
    case False
    let ?t = "touch pos a" and ?p = "p\<lparr>touched := clock a0 + 1\<rparr>"
    have t: "assemblies ?t = (assemblies a)[pos := (?x, ?p)]" "clock ?t = clock a" "max_bytes ?t = max_bytes a" "max_assemblies ?t = max_assemblies a"
      using pos(2) c by (simp_all add: touch_def)
    have it: "asm_inv (\<lambda>i. honest (F i)) ?t" using honest.touch_inv [OF ia pos(1)] .
    have bt: "in_budget F J K ?t"
      using ba it t g(2) set_update_subset_insert [of "assemblies a" pos "(?x, ?p)"] by (auto simp: in_budget_def)
    have xt: "(?x, ?p) \<in> set (assemblies ?t)" using pos(1) t(1) by (simp add: set_update_memI)
    have keep: "e \<in> set (assemblies ?t)" if e: "e \<in> set (assemblies a)" "fst e \<noteq> ?x" for e
    proof -
      obtain n where n: "n < length (assemblies a)" "assemblies a ! n = e" using e(1) by (auto simp: in_set_conv_nth)
      with e(2) pos(2) have "n \<noteq> pos" by auto
      with n(2) have "assemblies ?t ! n = e" by (simp add: t(1))
      with n(1) show ?thesis using t(1) by (metis length_list_update nth_mem)
    qed
    obtain d ok where m: "make_room f pos ?t = (d, ok)" by force
    have dup: "is_duplicate f (snd (assemblies ?t ! pos)) = is_duplicate f ?p" using pos(1) by (simp add: t(1))
    have room: "ok \<and> (\<forall>e \<in> set (assemblies ?t). K < touched (snd e) \<longrightarrow> e \<in> set (assemblies d))"
    proof (cases "is_duplicate f ?p")
      case True
      then show ?thesis using m dup by (simp add: make_room_def)
    next
      case False
      then have w: "evict_while (\<lambda>a. buffered a + length (contents f) > max_bytes a) ?x ?t = (d, ok)"
        using m dup by (simp add: make_room_def)
      show ?thesis by (rule evict_while_spares [OF it _ w]) (rule room_over [OF bt g(2) xt g(1) False])
    qed
    have id: "asm_inv (\<lambda>i. honest (F i)) d" using honest.make_room_inv [OF it m] by simp
    have "K < touched ?p" using b by (simp add: in_budget_def)
    with room xt have xd: "(?x, ?p) \<in> set (assemblies d)" by simp
    then obtain k where k: "position (\<lambda>e. fst e = ?x) (assemblies d) = Some k"
      by (cases "position (\<lambda>e. fst e = ?x) (assemblies d)") auto
    note kp = position_SomeD [OF k]
    have "distinct (map fst (assemblies d))" using id by (simp add: asm_inv_def)
    then have dk: "assemblies d ! k = (?x, ?p)"
      using kp xd eq_key_imp_eq_value [of "assemblies d" ?x ?p "snd (assemblies d ! k)"]
      by (metis nth_mem prod.collapse)
    have "assembly_add f a0 = feed_fragment f k d"
      using o pos False m room k by (simp add: assembly_add_def)
    with that [OF p _ id] False kp dk sp room keep show ?thesis by blast
  qed
qed

subsection \<open>One instruction on its way\<close>

lemma feed_keeps:
  assumes "k < length (assemblies c)" "fst (assemblies c ! k) = frag_id f" "e \<in> set (assemblies c)" "fst e \<noteq> frag_id f"
  shows "e \<in> set (assemblies (fst (feed_fragment f k c)))"
proof -
  obtain p r where p: "partial_add f (snd (assemblies c ! k)) = (p, r)" by force
  let ?xs = "(assemblies c)[k := (frag_id f, p)]"
  obtain n where n: "n < length (assemblies c)" "assemblies c ! n = e" "n \<noteq> k"
    using assms(2-4) by (auto simp: in_set_conv_nth)
  have u: "?xs ! n = e" "n < length ?xs" "k < length ?xs" using n assms(1) by simp_all
  then have e: "e \<in> set ?xs" by (metis nth_mem)
  have "?xs = take k ?xs @ ?xs ! k # drop (Suc k) ?xs" using u(3) by (rule id_take_nth_drop)
  then have "set ?xs = insert (frag_id f, p) (set (take k ?xs @ drop (Suc k) ?xs))"
    using assms(1) by (metis Un_insert_right list.simps(15) nth_list_update_eq set_append)
  then have "e \<in> set (take k ?xs @ drop (Suc k) ?xs)" using e assms(4) by auto
  with e p assms(2) show ?thesis
    by (auto simp: feed_fragment_def remove_at_def Let_def split: sum.splits option.splits)
qed

definition on_way :: "(u64 \<Rightarrow> fragment list) \<Rightarrow> u64 set \<Rightarrow> nat \<Rightarrow> u64 \<Rightarrow> fragment list \<Rightarrow> assembly \<Rightarrow> bool" where
  "on_way F J K i gs a \<longleftrightarrow> in_budget F J K a \<and> set gs \<subseteq> set (F i) \<and>
     (if gs = [] then i \<notin> fst ` set (assemblies a)
      else \<exists>p. (i, p) \<in> set (assemblies a) \<and> K < touched p \<and> holds (F i) gs p)"

lemma budget_kept:
  assumes b: "in_budget F J K a" and g: "genuine_fragment F f" "frag_id f \<in> J"
  shows "in_budget F J K (fst (assembly_add f a))"
proof -
  have i: "asm_inv (\<lambda>i. honest (F i)) a" using b by (simp add: in_budget_def)
  obtain c r where c: "assembly_add f a = (c, Inr r)" "asm_inv (\<lambda>i. honest (F i)) c" "same_limits a c"
    using honest.assembly_add_inv [OF g(1) i] by blast
  with honest.add_entries [OF g(1) i] b g(2) show ?thesis by (auto simp: in_budget_def same_limits_def)
qed

lemma add_other:
  assumes w: "on_way F J K i gs a" and g: "genuine_fragment F f" "frag_id f \<in> J" "frag_id f \<noteq> i"
  shows "on_way F J K i gs (fst (assembly_add f a))"
proof -
  have b: "in_budget F J K a" and i: "asm_inv (\<lambda>i. honest (F i)) a" using w by (simp_all add: on_way_def in_budget_def)
  note bk = budget_kept [OF b g(1,2)]
  show ?thesis
  proof (cases "gs = []")
    case True
    with w honest.add_entries [OF g(1) i] g(3) bk show ?thesis by (fastforce simp: on_way_def)
  next
    case False
    then obtain p where p: "(i, p) \<in> set (assemblies a)" "K < touched p" "holds (F i) gs p"
      using w by (auto simp: on_way_def)
    obtain q c where c: "\<forall>e \<in> set (assemblies a). fst e \<noteq> frag_id f \<and> K < touched (snd e) \<longrightarrow> e \<in> set (assemblies c)"
      "rejects f q \<and> assembly_add f a = (c, Inr None) \<or> \<not> rejects f q \<and> (\<exists>k. k < length (assemblies c) \<and>
         assemblies c ! k = (frag_id f, q\<lparr>touched := clock a + 1\<rparr>) \<and> assembly_add f a = feed_fragment f k c)"
      using add_within [OF b g(1,2)] by metis
    have "(i, p) \<in> set (assemblies c)" using c(1) p(1,2) g(3) by auto
    with c(2) g(3) feed_keeps [of _ c f "(i, p)"] have "(i, p) \<in> set (assemblies (fst (assembly_add f a)))" by auto
    with p(2,3) False bk w show ?thesis by (auto simp: on_way_def)
  qed
qed

text \<open>Its own fragment: the payload when it was the last one missing, nothing before.\<close>

lemma add_own:
  assumes w: "on_way F J K i gs a" and g: "genuine_fragment F f" "frag_id f = i" "i \<in> J" and l: "length (F i) \<le> MAX_FRAGMENTS"
  shows "snd (assembly_add f a) = (if set (gs @ [f]) = set (F i) then Inr (Some (payload_of F i)) else Inr None) \<and>
    (set (gs @ [f]) = set (F i) \<or> on_way F J K i (gs @ [f]) (fst (assembly_add f a)))"
proof -
  have b: "in_budget F J K a" and gs: "set gs \<subseteq> set (F i)" using w by (simp_all add: on_way_def)
  have cut: "cut_of i (payload_of F i) (F i)" "f \<in> set (F i)" using g by (auto simp: genuine_fragment_def)
  obtain p c where pc: "(i, p) \<in> set (assemblies a) \<or> p = partial_new \<and> i \<notin> fst ` set (assemblies a)"
    and ic: "asm_inv (\<lambda>i. honest (F i)) c"
    and add: "rejects f p \<and> assembly_add f a = (c, Inr None) \<or> \<not> rejects f p \<and> (\<exists>k. k < length (assemblies c) \<and>
       assemblies c ! k = (i, p\<lparr>touched := clock a + 1\<rparr>) \<and> assembly_add f a = feed_fragment f k c)"
    using add_within [OF b g(1)] g(2,3) by metis
  have h: "holds (F i) gs p"
  proof (cases "gs = []")
    case True
    with w pc have "p = partial_new" by (force simp: on_way_def)
    with True show ?thesis by (simp add: holds_def honest_def partial_sane_def partial_new_def slot_bytes_def)
  next
    case False
    then obtain p' where "(i, p') \<in> set (assemblies a)" "holds (F i) gs p'" using w by (auto simp: on_way_def)
    moreover have "distinct (map fst (assemblies a))" using b by (simp add: in_budget_def asm_inv_def)
    ultimately show ?thesis using pc by (metis eq_key_imp_eq_value fst_conv imageI)
  qed
  let ?q = "p\<lparr>touched := clock a + 1\<rparr>"
  have hq: "holds (F i) gs ?q" using h by (simp add: holds_def honest_def)
  note rj = holds_accepts [OF cut l hq] and pl = holds_place [OF cut l hq]
  have "\<not> rejects f p" using holds_accepts [OF cut l h] .
  with add obtain k where k: "k < length (assemblies c)" "assemblies c ! k = (i, ?q)" "assembly_add f a = feed_fragment f k c" by auto
  have sane: "partial_sane ?q" and hon: "honest (F i) (place f ?q)" and sp: "partial_sane (place f ?q)"
    using hq pl by (simp_all add: holds_def)
  have full: "total (place f ?q) = Some (arrived (place f ?q)) \<and> length (slots (place f ?q)) = arrived (place f ?q)
      \<longleftrightarrow> set (gs @ [f]) = set (F i)"
    by (rule holds_complete [OF cut(1) pl]) (use gs cut(2) in simp)
  have sub: "set (gs @ [f]) \<subseteq> set (F i)" using gs cut(2) by simp
  from rj sane show ?thesis
  proof (cases rule: partial_add_cases)
    case incomplete
    with full have n: "set (gs @ [f]) \<noteq> set (F i)" by blast
    have r: "feed_fragment f k c = (c\<lparr>assemblies := (assemblies c)[k := (i, place f ?q)],
        buffered := buffered c + (pbytes (place f ?q) - pbytes ?q)\<rparr>, Inr None)"
      using incomplete(1) k(2) by (simp add: feed_fragment_def Let_def)
    then have "(i, place f ?q) \<in> set (assemblies (fst (assembly_add f a)))" using k(1,3) by (simp add: set_update_memI)
    moreover have "K < touched (place f ?q)" using b by (simp add: in_budget_def place_def Let_def)
    moreover have "in_budget F J K (fst (assembly_add f a))" using budget_kept [OF b g(1)] g(2,3) by simp
    ultimately show ?thesis using r k(3) n pl sub by (auto simp: on_way_def)
  next
    case (complete pieces)
    have "pieces = map contents (F i)" by (rule honest_complete [OF hon complete(2,3)])
    then have "concat pieces = payload_of F i" by (simp add: payload_of_def)
    moreover have "set (gs @ [f]) = set (F i)"
      using full complete(2,3) sp all_present [of "slots (place f ?q)"] by (simp add: partial_sane_def present_def)
    ultimately show ?thesis using complete(1) k by (simp add: feed_fragment_def Let_def)
  qed
qed

lemma run_on_way:
  "on_way F J K i gs a \<Longrightarrow> \<forall>g \<in> set fs. genuine_fragment F g \<and> frag_id g \<in> J \<Longrightarrow> length (F i) \<le> MAX_FRAGMENTS \<Longrightarrow>
   set (gs @ filter (\<lambda>g. frag_id g = i) fs) \<noteq> set (F i) \<Longrightarrow>
   on_way F J K i (gs @ filter (\<lambda>g. frag_id g = i) fs) (fst (assembly_run fs a)) \<and>
   (\<forall>k < length fs. frag_id (fs ! k) = i \<longrightarrow> snd (assembly_run fs a) ! k = Inr None)"
proof (induction fs arbitrary: gs a)
  case (Cons f fs)
  obtain b r where b: "assembly_add f a = (b, r)" by force
  have f: "genuine_fragment F f" "frag_id f \<in> J" using Cons.prems(2) by simp_all
  let ?gs = "if frag_id f = i then gs @ [f] else gs"
  have "on_way F J K i ?gs b \<and> (frag_id f = i \<longrightarrow> r = Inr None)"
  proof (cases "frag_id f = i")
    case True
    have sub: "set (gs @ filter (\<lambda>g. frag_id g = i) (f # fs)) \<subseteq> set (F i)"
      using Cons.prems(1,2) by (auto simp: on_way_def genuine_fragment_def)
    then have n: "set (gs @ [f]) \<noteq> set (F i)" using Cons.prems(4) True by auto
    from add_own [OF Cons.prems(1) f(1) True _ Cons.prems(3)] f(2) True n b show ?thesis by simp
  next
    case False
    with add_other [OF Cons.prems(1) f] b show ?thesis by simp
  qed
  moreover have "?gs @ filter (\<lambda>g. frag_id g = i) fs = gs @ filter (\<lambda>g. frag_id g = i) (f # fs)" by simp
  ultimately have ih: "on_way F J K i (gs @ filter (\<lambda>g. frag_id g = i) (f # fs)) (fst (assembly_run fs b))"
    "\<forall>k < length fs. frag_id (fs ! k) = i \<longrightarrow> snd (assembly_run fs b) ! k = Inr None" "frag_id f = i \<longrightarrow> r = Inr None"
    using Cons.IH [of ?gs b] Cons.prems(2-4) by simp_all
  have r: "assembly_run (f # fs) a = (fst (assembly_run fs b), r # snd (assembly_run fs b))" using b by (simp add: split_beta)
  have "snd (assembly_run (f # fs) a) ! k = Inr None" if "k < length (f # fs)" "frag_id ((f # fs) ! k) = i" for k
    using that ih(2,3) unfolding r by (cases k) simp_all
  with ih(1) show ?case unfolding r by simp
qed simp

lemma assembly_run_append:
  "assembly_run (fs @ gs) a = (case assembly_run fs a of (b, rs) \<Rightarrow>
     (case assembly_run gs b of (c, ss) \<Rightarrow> (c, rs @ ss)))"
  by (induction fs arbitrary: a) (simp_all split: prod.splits)

lemma run_ids:
  "asm_inv (\<lambda>i. honest (F i)) a \<Longrightarrow> \<forall>f \<in> set fs. genuine_fragment F f \<Longrightarrow> \<forall>e \<in> set (assemblies a). touched (snd e) \<le> clock a \<Longrightarrow>
   (\<forall>e \<in> set (assemblies (fst (assembly_run fs a))). touched (snd e) \<le> clock (fst (assembly_run fs a)) \<and>
      (fst e \<in> fst ` set (assemblies a) \<or> fst e \<in> frag_id ` set fs))"
proof (induction fs arbitrary: a)
  case (Cons f fs)
  obtain b r where b: "assembly_add f a = (b, Inr r)" "asm_inv (\<lambda>i. honest (F i)) b"
    using honest.assembly_add_inv [of F f a] Cons.prems(1,2) by auto
  have e: "clock b = clock a + 1 \<and> (\<forall>e \<in> set (assemblies b). e \<in> set (assemblies a) \<or> fst e = frag_id f \<and>
      ((\<forall>e \<in> set (assemblies a). touched (snd e) \<le> clock a) \<longrightarrow> touched (snd e) \<le> clock a + 1))"
    using honest.add_entries [of F f a] Cons.prems(1,2) b(1) by simp
  have t: "touched (snd e) \<le> clock b" if "e \<in> set (assemblies b)" for e
    using conjunct2 [OF e] Cons.prems(3) that conjunct1 [OF e] trans_le_add1 by metis
  have "fst e \<in> fst ` set (assemblies a) \<or> fst e = frag_id f" if "e \<in> set (assemblies b)" for e
    using e that by (metis imageI)
  then have ids: "fst ` set (assemblies b) \<subseteq> fst ` set (assemblies a) \<union> {frag_id f}" by blast
  have r: "fst (assembly_run (f # fs) a) = fst (assembly_run fs b)" using b(1) by (simp add: split_beta)
  have ih: "touched (snd e) \<le> clock (fst (assembly_run fs b)) \<and> (fst e \<in> fst ` set (assemblies b) \<or> fst e \<in> frag_id ` set fs)"
    if "e \<in> set (assemblies (fst (assembly_run fs b)))" for e
    using Cons.IH [OF b(2)] Cons.prems(2) t that by simp
  show ?case unfolding r
  proof (intro ballI conjI)
    fix e assume e: "e \<in> set (assemblies (fst (assembly_run fs b)))"
    show "touched (snd e) \<le> clock (fst (assembly_run fs b))" using ih [OF e] by (rule conjunct1)
    have "fst e \<in> fst ` set (assemblies b) \<or> fst e \<in> frag_id ` set fs" using ih [OF e] by (rule conjunct2)
    then show "fst e \<in> fst ` set (assemblies a) \<or> fst e \<in> frag_id ` set (f # fs)" using ids by auto
  qed
qed simp

text \<open>
  C17. Completeness within the bounds. Take an assembly for \<open>n\<close> instructions and \<open>m\<close> bytes that has received any
  genuine fragments \<open>pre\<close> of other instructions before, complete, partial or stale, and then the fragments
  \<open>fs @ [f]\<close>: every fragment of the instruction \<open>i\<close> of at most \<open>MAX_FRAGMENTS\<close> fragments, in any order and
  repeated, \<open>f\<close> its last one missing, mixed with genuine fragments of other instructions, such that all the
  instructions met since \<open>pre\<close> are at most \<open>n\<close> and their payloads at most \<open>m\<close> bytes together. Then the stale
  partials are evicted first: nothing is returned for \<open>i\<close> before \<open>f\<close>, and \<open>f\<close> returns exactly its payload.
\<close>

theorem reassembly_complete:
  assumes g: "\<forall>h \<in> set (pre @ fs @ [f]). genuine_fragment F h" and new: "\<forall>h \<in> set pre. frag_id h \<noteq> i"
    and i: "frag_id f = i" "set (filter (\<lambda>h. frag_id h = i) (fs @ [f])) = set (F i)" "f \<notin> set fs" "length (F i) \<le> MAX_FRAGMENTS"
    and few: "card (frag_id ` set (fs @ [f])) \<le> n" "(\<Sum>j \<in> frag_id ` set (fs @ [f]). length (payload_of F j)) \<le> m"
  shows "snd (assembly_run (pre @ fs @ [f]) (with_limits n m)) ! (length pre + length fs) = Inr (Some (payload_of F i)) \<and>
    (\<forall>k < length fs. frag_id (fs ! k) = i \<longrightarrow>
       snd (assembly_run (pre @ fs @ [f]) (with_limits n m)) ! (length pre + k) = Inr None)"
proof -
  let ?J = "frag_id ` set (fs @ [f])"
  obtain a rs where a: "assembly_run pre (with_limits n m) = (a, rs)" by force
  have "\<forall>h \<in> set pre. genuine_fragment F h" using g by simp
  from honest.assembly_run_inv [OF asm_inv_start this a] have ia: "asm_inv (\<lambda>i. honest (F i)) a" "same_limits (with_limits n m) a" "length rs = length pre"
    by blast+
  have e: "\<forall>e \<in> set (assemblies a). touched (snd e) \<le> clock a \<and> fst e \<in> frag_id ` set pre"
    using run_ids [OF asm_inv_start, of pre F n m] g a by (simp add: with_limits_def)
  have "i \<notin> fst ` set (assemblies a)" using e new by fastforce
  then have "on_way F ?J (clock a) i [] a"
    using ia e few by (auto simp: on_way_def in_budget_def same_limits_def with_limits_def)
  moreover have "\<forall>h \<in> set fs. genuine_fragment F h \<and> frag_id h \<in> ?J" using g by simp
  moreover have miss: "set ([] @ filter (\<lambda>h. frag_id h = i) fs) \<noteq> set (F i)" using i(1-3) by auto
  ultimately have w: "on_way F ?J (clock a) i ([] @ filter (\<lambda>h. frag_id h = i) fs) (fst (assembly_run fs a))"
    "\<forall>k < length fs. frag_id (fs ! k) = i \<longrightarrow> snd (assembly_run fs a) ! k = Inr None"
    using run_on_way [of F ?J "clock a" i "[]" a fs] i(4) by blast+
  obtain b ss where b: "assembly_run fs a = (b, ss)" by force
  have "length ss = length fs" using honest.assembly_run_inv [OF ia(1) _ b] g by simp
  moreover have "snd (assembly_add f b) = Inr (Some (payload_of F i))"
    using add_own [OF w(1) _ i(1) _ i(4)] g i(1,2) b by simp
  ultimately show ?thesis using a b w(2) ia(3) by (auto simp: assembly_run_append nth_append split: prod.split)
qed

text \<open>An instance: a table of one place is full with a stale instruction when two fragments arrive, the second first.\<close>

definition stale_fragment :: fragment where
  "stale_fragment = \<lparr>frag_id = 9, frag_num = 0, is_final = False, contents = [7]\<rparr>"

definition stale_fragments :: "fragment list" where
  "stale_fragments = [stale_fragment, \<lparr>frag_id = 9, frag_num = 1, is_final = True, contents = [8]\<rparr>]"

lemma stale_cut: "cut_of 9 [7, 8] stale_fragments"
  by (auto simp: cut_of_def stale_fragments_def stale_fragment_def less_Suc_eq numeral_2_eq_2)

definition sample_instructions :: "u64 \<Rightarrow> fragment list" where
  "sample_instructions i = (if i = 1 then sample_fragments else stale_fragments)"

theorem reassembly_complete_witness:
  "snd (assembly_run ([stale_fragment] @ [sample_fragments ! 1] @ [sample_fragments ! 0]) (with_limits 1 3)) ! (length [stale_fragment] + 1) =
     Inr (Some [1, 2, 3])"
proof -
  let ?F = sample_instructions
  have s: "?F 1 = sample_fragments" "?F 9 = stale_fragments" by (simp_all add: sample_instructions_def)
  have p: "payload_of ?F 1 = [1, 2, 3]" "payload_of ?F 9 = [7, 8]"
    by (simp_all add: payload_of_def s stale_fragments_def stale_fragment_def sample_fragments_def)
  have i: "frag_id (sample_fragments ! 0) = 1" "frag_id (sample_fragments ! 1) = 1" "frag_id stale_fragment = 9"
    "stale_fragment \<in> set stale_fragments" "set sample_fragments = {sample_fragments ! 0, sample_fragments ! 1}"
    "sample_fragments ! 0 \<noteq> sample_fragments ! 1" "length sample_fragments = 2"
    by (simp_all add: sample_fragments_def stale_fragment_def stale_fragments_def)
  have g: "\<forall>h \<in> set ([stale_fragment] @ [sample_fragments ! 1] @ [sample_fragments ! 0]). genuine_fragment ?F h"
    using sample_cut stale_cut by (simp add: genuine_fragment_def i [simplified] p s)
  show ?thesis
    using reassembly_complete [OF g, of 1 1 3] by (simp add: i [simplified] p s MAX_FRAGMENTS_def insert_commute)
qed


end
