(* ===== verification/Ipc.thy ===== *)
theory Ipc
  imports Framing Caps
begin

text \<open>
  The session daemon's IPC, \<open>crates/posh/src/session/ipc.rs\<close>: the tag space, the generic tagged
  frame and its reassembly buffer (\<open>TaggedFrameBuffer\<close>, shared with the mux socket through the
  trait \<open>FrameTag\<close>, here the record \<open>frame_tags\<close>), the fixed payloads and the session info
  record; and the working-directory cascade of \<open>session/cwd.rs\<close>.
\<close>

section \<open>Tags\<close>

datatype tag = TagInput | TagOutput | TagResize | TagDetach | TagDetachAll | TagKill | TagInfo | TagInit
  | TagHistory | TagRun | TagAck | TagExit | TagFrame | TagShell | TagFrameAck | TagClientCaps
  | TagSwitchRequest | TagSwitch | TagExitCause | TagModal

text \<open>The tags in the order of their discriminants; \<open>tag as u8\<close> is the position.\<close>

definition all_tags :: "tag list" where
  "all_tags = [TagInput, TagOutput, TagResize, TagDetach, TagDetachAll, TagKill, TagInfo, TagInit,
     TagHistory, TagRun, TagAck, TagExit, TagFrame, TagShell, TagFrameAck, TagClientCaps,
     TagSwitchRequest, TagSwitch, TagExitCause, TagModal]"

definition tag_from_u8 :: "u8 \<Rightarrow> tag option" where
  "tag_from_u8 b = get_at all_tags (unat b)"

definition tag_to_u8 :: "tag \<Rightarrow> u8" where
  "tag_to_u8 t = (case position ((=) t) all_tags of Some i \<Rightarrow> of_nat i | None \<Rightarrow> 0)"

lemma tag_in_all: "t \<in> set all_tags"
  by (cases t) (simp_all add: all_tags_def)

lemma tag_roundtrip [simp]: "tag_from_u8 (tag_to_u8 t) = Some t"
  by (cases t) (simp_all add: tag_from_u8_def tag_to_u8_def all_tags_def get_at_def)

section \<open>Tagged frames\<close>

definition HEADER_LEN :: nat where "HEADER_LEN = 5"
definition MAX_FRAME_LEN :: nat where "MAX_FRAME_LEN = 64 * 1024 * 1024"

record 't frame_tags =
  from_tag_byte :: "u8 \<Rightarrow> 't option"
  max_len :: nat
  tag_label :: string

definition session_tags :: "tag frame_tags" where
  "session_tags = \<lparr>from_tag_byte = tag_from_u8, max_len = MAX_FRAME_LEN, tag_label = ''frame''\<rparr>"

record 't tagged_frame =
  tag :: 't
  frame_payload :: bytes

definition append_frame :: "bytes \<Rightarrow> u8 \<Rightarrow> bytes \<Rightarrow> bytes" where
  "append_frame out t p = out @ [t] @ le_bytes 4 (of_nat (length p) :: u32) @ p"

definition ipc_encode_frame :: "tag \<Rightarrow> bytes \<Rightarrow> bytes" where
  "ipc_encode_frame t p = append_frame [] (tag_to_u8 t) p"

record frame_buffer =
  fbuf :: bytes
  fhead :: nat

definition frame_buffer_new :: frame_buffer where
  "frame_buffer_new = \<lparr>fbuf = [], fhead = 0\<rparr>"

definition compact :: "frame_buffer \<Rightarrow> frame_buffer" where
  "compact fb = (if fhead fb > 0 then \<lparr>fbuf = drop (fhead fb) (fbuf fb), fhead = 0\<rparr> else fb)"

definition feed :: "bytes \<Rightarrow> frame_buffer \<Rightarrow> frame_buffer" where
  "feed d fb = (let c = compact fb in c\<lparr>fbuf := fbuf c @ d\<rparr>)"

text \<open>The header's length field of the available bytes.\<close>

definition announced_len :: "bytes \<Rightarrow> nat" where
  "announced_len avail = unat (le_val (subslice 1 5 avail) :: u32)"

text \<open>\<open>next\<close>: the loop skips complete frames of unknown tags.\<close>

function next_frame :: "'t frame_tags \<Rightarrow> frame_buffer \<Rightarrow> frame_buffer \<times> 't tagged_frame option result" where
  "next_frame T fb =
     (let avail = drop (fhead fb) (fbuf fb)
      in if length avail < HEADER_LEN then (fb, Inr None)
         else (let len = announced_len avail
           in if len > max_len T then (fb, Inl (tag_label T @ '' length exceeds maximum''))
              else if length avail < HEADER_LEN + len then (fb, Inr None)
              else (let p = subslice HEADER_LEN (HEADER_LEN + len) avail;
                        fb' = fb\<lparr>fhead := fhead fb + HEADER_LEN + len\<rparr>
                in case from_tag_byte T (avail ! 0) of
                     Some t \<Rightarrow> (fb', Inr (Some \<lparr>tag = t, frame_payload = p\<rparr>))
                   | None \<Rightarrow> next_frame T fb')))"
  by pat_completeness auto
termination
  by (relation "measure (\<lambda>(_, fb). length (fbuf fb) - fhead fb)") (auto simp: HEADER_LEN_def Let_def)

declare next_frame.simps [simp del]

section \<open>Fixed payloads\<close>

definition encode_switch_target :: "bytes \<Rightarrow> bytes \<Rightarrow> bytes" where
  "encode_switch_target grp session = grp @ [0] @ session"

definition decode_switch_target :: "bytes \<Rightarrow> (bytes \<times> bytes) option" where
  "decode_switch_target d = (case position (\<lambda>b. b = 0) d of
       None \<Rightarrow> None
     | Some nul \<Rightarrow>
         (let grp = take nul d; session = drop (nul + 1) d
          in if \<not> utf8_valid grp \<or> \<not> utf8_valid session then None
             else if grp = [] \<or> session = [] then None
             else Some (grp, session)))"

definition encode_history_format :: "bool \<Rightarrow> bytes" where
  "encode_history_format vt = [if vt then 1 else 0]"

definition decode_history_format :: "bytes \<Rightarrow> bool" where
  "decode_history_format d \<longleftrightarrow> get_at d 0 = Some 1"

definition encode_resize :: "u16 \<Rightarrow> u16 \<Rightarrow> bytes" where
  "encode_resize r c = le_bytes 2 r @ le_bytes 2 c"

definition decode_resize :: "bytes \<Rightarrow> (u16 \<times> u16) option" where
  "decode_resize d = (if length d \<noteq> 4 then None
     else Some (le_val [d ! 0, d ! 1], le_val [d ! 2, d ! 3]))"

text \<open>The exit code is an \<open>i32\<close>; its two's complement bits are the 32-bit word.\<close>

definition encode_exit :: "u32 \<Rightarrow> bytes" where
  "encode_exit code = le_bytes 4 code"

definition decode_exit :: "bytes \<Rightarrow> u32 option" where
  "decode_exit d = (if length d \<noteq> 4 then None else Some (le_val d))"

definition FRAME_ACK_RESYNC :: u8 where "FRAME_ACK_RESYNC = 0x01"
definition FRAME_ACK_COALESCE_OFF :: u8 where "FRAME_ACK_COALESCE_OFF = 0x02"

definition encode_frame_ack :: "u64 \<Rightarrow> u8 \<Rightarrow> bytes" where
  "encode_frame_ack n fl = le_bytes 8 n @ [fl]"

definition decode_frame_ack :: "bytes \<Rightarrow> (u64 \<times> u8) option" where
  "decode_frame_ack d = (if length d \<noteq> 9 then None else Some (le_val (take 8 d), d ! 8))"

section \<open>The working directory\<close>

datatype cwd_source = Caller | Kernel | Osc7 | Start | Home

fun source_to_byte :: "cwd_source \<Rightarrow> u8" where
  "source_to_byte Caller = 1"
| "source_to_byte Kernel = 2"
| "source_to_byte Osc7 = 3"
| "source_to_byte Start = 4"
| "source_to_byte Home = 5"

definition source_from_byte :: "u8 \<Rightarrow> cwd_source" where
  "source_from_byte b = (if b = 1 then Caller else if b = 2 then Kernel else if b = 3 then Osc7
     else if b = 5 then Home else Start)"

fun source_as_str :: "cwd_source \<Rightarrow> bytes" where
  "source_as_str Caller = ascii ''caller''"
| "source_as_str Kernel = ascii ''kernel''"
| "source_as_str Osc7 = ascii ''osc7''"
| "source_as_str Start = ascii ''start''"
| "source_as_str Home = ascii ''home''"

record cwd_facts =
  caller :: "bytes option"
  kernel :: "bytes option"
  osc7 :: "bytes option"
  start :: bytes
  home :: "bytes option"

record resolved =
  dir :: bytes
  source :: cwd_source

fun first_dir :: "(bytes \<Rightarrow> bool) \<Rightarrow> (bytes option \<times> cwd_source) list \<Rightarrow> resolved option" where
  "first_dir is_dir [] = None"
| "first_dir is_dir ((found, src) # rest) =
     (case opt_filter (\<lambda>d. d \<noteq> [] \<and> is_dir d) found of
        Some d \<Rightarrow> Some \<lparr>dir = d, source = src\<rparr>
      | None \<Rightarrow> first_dir is_dir rest)"

text \<open>\<open>is_dir\<close> is \<open>Path::is_dir\<close>, the file system's answer.\<close>

definition session_cwd :: "(bytes \<Rightarrow> bool) \<Rightarrow> cwd_facts \<Rightarrow> resolved" where
  "session_cwd is_dir f =
     (case first_dir is_dir [(caller f, Caller), (kernel f, Kernel), (osc7 f, Osc7), (Some (start f), Start),
        (home f, Home)] of
        Some r \<Rightarrow> r
      | None \<Rightarrow> \<lparr>dir = ascii ''/'', source = Home\<rparr>)"

section \<open>The info record\<close>

definition MAX_CMD_LEN :: nat where "MAX_CMD_LEN = 256"
definition MAX_CWD_LEN :: nat where "MAX_CWD_LEN = 256"
definition MAX_ACTIVITY_LEN :: nat where "MAX_ACTIVITY_LEN = 256"
definition INFO_LEN :: nat where "INFO_LEN = 8 + 4 + 2 + 2 + MAX_CMD_LEN + MAX_CWD_LEN"

record session_info =
  clients :: u64
  pid :: u32
  cmd :: bytes
  cwd :: bytes
  activity :: bytes
  info_kind :: session_kind
  cwd_now :: "resolved option"

text \<open>\<open>replace('\0', " ")\<close>.\<close>

definition cmd_display :: "session_info \<Rightarrow> bytes" where
  "cmd_display i = map (\<lambda>b. if b = 0 then 0x20 else b) (cmd i)"

text \<open>\<open>Vec::resize(n, 0)\<close>.\<close>

definition resize_zero :: "nat \<Rightarrow> bytes \<Rightarrow> bytes" where
  "resize_zero n bs = take n bs @ replicate (n - length bs) 0"

definition encode_cwd_now :: "resolved option \<Rightarrow> bytes" where
  "encode_cwd_now r = (case r of
       None \<Rightarrow> []
     | Some now \<Rightarrow>
         (let dir_len = min (length (dir now)) MAX_CWD_LEN
          in le_bytes 2 (of_nat dir_len :: u16) @ take dir_len (dir now) @ [source_to_byte (source now)]))"

definition encode_info :: "session_info \<Rightarrow> bytes" where
  "encode_info i =
     (let cmd_len = min (length (cmd i)) MAX_CMD_LEN; cwd_len = min (length (cwd i)) MAX_CWD_LEN;
          act_len = min (length (activity i)) MAX_ACTIVITY_LEN;
          out = le_bytes 8 (clients i) @ le_bytes 4 (pid i) @ le_bytes 2 (of_nat cmd_len :: u16) @
                le_bytes 2 (of_nat cwd_len :: u16) @ take cmd_len (cmd i);
          out = resize_zero (16 + MAX_CMD_LEN) out @ take cwd_len (cwd i);
          out = resize_zero INFO_LEN out
      in out @ le_bytes 2 (of_nat act_len :: u16) @ take act_len (activity i) @ [kind_to_byte (info_kind i)] @
         encode_cwd_now (cwd_now i))"

definition decode_cwd_now :: "bytes \<Rightarrow> resolved option" where
  "decode_cwd_now t = (case (get_at t 0, get_at t 1) of
       (Some b0, Some b1) \<Rightarrow>
         (let len = min (unat (le_val [b0, b1] :: u16)) MAX_CWD_LEN
          in case (get_slice t 2 (2 + len), get_at t (2 + len)) of
               (Some d, Some s) \<Rightarrow> Some \<lparr>dir = utf8_lossy d, source = source_from_byte s\<rparr>
             | _ \<Rightarrow> None)
     | _ \<Rightarrow> None)"

text \<open>The optional tail after the fixed core: activity, kind and current directory.\<close>

definition decode_info_tail :: "bytes \<Rightarrow> bytes \<times> session_kind \<times> resolved option" where
  "decode_info_tail tl1 =
     (if length tl1 \<ge> 2
      then (let len = min (unat (le_val [tl1 ! 0, tl1 ! 1] :: u16)) MAX_ACTIVITY_LEN
            in if length tl1 \<ge> 2 + len
               then (utf8_lossy (subslice 2 (2 + len) tl1),
                     (case get_at tl1 (2 + len) of Some b \<Rightarrow> kind_from_byte b | None \<Rightarrow> Unknown),
                     decode_cwd_now (if 3 + len \<le> length tl1 then drop (3 + len) tl1 else []))
               else ([], Unknown, None))
      else ([], Unknown, None))"

definition decode_info :: "bytes \<Rightarrow> session_info option" where
  "decode_info p =
     (if length p < INFO_LEN then None
      else (let cmd_len = min (unat (le_val (subslice 12 14 p) :: u16)) MAX_CMD_LEN;
                cwd_len = min (unat (le_val (subslice 14 16 p) :: u16)) MAX_CWD_LEN;
                cwd_start = 16 + MAX_CMD_LEN;
                (act, k, now) = decode_info_tail (drop INFO_LEN p)
            in Some \<lparr>clients = le_val (subslice 0 8 p), pid = le_val (subslice 8 12 p),
                 cmd = utf8_lossy (subslice 16 (16 + cmd_len) p),
                 cwd = utf8_lossy (subslice cwd_start (cwd_start + cwd_len) p),
                 activity = act, info_kind = k, cwd_now = now\<rparr>))"

end
