(* ===== verification/IpcFacts.thy ===== *)
theory IpcFacts
  imports Ipc CapsFacts
begin

text \<open>
  What the session IPC promises: the frame buffer is an instance of the record-stream interface, for
  any tag space; the payload codecs invert; the info record survives truncation by older daemons.
\<close>

section \<open>The frame buffer as a record stream\<close>

definition frame_head :: "'t frame_tags \<Rightarrow> bytes \<Rightarrow> 't tagged_frame head" where
  "frame_head T b =
     (if length b < HEADER_LEN then More
      else if announced_len b > max_len T then Corrupt (tag_label T @ '' length exceeds maximum'')
      else if length b < HEADER_LEN + announced_len b then More
      else Found (map_option (\<lambda>t. \<lparr>tag = t, frame_payload = subslice HEADER_LEN (HEADER_LEN + announced_len b) b\<rparr>)
             (from_tag_byte T (b ! 0))) (HEADER_LEN + announced_len b))"

lemma announced_append: "5 \<le> length b \<Longrightarrow> announced_len (b @ c) = announced_len b"
  by (simp add: announced_len_def subslice_def)

lemma subslice_append1: "hi \<le> length b \<Longrightarrow> subslice lo hi (b @ c) = subslice lo hi b"
  by (simp add: subslice_def)

interpretation tagged: record_stream "frame_head T"
  for T :: "'t frame_tags"
proof
  fix b c :: bytes and x n e
  show "frame_head T b = Found x n \<Longrightarrow> 0 < n \<and> n \<le> length b"
    by (auto simp: frame_head_def HEADER_LEN_def split: if_splits)
  show "frame_head T b = Found x n \<Longrightarrow> frame_head T (b @ c) = Found x n"
    by (auto simp: frame_head_def HEADER_LEN_def announced_append subslice_append1 nth_append split: if_splits)
  show "frame_head T b = Corrupt e \<Longrightarrow> frame_head T (b @ c) = Corrupt e"
    by (auto simp: frame_head_def HEADER_LEN_def announced_append split: if_splits)
  show "frame_head T [] = More"
    by (simp add: frame_head_def HEADER_LEN_def)
qed

definition avail_bytes :: "frame_buffer \<Rightarrow> bytes" where
  "avail_bytes fb = drop (fhead fb) (fbuf fb)"

lemma avail_feed [simp]: "avail_bytes (feed d fb) = avail_bytes fb @ d"
  by (simp add: avail_bytes_def feed_def compact_def Let_def)

lemma avail_new [simp]: "avail_bytes frame_buffer_new = []"
  by (simp add: avail_bytes_def frame_buffer_new_def)

text \<open>One call of \<open>next\<close> reads one record of the stream, or says why there is none.\<close>

lemma next_frame_records:
  "next_frame T fb = (fb', r) \<Longrightarrow>
     (case r of
        Inl e \<Rightarrow> records (frame_head T) (avail_bytes fb) = ([], avail_bytes fb', Some e)
      | Inr None \<Rightarrow> records (frame_head T) (avail_bytes fb) = ([], avail_bytes fb', None)
      | Inr (Some f) \<Rightarrow> length (avail_bytes fb') < length (avail_bytes fb) \<and>
          records (frame_head T) (avail_bytes fb) = (case records (frame_head T) (avail_bytes fb') of (xs, rest, e) \<Rightarrow> (f # xs, rest, e)))"
proof (induction T fb arbitrary: fb' r rule: next_frame.induct)
  case (1 T fb)
  let ?a = "avail_bytes fb" and ?skip = "fb\<lparr>fhead := fhead fb + HEADER_LEN + announced_len (avail_bytes fb)\<rparr>"
  have skip: "avail_bytes ?skip = drop (HEADER_LEN + announced_len ?a) ?a"
    by (simp add: avail_bytes_def ac_simps)
  have nf: "next_frame T fb = (if length ?a < HEADER_LEN then (fb, Inr None)
      else if announced_len ?a > max_len T then (fb, Inl (tag_label T @ '' length exceeds maximum''))
      else if length ?a < HEADER_LEN + announced_len ?a then (fb, Inr None)
      else case from_tag_byte T (?a ! 0) of
        Some t \<Rightarrow> (?skip, Inr (Some \<lparr>tag = t, frame_payload = subslice HEADER_LEN (HEADER_LEN + announced_len ?a) ?a\<rparr>))
      | None \<Rightarrow> next_frame T ?skip)"
    unfolding avail_bytes_def by (subst next_frame.simps) (simp only: Let_def)
  consider (more) "frame_head T ?a = More" "next_frame T fb = (fb, Inr None)"
    | (big) e where "frame_head T ?a = Corrupt e" "next_frame T fb = (fb, Inl e)"
    | (found) t where "\<not> length ?a < HEADER_LEN" "\<not> announced_len ?a > max_len T"
        "\<not> length ?a < HEADER_LEN + announced_len ?a" "from_tag_byte T (?a ! 0) = Some t"
        "next_frame T fb = (?skip, Inr (Some \<lparr>tag = t, frame_payload = subslice HEADER_LEN (HEADER_LEN + announced_len ?a) ?a\<rparr>))"
    | (unknown) "\<not> length ?a < HEADER_LEN" "\<not> announced_len ?a > max_len T"
        "\<not> length ?a < HEADER_LEN + announced_len ?a" "from_tag_byte T (?a ! 0) = None"
        "next_frame T fb = next_frame T ?skip"
    by (cases "length ?a < HEADER_LEN"; cases "announced_len ?a > max_len T";
        cases "length ?a < HEADER_LEN + announced_len ?a"; cases "from_tag_byte T (?a ! 0)")
      (simp_all add: nf frame_head_def)
  then show ?case
  proof cases
    case more
    with 1(2) show ?thesis by (auto simp: tagged.records_More)
  next
    case big
    with 1(2) show ?thesis by (auto simp: tagged.records_Corrupt)
  next
    case found
    have "length (drop (HEADER_LEN + announced_len ?a) ?a) < length ?a" using found(1) by (simp add: HEADER_LEN_def)
    with found 1(2) skip show ?thesis
      by (auto simp: tagged.records_Found [of T ?a] frame_head_def item_list_def split: prod.splits)
  next
    case unknown
    have h: "frame_head T ?a = Found None (HEADER_LEN + announced_len ?a)"
      using unknown by (simp add: frame_head_def)
    have "length (avail_bytes ?skip) < length ?a" using unknown(1) skip by (simp add: HEADER_LEN_def)
    with 1(1) [OF refl, of "announced_len ?a" "subslice HEADER_LEN (HEADER_LEN + announced_len ?a) ?a" ?skip fb' r]
      unknown 1(2) tagged.records_Found [OF h] skip
    show ?thesis
      by (auto simp: avail_bytes_def [symmetric] item_list_def split: sum.splits option.splits prod.splits)
  qed
qed

lemma next_frame_shrinks: "next_frame T fb = (fb', Inr (Some f)) \<Longrightarrow> length (avail_bytes fb') < length (avail_bytes fb)"
  using next_frame_records [of T fb fb' "Inr (Some f)"] by simp

text \<open>The reading loop of every user of the buffer: \<open>next\<close> until it wants more bytes or fails.\<close>

function drain :: "'t frame_tags \<Rightarrow> frame_buffer \<Rightarrow> 't tagged_frame list \<times> frame_buffer \<times> string option" where
  "drain T fb = (case next_frame T fb of
       (fb', Inl e) \<Rightarrow> ([], fb', Some e)
     | (fb', Inr None) \<Rightarrow> ([], fb', None)
     | (fb', Inr (Some f)) \<Rightarrow> (case drain T fb' of (fs, r, e) \<Rightarrow> (f # fs, r, e)))"
  by pat_completeness auto
termination
  by (relation "measure (\<lambda>(_, fb). length (avail_bytes fb))") (auto dest!: next_frame_shrinks [OF sym])

declare drain.simps [simp del]

lemma drain_step:
  "next_frame T fb = (c, Inl e) \<Longrightarrow> drain T fb = ([], c, Some e)"
  "next_frame T fb = (c, Inr None) \<Longrightarrow> drain T fb = ([], c, None)"
  "next_frame T fb = (c, Inr (Some f)) \<Longrightarrow> drain T fb = (case drain T c of (fs, r, e) \<Rightarrow> (f # fs, r, e))"
  by (subst drain.simps, simp)+

fun pump :: "'t frame_tags \<Rightarrow> frame_buffer \<Rightarrow> bytes list \<Rightarrow> 't tagged_frame list \<times> frame_buffer \<times> string option" where
  "pump T fb [] = ([], fb, None)"
| "pump T fb (p # ps) = (case drain T (feed p fb) of
       (fs, fb', Some e) \<Rightarrow> (fs, fb', Some e)
     | (fs, fb', None) \<Rightarrow> (case pump T fb' ps of (gs, r, e) \<Rightarrow> (fs @ gs, r, e)))"

lemma drain_records:
  "drain T fb = (fs, fb', e) \<Longrightarrow> records (frame_head T) (avail_bytes fb) = (fs, avail_bytes fb', e)"
proof (induction T fb arbitrary: fs fb' e rule: drain.induct)
  case (1 T fb)
  obtain c r where n: "next_frame T fb = (c, r)" by force
  note rec = next_frame_records [OF n]
  show ?case
  proof (cases r)
    case (Inl x)
    with 1(2) n rec show ?thesis by (simp add: drain_step(1))
  next
    case (Inr o1)
    show ?thesis
    proof (cases o1)
      case None
      with Inr 1(2) n rec show ?thesis by (simp add: drain_step(2))
    next
      case (Some f)
      have "drain T fb = (case drain T c of (fs, r, e) \<Rightarrow> (f # fs, r, e))"
        using n Inr Some by (simp add: drain_step(3))
      with 1(2) obtain gs where g: "drain T c = (gs, fb', e)" "fs = f # gs" by (auto split: prod.splits)
      have "records (frame_head T) (avail_bytes c) = (gs, avail_bytes fb', e)"
        using n Inr Some g(1) by (intro 1(1)) simp_all
      with rec Inr Some g(2) show ?thesis by simp
    qed
  qed
qed

lemma pump_read:
  "pump T fb ps = (fs, fb', e) \<Longrightarrow> read_pieces (frame_head T) (avail_bytes fb) ps = (fs, avail_bytes fb', e)"
proof (induction ps arbitrary: fb fs)
  case (Cons p ps)
  obtain gs c x where d: "drain T (feed p fb) = (gs, c, x)" by (cases "drain T (feed p fb)")
  note r = drain_records [OF d, unfolded avail_feed]
  show ?case
  proof (cases x)
    case None
    with Cons.prems d obtain hs where h: "pump T c ps = (hs, fb', e)" "fs = gs @ hs"
      by (auto split: prod.splits)
    from Cons.IH [OF h(1)] h(2) r None show ?thesis by simp
  next
    case (Some y)
    with Cons.prems d have "gs = fs" "c = fb'" "e = Some y" by simp_all
    with r Some show ?thesis by simp
  qed
qed simp

definition tagged_bytes :: "u8 \<times> bytes \<Rightarrow> bytes" where
  "tagged_bytes f = append_frame [] (fst f) (snd f)"

definition known_frame :: "'t frame_tags \<Rightarrow> u8 \<times> bytes \<Rightarrow> 't tagged_frame option" where
  "known_frame T f = map_option (\<lambda>t. \<lparr>tag = t, frame_payload = snd f\<rparr>) (from_tag_byte T (fst f))"

lemma frame_head_bytes:
  assumes "length (snd f) \<le> max_len T" "length (snd f) < 2 ^ 32"
  shows "frame_head T (tagged_bytes f) = Found (known_frame T f) (length (tagged_bytes f))"
proof -
  have "announced_len (tagged_bytes f) = length (snd f)"
    using assms(2) by (simp add: announced_len_def tagged_bytes_def append_frame_def subslice_def)
  moreover have "subslice 5 (5 + length (snd f)) (tagged_bytes f) = snd f" "tagged_bytes f ! 0 = fst f"
    "length (tagged_bytes f) = 5 + length (snd f)"
    by (simp_all add: tagged_bytes_def append_frame_def subslice_def)
  ultimately show ?thesis using assms(1) by (simp add: frame_head_def HEADER_LEN_def known_frame_def)
qed

text \<open>
  C18. In any tag space, however the stream of frames is cut into reads, the buffer hands out exactly the
  frames with known tags, in order, skips the others, reports no error and keeps no bytes back.
\<close>

theorem frame_stream_exact:
  assumes "\<forall>f \<in> set fs. length (snd f) \<le> max_len T \<and> length (snd f) < 2 ^ 32"
    and "concat ps = concat (map tagged_bytes fs)" "ps \<noteq> []"
  shows "\<exists>fb. pump T frame_buffer_new ps = (List.map_filter (known_frame T) fs, fb, None) \<and> avail_bytes fb = []"
proof -
  have "records (frame_head T) (concat (map tagged_bytes fs) @ []) =
      (concat (map (\<lambda>f. item_list (known_frame T f)) fs), [], None)"
    using assms(1) tagged.empty_more by (intro tagged.records_written) (auto simp: frame_head_bytes)
  moreover have "concat (map (\<lambda>f. item_list (known_frame T f)) fs) = List.map_filter (known_frame T) fs"
    by (induction fs) (auto simp: item_list_def map_filter_simps split: option.split)
  ultimately have "records (frame_head T) (avail_bytes frame_buffer_new @ concat ps) =
      (List.map_filter (known_frame T) fs, [], None)" by (simp add: assms(2))
  from tagged.read_pieces_concat [OF this assms(3)]
  have r: "read_pieces (frame_head T) (avail_bytes frame_buffer_new) ps = (List.map_filter (known_frame T) fs, [], None)" .
  obtain gs fb e where p: "pump T frame_buffer_new ps = (gs, fb, e)" by (cases "pump T frame_buffer_new ps")
  with pump_read [OF p] r show ?thesis by simp
qed

theorem frame_stream_exact_witness:
  "\<exists>fb. pump session_tags frame_buffer_new [[0, 1, 0], [0, 0, 65, 99, 0, 0], [0, 0, 3, 0, 0, 0, 0]] =
      (List.map_filter (known_frame session_tags) [(0, [65]), (99, []), (3, [])], fb, None) \<and> avail_bytes fb = []"
  by (rule frame_stream_exact)
    (simp_all add: session_tags_def MAX_FRAME_LEN_def tagged_bytes_def append_frame_def le_bytes_def upt_rec)

text \<open>
  C28. A peer cannot make the buffer grow without bound: once the reads so far have been drained without
  an error, fewer bytes are kept than a header and the largest payload allowed.
\<close>

lemma frame_buffer_bounded:
  assumes "pump T frame_buffer_new (ps @ [p]) = (fs, fb, None)"
  shows "length (avail_bytes fb) < HEADER_LEN + max_len T"
proof -
  have step: "\<exists>gs c. drain T (feed p c) = (gs, fb, None)" if "pump T b (ps @ [p]) = (fs, fb, None)" for b ps fs
    using that by (induction ps arbitrary: b fs) (auto split: prod.splits option.splits)
  from step [OF assms] obtain gs c where "drain T (feed p c) = (gs, fb, None)" by blast
  from tagged.records_rest_More [OF drain_records [OF this]] have "frame_head T (avail_bytes fb) = More" .
  then show ?thesis by (auto simp: frame_head_def HEADER_LEN_def split: if_splits)
qed

lemma frame_buffer_bounded_witness:
  "length (avail_bytes (fst (snd (pump session_tags frame_buffer_new ([] @ [[0, 1, 0]]))))) < HEADER_LEN + max_len session_tags"
proof (rule frame_buffer_bounded [where ps = "[]" and p = "[0, 1, 0]" and fs = "[]"])
  have "next_frame session_tags (feed [0, 1, 0] frame_buffer_new) = (feed [0, 1, 0] frame_buffer_new, Inr None)"
    by (subst next_frame.simps) (simp add: feed_def compact_def frame_buffer_new_def HEADER_LEN_def)
  then show "pump session_tags frame_buffer_new ([] @ [[0, 1, 0]]) =
      ([], fst (snd (pump session_tags frame_buffer_new ([] @ [[0, 1, 0]]))), None)"
    by (simp add: drain_step(2))
qed

section \<open>Payloads\<close>

lemma u16_pair: "le_val [le_bytes 2 (w :: u16) ! 0, le_bytes 2 w ! 1] = w"
proof -
  have "[le_bytes 2 w ! 0, le_bytes 2 w ! 1] = le_bytes 2 w" by (simp add: le_bytes_def upt_rec)
  then show ?thesis by (simp only: u16le.dec_enc)
qed

lemma resize_roundtrip: "decode_resize (encode_resize r c) = Some (r, c)"
  using u16_pair [of r] u16_pair [of c] by (simp add: decode_resize_def encode_resize_def nth_append)

text \<open>
  C3. The fixed payloads of the session IPC read back as written: window size, exit status, frame
  acknowledgement and history format; and every tag byte the daemon writes is a tag it knows.
\<close>

lemma ipc_payload_roundtrip:
  "decode_resize (encode_resize r c) = Some (r, c) \<and> decode_exit (encode_exit code) = Some code \<and>
   decode_frame_ack (encode_frame_ack n fl) = Some (n, fl) \<and>
   decode_history_format (encode_history_format vt) = vt \<and> tag_from_u8 (tag_to_u8 t) = Some t"
proof -
  have "decode_frame_ack (encode_frame_ack n fl) = Some (n, fl)"
    by (simp add: decode_frame_ack_def encode_frame_ack_def nth_append)
  moreover have "decode_exit (encode_exit code) = Some code"
    by (simp add: decode_exit_def encode_exit_def)
  moreover have "decode_history_format (encode_history_format vt) = vt"
    by (simp add: decode_history_format_def encode_history_format_def get_at_def)
  ultimately show ?thesis using resize_roundtrip by simp
qed

text \<open>C4. A switch target reads back whenever its group has no NUL and both names are non-empty strings.\<close>

lemma switch_target_roundtrip:
  assumes "utf8_valid g" "utf8_valid s" "g \<noteq> []" "s \<noteq> []" "0 \<notin> set g"
  shows "decode_switch_target (encode_switch_target g s) = Some (g, s)"
proof -
  have "position (\<lambda>b. b = 0) (g @ 0 # s) = Some (length g)"
    using assms(5) by (intro position_append_fresh) auto
  with assms show ?thesis by (simp add: decode_switch_target_def encode_switch_target_def)
qed

lemma switch_target_roundtrip_witness:
  "decode_switch_target (encode_switch_target [0x61] [0x62]) = Some ([0x61], [0x62])"
  by (rule switch_target_roundtrip) (simp_all add: utf8_valid_ascii)

section \<open>The info record\<close>

text \<open>The wire form as one run of fields.\<close>

definition padded :: "nat \<Rightarrow> bytes \<Rightarrow> bytes" where
  "padded n bs = take n bs @ replicate (n - length bs) 0"

lemma length_padded [simp]: "length (padded n bs) = n"
  by (simp add: padded_def)

lemma take_padded: "min (length bs) n = k \<Longrightarrow> take k (padded n bs) = take n bs"
  by (auto simp: padded_def min_def)

definition info_tail :: "session_info \<Rightarrow> bytes" where
  "info_tail i = le_bytes 2 (of_nat (min (length (activity i)) 256) :: u16) @ take 256 (activity i) @
     [kind_to_byte (info_kind i)] @ encode_cwd_now (cwd_now i)"

lemma take_min_length: "take (min (length xs) n) xs = take n xs"
  by (simp add: min_def)

lemma info_layout:
  "encode_info i = le_bytes 8 (clients i) @ le_bytes 4 (pid i) @
     le_bytes 2 (of_nat (min (length (cmd i)) 256) :: u16) @ le_bytes 2 (of_nat (min (length (cwd i)) 256) :: u16) @
     padded 256 (cmd i) @ padded 256 (cwd i) @ info_tail i"
  by (simp add: encode_info_def Let_def resize_zero_def info_tail_def padded_def MAX_CMD_LEN_def MAX_CWD_LEN_def
      MAX_ACTIVITY_LEN_def INFO_LEN_def take_min_length min_def)

lemma session_kind_from_to: "kind_from_byte (kind_to_byte k) = k"
  by (cases k) (simp_all add: kind_from_byte_def)

lemma source_from_to: "source_from_byte (source_to_byte s) = s"
  by (cases s) (simp_all add: source_from_byte_def)

lemma unat_min256 [simp]: "unat (of_nat (min n 256) :: u16) = min n 256"
  by (rule unat_of_nat_small) (simp add: min_def)

text \<open>What decoding makes of a directory: at most 256 bytes, cut characters replaced.\<close>

definition clipped :: "bytes \<Rightarrow> bytes" where
  "clipped s = utf8_lossy (take 256 s)"

lemma cwd_now_roundtrip: "decode_cwd_now (encode_cwd_now r) = map_option (\<lambda>x. x\<lparr>dir := clipped (dir x)\<rparr>) r"
proof (cases r)
  case None
  then show ?thesis by (simp add: encode_cwd_now_def decode_cwd_now_def get_at_def)
next
  case (Some x)
  define k where "k = min (length (dir x)) 256"
  define w where "w = (of_nat k :: u16)"
  have w: "unat w = k" "k \<le> 256" by (auto simp: w_def k_def min_def)
  obtain b0 b1 where b: "le_bytes 2 w = [b0, b1]" by (simp add: le_bytes_def upt_rec)
  have v: "le_val [b0, b1] = w" using u16le.dec_enc [of w] b by simp
  have e: "encode_cwd_now r = [b0, b1] @ take k (dir x) @ [source_to_byte (source x)]"
    using b by (simp add: encode_cwd_now_def Some MAX_CWD_LEN_def k_def w_def Let_def)
  have l: "length (take k (dir x)) = k" by (simp add: k_def)
  have "get_slice (encode_cwd_now r) 2 (2 + k) = Some (take k (dir x))"
    using l unfolding e by (simp add: get_slice_def subslice_def)
  moreover have "get_at (encode_cwd_now r) (2 + k) = Some (source_to_byte (source x))"
    using l unfolding e by (simp add: get_at_def nth_append)
  moreover have "get_at (encode_cwd_now r) 0 = Some b0" "get_at (encode_cwd_now r) 1 = Some b1"
    unfolding e by (simp_all add: get_at_def)
  moreover have "take k (dir x) = take 256 (dir x)" by (simp add: k_def take_min_length)
  moreover have "min k 256 = k" using w(2) by simp
  ultimately show ?thesis unfolding decode_cwd_now_def
    by (simp add: Some v w(1) Let_def MAX_CWD_LEN_def source_from_to clipped_def del: le_val.simps)
qed

lemma info_tail_roundtrip:
  "decode_info_tail (info_tail i) =
     (clipped (activity i), info_kind i, map_option (\<lambda>x. x\<lparr>dir := clipped (dir x)\<rparr>) (cwd_now i))"
proof -
  define k where "k = min (length (activity i)) 256"
  define w where "w = (of_nat k :: u16)"
  have w: "unat w = k" "k \<le> 256" by (auto simp: w_def k_def min_def)
  obtain b0 b1 where b: "le_bytes 2 w = [b0, b1]" by (simp add: le_bytes_def upt_rec)
  have v: "le_val [b0, b1] = w" using u16le.dec_enc [of w] b by simp
  have t: "take 256 (activity i) = take k (activity i)" by (simp add: k_def take_min_length)
  have l: "length (take k (activity i)) = k" by (simp add: k_def)
  have e: "info_tail i = [b0, b1] @ take k (activity i) @ kind_to_byte (info_kind i) # encode_cwd_now (cwd_now i)"
    unfolding info_tail_def t using b by (simp add: w_def k_def)
  have "subslice 2 (2 + k) (info_tail i) = take k (activity i)" "info_tail i ! 0 = b0" "info_tail i ! 1 = b1"
    "get_at (info_tail i) (2 + k) = Some (kind_to_byte (info_kind i))"
    "length (info_tail i) = 3 + k + length (encode_cwd_now (cwd_now i))"
    using l unfolding e by (simp_all add: subslice_def get_at_def nth_append)
  moreover have "drop (3 + k) (info_tail i) = encode_cwd_now (cwd_now i)"
  proof -
    let ?p = "[b0, b1] @ take k (activity i) @ [kind_to_byte (info_kind i)]"
    have "info_tail i = ?p @ encode_cwd_now (cwd_now i)" "length ?p = 3 + k" using l by (simp_all add: e)
    then show ?thesis by (metis append_eq_conv_conj)
  qed
  moreover have "min k 256 = k" using w(2) by simp
  ultimately show ?thesis unfolding decode_info_tail_def
    by (simp add: v w(1) Let_def MAX_ACTIVITY_LEN_def session_kind_from_to cwd_now_roundtrip clipped_def t del: le_val.simps)
qed

text \<open>
  C29. The info record reads back with its strings cut to 256 bytes (a character cut in two becomes the
  replacement character); and a client reading a record that ends at the fixed core, as an older daemon
  writes it, gets the core and the defaults for the rest.
\<close>

lemma info_roundtrip:
  "decode_info (encode_info i) = Some (i\<lparr>cmd := clipped (cmd i), cwd := clipped (cwd i),
     activity := clipped (activity i), cwd_now := map_option (\<lambda>x. x\<lparr>dir := clipped (dir x)\<rparr>) (cwd_now i)\<rparr>) \<and>
   decode_info (take INFO_LEN (encode_info i)) = Some (i\<lparr>cmd := clipped (cmd i), cwd := clipped (cwd i),
     activity := [], info_kind := Unknown, cwd_now := None\<rparr>)"
proof -
  let ?cw = "of_nat (min (length (cmd i)) 256) :: u16" and ?dw = "of_nat (min (length (cwd i)) 256) :: u16"
  let ?core = "le_bytes 8 (clients i) @ le_bytes 4 (pid i) @ le_bytes 2 ?cw @ le_bytes 2 ?dw @
     padded 256 (cmd i) @ padded 256 (cwd i)"
  define d where "d = (\<lambda>t. ?core @ t)"
  have fields: "length (d t) = 528 + length t" "subslice 0 8 (d t) = le_bytes 8 (clients i)"
    "subslice 8 12 (d t) = le_bytes 4 (pid i)"
    "subslice 12 14 (d t) = le_bytes 2 ?cw" "subslice 14 16 (d t) = le_bytes 2 ?dw"
    "subslice 16 (16 + min (length (cmd i)) 256) (d t) = take 256 (cmd i)"
    "subslice 272 (272 + min (length (cwd i)) 256) (d t) = take 256 (cwd i)"
    "drop 528 (d t) = t" for t
    using take_padded [of "cmd i" 256] take_padded [of "cwd i" 256] by (simp_all add: subslice_def d_def)
  have dec: "decode_info (d t) = (case decode_info_tail t of (a, k, n) \<Rightarrow>
      Some \<lparr>clients = clients i, pid = pid i, cmd = clipped (cmd i), cwd = clipped (cwd i),
        activity = a, info_kind = k, cwd_now = n\<rparr>)" for t
    by (simp add: decode_info_def INFO_LEN_def MAX_CMD_LEN_def MAX_CWD_LEN_def fields clipped_def Let_def
        split: prod.splits)
  have "encode_info i = d (info_tail i)" by (simp add: info_layout d_def)
  moreover have "take INFO_LEN (d t) = d []" for t
    by (simp add: d_def INFO_LEN_def MAX_CMD_LEN_def MAX_CWD_LEN_def)
  moreover have "decode_info_tail [] = ([], Unknown, None)" by (simp add: decode_info_tail_def)
  ultimately show ?thesis by (simp only: dec info_tail_roundtrip prod.case) simp
qed

end
