(* ===== verification/Channel.thy ===== *)
theory Channel
  imports Framing
begin

text \<open>
  The multiplexed channels of \<open>crates/posh/src/remote/channel.rs\<close>: the partitioned 64-bit channel
  identifier and its allocator, the envelope with its send and receive gates, and the agent-channel
  payload; and the resume cursor of \<open>remote/resume.rs\<close>, which the session channel's open carries.
\<close>

unbundle bit_operations_syntax

section \<open>Identifiers\<close>

definition VER_1 :: u8 where "VER_1 = 0x01"
definition ENVELOPE_LEN :: nat where "ENVELOPE_LEN = 9"
definition KIND_SESSION :: u8 where "KIND_SESSION = 0"
definition KIND_AGENT :: u8 where "KIND_AGENT = 1"

text \<open>A \<open>ChannelId\<close> is its 64-bit word.\<close>

type_synonym channel_id = u64

definition channel_new :: "bool \<Rightarrow> u8 \<Rightarrow> u64 \<Rightarrow> channel_id" where
  "channel_new server_initiated k ordinal =
     (if server_initiated then 1 else 0) OR push_bit 1 (ucast k AND 0x7f) OR push_bit 8 ordinal"

definition server_initiated :: "channel_id \<Rightarrow> bool" where
  "server_initiated c \<longleftrightarrow> c AND 1 = 1"

definition channel_kind :: "channel_id \<Rightarrow> u8" where
  "channel_kind c = ucast (drop_bit 1 c AND 0x7f)"

definition ordinal :: "channel_id \<Rightarrow> u64" where
  "ordinal c = drop_bit 8 c"

definition is_data :: "channel_id \<Rightarrow> bool" where
  "is_data c \<longleftrightarrow> ordinal c \<noteq> 0"

definition SESSION_CHANNEL :: channel_id where
  "SESSION_CHANNEL = channel_new False KIND_SESSION 1"

datatype role = Client | Server

record channel_allocator =
  alloc_role :: role
  next_ordinal :: "u64 list"

definition allocator_new :: "role \<Rightarrow> channel_allocator" where
  "allocator_new r = \<lparr>alloc_role = r, next_ordinal = replicate 128 1\<rparr>"

text \<open>The checked addition panics at the end of the ordinal space.\<close>

definition alloc_next :: "u8 \<Rightarrow> channel_allocator \<Rightarrow> channel_allocator \<times> channel_id result" where
  "alloc_next k a =
     (let slot = unat (k AND 0x7f); n = next_ordinal a ! slot
      in if n = - 1 then (a, Inl ''channel ordinal space exhausted'')
         else (a\<lparr>next_ordinal := (next_ordinal a)[slot := n + 1]\<rparr>,
               Inr (channel_new (alloc_role a = Server) k n)))"

section \<open>The envelope\<close>

record envelope =
  ver :: u8
  env_channel :: channel_id

definition envelope_new :: "channel_id \<Rightarrow> envelope" where
  "envelope_new c = \<lparr>ver = VER_1, env_channel = c\<rparr>"

definition envelope_bytes :: "envelope \<Rightarrow> bytes" where
  "envelope_bytes e = ver e # le_bytes 8 (env_channel e)"

definition envelope_parse :: "bytes \<Rightarrow> (envelope \<times> bytes) result" where
  "envelope_parse d =
     (if length d < ENVELOPE_LEN then Inl ''truncated channel envelope''
      else if d ! 0 \<noteq> VER_1 then Inl ''unknown channel envelope version''
      else Inr (\<lparr>ver = d ! 0, env_channel = le_val (subslice 1 9 d)\<rparr>, drop ENVELOPE_LEN d))"

definition seal_on :: "bool \<Rightarrow> channel_id \<Rightarrow> bytes \<Rightarrow> bytes" where
  "seal_on enveloped c m = (if enveloped then envelope_bytes (envelope_new c) @ m else m)"

definition seal_instruction :: "bool \<Rightarrow> bytes \<Rightarrow> bytes" where
  "seal_instruction enveloped m = seal_on enveloped SESSION_CHANNEL m"

definition admitted :: "channel_id \<Rightarrow> bool" where
  "admitted c \<longleftrightarrow> (\<not> server_initiated c \<and> channel_kind c = KIND_SESSION \<and> is_data c) \<or>
     (server_initiated c \<and> channel_kind c = KIND_AGENT \<and> is_data c)"

definition open_any_instruction :: "bool \<Rightarrow> bytes \<Rightarrow> (channel_id \<times> bytes) option" where
  "open_any_instruction enveloped d =
     (if \<not> enveloped then Some (SESSION_CHANNEL, d)
      else case envelope_parse d of
        Inl _ \<Rightarrow> None
      | Inr (e, rest) \<Rightarrow> (if admitted (env_channel e) then Some (env_channel e, rest) else None))"

definition open_instruction :: "bool \<Rightarrow> bytes \<Rightarrow> bytes option" where
  "open_instruction enveloped d = (case open_any_instruction enveloped d of
       Some (c, rest) \<Rightarrow> (if c = SESSION_CHANNEL then Some rest else None)
     | None \<Rightarrow> None)"

section \<open>The agent payload\<close>

definition AGENT_FLAG_OPEN :: u8 where "AGENT_FLAG_OPEN = 0x01"
definition AGENT_FLAG_CLOSE :: u8 where "AGENT_FLAG_CLOSE = 0x02"
definition AGENT_FLAG_FAIL :: u8 where "AGENT_FLAG_FAIL = 0x04"
definition AGENT_FLAGS_KNOWN :: u8 where "AGENT_FLAGS_KNOWN = AGENT_FLAG_OPEN OR AGENT_FLAG_CLOSE OR AGENT_FLAG_FAIL"
definition AGENT_PAYLOAD_HEADER_LEN :: nat where "AGENT_PAYLOAD_HEADER_LEN = 17"
definition AGENT_INSTRUCTION_DATA_MAX :: nat where "AGENT_INSTRUCTION_DATA_MAX = 32 * 1024"

record agent_payload =
  pflags :: u8
  send_base :: u64
  precv_ack :: u64
  pdata :: bytes

definition agent_payload_bytes :: "agent_payload \<Rightarrow> bytes" where
  "agent_payload_bytes p = pflags p # le_bytes 8 (send_base p) @ le_bytes 8 (precv_ack p) @ pdata p"

definition agent_payload_decode :: "bytes \<Rightarrow> agent_payload result" where
  "agent_payload_decode d =
     (if length d < AGENT_PAYLOAD_HEADER_LEN then Inl ''truncated agent-channel payload''
      else Inr \<lparr>pflags = d ! 0, send_base = le_val (subslice 1 9 d), precv_ack = le_val (subslice 9 17 d),
             pdata = drop AGENT_PAYLOAD_HEADER_LEN d\<rparr>)"

definition has_unknown_flags :: "agent_payload \<Rightarrow> bool" where
  "has_unknown_flags p \<longleftrightarrow> pflags p AND NOT AGENT_FLAGS_KNOWN \<noteq> 0"

section \<open>The resume cursor\<close>

record session_resume =
  frame_off :: u64
  input_off :: u64
  echo_off :: u64

definition INITIAL :: session_resume where
  "INITIAL = \<lparr>frame_off = 0, input_off = 0, echo_off = 0\<rparr>"

definition is_initial :: "session_resume \<Rightarrow> bool" where
  "is_initial r \<longleftrightarrow> r = INITIAL"

definition advance_from_frame :: "u64 \<Rightarrow> u64 \<Rightarrow> u64 \<Rightarrow> session_resume \<Rightarrow> session_resume" where
  "advance_from_frame f i e r = \<lparr>frame_off = max (frame_off r) f, input_off = max (input_off r) i,
     echo_off = max (echo_off r) e\<rparr>"

definition RESUME_V1 :: u8 where "RESUME_V1 = 1"
definition RESUME_V1_LEN :: nat where "RESUME_V1_LEN = 1 + 8 * 3"
definition RESUME_LEGACY_LEN :: nat where "RESUME_LEGACY_LEN = 8"

definition encode_open :: "bytes \<Rightarrow> session_resume \<Rightarrow> bytes" where
  "encode_open target r =
     (if is_initial r then target
      else target @ [0, RESUME_V1] @ le_bytes 8 (frame_off r) @ le_bytes 8 (input_off r) @ le_bytes 8 (echo_off r))"

definition decode_open :: "bytes \<Rightarrow> bytes \<times> session_resume" where
  "decode_open p = (case position (\<lambda>b. b = 0) p of
       None \<Rightarrow> (p, INITIAL)
     | Some nul \<Rightarrow>
         (let target = take nul p; tail = drop (nul + 1) p
          in if length tail = RESUME_V1_LEN \<and> tail ! 0 = RESUME_V1
             then (target, \<lparr>frame_off = le_val (subslice 1 9 tail), input_off = le_val (subslice 9 17 tail),
                     echo_off = le_val (subslice 17 25 tail)\<rparr>)
             else if length tail = RESUME_LEGACY_LEN
             then (target, \<lparr>frame_off = le_val tail, input_off = 0, echo_off = 0\<rparr>)
             else (p, INITIAL)))"

end
