(* ===== verification/ChannelFacts.thy ===== *)
theory ChannelFacts
  imports Channel
begin

text \<open>What channels promise: identifiers never collide, the envelope and the payloads read back as written.\<close>

section \<open>Identifiers\<close>

lemma mask7: "(0x7f :: 'a::len word) = mask 7"
  by (simp add: mask_eq_exp_minus_1)

lemma bit_one_word: "bit (1 :: 'a::len word) n \<longleftrightarrow> n = 0"
  by (simp add: bit_1_iff)

lemma bit_channel:
  "bit (channel_new s k o1) n \<longleftrightarrow> n < 64 \<and>
     (if n = 0 then s else if n < 8 then bit k (n - 1) else bit o1 (n - 8))"
  unfolding channel_new_def mask7 bit_or_iff bit_push_bit_iff bit_and_iff
  by (cases s) (auto simp: bit_mask_iff bit_ucast_iff bit_one_word dest: bit_imp_le_length)

lemma channel_server_initiated: "server_initiated (channel_new s k o1) = s"
proof -
  have "channel_new s k o1 AND 1 = (if s then 1 else 0)"
    by (rule bit_eqI) (auto simp: bit_channel bit_and_iff bit_one_word)
  then show ?thesis by (simp add: server_initiated_def)
qed

lemma channel_kind_new: "channel_kind (channel_new s k o1) = k AND 0x7f"
  unfolding channel_kind_def mask7
  by (rule bit_eqI) (auto simp: bit_channel bit_simps)

lemma ordinal_new: "unat o1 < 2 ^ 56 \<Longrightarrow> ordinal (channel_new s k o1) = o1"
proof (rule bit_eqI)
  fix n assume o1: "unat o1 < 2 ^ 56"
  have "\<not> bit o1 n" if "56 \<le> n"
  proof
    assume "bit o1 n"
    then have "bit (unat o1) n" by (simp add: bit_unsigned_iff)
    then have "odd (unat o1 div 2 ^ n)" by (simp add: bit_iff_odd)
    moreover have "unat o1 < 2 ^ n" using o1 that by (meson less_le_trans one_le_numeral power_increasing)
    ultimately show False by simp
  qed
  then show "bit (ordinal (channel_new s k o1)) n = bit o1 n"
    by (cases "n < 56") (auto simp: ordinal_def bit_drop_bit_eq bit_channel)
qed

text \<open>
  The fields of an identifier read back: who initiated it, its kind reduced to seven bits, and its
  ordinal, for every ordinal below \<open>2 ^ 56\<close>.
\<close>

lemma channel_fields:
  assumes "unat o1 < 2 ^ 56"
  shows "server_initiated (channel_new s k o1) = s \<and> channel_kind (channel_new s k o1) = k AND 0x7f \<and>
    ordinal (channel_new s k o1) = o1"
  using assms channel_server_initiated channel_kind_new ordinal_new by blast

text \<open>Both peers allocating, in any order: the pool of the two allocators and the identifiers handed out.\<close>

fun alloc_run :: "(role \<times> u8) list \<Rightarrow> (role \<Rightarrow> channel_allocator) \<Rightarrow> channel_id result list" where
  "alloc_run [] p = []"
| "alloc_run ((r, k) # rs) p = (case alloc_next k (p r) of (a, i) \<Rightarrow> i # alloc_run rs (p(r := a)))"

definition pool_ok :: "nat \<Rightarrow> (role \<Rightarrow> channel_allocator) \<Rightarrow> bool" where
  "pool_ok b p \<longleftrightarrow> (\<forall>r. alloc_role (p r) = r \<and> length (next_ordinal (p r)) = 128 \<and>
     (\<forall>n \<in> set (next_ordinal (p r)). 1 \<le> unat n \<and> unat n \<le> b))"

definition role_of :: "channel_id \<Rightarrow> role" where
  "role_of c = (if server_initiated c then Server else Client)"

text \<open>An identifier the pool has not handed out yet.\<close>

definition unissued :: "(role \<Rightarrow> channel_allocator) \<Rightarrow> channel_id \<Rightarrow> bool" where
  "unissued p c \<longleftrightarrow> unat (channel_kind c) < 128 \<and> next_ordinal (p (role_of c)) ! unat (channel_kind c) \<le> ordinal c"

lemma kind_slot: "unat (k AND 0x7f :: u8) < 128"
proof -
  have "k AND 0x7f \<le> (0x7f :: u8)" by (rule word_and_le1)
  then have "unat (k AND 0x7f) \<le> unat (0x7f :: u8)" by (simp only: word_le_nat_alt)
  then show ?thesis by simp
qed

lemma alloc_step:
  assumes "pool_ok b p" "b < 2 ^ 56"
  obtains c a where "alloc_next k (p r) = (a, Inr c)" "pool_ok (b + 1) (p(r := a))" "unissued p c" "is_data c"
    "\<not> unissued (p(r := a)) c" "\<And>d. unissued (p(r := a)) d \<Longrightarrow> unissued p d"
proof -
  define slot where "slot = unat (k AND 0x7f)"
  define n where "n = next_ordinal (p r) ! slot"
  have sl: "slot < 128" unfolding slot_def by (rule kind_slot)
  have len: "length (next_ordinal (p r)) = 128" and ro: "alloc_role (p r) = r"
    using assms(1) by (auto simp: pool_ok_def)
  then have "n \<in> set (next_ordinal (p r))" using sl by (simp add: n_def)
  then have n: "1 \<le> unat n" "unat n \<le> b" using assms(1) by (auto simp: pool_ok_def)
  then have small: "unat n < 2 ^ 56" using assms(2) by linarith
  then have nm: "n \<noteq> - 1" by (auto simp: unsigned_minus_1_eq_mask mask_eq_exp_minus_1)
  have n1: "unat (n + 1) = unat n + 1" using small unat_add_of_nat [of n 1] by simp
  define c where "c = channel_new (r = Server) k n"
  define a where "a = (p r)\<lparr>next_ordinal := (next_ordinal (p r))[slot := n + 1]\<rparr>"
  have f: "server_initiated c = (r = Server)" "channel_kind c = k AND 0x7f" "ordinal c = n"
    using channel_fields [OF small] by (simp_all add: c_def)
  have role: "role_of c = r" using f(1) by (cases r) (simp_all add: role_of_def)
  have "alloc_next k (p r) = (a, Inr c)"
    using nm ro by (simp add: alloc_next_def Let_def slot_def [symmetric] n_def [symmetric] a_def c_def)
  moreover have "pool_ok (b + 1) (p(r := a))"
    using assms(1) n n1 by (auto simp: pool_ok_def a_def intro: le_SucI dest!: subsetD [OF set_update_subset_insert])
  moreover have "unissued p c" using sl by (simp add: unissued_def role f slot_def [symmetric] n_def)
  moreover have "is_data c" using n(1) by (auto simp: is_data_def f)
  moreover have "\<not> unissued (p(r := a)) c"
    using len sl n1 by (simp add: unissued_def role f slot_def [symmetric] a_def word_le_nat_alt)
  moreover have "unissued p d" if "unissued (p(r := a)) d" for d
    using that n1 len sl n_def
    by (auto simp: unissued_def a_def nth_list_update word_le_nat_alt split: if_splits)
  ultimately show ?thesis using that by blast
qed

lemma alloc_run_fresh:
  "pool_ok b p \<Longrightarrow> b + length rs < 2 ^ 56 \<Longrightarrow>
     \<exists>cs. alloc_run rs p = map Inr cs \<and> distinct cs \<and> (\<forall>c \<in> set cs. unissued p c \<and> is_data c)"
proof (induction rs arbitrary: b p)
  case (Cons x rs)
  obtain r k where x: "x = (r, k)" by force
  have "b < 2 ^ 56" using Cons.prems(2) by simp
  from alloc_step [OF Cons.prems(1) this, of k r] obtain c a where
    c: "alloc_next k (p r) = (a, Inr c)" "pool_ok (b + 1) (p(r := a))" "unissued p c" "is_data c"
      "\<not> unissued (p(r := a)) c" "\<And>d. unissued (p(r := a)) d \<Longrightarrow> unissued p d" by blast
  have "b + 1 + length rs < 2 ^ 56" using Cons.prems(2) by simp
  from Cons.IH [OF c(2) this] obtain cs where
    cs: "alloc_run rs (p(r := a)) = map Inr cs" "distinct cs" "\<forall>c \<in> set cs. unissued (p(r := a)) c \<and> is_data c"
    by blast
  have "alloc_run (x # rs) p = map Inr (c # cs)" by (simp add: x c(1) cs(1))
  moreover have "distinct (c # cs)" using cs(2,3) c(5) by auto
  moreover have "\<forall>d \<in> set (c # cs). unissued p d \<and> is_data d" using cs(3) c(3,4,6) by auto
  ultimately show ?case by blast
qed simp

text \<open>
  C19. However the two peers open channels, of whatever kinds and in whatever order, no allocation fails,
  no identifier is handed out twice, none belongs to both peers, and none is the control channel, for
  fewer than \<open>2 ^ 56\<close> channels.
\<close>

theorem channels_distinct:
  assumes "length rs + 1 < 2 ^ 56"
  shows "\<exists>cs. alloc_run rs allocator_new = map Inr cs \<and> distinct cs \<and> (\<forall>c \<in> set cs. is_data c)"
proof -
  have "pool_ok 1 allocator_new" by (simp add: pool_ok_def allocator_new_def)
  from alloc_run_fresh [OF this, of rs] assms show ?thesis by auto
qed

theorem channels_distinct_witness:
  "\<exists>cs. alloc_run [(Client, 0), (Server, 1), (Client, 0), (Client, 128)] allocator_new = map Inr cs \<and>
    distinct cs \<and> (\<forall>c \<in> set cs. is_data c)"
  by (rule channels_distinct) simp

section \<open>The envelope\<close>

lemma session_channel_fields:
  "\<not> server_initiated SESSION_CHANNEL" "channel_kind SESSION_CHANNEL = KIND_SESSION" "is_data SESSION_CHANNEL"
proof -
  have "unat (1 :: u64) < 2 ^ 56" by simp
  from channel_fields [OF this, of False KIND_SESSION] show "\<not> server_initiated SESSION_CHANNEL"
    "channel_kind SESSION_CHANNEL = KIND_SESSION" "is_data SESSION_CHANNEL"
    by (simp_all add: SESSION_CHANNEL_def is_data_def KIND_SESSION_def)
qed

lemma open_seal_enveloped:
  "open_any_instruction True (seal_on True c m) = (if admitted c then Some (c, m) else None)"
  by (simp add: open_any_instruction_def seal_on_def envelope_parse_def envelope_bytes_def envelope_new_def
      ENVELOPE_LEN_def subslice_def)

text \<open>
  The two gates agree in both modes: the session gate reads back exactly the session instruction
  sealed; behind the envelope an instruction is delivered, on the channel it was sealed on, exactly when
  the receiver's rules admit that channel.
\<close>

lemma gates_agree:
  "open_instruction e (seal_instruction e m) = Some m \<and>
   open_any_instruction True (seal_on True c m) = (if admitted c then Some (c, m) else None)"
proof -
  have "admitted SESSION_CHANNEL" using session_channel_fields by (simp add: admitted_def)
  then have "open_instruction e (seal_instruction e m) = Some m"
    by (cases e) (simp_all add: open_instruction_def seal_instruction_def open_seal_enveloped,
      simp add: open_any_instruction_def seal_on_def)
  with open_seal_enveloped show ?thesis by simp
qed

lemma agent_payload_roundtrip: "agent_payload_decode (agent_payload_bytes p) = Inr p"
  by (simp add: agent_payload_decode_def agent_payload_bytes_def AGENT_PAYLOAD_HEADER_LEN_def subslice_def)

section \<open>The resume cursor\<close>

text \<open>
  C32. The body of a session open reads back, cursor included, for every target without NUL; an older
  peer's eight-byte tail gives its frame offset; and the cursor never moves backwards.
\<close>

lemma open_roundtrip:
  assumes "0 \<notin> set target"
  shows "decode_open (encode_open target r) = (target, r) \<and>
    decode_open (target @ [0] @ le_bytes 8 f) = (target, \<lparr>frame_off = f, input_off = 0, echo_off = 0\<rparr>) \<and>
    frame_off r \<le> frame_off (advance_from_frame f i e r) \<and> input_off r \<le> input_off (advance_from_frame f i e r) \<and>
    echo_off r \<le> echo_off (advance_from_frame f i e r)"
proof -
  have none: "position (\<lambda>b. b = 0) target = None" using assms by auto
  have some: "position (\<lambda>b. b = 0) (target @ 0 # t) = Some (length target)" for t
    using assms by (intro position_append_fresh) auto
  have "decode_open (encode_open target r) = (target, r)"
  proof (cases "is_initial r")
    case True
    with none show ?thesis
      by (simp add: decode_open_def encode_open_def is_initial_def del: position_None_iff)
  next
    case False
    then show ?thesis
      by (simp add: decode_open_def encode_open_def some RESUME_V1_LEN_def Let_def subslice_def)
  qed
  moreover have "decode_open (target @ [0] @ le_bytes 8 f) = (target, \<lparr>frame_off = f, input_off = 0, echo_off = 0\<rparr>)"
    by (simp add: decode_open_def some RESUME_V1_LEN_def RESUME_LEGACY_LEN_def Let_def)
  ultimately show ?thesis by (simp add: advance_from_frame_def)
qed

lemma open_roundtrip_witness:
  "decode_open (encode_open [0x61] \<lparr>frame_off = 3, input_off = 4, echo_off = 5\<rparr>) =
     ([0x61], \<lparr>frame_off = 3, input_off = 4, echo_off = 5\<rparr>) \<and>
    decode_open ([0x61] @ [0] @ le_bytes 8 (9 :: u64)) = ([0x61], \<lparr>frame_off = 9, input_off = 0, echo_off = 0\<rparr>) \<and>
    frame_off \<lparr>frame_off = 3, input_off = 4, echo_off = 5\<rparr> \<le>
      frame_off (advance_from_frame 9 0 0 \<lparr>frame_off = 3, input_off = 4, echo_off = 5\<rparr>) \<and>
    input_off \<lparr>frame_off = 3, input_off = 4, echo_off = 5\<rparr> \<le>
      input_off (advance_from_frame 9 0 0 \<lparr>frame_off = 3, input_off = 4, echo_off = 5\<rparr>) \<and>
    echo_off \<lparr>frame_off = 3, input_off = 4, echo_off = 5\<rparr> \<le>
      echo_off (advance_from_frame 9 0 0 \<lparr>frame_off = 3, input_off = 4, echo_off = 5\<rparr>)"
  by (rule open_roundtrip) simp

end
