(* ===== verification/Scrollback.thy ===== *)
theory Scrollback
  imports Prelude
begin

text \<open>
  The client's local history, \<open>crates/posh/src/remote/sync.rs\<close>: \<open>ScrollbackRing\<close> with its
  not-received holes and the binary search of \<open>view_row\<close>, and \<open>HeldRows\<close>, the reorder buffer.
  The \<open>VecDeque\<close>s are lists, oldest first; the \<open>BTreeMap\<close> is its list of entries in key
  order; the 64-bit counters of rows ever appended are nats.
\<close>

section \<open>The ring\<close>

record ring =
  ring_rows :: "bytes list"
  capacity :: nat
  appended :: nat
  holes :: "(nat \<times> nat) list"
  holes_added :: nat
  lines_not_received :: nat

datatype view_entry = Row bytes | NotReceived nat

definition ring_new :: "nat \<Rightarrow> ring" where
  "ring_new cap = \<lparr>ring_rows = [], capacity = max cap 1, appended = 0, holes = [], holes_added = 0,
     lines_not_received = 0\<rparr>"

definition first_number :: "ring \<Rightarrow> nat" where
  "first_number r = appended r - length (ring_rows r)"

definition push_row :: "bytes \<Rightarrow> ring \<Rightarrow> ring" where
  "push_row row r =
     (let kept = (if length (ring_rows r) \<ge> capacity r then tl (ring_rows r) else ring_rows r)
      in r\<lparr>ring_rows := kept @ [row], appended := appended r + 1\<rparr>)"

definition append_owned :: "bytes list \<Rightarrow> ring \<Rightarrow> ring" where
  "append_owned rows r =
     (let r = fold push_row rows r
      in r\<lparr>holes := dropWhile (\<lambda>h. fst h < first_number r) (holes r)\<rparr>)"

definition mark_not_received :: "nat \<Rightarrow> ring \<Rightarrow> ring" where
  "mark_not_received n r =
     (if n = 0 then r
      else (let r = r\<lparr>lines_not_received := lines_not_received r + n\<rparr>
            in if holes r \<noteq> [] \<and> fst (last (holes r)) = appended r
               then r\<lparr>holes := butlast (holes r) @ [(fst (last (holes r)), snd (last (holes r)) + n)]\<rparr>
               else r\<lparr>holes := holes r @ [(appended r, n)], holes_added := holes_added r + 1\<rparr>))"

definition ring_clear :: "ring \<Rightarrow> ring" where
  "ring_clear r = r\<lparr>ring_rows := [], holes := []\<rparr>"

definition ring_row :: "ring \<Rightarrow> nat \<Rightarrow> bytes option" where
  "ring_row r i = get_at (ring_rows r) i"

definition view_total :: "ring \<Rightarrow> nat" where
  "view_total r = appended r + holes_added r"

definition view_revision :: "ring \<Rightarrow> nat" where
  "view_revision r = view_total r + lines_not_received r"

definition view_len :: "ring \<Rightarrow> nat" where
  "view_len r = length (ring_rows r) + length (holes r)"

text \<open>Where hole \<open>k\<close> sits in the view, and the binary search for the holes ahead of view index \<open>i\<close>.\<close>

definition view_index :: "ring \<Rightarrow> nat \<Rightarrow> nat" where
  "view_index r k = fst (holes r ! k) - first_number r + k"

function hole_search :: "ring \<Rightarrow> nat \<Rightarrow> nat \<Rightarrow> nat \<Rightarrow> nat" where
  "hole_search r i lo hi =
     (if lo < hi
      then (let mid = lo + (hi - lo) div 2
            in if view_index r mid < i then hole_search r i (mid + 1) hi else hole_search r i lo mid)
      else lo)"
  by pat_completeness auto
termination
  by (relation "measure (\<lambda>(_, _, lo, hi). hi - lo)") auto

declare hole_search.simps [simp del]

definition view_row :: "ring \<Rightarrow> nat \<Rightarrow> view_entry option" where
  "view_row r i =
     (let lo = hole_search r i 0 (length (holes r))
      in if lo < length (holes r) \<and> view_index r lo = i then Some (NotReceived (snd (holes r ! lo)))
         else map_option Row (ring_row r (i - lo)))"

section \<open>The reorder buffer\<close>

definition SB2_ROWS_PER_BODY :: nat where "SB2_ROWS_PER_BODY = 256"
definition SB2_HELD_MAX_ROWS :: nat where "SB2_HELD_MAX_ROWS = 4 * SB2_ROWS_PER_BODY"

record held_rows =
  bodies :: "(nat \<times> bytes list) list"
  held_count :: nat

definition held_empty :: held_rows where
  "held_empty = \<lparr>bodies = [], held_count = 0\<rparr>"

text \<open>\<open>BTreeMap::insert\<close> on the entries in key order.\<close>

fun insert_body :: "nat \<Rightarrow> bytes list \<Rightarrow> (nat \<times> bytes list) list \<Rightarrow> (nat \<times> bytes list) list" where
  "insert_body k v [] = [(k, v)]"
| "insert_body k v ((k', v') # es) =
     (if k < k' then (k, v) # (k', v') # es
      else if k = k' then (k, v) # es
      else (k', v') # insert_body k v es)"

definition hold :: "nat \<Rightarrow> bytes list \<Rightarrow> held_rows \<Rightarrow> held_rows \<times> bool" where
  "hold off rows h =
     (let existing = (case map_of (bodies h) off of Some v \<Rightarrow> length v | None \<Rightarrow> 0)
      in if length rows \<le> existing then (h, True)
         else (let total = held_count h - existing + length rows
               in if total > SB2_HELD_MAX_ROWS then (h, False)
                  else (h\<lparr>bodies := insert_body off rows (bodies h), held_count := total\<rparr>, True)))"

definition first_offset :: "held_rows \<Rightarrow> nat option" where
  "first_offset h = (case bodies h of [] \<Rightarrow> None | e # _ \<Rightarrow> Some (fst e))"

definition take_reachable :: "nat \<Rightarrow> held_rows \<Rightarrow> held_rows \<times> (nat \<times> bytes list) option" where
  "take_reachable t h = (case bodies h of
       [] \<Rightarrow> (h, None)
     | (off, rows) # es \<Rightarrow>
         (if off \<le> t then (h\<lparr>bodies := es, held_count := held_count h - length rows\<rparr>, Some (off, rows))
          else (h, None)))"

definition held_clear :: "held_rows \<Rightarrow> held_rows" where
  "held_clear h = h\<lparr>bodies := [], held_count := 0\<rparr>"

end
