(* ===== verification/ScrollbackFacts.thy ===== *)
theory ScrollbackFacts
  imports Scrollback
begin

text \<open>
  The ring refines a plain list of view rows: what the accessors show is that list, and the operations
  act on it as specified. The held rows keep their order, count and bound.
\<close>

section \<open>The view as a list\<close>

text \<open>Ring rows numbered from \<open>n\<close> with the holes in their places.\<close>

fun view_from :: "nat \<Rightarrow> bytes list \<Rightarrow> (nat \<times> nat) list \<Rightarrow> view_entry list" where
  "view_from n rs [] = map Row rs"
| "view_from n [] (h # hs) = map (\<lambda>h. NotReceived (snd h)) (h # hs)"
| "view_from n (r # rs) (h # hs) =
     (if fst h \<le> n then NotReceived (snd h) # view_from n (r # rs) hs
      else Row r # view_from (n + 1) rs (h # hs))"

definition view :: "ring \<Rightarrow> view_entry list" where
  "view r = view_from (first_number r) (ring_rows r) (holes r)"

definition ring_ok :: "ring \<Rightarrow> bool" where
  "ring_ok r \<longleftrightarrow> 1 \<le> capacity r \<and> length (ring_rows r) \<le> capacity r \<and> length (ring_rows r) \<le> appended r \<and>
     sorted_wrt (\<lambda>g h. fst g < fst h) (holes r) \<and>
     (\<forall>h \<in> set (holes r). first_number r \<le> fst h \<and> fst h \<le> appended r)"

lemma length_view_from: "length (view_from n rs hs) = length rs + length hs"
  by (induction n rs hs rule: view_from.induct) auto

lemma view_from_past: "\<forall>h \<in> set hs. n + length rs \<le> fst h \<Longrightarrow>
    view_from n rs hs = map Row rs @ map (\<lambda>h. NotReceived (snd h)) hs"
  by (induction n rs hs rule: view_from.induct) auto

text \<open>Hole \<open>k\<close> is found at its view index; between the holes are the rows.\<close>

lemma view_from_hole:
  "sorted_wrt (\<lambda>g h. fst g < fst h) hs \<Longrightarrow> \<forall>h \<in> set hs. n \<le> fst h \<and> fst h \<le> n + length rs \<Longrightarrow>
     k < length hs \<Longrightarrow> view_from n rs hs ! (fst (hs ! k) - n + k) = NotReceived (snd (hs ! k))"
proof (induction n rs hs arbitrary: k rule: view_from.induct)
  case (2 n h hs)
  then have "fst ((h # hs) ! k) - n = 0" using nth_mem [OF 2(3)] by auto
  moreover have "view_from n [] (h # hs) ! k = NotReceived (snd ((h # hs) ! k))"
    unfolding view_from.simps using 2(3) by (rule nth_map)
  ultimately show ?case by simp
next
  case (3 n r rs h hs)
  show ?case
  proof (cases "fst h \<le> n")
    case True
    then have n: "fst h = n" using 3(4) by auto
    show ?thesis
    proof (cases k)
      case 0
      with True n show ?thesis by simp
    next
      case (Suc j)
      then have "n < fst (hs ! j)" using 3(3,5) n by auto
      with 3(1) [OF True, of j] 3(3-5) Suc True show ?thesis by auto
    qed
  next
    case False
    have "h' \<in> set (h # hs) \<Longrightarrow> n + 1 \<le> fst h'" for h' using False 3(3) by auto
    then have "n + 1 \<le> fst ((h # hs) ! k)" using 3(5) nth_mem by blast
    moreover have "\<forall>h \<in> set (h # hs). n + 1 \<le> fst h \<and> fst h \<le> n + 1 + length rs"
      using 3(4) \<open>\<And>h'. h' \<in> set (h # hs) \<Longrightarrow> n + 1 \<le> fst h'\<close> by auto
    ultimately show ?thesis using 3(2) [OF False 3(3) _ 3(5)] False
      by (simp add: Suc_diff_le del: nth_Cons)
  qed
qed simp

lemma view_from_row:
  assumes "sorted_wrt (\<lambda>g h. fst g < fst h) hs" "\<forall>h \<in> set hs. n \<le> fst h \<and> fst h \<le> n + length rs"
    and "j < length rs" "lo \<le> length hs" "\<forall>k < lo. fst (hs ! k) \<le> n + j" "\<forall>k. lo \<le> k \<and> k < length hs \<longrightarrow> n + j < fst (hs ! k)"
  shows "view_from n rs hs ! (j + lo) = Row (rs ! j)"
  using assms
proof (induction n rs hs arbitrary: j lo rule: view_from.induct)
  case (3 n r rs h hs)
  show ?case
  proof (cases "fst h \<le> n")
    case True
    then have "lo \<noteq> 0" using 3(8) by (auto dest: spec [of _ 0])
    then obtain l where l: "lo = Suc l" by (cases lo) auto
    have "view_from n (r # rs) hs ! (j + l) = Row ((r # rs) ! j)"
    proof (rule 3(1) [OF True])
      show "\<forall>k < l. fst (hs ! k) \<le> n + j" using 3(7) l by (auto dest: spec [of _ "Suc k" for k])
      show "\<forall>k. l \<le> k \<and> k < length hs \<longrightarrow> n + j < fst (hs ! k)"
        using 3(8) l by (metis Suc_le_mono length_Cons nth_Cons_Suc Suc_less_eq)
    qed (use 3(3-6) l in auto)
    with True l show ?thesis by simp
  next
    case False
    show ?thesis
    proof (cases j)
      case 0
      then have "lo = 0" using 3(7) False by (cases lo) auto
      with 0 False show ?thesis by simp
    next
      case (Suc i)
      have "view_from (n + 1) rs (h # hs) ! (i + lo) = Row (rs ! i)"
      proof (rule 3(2) [OF False])
        show "\<forall>g \<in> set (h # hs). n + 1 \<le> fst g \<and> fst g \<le> n + 1 + length rs"
          using 3(3,4) False by force
      qed (use 3(3,5-8) Suc in auto)
      with False Suc show ?thesis by simp
    qed
  qed
qed auto

lemma hole_search_spec:
  "\<forall>j k. j < k \<and> k < m \<longrightarrow> view_index r j < view_index r k \<Longrightarrow> lo \<le> hi \<Longrightarrow> hi \<le> m \<Longrightarrow>
     \<forall>k < lo. view_index r k < i \<Longrightarrow> \<forall>k. hi \<le> k \<and> k < m \<longrightarrow> i \<le> view_index r k \<Longrightarrow>
     hole_search r i lo hi \<le> m \<and> (\<forall>k < hole_search r i lo hi. view_index r k < i) \<and>
     (\<forall>k. hole_search r i lo hi \<le> k \<and> k < m \<longrightarrow> i \<le> view_index r k)"
proof (induction r i lo hi rule: hole_search.induct)
  case (1 r i lo hi)
  let ?mid = "lo + (hi - lo) div 2"
  show ?case
  proof (cases "lo < hi")
    case False
    then have "hole_search r i lo hi = lo" by (simp add: hole_search.simps [of r i lo hi])
    moreover have "lo = hi" using False 1(4) by simp
    ultimately show ?thesis using 1(5-) by simp
  next
    case True
    then have mid: "lo \<le> ?mid" "?mid < hi" by auto
    show ?thesis
    proof (cases "view_index r ?mid < i")
      case True
      have "\<forall>k < ?mid + 1. view_index r k < i"
      proof (intro allI impI)
        fix k assume "k < ?mid + 1"
        then have "k = ?mid \<or> k < ?mid \<and> ?mid < m" using mid 1(5) by linarith
        with True 1(3) show "view_index r k < i" by (metis less_trans)
      qed
      moreover have "hole_search r i lo hi = hole_search r i (?mid + 1) hi"
        using True \<open>lo < hi\<close> by (subst hole_search.simps) (simp add: Let_def)
      ultimately show ?thesis using 1(1) [OF \<open>lo < hi\<close> refl True 1(3)] 1(5,7) mid by simp
    next
      case False
      have above: "\<forall>k. ?mid \<le> k \<and> k < m \<longrightarrow> i \<le> view_index r k"
      proof (intro allI impI)
        fix k assume "?mid \<le> k \<and> k < m"
        then have "k = ?mid \<or> ?mid < k \<and> k < m" by linarith
        with False 1(3) show "i \<le> view_index r k" by (metis less_imp_le not_le order.trans)
      qed
      have "hole_search r i lo hi = hole_search r i lo ?mid"
        using False \<open>lo < hi\<close> by (subst hole_search.simps) (simp add: Let_def)
      moreover have "?mid \<le> m" using mid 1(5) by linarith
      ultimately show ?thesis using 1(2) [OF \<open>lo < hi\<close> refl False 1(3) mid(1) _ 1(6) above] by simp
    qed
  qed
qed

lemma view_row_view:
  assumes "ring_ok r"
  shows "view_row r i = get_at (view r) i"
proof -
  let ?hs = "holes r" and ?n = "first_number r" and ?rs = "ring_rows r"
  define p where "p = hole_search r i 0 (length ?hs)"
  have st: "sorted_wrt (\<lambda>g h. fst g < fst h) ?hs" and last: "appended r = ?n + length ?rs"
    using assms by (auto simp: ring_ok_def first_number_def)
  then have rng: "\<forall>h \<in> set ?hs. ?n \<le> fst h \<and> fst h \<le> ?n + length ?rs" using assms by (simp add: ring_ok_def)
  have lt: "fst (?hs ! j) < fst (?hs ! k)" if "j < k" "k < length ?hs" for j k
    using sorted_wrt_nth_less [OF st that] .
  have ge: "?n \<le> fst (?hs ! k)" if "k < length ?hs" for k using rng that by simp
  have inc: "\<forall>j k. j < k \<and> k < length ?hs \<longrightarrow> view_index r j < view_index r k"
  proof (intro allI impI)
    fix j k assume "j < k \<and> k < length ?hs"
    with lt [of j k] ge [of j] show "view_index r j < view_index r k" unfolding view_index_def by linarith
  qed
  have p: "p \<le> length ?hs" "\<forall>k < p. view_index r k < i" "\<forall>k. p \<le> k \<and> k < length ?hs \<longrightarrow> i \<le> view_index r k"
    using hole_search_spec [OF inc, of 0 "length ?hs" i] by (auto simp: p_def)
  have len: "length (view r) = length ?rs + length ?hs" by (simp add: view_def length_view_from)
  show ?thesis
  proof (cases "p < length ?hs \<and> view_index r p = i")
    case True
    then have "view r ! i = NotReceived (snd (?hs ! p))"
      using view_from_hole [OF st rng, of p] by (simp add: view_def view_index_def)
    moreover have "i < length (view r)"
      using True rng by (auto simp: len view_index_def dest!: bspec [of _ _ "?hs ! p"])
    ultimately show ?thesis using True by (simp add: view_row_def p_def [symmetric] get_at_def Let_def)
  next
    case False
    have "p \<le> i"
    proof (cases p)
      case (Suc q)
      then have "view_index r q < i" using p(2) by simp
      then show ?thesis using Suc by (simp add: view_index_def)
    qed simp
    have before: "fst (?hs ! k) \<le> ?n + (i - p)" if k: "k < p" for k
    proof -
      obtain q where q: "p = Suc q" using k by (cases p) auto
      have "fst (?hs ! q) - ?n + q < i" using p(2) q by (simp add: view_index_def)
      then have "fst (?hs ! q) \<le> ?n + (i - p)" using q by linarith
      moreover have "fst (?hs ! k) \<le> fst (?hs ! q)"
        using lt [of k q] k q p(1) by (cases "k = q") auto
      ultimately show ?thesis by linarith
    qed
    have after: "?n + (i - p) < fst (?hs ! k)" if "p \<le> k" "k < length ?hs" for k
    proof -
      have pl: "p < length ?hs" using that by simp
      then have "i \<le> view_index r p" using p(3) by simp
      then have "i < view_index r p" using False pl by linarith
      then have "?n + (i - p) < fst (?hs ! p)" using ge [OF pl] \<open>p \<le> i\<close> by (simp add: view_index_def)
      moreover have "fst (?hs ! p) \<le> fst (?hs ! k)" using lt [of p k] that by (cases "p = k") auto
      ultimately show ?thesis by linarith
    qed
    have row: "view_row r i = map_option Row (get_at ?rs (i - p))"
      unfolding view_row_def p_def [symmetric] Let_def ring_row_def using False by (simp only: if_False)
    show ?thesis
    proof (cases "i - p < length ?rs")
      case True
      have "view r ! (i - p + p) = Row (?rs ! (i - p))"
        unfolding view_def using before after by (intro view_from_row [OF st rng True p(1)]) auto
      moreover have "i < length (view r)" using True p(1) \<open>p \<le> i\<close> by (simp add: len)
      ultimately show ?thesis using True \<open>p \<le> i\<close> by (simp add: row get_at_def)
    next
      case out: False
      have "p = length ?hs"
      proof (rule ccontr)
        assume "p \<noteq> length ?hs"
        then have "p < length ?hs" using p(1) by simp
        with after [of p] rng out show False by (auto dest!: bspec [of _ _ "?hs ! p"])
      qed
      with out \<open>p \<le> i\<close> have "\<not> i < length (view r)" by (simp add: len)
      with out show ?thesis by (simp add: row get_at_def)
    qed
  qed
qed

section \<open>The operations on the view\<close>

text \<open>The specification: entries oldest first, trimmed from the front to the capacity's number of rows.\<close>

fun is_row :: "view_entry \<Rightarrow> bool" where
  "is_row (Row _) = True"
| "is_row (NotReceived _) = False"

definition rows_in :: "view_entry list \<Rightarrow> nat" where
  "rows_in es = length (filter is_row es)"

fun trim :: "nat \<Rightarrow> view_entry list \<Rightarrow> view_entry list" where
  "trim cap [] = []"
| "trim cap (e # es) = (if rows_in (e # es) \<le> cap then e # es else trim cap es)"

fun mark_view :: "nat \<Rightarrow> view_entry list \<Rightarrow> view_entry list" where
  "mark_view n es = (if n = 0 then es else case rev es of
       NotReceived l # _ \<Rightarrow> butlast es @ [NotReceived (l + n)]
     | _ \<Rightarrow> es @ [NotReceived n])"

declare mark_view.simps [simp del]

lemma rows_in_simps [simp]:
  "rows_in [] = 0" "rows_in (Row b # es) = Suc (rows_in es)" "rows_in (NotReceived l # es) = rows_in es"
  by (simp_all add: rows_in_def)

lemma rows_in_view_from [simp]: "rows_in (view_from n rs hs) = length rs"
proof -
  have "rows_in (map Row rs) = length rs" for rs by (induction rs) simp_all
  moreover have "rows_in (map (\<lambda>h. NotReceived (snd h)) hs) = 0" for hs :: "(nat \<times> nat) list" by (induction hs) simp_all
  ultimately show ?thesis by (induction n rs hs rule: view_from.induct) (simp_all del: list.map)
qed

lemma trim_rows: "trim cap (map Row rs) = map Row (drop (length rs - cap) rs)"
proof -
  have r: "rows_in (map Row rs) = length rs" for rs using rows_in_view_from [of 0 rs "[]"] by simp
  show ?thesis by (induction rs) (auto simp: r Suc_diff_le not_less_eq_eq)
qed

lemma trim_view_from:
  "sorted_wrt (\<lambda>g h. fst g < fst h) hs \<Longrightarrow> \<forall>h \<in> set hs. n \<le> fst h \<Longrightarrow>
     trim cap (view_from n rs hs) = view_from (n + (length rs - cap)) (drop (length rs - cap) rs)
       (dropWhile (\<lambda>h. fst h < n + (length rs - cap)) hs)"
proof (induction n rs hs rule: view_from.induct)
  case (1 n rs)
  then show ?case by (simp add: trim_rows)
next
  case (2 n h hs)
  have "trim cap (view_from n [] (h # hs)) = view_from n [] (h # hs)"
    using rows_in_view_from [of n "[]" "h # hs"] by simp
  moreover have "dropWhile (\<lambda>g. fst g < n) (h # hs) = h # hs" using 2(2) by simp
  ultimately show ?case by simp
next
  case (3 n r rs h hs)
  show ?case
  proof (cases "length (r # rs) \<le> cap")
    case True
    then have k: "length (r # rs) - cap = 0" by simp
    have "trim cap (view_from n (r # rs) (h # hs)) = view_from n (r # rs) (h # hs)"
      using True rows_in_view_from [of n "r # rs" "h # hs"]
      by (cases "view_from n (r # rs) (h # hs)") (simp_all del: view_from.simps rows_in_view_from)
    moreover have "dropWhile (\<lambda>g. fst g < n) (h # hs) = h # hs" using 3(4) by simp
    ultimately show ?thesis unfolding k by simp
  next
    case False
    then have k: "length (r # rs) - cap = Suc (length rs - cap)" by auto
    show ?thesis
    proof (cases "fst h \<le> n")
      case True
      then have "fst h < n + (length (r # rs) - cap)" unfolding k by simp
      with 3(1) [OF True] 3(3,4) False True show ?thesis by simp
    next
      case f: False
      have "\<forall>g \<in> set (h # hs). n + 1 \<le> fst g" using 3(3,4) f by force
      from 3(2) [OF f 3(3) this] f False show ?thesis unfolding k by simp
    qed
  qed
qed

lemma view_from_append:
  "\<forall>h \<in> set hs. fst h \<le> n + length rs \<Longrightarrow> view_from n (rs @ new) hs = view_from n rs hs @ map Row new"
proof (induction n rs hs rule: view_from.induct)
  case (2 n h hs)
  have "view_from n new gs = map (\<lambda>h. NotReceived (snd h)) gs @ map Row new"
    if "\<forall>g \<in> set gs. fst g \<le> n" for gs :: "(nat \<times> nat) list"
    using that by (induction gs; cases new) auto
  from this [of "h # hs"] 2 show ?case by simp
qed auto

lemma view_from_mark:
  assumes "\<forall>h \<in> set hs. fst h \<le> n + length rs"
  shows "view_from n rs (hs @ [(n + length rs, l)]) = view_from n rs hs @ [NotReceived l]"
  using assms
proof (induction n rs hs rule: view_from.induct)
  case (1 n rs)
  show ?case using view_from_past [of "[(n + length rs, l)]" n rs] by simp
qed auto

lemma drop_twice:
  assumes "0 < c"
  shows "drop (length (drop (length xs - c) xs) + length ys - c) (drop (length xs - c) xs @ ys)
    = drop (length xs + length ys - c) (xs @ ys)"
proof -
  have "drop (length xs - c) xs @ ys = drop (length xs - c) (xs @ ys)" by simp
  moreover have "length (drop (length xs - c) xs) + length ys - c + (length xs - c) = length xs + length ys - c"
    using assms by (simp del: drop_append)
  ultimately show ?thesis by (simp only: drop_drop)
qed

lemma fold_push_row:
  assumes "1 \<le> capacity r" "length (ring_rows r) \<le> capacity r"
  shows "fold push_row rows r = r\<lparr>ring_rows := drop (length (ring_rows r) + length rows - capacity r) (ring_rows r @ rows),
    appended := appended r + length rows\<rparr>"
  using assms
proof (induction rows arbitrary: r)
  case (Cons row rows)
  let ?c = "capacity r" and ?k = "ring_rows r"
  have p: "push_row row r = r\<lparr>ring_rows := drop (length ?k + 1 - ?c) (?k @ [row]), appended := appended r + 1\<rparr>"
  proof (cases "length ?k \<ge> ?c")
    case True
    then have "length ?k = ?c" using Cons.prems(2) by simp
    with True Cons.prems(1) show ?thesis by (cases ?k) (simp_all add: push_row_def)
  next
    case False
    then show ?thesis by (simp add: push_row_def)
  qed
  have "length (drop (length ?k + 1 - ?c) (?k @ [row])) \<le> ?c" by simp
  with Cons.IH [of "push_row row r"] Cons.prems have "fold push_row (row # rows) r =
    r\<lparr>ring_rows := drop (length (drop (length ?k + 1 - ?c) (?k @ [row])) + length rows - ?c)
        (drop (length ?k + 1 - ?c) (?k @ [row]) @ rows), appended := appended r + 1 + length rows\<rparr>"
    by (simp add: p)
  moreover have "drop (length (drop (length ?k + 1 - ?c) (?k @ [row])) + length rows - ?c)
      (drop (length ?k + 1 - ?c) (?k @ [row]) @ rows) = drop (length ?k + length (row # rows) - ?c) (?k @ row # rows)"
    using drop_twice [of ?c "?k @ [row]" rows] Cons.prems(1) by simp
  ultimately show ?case by simp
qed simp

lemma append_owned_view:
  assumes "ring_ok r"
  shows "view (append_owned rows r) = trim (capacity r) (view r @ map Row rows) \<and> ring_ok (append_owned rows r)"
proof -
  let ?c = "capacity r" and ?k = "ring_rows r" and ?n = "first_number r"
  define d where "d = length ?k + length rows - ?c"
  have n: "appended r = ?n + length ?k" using assms by (simp add: ring_ok_def first_number_def)
  have f: "fold push_row rows r = r\<lparr>ring_rows := drop d (?k @ rows), appended := appended r + length rows\<rparr>"
    using assms fold_push_row [of r rows] by (simp add: ring_ok_def d_def)
  have dl: "d \<le> length ?k + length rows" by (simp add: d_def)
  have fn: "first_number (fold push_row rows r) = ?n + d"
    using dl n by (simp add: f first_number_def)
  have a: "append_owned rows r = r\<lparr>ring_rows := drop d (?k @ rows), appended := appended r + length rows,
      holes := dropWhile (\<lambda>h. fst h < ?n + d) (holes r)\<rparr>"
    unfolding append_owned_def Let_def fn by (simp add: f)
  have fa: "first_number (append_owned rows r) = ?n + d" using dl n by (simp add: a first_number_def)
  have st: "sorted_wrt (\<lambda>g h. fst g < fst h) (holes r)" and rng: "\<forall>h \<in> set (holes r). ?n \<le> fst h \<and> fst h \<le> appended r"
    using assms by (simp_all add: ring_ok_def)
  have "view r @ map Row rows = view_from ?n (?k @ rows) (holes r)"
    using rng n by (simp add: view_def view_from_append)
  with trim_view_from [OF st, of ?n ?c "?k @ rows"] rng
  have "trim ?c (view r @ map Row rows) = view (append_owned rows r)"
    by (simp add: view_def fa d_def) (simp add: a d_def)
  moreover have "ring_ok (append_owned rows r)"
  proof -
    have "sorted_wrt (\<lambda>g h. fst g < fst h) (dropWhile (\<lambda>h. fst h < ?n + d) (holes r))"
      using st by (metis sorted_wrt_append takeWhile_dropWhile_id)
    moreover have "?n + d \<le> fst h \<and> fst h \<le> appended r + length rows"
      if h: "h \<in> set (dropWhile (\<lambda>h. fst h < ?n + d) (holes r))" for h
    proof -
      have "fst h \<le> appended r" using rng set_dropWhileD [OF h] by simp
      moreover have "?n + d \<le> fst h"
      proof -
        obtain g gs where g: "dropWhile (\<lambda>h. fst h < ?n + d) (holes r) = g # gs" using h by (cases "dropWhile (\<lambda>h. fst h < ?n + d) (holes r)") auto
        then have "?n + d \<le> fst g" using hd_dropWhile [of "\<lambda>h. fst h < ?n + d" "holes r"] by simp
        moreover have "fst g \<le> fst h" using h g calculation
          \<open>sorted_wrt (\<lambda>g h. fst g < fst h) (dropWhile (\<lambda>h. fst h < ?n + d) (holes r))\<close> by auto
        ultimately show ?thesis by simp
      qed
      ultimately show ?thesis by simp
    qed
    ultimately show ?thesis using assms dl unfolding ring_ok_def fa by (auto simp: a d_def)
  qed
  ultimately show ?thesis by simp
qed

lemma mark_view_ring:
  assumes "ring_ok r"
  shows "view (mark_not_received n r) = mark_view n (view r) \<and> ring_ok (mark_not_received n r)"
proof (cases "n = 0")
  case True
  with assms show ?thesis by (simp add: mark_not_received_def mark_view.simps)
next
  case False
  let ?k = "ring_rows r" and ?f = "first_number r"
  have n: "appended r = ?f + length ?k" using assms by (simp add: ring_ok_def first_number_def)
  have rng: "\<forall>h \<in> set (holes r). ?f \<le> fst h \<and> fst h \<le> ?f + length ?k" and
    st: "sorted_wrt (\<lambda>g h. fst g < fst h) (holes r)" using assms n by (simp_all add: ring_ok_def)
  show ?thesis
  proof (cases "holes r \<noteq> [] \<and> fst (last (holes r)) = appended r")
    case True
    then obtain hs l where h: "holes r = hs @ [(appended r, l)]" by (metis append_butlast_last_id prod.collapse)
    have "\<forall>g \<in> set hs. fst g \<le> ?f + length ?k" using rng h by simp
    note m = view_from_mark [OF this]
    have "view r = view_from ?f ?k hs @ [NotReceived l]" using m [of l] by (simp add: view_def h n)
    moreover have "view (mark_not_received n r) = view_from ?f ?k hs @ [NotReceived (l + n)]"
    proof -
      have "first_number (mark_not_received n r) = ?f \<and> ring_rows (mark_not_received n r) = ?k"
        using False by (simp add: mark_not_received_def first_number_def Let_def)
      moreover have "holes (mark_not_received n r) = hs @ [(?f + length ?k, l + n)]"
        using False h n by (simp add: mark_not_received_def Let_def)
      ultimately show ?thesis using m [of "l + n"] by (simp add: view_def)
    qed
    moreover have "ring_ok (mark_not_received n r)"
      using assms False h by (auto simp: ring_ok_def mark_not_received_def first_number_def sorted_wrt_append)
    ultimately show ?thesis using False by (simp add: mark_view.simps)
  next
    case t: False
    have lt: "fst g < appended r" if g: "g \<in> set (holes r)" for g
    proof -
      have ne: "holes r \<noteq> []" using g by auto
      then obtain hs h where hs: "holes r = hs @ [h]" by (metis append_butlast_last_id)
      then have "fst g \<le> fst (last (holes r))" using g st by (auto simp: sorted_wrt_append)
      moreover have "fst (last (holes r)) < appended r" using t ne rng n by (metis last_in_set le_neq_implies_less)
      ultimately show ?thesis by simp
    qed
    have "case rev (view r) of NotReceived l # _ \<Rightarrow> False | _ \<Rightarrow> True"
    proof (cases "?k = []")
      case True
      then have "holes r = []" using rng lt n by (metis add.right_neutral last_in_set list.size(3) not_le)
      with True show ?thesis by (simp add: view_def)
    next
      case False
      then obtain ks k where k: "?k = ks @ [k]" by (metis append_butlast_last_id)
      have "view r = view_from ?f ks (holes r) @ [Row k]"
        using view_from_append [of "holes r" ?f ks "[k]"] lt n by (force simp: view_def k)
      then show ?thesis by simp
    qed
    then have "mark_view n (view r) = view r @ [NotReceived n]"
      using False by (simp add: mark_view.simps split: list.splits view_entry.splits)
    moreover have "view (mark_not_received n r) = view r @ [NotReceived n]"
    proof -
      have "first_number (mark_not_received n r) = ?f \<and> ring_rows (mark_not_received n r) = ?k"
        using False by (simp add: mark_not_received_def first_number_def Let_def)
      moreover have "holes (mark_not_received n r) = holes r @ [(?f + length ?k, n)]"
        using False t n by (auto simp: mark_not_received_def Let_def)
      moreover have "\<forall>g \<in> set (holes r). fst g \<le> ?f + length ?k" using rng by simp
      ultimately show ?thesis using view_from_mark [of "holes r" ?f ?k n] by (simp add: view_def)
    qed
    moreover have "ring_ok (mark_not_received n r)"
      using assms False t lt by (auto simp: ring_ok_def mark_not_received_def first_number_def Let_def sorted_wrt_append)
    ultimately show ?thesis by simp
  qed
qed

section \<open>Runs of operations\<close>

datatype ring_op = Append "bytes list" | Mark nat | Clear

fun ring_step :: "ring_op \<Rightarrow> ring \<Rightarrow> ring" where
  "ring_step (Append rows) r = append_owned rows r"
| "ring_step (Mark n) r = mark_not_received n r"
| "ring_step Clear r = ring_clear r"

fun view_step :: "nat \<Rightarrow> ring_op \<Rightarrow> view_entry list \<Rightarrow> view_entry list" where
  "view_step cap (Append rows) es = trim cap (es @ map Row rows)"
| "view_step cap (Mark n) es = mark_view n es"
| "view_step cap Clear es = []"

lemma ring_new_ok: "ring_ok (ring_new c) \<and> view (ring_new c) = []"
  by (simp add: ring_ok_def ring_new_def view_def first_number_def)

lemma append_owned_capacity [simp]: "capacity (append_owned rows r) = capacity r"
proof -
  have "capacity (fold push_row rows r) = capacity r" by (induction rows arbitrary: r) (simp_all add: push_row_def Let_def)
  then show ?thesis by (simp add: append_owned_def Let_def)
qed

lemma ring_step_capacity [simp]: "capacity (ring_step op r) = capacity r"
  by (cases op) (simp_all add: mark_not_received_def ring_clear_def Let_def)

lemma ring_step_view:
  assumes "ring_ok r"
  shows "view (ring_step op r) = view_step (capacity r) op (view r) \<and> ring_ok (ring_step op r)"
proof (cases op)
  case Clear
  with assms show ?thesis by (simp add: ring_clear_def ring_ok_def view_def first_number_def)
qed (use assms append_owned_view mark_view_ring in simp_all)

lemma ring_run_view:
  "ring_ok r \<Longrightarrow> view (fold ring_step ops r) = fold (view_step (capacity r)) ops (view r) \<and> ring_ok (fold ring_step ops r)"
proof (induction ops arbitrary: r)
  case (Cons op ops)
  from ring_step_view [OF Cons.prems, of op] Cons.IH [of "ring_step op r"] show ?case by simp
qed simp

text \<open>
  C20. After any sequence of appends, not-received marks and clears, the ring's accessors are exactly
  those of the list the specification keeps: its length, its entry at every index (the binary search over
  the holes included), and at most the capacity's number of rows.
\<close>

theorem ring_refines_list:
  "view_len (fold ring_step ops (ring_new c)) = length (fold (view_step (max c 1)) ops []) \<and>
   view_row (fold ring_step ops (ring_new c)) i = get_at (fold (view_step (max c 1)) ops []) i \<and>
   length (ring_rows (fold ring_step ops (ring_new c))) \<le> max c 1"
proof -
  let ?r = "fold ring_step ops (ring_new c)"
  have cap: "capacity (fold ring_step ops r) = capacity r" for r by (induction ops arbitrary: r) simp_all
  have v: "view ?r = fold (view_step (max c 1)) ops [] \<and> ring_ok ?r"
    using ring_run_view [of "ring_new c" ops] ring_new_ok [of c] by (simp add: ring_new_def)
  then have "view_row ?r i = get_at (fold (view_step (max c 1)) ops []) i" using view_row_view [of ?r i] by simp
  moreover have "view_len ?r = length (fold (view_step (max c 1)) ops [])"
    using v length_view_from by (metis view_def view_len_def)
  moreover have "length (ring_rows ?r) \<le> max c 1"
    using v cap [of "ring_new c"] by (simp add: ring_ok_def ring_new_def)
  ultimately show ?thesis by simp
qed

section \<open>The reorder buffer\<close>

definition held_ok :: "held_rows \<Rightarrow> bool" where
  "held_ok h \<longleftrightarrow> sorted_wrt (<) (map fst (bodies h)) \<and>
     held_count h = (\<Sum>e \<leftarrow> bodies h. length (snd e)) \<and> held_count h \<le> SB2_HELD_MAX_ROWS"

lemma insert_body_keys: "set (map fst (insert_body k v es)) = insert k (set (map fst es))"
  by (induction k v es rule: insert_body.induct) auto

lemma insert_body_sorted:
  "sorted_wrt (<) (map fst es) \<Longrightarrow> sorted_wrt (<) (map fst (insert_body k v es))"
proof (induction k v es rule: insert_body.induct)
  case (2 k v k' v' es)
  consider "k < k'" | "k = k'" | "k' < k" by linarith
  then show ?case
  proof cases
    case 3
    with 2 insert_body_keys [of k v es] show ?thesis by auto
  qed (use 2(2) in auto)
qed simp

lemma insert_body_count:
  "sorted_wrt (<) (map fst es) \<Longrightarrow>
     (\<Sum>e \<leftarrow> insert_body k v es. length (snd e)) + (case map_of es k of Some w \<Rightarrow> length w | None \<Rightarrow> 0) =
     (\<Sum>e \<leftarrow> es. length (snd e)) + length v"
proof (induction k v es rule: insert_body.induct)
  case (2 k v k' v' es)
  consider "k < k'" | "k = k'" | "k' < k" by linarith
  then show ?case
  proof cases
    case 1
    then have "map_of es k = None" using 2(2) by (auto simp: map_of_eq_None_iff)
    with 1 show ?thesis by simp
  next
    case 3
    with 2 show ?thesis by simp
  qed (use 2(2) in simp)
qed simp

lemma insert_body_lookup: "map_of (insert_body k v es) = (map_of es)(k \<mapsto> v)"
  by (induction k v es rule: insert_body.induct) auto

lemma hold_ok:
  assumes "held_ok h"
  shows "held_ok (fst (hold off rows h))"
proof -
  let ?e = "case map_of (bodies h) off of Some w \<Rightarrow> length w | None \<Rightarrow> 0"
  have c: "(\<Sum>e \<leftarrow> insert_body off rows (bodies h). length (snd e)) + ?e = held_count h + length rows"
    using insert_body_count [of "bodies h" off rows] assms by (simp add: held_ok_def)
  moreover have "?e \<le> held_count h"
    using insert_body_count [of "bodies h" off "[]"] assms by (simp add: held_ok_def)
  ultimately show ?thesis
    using assms insert_body_sorted [of "bodies h" off rows] by (auto simp: hold_def Let_def held_ok_def)
qed

lemma take_reachable_ok: "held_ok h \<Longrightarrow> held_ok (fst (take_reachable t h))"
  by (fastforce simp: take_reachable_def held_ok_def split: list.splits)

lemma held_empty_ok: "held_ok held_empty"
  by (simp add: held_ok_def held_empty_def)

datatype held_op = Hold nat "bytes list" | Take nat | Drop_all

fun held_step :: "held_op \<Rightarrow> held_rows \<Rightarrow> held_rows" where
  "held_step (Hold off rows) h = fst (hold off rows h)"
| "held_step (Take t) h = fst (take_reachable t h)"
| "held_step Drop_all h = held_clear h"

lemma held_run_ok: "held_ok h \<Longrightarrow> held_ok (fold held_step ops h)"
proof (induction ops arbitrary: h)
  case (Cons op ops)
  have "held_ok (held_step op h)"
    using Cons.prems by (cases op) (simp_all add: hold_ok take_reachable_ok, simp add: held_clear_def held_ok_def)
  with Cons.IH show ?case by simp
qed simp

text \<open>
  The reorder buffer never holds more than its bound of rows, its count is exact and its offsets are
  strictly increasing, whatever is held, taken or dropped.
\<close>

lemma held_rows_bounded:
  "held_count (fold held_step ops held_empty) = (\<Sum>e \<leftarrow> bodies (fold held_step ops held_empty). length (snd e)) \<and>
   held_count (fold held_step ops held_empty) \<le> SB2_HELD_MAX_ROWS \<and>
   sorted_wrt (<) (map fst (bodies (fold held_step ops held_empty)))"
  using held_run_ok [OF held_empty_ok, of ops] by (simp add: held_ok_def)

end
