(* ===== verification/History.thy ===== *)
theory History
  imports Frame Scrollback
begin

text \<open>
  The send cursor of the version-2 history stream, \<open>crates/posh/src/remote/history.rs\<close>:
  \<open>HistoryCursor\<close> with every operation. The cursor reads three things off the terminal: the
  monotonic total of rows ever scrolled off the primary screen, and the rows still retained, each as its
  dump; the record \<open>terminal_history\<close> holds these. The epoch keeps its byte; the 64-bit row
  counters and the millisecond clock are nats, on which \<open>saturating_sub\<close> is subtraction.
\<close>

record terminal_history =
  primary_scrollback_total :: nat
  primary_scrollback_rows :: "bytes list"

definition primary_scrollback_len :: "terminal_history \<Rightarrow> nat" where
  "primary_scrollback_len t = length (primary_scrollback_rows t)"

definition dump_scrollback_row :: "terminal_history \<Rightarrow> nat \<Rightarrow> bytes option" where
  "dump_scrollback_row t i = get_at (primary_scrollback_rows t) i"

datatype history_start = Fresh | Continue u8 nat

record history_cursor =
  active :: bool
  cursor_epoch :: u8
  anchor_abs :: nat
  anchor_rel :: nat
  cursor_acked :: nat
  sent_upto :: nat
  last_send :: nat
  in_flight_since :: nat
  resends :: nat
  view_size :: "u16 \<times> u16"

definition cursor_new :: "u16 \<times> u16 \<Rightarrow> history_cursor" where
  "cursor_new sz = \<lparr>active = False, cursor_epoch = 1, anchor_abs = 0, anchor_rel = 0, cursor_acked = 0,
     sent_upto = 0, last_send = 0, in_flight_since = 0, resends = 0, view_size = sz\<rparr>"

definition activate :: "history_start \<Rightarrow> nat \<Rightarrow> history_cursor \<Rightarrow> history_cursor" where
  "activate start tot h =
     (if active h then h
      else (let h = h\<lparr>active := True, anchor_abs := tot\<rparr>;
                (h, rws) = (case start of Fresh \<Rightarrow> (h, 0) | Continue e rws \<Rightarrow> (h\<lparr>cursor_epoch := e\<rparr>, rws))
            in h\<lparr>anchor_rel := rws, cursor_acked := rws, sent_upto := rws, in_flight_since := 0\<rparr>))"

definition next_epoch :: "u8 \<Rightarrow> u8" where
  "next_epoch e = (if e + 1 = 0 then 1 else e + 1)"

definition bump_epoch :: "nat \<Rightarrow> history_cursor \<Rightarrow> history_cursor" where
  "bump_epoch tot h =
     (if \<not> active h then h
      else h\<lparr>cursor_epoch := next_epoch (cursor_epoch h), anchor_abs := tot, anchor_rel := 0,
        cursor_acked := 0, sent_upto := 0, in_flight_since := 0, resends := 0\<rparr>)"

definition on_ack :: "u8 \<Rightarrow> nat \<Rightarrow> nat \<Rightarrow> nat \<Rightarrow> history_cursor \<Rightarrow> history_cursor \<times> bool" where
  "on_ack e rws now tot h =
     (if \<not> active h \<or> e \<noteq> cursor_epoch h then (h, False)
      else if rws = 0 \<and> cursor_acked h > 0 then (bump_epoch tot h, False)
      else if rws \<le> cursor_acked h then (h, False)
      else (h\<lparr>cursor_acked := rws, in_flight_since := now, resends := 0\<rparr>, True))"

definition on_client_entry :: "scrollback2_client \<Rightarrow> nat \<Rightarrow> nat \<Rightarrow> history_cursor \<Rightarrow> history_cursor" where
  "on_client_entry entry tot now h =
     fst (on_ack (sb2_epoch entry) (unat (acked_rows entry)) now tot (activate Fresh tot h))"

definition on_client_size :: "u16 \<times> u16 \<Rightarrow> nat \<Rightarrow> history_cursor \<Rightarrow> history_cursor \<times> bool" where
  "on_client_size sz tot h =
     (if sz = view_size h then (h, False)
      else (let h = bump_epoch tot (h\<lparr>view_size := sz\<rparr>) in (h, active h)))"

definition avail :: "nat \<Rightarrow> history_cursor \<Rightarrow> nat" where
  "avail tot h = anchor_rel h + (tot - anchor_abs h)"

definition reanchor :: "nat \<Rightarrow> history_cursor \<Rightarrow> history_cursor" where
  "reanchor tot h =
     (if \<not> active h then h
      else (let a = avail tot h in h\<lparr>anchor_abs := tot, anchor_rel := a, resends := 0\<rparr>))"

definition epoch_of :: "history_cursor \<Rightarrow> u8 option" where
  "epoch_of h = (if active h then Some (cursor_epoch h) else None)"

definition in_flight :: "history_cursor \<Rightarrow> nat" where
  "in_flight h = sent_upto h - cursor_acked h"

definition next_fresh :: "history_cursor \<Rightarrow> nat" where
  "next_fresh h = max (sent_upto h) (cursor_acked h)"

definition resend_due :: "nat \<Rightarrow> nat \<Rightarrow> history_cursor \<Rightarrow> bool" where
  "resend_due now rto h \<longleftrightarrow> in_flight h > 0 \<and> now - in_flight_since h \<ge> rto"

definition next_due :: "nat \<Rightarrow> nat \<Rightarrow> nat \<Rightarrow> history_cursor \<Rightarrow> nat option" where
  "next_due tot rto window h =
     (if \<not> active h then None
      else if avail tot h > next_fresh h \<and> in_flight h < window then Some (last_send h)
      else if in_flight h > 0 then Some (in_flight_since h + rto) else None)"

definition wants :: "nat \<Rightarrow> nat \<Rightarrow> nat \<Rightarrow> nat \<Rightarrow> history_cursor \<Rightarrow> bool" where
  "wants tot now rto window h =
     (case next_due tot rto window h of Some t \<Rightarrow> now \<ge> t | None \<Rightarrow> False)"

definition avail_and_floor :: "terminal_history \<Rightarrow> history_cursor \<Rightarrow> nat \<times> nat" where
  "avail_and_floor t h =
     (let a = avail (primary_scrollback_total t) h; len = primary_scrollback_len t
      in (a, max (anchor_rel h) (a - min len a)))"

text \<open>The extent's counts are the wire's 64-bit words.\<close>

definition cursor_extent :: "terminal_history \<Rightarrow> history_cursor \<Rightarrow> scrollback2_extent option" where
  "cursor_extent t h =
     (if active h
      then (let (a, fl) = avail_and_floor t h
            in Some \<lparr>ext_epoch = cursor_epoch h, avail_rows = of_nat a, evicted_upto = of_nat fl\<rparr>)
      else None)"

text \<open>The first row and the number of rows of the next body, and the resend bookkeeping.\<close>

definition body_range :: "terminal_history \<Rightarrow> nat \<Rightarrow> nat \<Rightarrow> nat \<Rightarrow> history_cursor \<Rightarrow> nat \<times> nat" where
  "body_range t now rto window h =
     (let (a, fl) = avail_and_floor t h;
          (c, cap) = (if resend_due now rto h then (cursor_acked h, SB2_ROWS_PER_BODY)
                      else (next_fresh h, min SB2_ROWS_PER_BODY (window - in_flight h)));
          start = max c fl
      in (start, min (a - start) cap))"

definition note_send :: "nat \<Rightarrow> nat \<Rightarrow> history_cursor \<Rightarrow> history_cursor" where
  "note_send now rto h =
     (if resend_due now rto h then h\<lparr>in_flight_since := now, resends := resends h + 1\<rparr>
      else if in_flight h = 0 then h\<lparr>in_flight_since := now\<rparr> else h)"

definition body_rows :: "terminal_history \<Rightarrow> nat \<Rightarrow> nat \<Rightarrow> nat \<Rightarrow> bytes list" where
  "body_rows t a start count =
     map (\<lambda>k. case dump_scrollback_row t (primary_scrollback_len t - (a - (start + k))) of Some r \<Rightarrow> r | None \<Rightarrow> [])
       [0..<count]"

definition next_body ::
  "terminal_history \<Rightarrow> nat \<Rightarrow> nat \<Rightarrow> nat \<Rightarrow> history_cursor \<Rightarrow> history_cursor \<times> u8 \<times> frame_body" where
  "next_body t now rto window h =
     (let a = avail (primary_scrollback_total t) h;
          (start, count) = body_range t now rto window h
      in ((note_send now rto h)\<lparr>sent_upto := start + count, last_send := now\<rparr>, cursor_epoch h,
          Scrollback2 (cursor_epoch h) (of_nat start) (body_rows t a start count)))"

end
