(* ===== verification/ServerLoop.thy ===== *)
theory ServerLoop
  imports FrameSync Streams History
begin

text \<open>
  The frame logic of the single-session server, \<open>server_loop\<close> of
  \<open>crates/posh/src/remote/server.rs\<close>: what a client message does to the loop's state, which frame an
  iteration sends, its body, and the frame itself. What the loop reads from outside (the clock, the
  terminals, the pty, the connection's timing, the remaining capability entries) is the environment record;
  logging and statistics are left out, and the overlay shell is its terminal view in the environment.
\<close>

unbundle bit_operations_syntax

section \<open>State and environment\<close>

definition PEER_TIMEOUT :: nat where "PEER_TIMEOUT = 60000"
definition SHUTDOWN_GRACE :: nat where "SHUTDOWN_GRACE = 10000"
definition WEDGE_STUCK_MS :: nat where "WEDGE_STUCK_MS = 1000"
definition UNBOUNDED_WINDOW :: nat where "UNBOUNDED_WINDOW = 2 ^ 64 - 1"

text \<open>A terminal as the loop reads it; the mirror dump is shaped for the client's size.\<close>

record 's term_view =
  generation :: u64
  mirror_dump :: "u16 \<Rightarrow> u16 \<Rightarrow> bytes"
  view_snapshot :: 's
  view_alt :: bool
  view_dims :: "u16 \<times> u16"

record 's loop_env =
  env_now :: nat
  main_term :: "'s term_view"
  overlay_term :: "'s term_view option"
  main_history :: terminal_history
  send_interval :: nat
  env_rto :: nat
  has_remote :: bool
  pty_echo :: bool
  reaped :: "int option"
  log_on :: bool
  watchdog :: bool
  middle_caps :: "cap list"
  agent_entries :: "cap list"

record 's server_state =
  producer :: "'s frame_producer"
  sb2 :: history_cursor
  wants_morph :: bool
  wants_base_sum :: bool
  wants_scrollback :: bool
  wants_extent :: bool
  wants_exit :: bool
  sb_floor :: nat
  sb_high :: nat
  acked_sb_total :: nat
  current_is_sb :: bool
  last_was_sb :: bool
  last_gen :: u64
  last_frame_at :: nat
  last_heard :: nat
  client_size :: "u16 \<times> u16"
  srv_inbox :: input_inbox
  srv_echo :: echo_ack
  shutting_down :: bool
  shutdown_at :: nat
  exit_code :: "int option"
  shell_ended :: bool
  force_ack :: bool
  force_frame :: bool
  dirty_since :: nat
  wedge_captured :: bool

definition server_new :: "'s \<Rightarrow> u16 \<Rightarrow> u16 \<Rightarrow> u64 \<Rightarrow> nat \<Rightarrow> 's server_state" where
  "server_new blank r c gen now =
     \<lparr>producer = producer_new blank r c, sb2 = cursor_new (r, c), wants_morph = False, wants_base_sum = False,
      wants_scrollback = False, wants_extent = False, wants_exit = False, sb_floor = 0, sb_high = 0,
      acked_sb_total = 0, current_is_sb = False, last_was_sb = False, last_gen = gen, last_frame_at = 0,
      last_heard = now, client_size = (r, c), srv_inbox = inbox_new, srv_echo = echo_resume 0,
      shutting_down = False, shutdown_at = 0, exit_code = None, shell_ended = False, force_ack = False,
      force_frame = False, dirty_since = 0, wedge_captured = False\<rparr>"

section \<open>Client messages\<close>

text \<open>\<open>handle_client_message\<close>: the size and the input, which goes to the active pty.\<close>

definition handle_client_message :: "client_message \<Rightarrow> nat \<Rightarrow> 's server_state \<Rightarrow> 's server_state \<times> bytes option" where
  "handle_client_message m now s =
     (let s = (if rows m > 0 \<and> cols m > 0 then s\<lparr>client_size := (rows m, cols m)\<rparr> else s)
      in case inbox_accept (input_base m) (input m) (srv_inbox s) of
           (x, Some new) \<Rightarrow> (s\<lparr>srv_inbox := x, srv_echo := echo_record (next_offset x) now (srv_echo s),
                               force_ack := True\<rparr>, Some new)
         | (x, None) \<Rightarrow> (s\<lparr>srv_inbox := x\<rparr>, None))"

definition ack_frame :: "client_message \<Rightarrow> 's server_state \<Rightarrow> 's server_state" where
  "ack_frame m s =
     (let (p, covered) = ack (acked_frame m) (producer s);
          s = s\<lparr>producer := p, acked_sb_total := (case covered of
                Some v \<Rightarrow> max (acked_sb_total s) (unat v) | None \<Rightarrow> acked_sb_total s)\<rparr>
      in if msg_flags m AND CLIENT_FLAG_RESYNC \<noteq> 0
         then s\<lparr>producer := drop_acked_base (producer s), force_frame := True\<rparr> else s)"

text \<open>\<open>tot\<close> is the terminal's scrollback total once the new size has been applied to it.\<close>

definition note_history :: "client_message \<Rightarrow> nat \<Rightarrow> nat \<Rightarrow> 's server_state \<Rightarrow> 's server_state" where
  "note_history m tot now s =
     (let s = (case find_cap (msg_caps m) CAP_SCROLLBACK2 of
            None \<Rightarrow> s
          | Some c \<Rightarrow> (case decode_scrollback2_client (payload c) of
               Inl _ \<Rightarrow> s
             | Inr entry \<Rightarrow> s\<lparr>sb2 := on_client_entry entry tot now (sb2 s)\<rparr>));
          s = s\<lparr>wants_extent := (wants_extent s \<or>
            Option.bind (find_cap (msg_caps m) CAP_SCROLLBACK2_EXTENT)
              (\<lambda>c. decode_scrollback2_extent_request (payload c)) \<noteq> None)\<rparr>
      in s\<lparr>sb2 := fst (on_client_size (client_size s) tot (sb2 s))\<rparr>)"

definition note_wants :: "client_message \<Rightarrow> nat \<Rightarrow> 's server_state \<Rightarrow> 's server_state" where
  "note_wants m tot s =
     (let now_wants = (epoch_of (sb2 s) = None \<and> find_cap (msg_caps m) CAP_SCROLLBACK \<noteq> None);
          s = (if now_wants \<and> \<not> wants_scrollback s
               then s\<lparr>sb_floor := tot, sb_high := max (sb_high s) tot\<rparr> else s)
      in s\<lparr>wants_scrollback := now_wants, wants_morph := (find_cap (msg_caps m) CAP_MORPH \<noteq> None),
           wants_base_sum := (find_cap (msg_caps m) CAP_BASE_SUM \<noteq> None)\<rparr>)"

text \<open>One decoded session message; \<open>spawned\<close> tells that it opened the overlay shell.\<close>

definition server_message ::
  "client_message \<Rightarrow> nat \<Rightarrow> nat \<Rightarrow> bool \<Rightarrow> 's server_state \<Rightarrow> 's server_state \<times> bytes option" where
  "server_message m tot now spawned s =
     (let s = s\<lparr>last_heard := now, wants_exit := (wants_exit s \<or> find_cap (msg_caps m) CAP_EXIT_STATUS \<noteq> None)\<rparr>;
          (s, new) = handle_client_message m now s;
          s = (if msg_flags m AND CLIENT_FLAG_SHUTDOWN \<noteq> 0 \<and> \<not> shutting_down s
               then s\<lparr>shutting_down := True, shutdown_at := now, force_frame := True\<rparr> else s);
          s = (if spawned then s\<lparr>force_frame := True\<rparr> else s)
      in (note_wants m tot (note_history m tot now (ack_frame m s)), new))"

text \<open>The shell's end, seen on its pty.\<close>

definition shell_exited :: "nat \<Rightarrow> int option \<Rightarrow> 's server_state \<Rightarrow> 's server_state" where
  "shell_exited now code s =
     (if shutting_down s then s
      else s\<lparr>shutting_down := True, shutdown_at := now, force_frame := True, shell_ended := True, exit_code := code\<rparr>)"

section \<open>Which frame\<close>

datatype frame_choice = MakeVisible | MakeScrollback | MakeSb2 | Retransmit | SendEmpty | SendNothing

definition source_term :: "'s loop_env \<Rightarrow> 's term_view" where
  "source_term e = (case overlay_term e of Some t \<Rightarrow> t | None \<Rightarrow> main_term e)"

definition is_dirty :: "'s loop_env \<Rightarrow> 's server_state \<Rightarrow> bool" where
  "is_dirty e s \<longleftrightarrow> generation (source_term e) \<noteq> last_gen s"

definition is_paced :: "'s loop_env \<Rightarrow> 's server_state \<Rightarrow> bool" where
  "is_paced e s \<longleftrightarrow> env_now e - last_frame_at s \<ge> send_interval e"

definition nudge :: "'s loop_env \<Rightarrow> 's server_state \<Rightarrow> 's server_state" where
  "nudge e s =
     (if \<not> is_dirty e s \<and> \<not> shutting_down s \<and> acked_num (producer s) \<ge> num (current (producer s)) \<and>
         visible_frame_leapt (producer s)
      then s\<lparr>force_frame := True\<rparr> else s)"

definition want_visible :: "'s loop_env \<Rightarrow> 's server_state \<Rightarrow> bool" where
  "want_visible e s \<longleftrightarrow> (is_dirty e s \<or> force_frame s) \<and> is_paced e s"

definition want_scrollback :: "'s loop_env \<Rightarrow> 's server_state \<Rightarrow> bool" where
  "want_scrollback e s \<longleftrightarrow> wants_scrollback s \<and> overlay_term e = None \<and> \<not> view_alt (main_term e) \<and>
     \<not> force_frame s \<and> \<not> shutting_down s \<and> primary_scrollback_total (main_history e) > sb_high s \<and>
     primary_scrollback_total (main_history e) > max (acked_sb_total s) (sb_floor s) \<and>
     has_acked_base (producer s) \<and> is_paced e s"

definition want_sb2 :: "'s loop_env \<Rightarrow> 's server_state \<Rightarrow> bool" where
  "want_sb2 e s \<longleftrightarrow> overlay_term e = None \<and> \<not> force_frame s \<and> \<not> shutting_down s \<and> is_paced e s \<and>
     wants (primary_scrollback_total (main_history e)) (env_now e) (env_rto e) UNBOUNDED_WINDOW (sb2 s)"

definition choose_frame :: "'s loop_env \<Rightarrow> 's server_state \<Rightarrow> frame_choice" where
  "choose_frame e s =
     (let make_scrollback = (want_scrollback e s \<and> (\<not> want_visible e s \<or> \<not> last_was_sb s));
          make_sb2 = (want_sb2 e s \<and> (\<not> want_visible e s \<or> \<not> last_was_sb s));
          make_visible = (want_visible e s \<and> \<not> make_scrollback \<and> \<not> make_sb2);
          idle = env_now e - last_frame_at s
      in if make_visible then MakeVisible
         else if make_scrollback then MakeScrollback
         else if make_sb2 then MakeSb2
         else if acked_num (producer s) < num (current (producer s)) \<and> idle \<ge> env_rto e then Retransmit
         else if idle \<ge> HEARTBEAT_INTERVAL then SendEmpty
         else if force_ack s \<and> acked_num (producer s) \<ge> num (current (producer s)) then SendEmpty
         else SendNothing)"

text \<open>The stall watchdog; a capture brings an acknowledgement forward.\<close>

definition note_stall :: "'s loop_env \<Rightarrow> bool \<Rightarrow> 's server_state \<Rightarrow> 's server_state" where
  "note_stall e make_visible s =
     (if is_dirty e s \<and> \<not> make_visible
      then (let s = (if dirty_since s = 0 then s\<lparr>dirty_since := env_now e\<rparr> else s)
            in if watchdog e \<and> \<not> wedge_captured s \<and> env_now e - dirty_since s \<ge> WEDGE_STUCK_MS
               then s\<lparr>wedge_captured := True, force_ack := True\<rparr> else s)
      else s\<lparr>dirty_since := 0, wedge_captured := False\<rparr>)"

text \<open>
  The choice is made on the state before the watchdog, but its last arm reads \<open>force_ack\<close> after it; the
  two differ only where the watchdog raised it.
\<close>

definition take_choice :: "'s loop_env \<Rightarrow> frame_choice \<Rightarrow> 's server_state \<Rightarrow> 's server_state" where
  "take_choice e ch s = (case ch of
       MakeVisible \<Rightarrow>
         (let t = source_term e
          in s\<lparr>last_gen := generation t, force_frame := False,
               producer := advance_visible (mirror_dump t (fst (client_size s)) (snd (client_size s)))
                 (view_snapshot t) (view_alt t) (view_dims t) (of_nat (acked_sb_total s)) (producer s),
               current_is_sb := False, last_was_sb := False\<rparr>)
     | MakeScrollback \<Rightarrow>
         s\<lparr>producer := advance_scrollback (of_nat (primary_scrollback_total (main_history e))) (producer s),
           sb_high := primary_scrollback_total (main_history e), current_is_sb := True, last_was_sb := True\<rparr>
     | MakeSb2 \<Rightarrow> s\<lparr>last_was_sb := True\<rparr>
     | _ \<Rightarrow> s)"

section \<open>The body\<close>

definition growth_body :: "terminal_history \<Rightarrow> 's server_state \<Rightarrow> frame_body" where
  "growth_body t s =
     (let len = primary_scrollback_len t;
          covered = unat (sb_total (current (producer s)));
          grown = primary_scrollback_total t - covered;
          stop = len - grown;
          want = covered - max (acked_sb_total s) (sb_floor s);
          start = stop - min want stop
      in Scrollback (acked_num (producer s))
           (map (\<lambda>i. case dump_scrollback_row t i of Some r \<Rightarrow> r | None \<Rightarrow> []) [start..<stop]))"

definition stamp_base_sum :: "bytes option \<Rightarrow> frame_body \<Rightarrow> frame_body" where
  "stamp_base_sum acked_dump b = (case (acked_dump, b) of
       (Some d, Diff n _ diff) \<Rightarrow> Diff n (Some (base_checksum d)) diff
     | _ \<Rightarrow> b)"

definition visible_body :: "('s \<Rightarrow> 's \<Rightarrow> bytes) \<Rightarrow> 's server_state \<Rightarrow> frame_body" where
  "visible_body new_frame s =
     (let b = encode_visible new_frame (wants_morph s) (producer s)
      in if wants_base_sum s then stamp_base_sum (acked_data (producer s)) b else b)"

definition build_body ::
  "('s \<Rightarrow> 's \<Rightarrow> bytes) \<Rightarrow> 's loop_env \<Rightarrow> frame_choice \<Rightarrow> 's server_state \<Rightarrow> 's server_state \<times> frame_body" where
  "build_body new_frame e ch s =
     (if ch = SendEmpty then (s, Empty)
      else if ch = MakeSb2
      then (let (h, _, b) = next_body (main_history e) (env_now e) (env_rto e) UNBOUNDED_WINDOW (sb2 s)
            in (s\<lparr>sb2 := h\<rparr>, b))
      else if current_is_sb s then (s, growth_body (main_history e) s)
      else (s, visible_body new_frame s))"

section \<open>The frame\<close>

definition clamp_exit :: "int \<Rightarrow> u8" where
  "clamp_exit c = word_of_int (max 0 (min 255 c))"

definition frame_extras :: "'s loop_env \<Rightarrow> 's server_state \<Rightarrow> cap list" where
  "frame_extras e s =
     (case epoch_of (sb2 s) of Some ep \<Rightarrow> [encode_scrollback2_ack ep] | None \<Rightarrow> []) @
     (if wants_extent s then (case cursor_extent (main_history e) (sb2 s) of
        Some x \<Rightarrow> [encode_scrollback2_extent x] | None \<Rightarrow> []) else []) @
     (if wants_scrollback s then [\<lparr>cap_id = CAP_SCROLLBACK, payload = []\<rparr>] else []) @
     middle_caps e @
     (if shutting_down s \<and> wants_exit s then (case exit_code s of
        Some c \<Rightarrow> [\<lparr>cap_id = CAP_EXIT_STATUS, payload = [clamp_exit c]\<rparr>] | None \<Rightarrow> []) else []) @
     (if shutting_down s \<and> shell_ended s then [\<lparr>cap_id = CAP_EXIT_CAUSE, payload = encode_exit_cause Exited\<rparr>] else []) @
     agent_entries e"

definition frame_caps :: "'s loop_env \<Rightarrow> 's server_state \<Rightarrow> cap list" where
  "frame_caps e s = (if frame_extras e s = [] then [] else own_table (frame_extras e s))"

definition frame_flags :: "'s loop_env \<Rightarrow> 's server_state \<Rightarrow> u8" where
  "frame_flags e s =
     (if shutting_down s then FLAG_SHUTDOWN else 0) OR (if pty_echo e then FLAG_ECHO else 0) OR
     (if overlay_term e \<noteq> None then FLAG_OVERLAY else 0) OR (if log_on e then FLAG_SERVER_LOG else 0) OR
     (if wedge_captured s then FLAG_WEDGE else 0)"

definition assemble_frame :: "'s loop_env \<Rightarrow> 's server_state \<Rightarrow> frame_body \<Rightarrow> server_frame" where
  "assemble_frame e s b = \<lparr>flags = frame_flags e s, caps = frame_caps e s, frame_num = num (current (producer s)),
     input_ack = next_offset (srv_inbox s), echo_ack = acked (srv_echo s), body = b\<rparr>"

text \<open>A shell that could not be reaped when its pty closed is tried again as the last frames go out.\<close>

definition retry_reap :: "'s loop_env \<Rightarrow> 's server_state \<Rightarrow> 's server_state" where
  "retry_reap e s = (if shutting_down s \<and> exit_code s = None then s\<lparr>exit_code := reaped e\<rparr> else s)"

text \<open>One iteration's frame production, from the echo update to the frame handed to the sender.\<close>

definition server_tick ::
  "('s \<Rightarrow> 's \<Rightarrow> bytes) \<Rightarrow> 's loop_env \<Rightarrow> 's server_state \<Rightarrow> 's server_state \<times> server_frame option" where
  "server_tick new_frame e s0 =
     (let (ec, moved) = echo_update (env_now e) (srv_echo s0);
          s = s0\<lparr>srv_echo := ec, force_ack := (force_ack s0 \<or> moved)\<rparr>
      in if \<not> (has_remote e \<and> env_now e - last_heard s < PEER_TIMEOUT) then (s, None)
         else (let s = nudge e s;
                   s = note_stall e (choose_frame e s = MakeVisible) s;
                   ch = choose_frame e s
               in if ch = SendNothing then (s, None)
                  else (let s = (take_choice e ch s)\<lparr>force_ack := False\<rparr>;
                            (s, b) = build_body new_frame e ch s;
                            s = retry_reap e s
                        in (s\<lparr>last_frame_at := env_now e\<rparr>, Some (assemble_frame e s b)))))"

text \<open>Whether a loop that is shutting down may leave.\<close>

definition may_leave :: "u64 \<Rightarrow> nat \<Rightarrow> 's server_state \<Rightarrow> bool" where
  "may_leave gen now s \<longleftrightarrow> shutting_down s \<and>
     ((\<not> force_frame s \<and> \<not> force_ack s \<and> gen = last_gen s \<and>
       acked_num (producer s) \<ge> num (current (producer s)) \<and> acked (srv_echo s) \<ge> next_offset (srv_inbox s)) \<or>
      now - shutdown_at s \<ge> SHUTDOWN_GRACE)"

end
