(* ===== verification/FrameClient.thy ===== *)
theory FrameClient
  imports FrameSync Streams Scrollback
begin

text \<open>
  How the client applies server frames, \<open>crates/posh/src/remote/client.rs\<close>: the visible screen
  with its retained diff bases (\<open>apply_frame\<close>), the version-2 history stream with its epochs,
  held rows and extent, the scroll view's anchor, and the state a frame's flags and capability entries
  leave (\<open>process_frame\<close>). The terminal is the parameter \<open>T\<close> of
  \<open>FrameSync\<close>. Statistics, forensics, notices, prediction, the agent and the tty are not part
  of the state here. Row counts are nats; the words of the wire are read with \<open>unat\<close>.
\<close>

section \<open>The state\<close>

definition BASE_HISTORY_DEPTH :: nat where "BASE_HISTORY_DEPTH = 8"
definition SCROLLBACK_RING_DEPTH :: nat where "SCROLLBACK_RING_DEPTH = 10000"

text \<open>The viewport's history.\<close>

record history =
  scrollback :: ring
  scroll_offset :: nat
  row_epoch :: "u8 option"
  row_count :: nat
  row_extent :: "scrollback2_extent option"
  row_held :: held_rows

text \<open>The visible screen: what was applied, at the viewport's size.\<close>

record 't screen =
  scr_rows :: u16
  scr_cols :: u16
  cflags :: u8
  applied_num :: u64
  applied_data :: bytes
  server_term :: 't
  base_history :: "(u64 \<times> bytes) list"
  base_history_on :: bool
  sync_codec :: frame_sync

text \<open>What the flags and capability entries of frames have told.\<close>

record server_facts =
  echo_on :: bool
  server_log_on :: bool
  wedge_seen :: bool
  last_server_diag :: "server_diag option"
  known_ident :: "server_ident option"
  known_activity :: "session_activity option"
  known_kind :: session_kind
  push_offered :: bool
  shutdown_seen :: bool
  exit_status :: u8
  exit_cause :: "session_end option"
  remote_metrics :: "u64 list"

record 't client =
  hist :: history
  scr :: "'t screen"
  facts :: server_facts
  outbox :: input_outbox

text \<open>The state \<open>client_loop\<close> starts with; \<open>f64::NAN\<close> is its bit pattern.\<close>

definition history_new :: history where
  "history_new = \<lparr>scrollback = ring_new SCROLLBACK_RING_DEPTH, scroll_offset = 0, row_epoch = None, row_count = 0,
     row_extent = None, row_held = held_empty\<rparr>"

definition client_new :: "'t terminal_ops \<Rightarrow> frame_sync \<Rightarrow> bool \<Rightarrow> u16 \<Rightarrow> u16 \<Rightarrow> 't client" where
  "client_new T codec retain r c =
     \<lparr>hist = history_new,
      scr = \<lparr>scr_rows = r, scr_cols = c, cflags = 0, applied_num = 0, applied_data = [],
        server_term = term_new T r c, base_history = [], base_history_on = retain, sync_codec = codec\<rparr>,
      facts = \<lparr>echo_on = False, server_log_on = False, wedge_seen = False, last_server_diag = None,
        known_ident = None, known_activity = None, known_kind = Unknown, push_offered = False,
        shutdown_seen = False, exit_status = 0, exit_cause = None,
        remote_metrics = replicate METRICS_FIELDS 0x7FF8000000000000\<rparr>,
      outbox = outbox_new\<rparr>"

section \<open>The history row space\<close>

definition clear_v2_row_space :: "u8 option \<Rightarrow> history \<Rightarrow> history" where
  "clear_v2_row_space e h = h\<lparr>scrollback := ring_clear (scrollback h), scroll_offset := 0, row_count := 0,
     row_extent := None, row_held := held_clear (row_held h), row_epoch := e\<rparr>"

definition history_arriving :: "history \<Rightarrow> nat" where
  "history_arriving h = (case row_extent h of None \<Rightarrow> 0 | Some x \<Rightarrow> unat (avail_rows x) - row_count h)"

definition history_view_len :: "ring \<Rightarrow> nat \<Rightarrow> nat" where
  "history_view_len r arriving = view_len r + (if arriving > 0 then 1 else 0)"

definition set_scroll :: "nat \<Rightarrow> history \<Rightarrow> history" where
  "set_scroll n h = h\<lparr>scroll_offset := min n (history_view_len (scrollback h) (history_arriving h))\<rparr>"

definition WHEEL_STEP :: int where "WHEEL_STEP = 3"

definition scroll_by :: "int \<Rightarrow> history \<Rightarrow> history" where
  "scroll_by ticks h = set_scroll (nat (max (int (scroll_offset h) + ticks * WHEEL_STEP) 0)) h"

definition history_mark :: "history \<Rightarrow> nat" where
  "history_mark h = view_total (scrollback h) + (if history_arriving h > 0 then 1 else 0)"

definition keep_history_anchor :: "nat \<Rightarrow> history \<Rightarrow> history" where
  "keep_history_anchor m h =
     (let delta = int (history_mark h) - int m
      in if scroll_offset h > 0 \<and> delta \<noteq> 0 then set_scroll (nat (max (int (scroll_offset h) + delta) 1)) h
         else h)"

definition claim_scrollback2_tail :: "nat \<Rightarrow> nat \<Rightarrow> history \<Rightarrow> history \<times> nat option" where
  "claim_scrollback2_tail off len h =
     (if off + len \<le> row_count h then (h, None)
      else (h\<lparr>row_count := off + len\<rparr>, Some (row_count h - off)))"

text \<open>The rows of a body past the count go into the ring.\<close>

definition append_tail :: "nat \<Rightarrow> bytes list \<Rightarrow> history \<Rightarrow> history" where
  "append_tail off rws h = (case claim_scrollback2_tail off (length rws) h of
       (h', Some skip) \<Rightarrow> h'\<lparr>scrollback := append_owned (drop skip rws) (scrollback h')\<rparr>
     | (h', None) \<Rightarrow> h')"

definition lose_rows :: "nat \<Rightarrow> history \<Rightarrow> history" where
  "lose_rows upto_row h = h\<lparr>scrollback := mark_not_received (upto_row - row_count h) (scrollback h),
     row_count := upto_row\<rparr>"

definition extent_floor :: "history \<Rightarrow> nat" where
  "extent_floor h = (case row_extent h of None \<Rightarrow> 0 | Some x \<Rightarrow> unat (evicted_upto x))"

definition gone_to :: "history \<Rightarrow> nat" where
  "gone_to h = (case first_offset (row_held h) of None \<Rightarrow> extent_floor h | Some off \<Rightarrow> min off (extent_floor h))"

lemma append_tail_frame [simp]:
  "row_held (append_tail off rws h) = row_held h" "row_extent (append_tail off rws h) = row_extent h"
  "row_epoch (append_tail off rws h) = row_epoch h" "scroll_offset (append_tail off rws h) = scroll_offset h"
  by (simp_all add: append_tail_def claim_scrollback2_tail_def)

lemma take_reachable_shrinks:
  "take_reachable t h = (h', Some e) \<Longrightarrow> length (bodies h') < length (bodies h)"
  by (auto simp: take_reachable_def split: list.splits prod.splits if_splits)

function settle_history :: "history \<Rightarrow> history" where
  "settle_history h =
     (case take_reachable (row_count h) (row_held h) of
        (held, Some (off, rws)) \<Rightarrow> settle_history (append_tail off rws (h\<lparr>row_held := held\<rparr>))
      | (_, None) \<Rightarrow> (if gone_to h \<le> row_count h then h else settle_history (lose_rows (gone_to h) h)))"
  by pat_completeness auto
termination
  by (relation "measures [\<lambda>h. length (bodies (row_held h)), \<lambda>h. extent_floor h - row_count h]")
     (auto dest!: take_reachable_shrinks [OF sym] simp: lose_rows_def extent_floor_def gone_to_def split: option.splits)

declare settle_history.simps [simp del]

definition apply_scrollback2_rows :: "nat \<Rightarrow> bytes list \<Rightarrow> history \<Rightarrow> history" where
  "apply_scrollback2_rows off rws h = settle_history
     (if off > row_count h \<and> row_extent h \<noteq> None then h\<lparr>row_held := fst (hold off rws (row_held h))\<rparr>
      else append_tail off rws (if off > row_count h then lose_rows off h else h))"

text \<open>The version-2 arm of \<open>apply_frame\<close>, ahead of the stale gate.\<close>

definition apply_scrollback2_body :: "u8 \<Rightarrow> nat \<Rightarrow> bytes list \<Rightarrow> history \<Rightarrow> history" where
  "apply_scrollback2_body e off rws h =
     (if row_epoch h \<noteq> Some e then h
      else if off + length rws \<le> row_count h then h
      else keep_history_anchor (history_mark h) (apply_scrollback2_rows off rws h))"

text \<open>The epoch acknowledgement and the extent of a frame's table.\<close>

definition adopt_epoch :: "cap list \<Rightarrow> history \<Rightarrow> history" where
  "adopt_epoch table h = (case find_cap table CAP_SCROLLBACK2 of
       None \<Rightarrow> h
     | Some c \<Rightarrow> (case decode_scrollback2_ack (payload c) of
          Inl _ \<Rightarrow> h
        | Inr e \<Rightarrow> (if row_epoch h \<noteq> Some e then clear_v2_row_space (Some e) h else h)))"

definition adopt_extent :: "scrollback2_extent \<Rightarrow> history \<Rightarrow> history" where
  "adopt_extent x h =
     (let x' = extent_merge (case row_extent h of Some y \<Rightarrow> y | None \<Rightarrow> x) x
      in keep_history_anchor (history_mark h) (settle_history (h\<lparr>row_extent := Some x'\<rparr>)))"

definition adopt_extent_cap :: "cap list \<Rightarrow> history \<Rightarrow> history" where
  "adopt_extent_cap table h =
     (case opt_filter (\<lambda>x. row_epoch h = Some (ext_epoch x))
        (Option.bind (find_cap table CAP_SCROLLBACK2_EXTENT) (\<lambda>c. decode_scrollback2_extent (payload c))) of
        None \<Rightarrow> h
      | Some x \<Rightarrow> adopt_extent x h)"

section \<open>The visible screen\<close>

definition remember_base :: "u64 \<Rightarrow> bytes \<Rightarrow> 't screen \<Rightarrow> 't screen" where
  "remember_base n dump s =
     (if \<not> base_history_on s then s
      else (let bh = base_history s @ [(n, dump)]
            in s\<lparr>base_history := (if length bh > BASE_HISTORY_DEPTH then tl bh else bh)\<rparr>))"

definition request_resync :: "'t screen \<Rightarrow> 't screen" where
  "request_resync s = s\<lparr>cflags := cflags s OR CLIENT_FLAG_RESYNC\<rparr>"

text \<open>
  The base a delta is applied against: its number must be the applied one, or for a diff that of a
  dump still retained, and its checksum, when stamped, must be that of the bytes. The error side is the
  state of the early return.
\<close>

definition find_base :: "u64 \<Rightarrow> bool \<Rightarrow> 't screen \<Rightarrow> 't screen + bytes option" where
  "find_base n is_diff s =
     (if n = applied_num s then Inr None
      else (let kept = (if is_diff \<and> n < applied_num s \<and> base_history_on s
                        then map_option snd (find (\<lambda>e. fst e = n) (rev (base_history s))) else None)
            in case kept of
                 Some d \<Rightarrow> Inr (Some d)
               | None \<Rightarrow> Inl (if n < applied_num s then request_resync s else s)))"

definition check_base :: "u64 \<Rightarrow> u32 option \<Rightarrow> bool \<Rightarrow> 't screen \<Rightarrow> 't screen + bytes option" where
  "check_base n bsum is_diff s = (case find_base n is_diff s of
       Inl s' \<Rightarrow> Inl s'
     | Inr kept \<Rightarrow>
         (case bsum of
            None \<Rightarrow> Inr kept
          | Some v \<Rightarrow>
              (if base_checksum (case kept of Some d \<Rightarrow> d | None \<Rightarrow> applied_data s) \<noteq> v
               then Inl (request_resync s) else Inr kept)))"

definition apply_visible :: "'t terminal_ops \<Rightarrow> u64 \<Rightarrow> frame_body \<Rightarrow> bytes option \<Rightarrow> 't screen \<Rightarrow> 't screen \<times> bool" where
  "apply_visible T n b kept s =
     (if n = applied_num s then (s, True)
      else (case applier (sync_codec s) T (scr_rows s) (scr_cols s)
                   (case kept of Some d \<Rightarrow> d | None \<Rightarrow> applied_data s) (server_term s) b of
         (t, Advanced dump) \<Rightarrow>
           ((remember_base n dump (s\<lparr>server_term := t, applied_num := n\<rparr>))\<lparr>applied_data := dump\<rparr>, True)
       | (t, AdvancedNoDump) \<Rightarrow> (s\<lparr>server_term := t, applied_num := n\<rparr>, True)
       | (t, ReackAndWait) \<Rightarrow> (request_resync (s\<lparr>server_term := t\<rparr>), True)
       | (t, NoChange) \<Rightarrow> (s\<lparr>server_term := t\<rparr>, False)))"

text \<open>A growth body of the version-1 stream, and the whole of \<open>apply_frame\<close>.\<close>

definition apply_growth :: "u64 \<Rightarrow> u64 \<Rightarrow> bytes list \<Rightarrow> history \<times> 't screen \<Rightarrow> history \<times> 't screen" where
  "apply_growth n bn rws = (\<lambda>(h, s).
     (if n = applied_num s \<or> bn \<noteq> applied_num s then (h, s)
      else (let h = h\<lparr>scrollback := append_owned rws (scrollback h)\<rparr>;
                h = (if scroll_offset h > 0 then set_scroll (scroll_offset h + length rws) h else h)
            in (h, s\<lparr>applied_num := n\<rparr>))))"

definition apply_frame ::
  "'t terminal_ops \<Rightarrow> u64 \<Rightarrow> frame_body \<Rightarrow> history \<times> 't screen \<Rightarrow> (history \<times> 't screen) \<times> bool" where
  "apply_frame T n b = (\<lambda>(h, s).
     (case b of
        Scrollback2 e off rws \<Rightarrow> ((apply_scrollback2_body e (unat off) rws h, s), True)
      | _ \<Rightarrow>
        (if n < applied_num s then ((h, s), True)
         else (case b of
            Scrollback bn rws \<Rightarrow> (apply_growth n bn rws (h, s), True)
          | Empty \<Rightarrow> ((h, s), False)
          | Diff bn bsum _ \<Rightarrow>
              (case check_base bn bsum True s of
                 Inl s' \<Rightarrow> ((h, s'), True)
               | Inr kept \<Rightarrow> (let (s', r) = apply_visible T n b kept s in ((h, s'), r)))
          | Morph bn bsum _ \<Rightarrow>
              (case check_base bn bsum False s of
                 Inl s' \<Rightarrow> ((h, s'), True)
               | Inr kept \<Rightarrow> (let (s', r) = apply_visible T n b kept s in ((h, s'), r)))
          | _ \<Rightarrow> (let (s', r) = apply_visible T n b None s in ((h, s'), r))))))"

section \<open>The viewport's own resize\<close>

definition resize_viewport :: "u16 \<times> u16 \<Rightarrow> history \<times> 't screen \<Rightarrow> history \<times> 't screen" where
  "resize_viewport sz = (\<lambda>(h, s).
     (if sz = (scr_rows s, scr_cols s) then (h, s)
      else (clear_v2_row_space None h,
            s\<lparr>scr_rows := fst sz, scr_cols := snd sz, base_history := []\<rparr>)))"

section \<open>Flags and capability entries\<close>

definition good :: "'a result \<Rightarrow> 'a option" where
  "good r = (case r of Inl _ \<Rightarrow> None | Inr v \<Rightarrow> Some v)"

definition or_keep :: "'a option \<Rightarrow> 'a option \<Rightarrow> 'a option" where
  "or_keep found old = (case found of Some _ \<Rightarrow> found | None \<Rightarrow> old)"

definition decoded :: "cap list \<Rightarrow> u8 \<Rightarrow> (bytes \<Rightarrow> 'a option) \<Rightarrow> 'a option" where
  "decoded table i dec = Option.bind (find_cap table i) (\<lambda>c. dec (payload c))"

definition note_flags :: "u8 \<Rightarrow> server_facts \<Rightarrow> server_facts" where
  "note_flags fl f = f\<lparr>echo_on := (fl AND FLAG_ECHO \<noteq> 0), server_log_on := (fl AND FLAG_SERVER_LOG \<noteq> 0),
     wedge_seen := (fl AND FLAG_WEDGE \<noteq> 0)\<rparr>"

text \<open>\<open>find(DIAG).or_else(find(SERVER_STATE))\<close>.\<close>

definition note_entries :: "cap list \<Rightarrow> server_facts \<Rightarrow> server_facts" where
  "note_entries table f =
     (let diag = (case find_cap table CAP_DIAG of Some c \<Rightarrow> Some c | None \<Rightarrow> find_cap table CAP_SERVER_STATE)
      in f\<lparr>last_server_diag := or_keep (Option.bind diag (\<lambda>c. good (decode_server_diag (payload c)))) (last_server_diag f),
           known_ident := or_keep (decoded table CAP_SERVER_IDENT (\<lambda>p. good (decode_server_ident p))) (known_ident f),
           known_activity := or_keep (decoded table CAP_SESSION_ACTIVITY (\<lambda>p. good (decode_session_activity p))) (known_activity f),
           known_kind := (case decoded table CAP_SESSION_KIND decode_session_kind of Some k \<Rightarrow> k | None \<Rightarrow> known_kind f),
           push_offered := (push_offered f \<or> find_cap table CAP_PUSH_CMD \<noteq> None)\<rparr>)"

definition note_shutdown :: "u8 \<Rightarrow> cap list \<Rightarrow> server_facts \<Rightarrow> server_facts" where
  "note_shutdown fl table f =
     (if fl AND FLAG_SHUTDOWN = 0 then f
      else f\<lparr>shutdown_seen := True,
             exit_status := (case decoded table CAP_EXIT_STATUS (\<lambda>p. get_at p 0) of Some c \<Rightarrow> c | None \<Rightarrow> exit_status f),
             exit_cause := (case find_cap table CAP_EXIT_CAUSE of
                Some c \<Rightarrow> decode_exit_cause (payload c) | None \<Rightarrow> exit_cause f)\<rparr>)"

definition note_metrics :: "cap list \<Rightarrow> server_facts \<Rightarrow> server_facts" where
  "note_metrics table f =
     (case decoded table CAP_METRICS decode_metrics of Some v \<Rightarrow> f\<lparr>remote_metrics := v\<rparr> | None \<Rightarrow> f)"

definition process_frame :: "'t terminal_ops \<Rightarrow> server_frame \<Rightarrow> 't client \<Rightarrow> 't client \<times> bool" where
  "process_frame T fr c =
     (let c = c\<lparr>outbox := outbox_ack (input_ack fr) (outbox c)\<rparr>;
          f = note_entries (caps fr) (note_flags (flags fr) (facts c));
          h = adopt_extent_cap (caps fr) (adopt_epoch (caps fr) (hist c));
          f = note_metrics (caps fr) (note_shutdown (flags fr) (caps fr) f);
          ((h, s), r) = apply_frame T (frame_num fr) (body fr) (h, scr c)
      in (c\<lparr>hist := h, scr := s, facts := f\<rparr>, r))"

text \<open>What reaches the client: frames, its own resizes, the wheel.\<close>

datatype client_input = Frame server_frame | Resize "u16 \<times> u16" | Wheel int

fun client_step :: "'t terminal_ops \<Rightarrow> client_input \<Rightarrow> 't client \<Rightarrow> 't client" where
  "client_step T (Frame fr) c = fst (process_frame T fr c)"
| "client_step T (Resize sz) c = (let (h, s) = resize_viewport sz (hist c, scr c) in c\<lparr>hist := h, scr := s\<rparr>)"
| "client_step T (Wheel n) c = c\<lparr>hist := scroll_by n (hist c)\<rparr>"

section \<open>What the client advertises\<close>

text \<open>
  The entries of \<open>outgoing_caps\<close> the history and the resync depend on. The resize message omits the
  scrollback entries once.
\<close>

definition scrollback_caps :: "bool \<Rightarrow> history \<Rightarrow> cap list" where
  "scrollback_caps suppress_once h =
     (if suppress_once then []
      else encode_scrollback2_client \<lparr>ring_depth = 0, sb2_epoch = (case row_epoch h of Some e \<Rightarrow> e | None \<Rightarrow> 0),
             acked_rows = of_nat (row_count h)\<rparr> #
           (if row_epoch h = None then [\<lparr>cap_id = CAP_SCROLLBACK, payload = [0]\<rparr>] else []))"

definition drop_ident_on_resync :: "u8 \<Rightarrow> server_facts \<Rightarrow> server_facts" where
  "drop_ident_on_resync fl f = (if fl AND CLIENT_FLAG_RESYNC \<noteq> 0 then f\<lparr>known_ident := None\<rparr> else f)"

end
