(* ===== verification/FrameClientFacts.thy ===== *)
theory FrameClientFacts
  imports FrameClient ScrollbackFacts
begin

text \<open>
  The viewport's history shows the server's rows: every row in the view is the row the server numbered so,
  whatever frames arrive, in whatever order, and the rows it never got are counted by the holes.
\<close>

section \<open>Numbered views\<close>

fun entry_span :: "view_entry \<Rightarrow> nat" where
  "entry_span (Row _) = 1"
| "entry_span (NotReceived n) = n"

definition span_of :: "view_entry list \<Rightarrow> nat" where
  "span_of es = sum_list (map entry_span es)"

text \<open>The rows of a view whose first entry is number \<open>n\<close> are those of \<open>src\<close>.\<close>

fun rows_match :: "(nat \<Rightarrow> bytes) \<Rightarrow> nat \<Rightarrow> view_entry list \<Rightarrow> bool" where
  "rows_match src n [] = True"
| "rows_match src n (Row b # es) = (b = src n \<and> rows_match src (n + 1) es)"
| "rows_match src n (NotReceived k # es) = rows_match src (n + k) es"

lemma span_of_simps [simp]:
  "span_of [] = 0" "span_of (e # es) = entry_span e + span_of es" "span_of (xs @ ys) = span_of xs + span_of ys"
  by (simp_all add: span_of_def)

lemma span_of_rows [simp]: "span_of (map Row rws) = length rws"
  by (induction rws) simp_all

lemma rows_match_append [simp]:
  "rows_match src n (xs @ ys) \<longleftrightarrow> rows_match src n xs \<and> rows_match src (n + span_of xs) ys"
  by (induction src n xs rule: rows_match.induct) (simp_all add: add.assoc)

lemma rows_match_source [simp]: "rows_match src n (map (Row \<circ> src) [n..<m])"
  by (induction "m - n" arbitrary: n) (simp_all add: upt_conv_Cons)

lemma rows_match_nth:
  "rows_match src n es \<Longrightarrow> i < length es \<Longrightarrow> es ! i = Row b \<Longrightarrow> b = src (n + span_of (take i es))"
proof (induction src n es arbitrary: i rule: rows_match.induct)
  case (2 src n b' es)
  then show ?case by (cases i) auto
next
  case (3 src n k es)
  then show ?case by (cases i) (auto simp: add.assoc)
qed simp

definition view_matches :: "(nat \<Rightarrow> bytes) \<Rightarrow> nat \<Rightarrow> view_entry list \<Rightarrow> bool" where
  "view_matches src m es \<longleftrightarrow> span_of es \<le> m \<and> rows_match src (m - span_of es) es"

lemma view_matches_append:
  "view_matches src m es \<Longrightarrow> rows_match src m new \<Longrightarrow> view_matches src (m + span_of new) (es @ new)"
  by (simp add: view_matches_def)

lemma view_matches_drop: "view_matches src m (xs @ ys) \<Longrightarrow> view_matches src m ys"
  by (auto simp: view_matches_def intro: arg_cong2 [THEN iffD1, rotated])

lemma trim_suffix: "\<exists>xs. es = xs @ trim cap es"
proof (induction es)
  case (Cons e es)
  then obtain xs where "es = xs @ trim cap es" by blast
  then show ?case by (metis append.left_neutral append_Cons trim.simps(2))
qed simp

lemma view_matches_trim: "view_matches src m es \<Longrightarrow> view_matches src m (trim cap es)"
  using trim_suffix [of es cap] view_matches_drop by metis

lemma view_matches_mark:
  assumes "view_matches src m es"
  shows "view_matches src (m + n) (mark_view n es)"
proof (cases "\<exists>l xs. rev es = NotReceived l # xs")
  case True
  then obtain l xs where "rev es = NotReceived l # xs" by blast
  then have "es = rev xs @ [NotReceived l]" by (metis rev.simps(2) rev_rev_ident)
  with assms show ?thesis by (simp add: mark_view.simps view_matches_def)
next
  case False
  then have "mark_view n es = (if n = 0 then es else es @ [NotReceived n])"
    by (auto simp: mark_view.simps split: list.splits view_entry.splits)
  with view_matches_append [OF assms, of "[NotReceived n]"] assms show ?thesis by simp
qed

section \<open>The history operations\<close>

definition body_honest :: "(nat \<Rightarrow> bytes) \<Rightarrow> nat \<Rightarrow> bytes list \<Rightarrow> bool" where
  "body_honest src off rws \<longleftrightarrow> rws = map src [off..<off + length rws]"

definition history_honest :: "(nat \<Rightarrow> bytes) \<Rightarrow> history \<Rightarrow> bool" where
  "history_honest src h \<longleftrightarrow> ring_ok (scrollback h) \<and> view_matches src (row_count h) (view (scrollback h)) \<and>
     (\<forall>b \<in> set (bodies (row_held h)). body_honest src (fst b) (snd b))"

lemma drop_honest: "body_honest src off rws \<Longrightarrow> k \<le> length rws \<Longrightarrow> drop k rws = map src [off + k..<off + length rws]"
  unfolding body_honest_def by (metis drop_map drop_upt)

lemma append_tail_honest:
  assumes h: "history_honest src h" and b: "body_honest src off rws" and le: "off \<le> row_count h"
  shows "history_honest src (append_tail off rws h)"
proof (cases "off + length rws \<le> row_count h")
  case True
  with h show ?thesis by (simp add: append_tail_def claim_scrollback2_tail_def)
next
  case False
  let ?new = "drop (row_count h - off) rws"
  have new: "?new = map src [row_count h..<off + length rws]"
    using drop_honest [OF b, of "row_count h - off"] le False by simp
  have "view_matches src (row_count h + span_of (map Row ?new)) (view (scrollback h) @ map Row ?new)"
    using h by (intro view_matches_append) (simp_all add: history_honest_def new)
  then have "view_matches src (off + length rws) (trim (capacity (scrollback h)) (view (scrollback h) @ map Row ?new))"
    using False le by (intro view_matches_trim) (simp add: add.commute)
  moreover have "append_tail off rws h = h\<lparr>row_count := off + length rws, scrollback := append_owned ?new (scrollback h)\<rparr>"
    using False by (simp add: append_tail_def claim_scrollback2_tail_def)
  ultimately show ?thesis using h append_owned_view [of "scrollback h" ?new] by (simp add: history_honest_def)
qed

lemma lose_rows_honest: "history_honest src h \<Longrightarrow> row_count h \<le> n \<Longrightarrow> history_honest src (lose_rows n h)"
  using mark_view_ring [of "scrollback h" "n - row_count h"]
    view_matches_mark [of src "row_count h" "view (scrollback h)" "n - row_count h"]
  by (simp add: history_honest_def lose_rows_def)

lemma take_reachable_honest:
  assumes "history_honest src h" "take_reachable t (row_held h) = (g, e)"
  shows "history_honest src (h\<lparr>row_held := g\<rparr>) \<and>
    (case e of Some (off, rws) \<Rightarrow> off \<le> t \<and> body_honest src off rws | None \<Rightarrow> True)"
  using assms by (fastforce simp: take_reachable_def history_honest_def split: list.splits if_splits)

lemma settle_history_honest: "history_honest src h \<Longrightarrow> history_honest src (settle_history h)"
proof (induction h rule: settle_history.induct)
  case (1 h)
  obtain g e where t: "take_reachable (row_count h) (row_held h) = (g, e)" by force
  note th = take_reachable_honest [OF "1.prems" t]
  show ?case
  proof (cases e)
    case None
    then show ?thesis using 1 t
      by (subst settle_history.simps) (auto simp: lose_rows_honest)
  next
    case (Some p)
    obtain off rws where p: "p = (off, rws)" by force
    then have a: "history_honest src (append_tail off rws (h\<lparr>row_held := g\<rparr>))"
      using th Some by (intro append_tail_honest) auto
    have "history_honest src (settle_history (append_tail off rws (h\<lparr>row_held := g\<rparr>)))"
      by (rule 1(2)) (use a t Some p in auto)
    then show ?thesis using t Some p by (subst settle_history.simps) simp
  qed
qed

lemma hold_honest:
  assumes "\<forall>b \<in> set (bodies g). body_honest src (fst b) (snd b)" "body_honest src off rws"
  shows "\<forall>b \<in> set (bodies (fst (hold off rws g))). body_honest src (fst b) (snd b)"
proof -
  have "set (insert_body k v es) \<subseteq> insert (k, v) (set es)" for k :: nat and v :: "bytes list" and es
    by (induction k v es rule: insert_body.induct) auto
  then have "\<forall>b \<in> set (insert_body off rws (bodies g)). body_honest src (fst b) (snd b)"
    using assms by fastforce
  with assms(1) show ?thesis by (simp add: hold_def Let_def)
qed

lemma anchor_frame [simp]:
  "scrollback (keep_history_anchor m h) = scrollback h" "row_count (keep_history_anchor m h) = row_count h"
  "row_held (keep_history_anchor m h) = row_held h" "row_epoch (keep_history_anchor m h) = row_epoch h"
  "row_extent (keep_history_anchor m h) = row_extent h"
  by (simp_all add: keep_history_anchor_def set_scroll_def Let_def)

lemma settle_frame [simp]:
  "row_epoch (settle_history h) = row_epoch h" "row_extent (settle_history h) = row_extent h"
proof (induction h rule: settle_history.induct)
  case (1 h)
  { case 1 show ?case using "1.IH" by (subst settle_history.simps) (auto split: prod.splits option.splits simp: lose_rows_def) }
  { case 2 show ?case using "1.IH" by (subst settle_history.simps) (auto split: prod.splits option.splits simp: lose_rows_def) }
qed

lemma anchor_honest [simp]: "history_honest src (keep_history_anchor m h) = history_honest src h"
  by (simp add: history_honest_def)

lemma apply_body_honest:
  assumes "history_honest src h" "row_epoch h = Some e \<Longrightarrow> body_honest src off rws"
  shows "history_honest src (apply_scrollback2_body e off rws h)"
proof (cases "row_epoch h \<noteq> Some e \<or> off + length rws \<le> row_count h")
  case True
  with assms(1) show ?thesis by (auto simp: apply_scrollback2_body_def)
next
  case False
  then have b: "body_honest src off rws" using assms(2) by simp
  have "history_honest src (apply_scrollback2_rows off rws h)"
  proof (cases "off > row_count h \<and> row_extent h \<noteq> None")
    case True
    then have "history_honest src (h\<lparr>row_held := fst (hold off rws (row_held h))\<rparr>)"
      using assms(1) b hold_honest [of "row_held h" src off rws] by (simp add: history_honest_def)
    with True settle_history_honest show ?thesis by (simp add: apply_scrollback2_rows_def)
  next
    case f: False
    have "history_honest src (append_tail off rws (if off > row_count h then lose_rows off h else h))"
      using assms(1) b by (intro append_tail_honest) (simp_all add: lose_rows_honest, simp add: lose_rows_def)
    with f settle_history_honest show ?thesis unfolding apply_scrollback2_rows_def by (auto split: if_splits)
  qed
  with False show ?thesis by (simp add: apply_scrollback2_body_def)
qed

lemma adopt_extent_honest: "history_honest src h \<Longrightarrow> history_honest src (adopt_extent x h)"
  unfolding adopt_extent_def Let_def anchor_honest
  by (intro settle_history_honest) (simp add: history_honest_def)

lemma clear_honest:
  "ring_ok (scrollback h) \<Longrightarrow> history_honest src (clear_v2_row_space e h)"
  by (simp add: history_honest_def clear_v2_row_space_def held_clear_def ring_clear_def ring_ok_def view_def
    first_number_def view_matches_def)

section \<open>Frames\<close>

text \<open>What a frame does to the history alone.\<close>

fun frame_history :: "server_frame \<Rightarrow> history \<Rightarrow> history" where
  "frame_history fr h =
     (let h = adopt_extent_cap (caps fr) (adopt_epoch (caps fr) h)
      in case body fr of Scrollback2 e off rws \<Rightarrow> apply_scrollback2_body e (unat off) rws h | _ \<Rightarrow> h)"

definition is_growth :: "frame_body \<Rightarrow> bool" where
  "is_growth b \<longleftrightarrow> (case b of Scrollback _ _ \<Rightarrow> True | _ \<Rightarrow> False)"

lemma process_frame_history:
  "\<not> is_growth (body fr) \<Longrightarrow> hist (fst (process_frame T fr c)) = frame_history fr (hist c)"
  by (simp add: process_frame_def Let_def apply_frame_def is_growth_def split: frame_body.splits prod.splits sum.splits)

text \<open>
  The truth gives each epoch its rows; a frame is honest when its history body carries rows of its epoch.
\<close>

definition honest_frame :: "(u8 \<Rightarrow> nat \<Rightarrow> bytes) \<Rightarrow> server_frame \<Rightarrow> bool" where
  "honest_frame truth fr \<longleftrightarrow> (case body fr of Scrollback2 e off rws \<Rightarrow> body_honest (truth e) (unat off) rws
     | Scrollback _ _ \<Rightarrow> False | _ \<Rightarrow> True)"

fun honest_input :: "(u8 \<Rightarrow> nat \<Rightarrow> bytes) \<Rightarrow> client_input \<Rightarrow> bool" where
  "honest_input truth (Frame fr) = honest_frame truth fr"
| "honest_input truth _ = True"

definition epoch_honest :: "(u8 \<Rightarrow> nat \<Rightarrow> bytes) \<Rightarrow> history \<Rightarrow> bool" where
  "epoch_honest truth h \<longleftrightarrow> ring_ok (scrollback h) \<and>
     (case row_epoch h of Some e \<Rightarrow> history_honest (truth e) h | None \<Rightarrow> True)"

lemma clear_epoch_honest:
  assumes "ring_ok (scrollback h)"
  shows "epoch_honest truth (clear_v2_row_space e h)"
proof -
  have "history_honest src (clear_v2_row_space e h)" for src by (rule clear_honest [OF assms])
  then show ?thesis by (auto simp: epoch_honest_def history_honest_def split: option.splits)
qed

lemma adopt_epoch_honest: "epoch_honest truth h \<Longrightarrow> epoch_honest truth (adopt_epoch table h)"
proof -
  assume h: "epoch_honest truth h"
  have "epoch_honest truth (clear_v2_row_space (Some e) h)" for e
    using h by (intro clear_epoch_honest) (simp add: epoch_honest_def)
  with h show ?thesis by (auto simp: adopt_epoch_def split: option.splits sum.splits)
qed

lemma adopt_extent_cap_honest: "epoch_honest truth h \<Longrightarrow> epoch_honest truth (adopt_extent_cap table h)"
proof -
  assume h: "epoch_honest truth h"
  have "epoch_honest truth (adopt_extent x h)" if e: "row_epoch h = Some (ext_epoch x)" for x
  proof -
    have "history_honest (truth (ext_epoch x)) (adopt_extent x h)"
      using h e by (simp add: epoch_honest_def adopt_extent_honest)
    moreover have "row_epoch (adopt_extent x h) = row_epoch h" by (simp add: adopt_extent_def Let_def)
    ultimately show ?thesis using e by (simp add: epoch_honest_def history_honest_def)
  qed
  with h show ?thesis
    by (auto simp: adopt_extent_cap_def opt_filter_def split: option.splits if_splits)
qed

lemma body_epoch [simp]: "row_epoch (apply_scrollback2_body e off rws h) = row_epoch h"
  by (simp add: apply_scrollback2_body_def apply_scrollback2_rows_def lose_rows_def)

lemma frame_history_honest:
  assumes "epoch_honest truth h" "honest_frame truth fr"
  shows "epoch_honest truth (frame_history fr h)"
proof -
  let ?h = "adopt_extent_cap (caps fr) (adopt_epoch (caps fr) h)"
  have h: "epoch_honest truth ?h" using assms(1) by (intro adopt_extent_cap_honest adopt_epoch_honest)
  show ?thesis
  proof (cases "body fr")
    case (Scrollback2 e off rws)
    then have b: "body_honest (truth e) (unat off) rws" using assms(2) by (simp add: honest_frame_def)
    have "epoch_honest truth (apply_scrollback2_body e (unat off) rws ?h)"
    proof (cases "row_epoch ?h")
      case None
      then show ?thesis using h by (simp add: apply_scrollback2_body_def)
    next
      case (Some e')
      then have "history_honest (truth e') ?h" using h by (simp add: epoch_honest_def)
      then have "history_honest (truth e') (apply_scrollback2_body e (unat off) rws ?h)"
        using b Some by (intro apply_body_honest) auto
      with Some show ?thesis by (simp add: epoch_honest_def history_honest_def)
    qed
    with Scrollback2 show ?thesis by simp
  qed (use h in simp_all)
qed

lemma client_step_honest:
  assumes "epoch_honest truth (hist c)" "honest_input truth i"
  shows "epoch_honest truth (hist (client_step T i c))"
proof (cases i)
  case (Frame fr)
  then have "\<not> is_growth (body fr)"
    using assms(2) by (simp add: honest_frame_def is_growth_def split: frame_body.splits)
  with Frame assms show ?thesis
    by (simp add: process_frame_history frame_history_honest del: frame_history.simps)
next
  case (Resize sz)
  have "epoch_honest truth (clear_v2_row_space None (hist c))"
    using assms(1) by (intro clear_epoch_honest) (simp add: epoch_honest_def)
  with Resize assms(1) show ?thesis by (simp add: resize_viewport_def)
next
  case (Wheel n)
  with assms(1) show ?thesis
    by (simp add: epoch_honest_def history_honest_def scroll_by_def set_scroll_def split: option.splits)
qed

lemma client_run_honest:
  "epoch_honest truth (hist c) \<Longrightarrow> \<forall>i \<in> set is. honest_input truth i \<Longrightarrow>
     epoch_honest truth (hist (fold (client_step T) is c))"
proof (induction "is" arbitrary: c)
  case (Cons i "is")
  from Cons.IH [of "client_step T i c"] client_step_honest [of truth c i T] Cons.prems show ?case by simp
qed simp

lemma client_new_honest: "epoch_honest truth (hist (client_new T codec retain r c))"
  using ring_new_ok by (simp add: epoch_honest_def client_new_def history_new_def)

text \<open>The number of the row at view index \<open>i\<close>: counted back from the rows accounted for.\<close>

definition row_number :: "history \<Rightarrow> nat \<Rightarrow> nat" where
  "row_number h i = row_count h - span_of (drop i (map (\<lambda>k. the (view_row (scrollback h) k)) [0..<view_len (scrollback h)]))"

lemma view_entries:
  assumes "ring_ok r"
  shows "map (\<lambda>k. the (view_row r k)) [0..<view_len r] = view r"
proof (rule nth_equalityI)
  have l: "view_len r = length (view r)" by (simp add: view_len_def view_def length_view_from)
  then show "length (map (\<lambda>k. the (view_row r k)) [0..<view_len r]) = length (view r)" by simp
  show "map (\<lambda>k. the (view_row r k)) [0..<view_len r] ! i = view r ! i"
    if "i < length (map (\<lambda>k. the (view_row r k)) [0..<view_len r])" for i
    using that l view_row_view [OF assms, of i] by (simp add: get_at_def)
qed

lemma shown_row_honest:
  assumes h: "history_honest src h" and v: "view_row (scrollback h) i = Some (Row b)"
  shows "b = src (row_number h i)"
proof -
  let ?v = "view (scrollback h)"
  have ok: "ring_ok (scrollback h)" and m: "view_matches src (row_count h) ?v" using h by (simp_all add: history_honest_def)
  have i: "i < length ?v" "?v ! i = Row b" using v view_row_view [OF ok, of i] by (simp_all add: get_at_def split: if_splits)
  have s: "span_of ?v = span_of (take i ?v) + span_of (drop i ?v)"
    by (metis append_take_drop_id span_of_simps(3))
  have "b = src (row_count h - span_of ?v + span_of (take i ?v))"
    using m i by (intro rows_match_nth) (simp_all add: view_matches_def)
  moreover have "row_count h - span_of ?v + span_of (take i ?v) = row_number h i"
    using m s by (simp add: row_number_def view_entries [OF ok] view_matches_def)
  ultimately show ?thesis by simp
qed

text \<open>
  Whatever honest frames the client processes, in any order, with any loss and repetition, between
  resizes and scrolling, with any extents and epoch changes: every row its history view shows is the
  server's row of that number in the adopted epoch.
\<close>

lemma history_view_honest:
  assumes "fold (client_step T) is (client_new T codec retain r c) = st" "\<forall>i \<in> set is. honest_input truth i"
    and "row_epoch (hist st) = Some e" "view_row (scrollback (hist st)) k = Some (Row b)"
  shows "b = truth e (row_number (hist st) k)"
proof -
  have "epoch_honest truth (hist st)"
    unfolding assms(1) [symmetric] by (rule client_run_honest [OF client_new_honest assms(2)])
  with assms(3,4) show ?thesis by (intro shown_row_honest) (simp_all add: epoch_honest_def)
qed

text \<open>An instance: a terminal that keeps its bytes, an epoch, two rows and a repetition that overlaps.\<close>

definition byte_terminal :: "bytes terminal_ops" where
  "byte_terminal = \<lparr>term_new = (\<lambda>_ _. []), term_process = (@), term_rows = (\<lambda>_. 24), term_cols = (\<lambda>_. 80),
     term_resize = (\<lambda>t _ _. t)\<rparr>"

definition some_frame :: "cap list \<Rightarrow> frame_body \<Rightarrow> client_input" where
  "some_frame table b = Frame \<lparr>flags = 0, caps = table, frame_num = 0, input_ack = 0, echo_ack = 0, body = b\<rparr>"

definition two_row_client :: "bytes client" where
  "two_row_client = fold (client_step byte_terminal)
     [some_frame [encode_scrollback2_ack 1] (Scrollback2 1 0 [[0]]), some_frame [] (Scrollback2 1 0 [[0], [1]])]
     (client_new byte_terminal SyncDumpDiff True 24 80)"

lemma settle_done: "bodies (row_held h) = [] \<Longrightarrow> row_extent h = None \<Longrightarrow> settle_history h = h"
  by (subst settle_history.simps) (simp add: take_reachable_def gone_to_def first_offset_def extent_floor_def)

lemma ack_entry [simp]:
  "find_cap [encode_scrollback2_ack e] CAP_SCROLLBACK2 = Some (encode_scrollback2_ack e)"
  "find_cap [encode_scrollback2_ack e] CAP_SCROLLBACK2_EXTENT = None"
  "decode_scrollback2_ack (payload (encode_scrollback2_ack e)) = Inr e"
  by (simp_all add: find_cap_def encode_scrollback2_ack_def decode_scrollback2_ack_def CAP_SCROLLBACK2_def CAP_SCROLLBACK2_EXTENT_def)

lemma no_entry [simp]: "find_cap [] i = None"
  by (simp add: find_cap_def)

lemma two_row_history:
  "scrollback (hist two_row_client) = append_owned [[1]] (append_owned [[0]] (ring_new SCROLLBACK_RING_DEPTH)) \<and>
   row_epoch (hist two_row_client) = Some 1"
  by (simp add: two_row_client_def some_frame_def process_frame_history is_growth_def adopt_epoch_def
    adopt_extent_cap_def opt_filter_def apply_scrollback2_body_def apply_scrollback2_rows_def settle_done
    append_tail_def claim_scrollback2_tail_def clear_v2_row_space_def held_clear_def client_new_def history_new_def
    held_empty_def ring_clear_def ring_new_def Let_def)

lemma two_rows_shown:
  "view_row (append_owned [[1]] (append_owned [[0]] (ring_new SCROLLBACK_RING_DEPTH))) 1 = Some (Row [1])"
  by (simp add: append_owned_def ring_new_def push_row_def first_number_def view_row_def hole_search.simps
    ring_row_def get_at_def SCROLLBACK_RING_DEPTH_def)

lemma history_view_honest_witness:
  "[1] = (\<lambda>n. [of_nat n] :: bytes) (row_number (hist two_row_client) 1)"
proof (rule history_view_honest [where truth = "\<lambda>e n. [of_nat n]" and k = 1 and e = 1])
  show "fold (client_step byte_terminal)
     [some_frame [encode_scrollback2_ack 1] (Scrollback2 1 0 [[0]]), some_frame [] (Scrollback2 1 0 [[0], [1]])]
     (client_new byte_terminal SyncDumpDiff True 24 80) = two_row_client" by (simp add: two_row_client_def)
  show "\<forall>i \<in> set [some_frame [encode_scrollback2_ack 1] (Scrollback2 1 0 [[0]]), some_frame [] (Scrollback2 1 0 [[0], [1]])].
     honest_input (\<lambda>e n. [of_nat n]) i"
    by (simp add: some_frame_def honest_frame_def body_honest_def)
qed (simp_all add: two_row_history two_rows_shown del: One_nat_def)

end
