(* ===== verification/FrameSystem.thy ===== *)
theory FrameSystem
  imports ServerLoop FrameClientFacts FrameSyncFacts
begin

text \<open>
  The visible screen end to end: the server loop on one side, the client's frame handler on the other,
  between them a network that loses, repeats, delays and reorders. The system remembers beside the two
  states every frame ever sent and the dump of every frame number (\<open>framed\<close>), which is what the
  theorems compare the client's screen with.
\<close>

section \<open>The system\<close>

record ('s, 't) frame_system =
  sys_server :: "'s server_state"
  sys_client :: "'t client"
  wire :: "server_frame list"
  framed :: "bytes list"

datatype 's system_op =
    Server_tick "'s loop_env"
  | Client_message client_message nat nat bool
  | Shell_exit nat "int option"
  | To_client client_input

definition shown_now :: "'s loop_env \<Rightarrow> 's server_state \<Rightarrow> bytes" where
  "shown_now e s = mirror_dump (source_term e) (fst (client_size s)) (snd (client_size s))"

definition system_new :: "'t terminal_ops \<Rightarrow> 's \<Rightarrow> frame_sync \<Rightarrow> bool \<Rightarrow> u16 \<Rightarrow> u16 \<Rightarrow> u64 \<Rightarrow> nat \<Rightarrow> ('s, 't) frame_system" where
  "system_new T blank codec retain r c gen now =
     \<lparr>sys_server = server_new blank r c gen now, sys_client = client_new T codec retain r c, wire = [], framed = [[]]\<rparr>"

fun system_step :: "'t terminal_ops \<Rightarrow> ('s \<Rightarrow> 's \<Rightarrow> bytes) \<Rightarrow> 's system_op \<Rightarrow> ('s, 't) frame_system \<Rightarrow> ('s, 't) frame_system" where
  "system_step T nf (Server_tick e) y =
     (let (s, out) = server_tick nf e (sys_server y)
      in y\<lparr>sys_server := s, wire := wire y @ (case out of Some fr \<Rightarrow> [fr] | None \<Rightarrow> []),
           framed := framed y @ (if num (current (producer s)) = num (current (producer (sys_server y))) then []
                                 else [shown_now e (sys_server y)])\<rparr>)"
| "system_step T nf (Client_message m tot now sp) y = y\<lparr>sys_server := fst (server_message m tot now sp (sys_server y))\<rparr>"
| "system_step T nf (Shell_exit now code) y = y\<lparr>sys_server := shell_exited now code (sys_server y)\<rparr>"
| "system_step T nf (To_client i) y = y\<lparr>sys_client := client_step T i (sys_client y)\<rparr>"

text \<open>
  What can happen. A message reports a frame the client has reached by then (it may be late), does not ask
  for the morph codec, and asks for the version-1 history only beside version 2, as \<open>outgoing_caps\<close>
  does. The dumps fit the diff's 32-bit offsets and the frame numbers do not run out.
\<close>

definition v2_message :: "client_message \<Rightarrow> bool" where
  "v2_message m \<longleftrightarrow> find_cap (msg_caps m) CAP_MORPH = None \<and>
     (find_cap (msg_caps m) CAP_SCROLLBACK = None \<or>
      (case find_cap (msg_caps m) CAP_SCROLLBACK2 of None \<Rightarrow> False
       | Some c \<Rightarrow> (case decode_scrollback2_client (payload c) of Inl _ \<Rightarrow> False | Inr _ \<Rightarrow> True)))"

fun may_happen :: "'s system_op \<Rightarrow> ('s, 't) frame_system \<Rightarrow> bool" where
  "may_happen (Server_tick e) y = (length (framed y) < 2 ^ 64 \<and> length (shown_now e (sys_server y)) < 2 ^ 32)"
| "may_happen (Client_message m _ _ _) y = (acked_frame m \<le> applied_num (scr (sys_client y)) \<and> v2_message m)"
| "may_happen (Shell_exit _ _) y = True"
| "may_happen (To_client i) y = (case i of Frame fr \<Rightarrow> fr \<in> set (wire y) | _ \<Rightarrow> True)"

inductive reachable :: "'t terminal_ops \<Rightarrow> ('s \<Rightarrow> 's \<Rightarrow> bytes) \<Rightarrow> ('s, 't) frame_system \<Rightarrow> bool"
  for T nf where
  start: "reachable T nf (system_new T blank codec retain r c gen now)"
| step: "reachable T nf y \<Longrightarrow> may_happen op y \<Longrightarrow> reachable T nf (system_step T nf op y)"

section \<open>The invariant\<close>

text \<open>A frame rebuilds the dump of its number from the dump of its base.\<close>

definition body_rebuilds :: "bytes list \<Rightarrow> nat \<Rightarrow> frame_body \<Rightarrow> bool" where
  "body_rebuilds fs n b \<longleftrightarrow> (case b of
       Full d \<Rightarrow> n < length fs \<and> d = fs ! n
     | Diff m bsum diff \<Rightarrow> n < length fs \<and> unat m < length fs \<and>
         (bsum = None \<or> bsum = Some (base_checksum (fs ! unat m))) \<and> apply_diff (fs ! unat m) diff = Some (fs ! n)
     | Empty \<Rightarrow> True
     | Scrollback2 _ _ _ \<Rightarrow> True
     | _ \<Rightarrow> False)"

definition screen_honest :: "'t terminal_ops \<Rightarrow> bytes list \<Rightarrow> 't screen \<Rightarrow> bool" where
  "screen_honest T fs s \<longleftrightarrow> unat (applied_num s) < length fs \<and> applied_data s = fs ! unat (applied_num s) \<and>
     list_all (\<lambda>(n, d). unat n < length fs \<and> d = fs ! unat n) (base_history s) \<and>
     (applied_num s = 0 \<or> (\<exists>r c. server_term s = rebuild T r c (applied_data s)))"

definition server_honest :: "bytes list \<Rightarrow> 's server_state \<Rightarrow> bool" where
  "server_honest fs s \<longleftrightarrow> (\<exists>h. producer_ok (h, producer s) \<and> map data h = fs) \<and>
     list_all (\<lambda>d. length d < 2 ^ 32) fs \<and> \<not> wants_scrollback s \<and> \<not> current_is_sb s \<and> \<not> wants_morph s"

definition system_ok :: "'t terminal_ops \<Rightarrow> ('s, 't) frame_system \<Rightarrow> bool" where
  "system_ok T y \<longleftrightarrow> server_honest (framed y) (sys_server y) \<and> screen_honest T (framed y) (scr (sys_client y)) \<and>
     list_all (\<lambda>fr. body_rebuilds (framed y) (unat (frame_num fr)) (body fr)) (wire y) \<and>
     acked_num (producer (sys_server y)) \<le> applied_num (scr (sys_client y))"

subsection \<open>The client keeps it\<close>

lemma applier_visible:
  assumes "\<And>m s e. b \<noteq> Morph m s e"
  shows "applier codec T r c d t b = dumpdiff_apply T r c d t b"
  using assms by (cases codec; cases b) (auto simp: applier_def morph_apply_def)

lemma remember_honest:
  assumes "screen_honest T fs s" "unat n < length fs" "dump = fs ! unat n" "t = rebuild T r c dump"
  shows "screen_honest T fs ((remember_base n dump (s\<lparr>server_term := t, applied_num := n\<rparr>))\<lparr>applied_data := dump\<rparr>)"
proof -
  have "list_all P (tl xs)" if "list_all P xs" for P and xs :: "(u64 \<times> bytes) list"
    using that by (cases xs) auto
  then show ?thesis using assms by (auto simp: screen_honest_def remember_base_def Let_def)
qed

lemma resync_honest [simp]: "screen_honest T fs (request_resync s) = screen_honest T fs s"
  by (simp add: screen_honest_def request_resync_def)

lemma resync_num [simp]: "applied_num (request_resync s) = applied_num s"
  by (simp add: request_resync_def)

lemma find_kept:
  assumes "screen_honest T fs s" "find (\<lambda>e. fst e = m) (rev (base_history s)) = Some e"
  shows "unat m < length fs \<and> snd e = fs ! unat m"
proof -
  have "e \<in> set (base_history s)" "fst e = m"
    using assms(2) by (auto simp: find_Some_iff rev_nth)
  then show ?thesis using assms(1) by (cases e) (auto simp: screen_honest_def list_all_iff)
qed

text \<open>The base a delta is applied against is the dump of the number the delta names.\<close>

lemma check_base_right:
  assumes "screen_honest T fs s" "check_base m bsum d s = Inr kept"
  shows "(case kept of Some x \<Rightarrow> x | None \<Rightarrow> applied_data s) = fs ! unat m"
  using assms find_kept [OF assms(1), of m]
  by (auto simp: check_base_def find_base_def screen_honest_def Let_def split: sum.splits option.splits if_splits)

lemma check_base_refuses:
  assumes "check_base m bsum d s = Inl s'"
  shows "s' = s \<or> s' = request_resync s"
  using assms by (auto simp: check_base_def find_base_def Let_def split: sum.splits option.splits if_splits)

lemma apply_visible_honest:
  assumes s: "screen_honest T fs s" and b: "body_rebuilds fs (unat n) b"
    and base: "\<And>m bsum diff. b = Diff m bsum diff \<Longrightarrow> (case kept of Some x \<Rightarrow> x | None \<Rightarrow> applied_data s) = fs ! unat m"
    and v: "\<And>e off rws. b \<noteq> Scrollback2 e off rws" "b \<noteq> Empty" and n: "applied_num s \<le> n"
  shows "screen_honest T fs (fst (apply_visible T n b kept s)) \<and> applied_num (fst (apply_visible T n b kept s)) = n"
proof (cases "n = applied_num s")
  case False
  have "applier (sync_codec s) T (scr_rows s) (scr_cols s) (case kept of Some x \<Rightarrow> x | None \<Rightarrow> applied_data s) (server_term s) b
     = (rebuild T (scr_rows s) (scr_cols s) (fs ! unat n), Advanced (fs ! unat n))"
    using b base v by (subst applier_visible) (auto simp: body_rebuilds_def dumpdiff_apply_def split: frame_body.splits)
  moreover have "unat n < length fs" using b v by (auto simp: body_rebuilds_def split: frame_body.splits)
  ultimately show ?thesis using False remember_honest [OF s]
    by (simp add: apply_visible_def) (simp add: remember_base_def Let_def)
qed (use s in \<open>simp add: apply_visible_def\<close>)

lemma screen_of_frame:
  "\<not> is_growth (body fr) \<Longrightarrow> \<exists>h. scr (fst (process_frame T fr c)) = snd (fst (apply_frame T (frame_num fr) (body fr) (h, scr c)))"
  by (intro exI [of _ "adopt_extent_cap (caps fr) (adopt_epoch (caps fr) (hist c))"])
     (simp add: process_frame_def Let_def split_beta)

lemma apply_frame_honest:
  assumes s: "screen_honest T fs s" and b: "body_rebuilds fs (unat n) b"
  shows "screen_honest T fs (snd (fst (apply_frame T n b (h, s)))) \<and> applied_num s \<le> applied_num (snd (fst (apply_frame T n b (h, s))))"
proof (cases "n < applied_num s")
  case True
  with s show ?thesis by (simp add: apply_frame_def split: frame_body.splits)
next
  case False
  then have n: "applied_num s \<le> n" by simp
  show ?thesis
  proof (cases b)
    case (Full d)
    with apply_visible_honest [OF s b _ _ _ n, of None] False n show ?thesis
      by (simp add: apply_frame_def split_beta)
  next
    case (Diff m bsum diff)
    show ?thesis
    proof (cases "check_base m bsum True s")
      case (Inl s')
      with check_base_refuses [OF Inl] False s Diff show ?thesis by (auto simp: apply_frame_def)
    next
      case (Inr kept)
      with apply_visible_honest [OF s b _ _ _ n, of kept] check_base_right [OF s Inr] False n Diff show ?thesis
        by (simp add: apply_frame_def split_beta)
    qed
  qed (use b s False in \<open>auto simp: body_rebuilds_def apply_frame_def\<close>)
qed

lemma body_rebuilds_growth: "body_rebuilds fs n b \<Longrightarrow> \<not> is_growth b"
  by (simp add: body_rebuilds_def is_growth_def split: frame_body.splits)

lemma client_keeps:
  assumes "screen_honest T fs (scr c)" "\<And>fr. i = Frame fr \<Longrightarrow> body_rebuilds fs (unat (frame_num fr)) (body fr)"
  shows "screen_honest T fs (scr (client_step T i c)) \<and> applied_num (scr c) \<le> applied_num (scr (client_step T i c))"
proof (cases i)
  case (Frame fr)
  with screen_of_frame [of fr T c] apply_frame_honest [OF assms(1) assms(2)] body_rebuilds_growth [OF assms(2)]
  show ?thesis by fastforce
next
  case (Resize sz)
  have "screen_honest T fs ((scr c)\<lparr>scr_rows := r, scr_cols := k, base_history := []\<rparr>)" for r k
    using assms(1) unfolding screen_honest_def by (elim conjE) simp
  with Resize assms(1) show ?thesis by (simp add: resize_viewport_def)
qed (use assms(1) in simp)

subsection \<open>The server keeps it\<close>

lemma encode_current:
  assumes ok: "producer_ok (h, p)" and small: "list_all (\<lambda>d. length d < 2 ^ 32) (map data h)"
  shows "\<exists>b. encode_visible nf False p = b \<and> body_rebuilds (map data h) (unat (num (current p))) b \<and>
    (\<forall>m bsum diff. b = Diff m bsum diff \<longrightarrow> m = acked_num p \<and> acked_data p = Some (data (h ! unat m))) \<and>
    b \<noteq> Empty \<and> (\<forall>e off rws. b \<noteq> Scrollback2 e off rws)"
proof -
  have h: "h \<noteq> []" "current p = last h" "unat (acked_num p) < length h" using ok by (auto simp: producer_ok_def)
  have cur: "unat (num (current p)) = length h - 1" by (rule current_number [OF ok])
  have d: "data (current p) = map data h ! (length h - 1)" "length h - 1 < length h"
    using h by (simp_all add: last_conv_nth)
  show ?thesis
  proof (cases "acked_data p")
    case None
    then have "encode_visible nf False p = Full (data (current p))"
      by (simp add: encode_visible_def acked_view_def dumpdiff_encode_def current_view_def)
    with d cur h show ?thesis by (simp add: body_rebuilds_def)
  next
    case (Some x)
    let ?f = "h ! unat (acked_num p)"
    have a: "acked_data p = Some (data ?f)" "acked_baseline p = Some (frame_base ?f)"
      using ok Some by (auto simp: producer_ok_def)
    have "length (data ?f) < 2 ^ 32" using small h(3) by (simp add: list_all_length)
    then have "apply_diff (data ?f) (make_diff (data ?f) (data (current p))) = Some (data (current p))"
      by (rule diff_roundtrip_base)
    with d cur h a show ?thesis
      by (simp add: encode_visible_def acked_view_def dumpdiff_encode_def current_view_def body_rebuilds_def
        frame_base_def Let_def)
  qed
qed

lemma stamp_keeps:
  assumes "body_rebuilds fs n b" "\<forall>m bsum diff. b = Diff m bsum diff \<longrightarrow> kd = Some (fs ! unat m)"
  shows "body_rebuilds fs n (stamp_base_sum kd b)"
  using assms by (cases b) (auto simp: stamp_base_sum_def body_rebuilds_def split: option.splits)

lemma stamp_shape:
  "stamp_base_sum kd b = Diff m bsum diff \<Longrightarrow> \<exists>bs. b = Diff m bs diff"
  "(stamp_base_sum kd b = Empty) = (b = Empty)"
  "(stamp_base_sum kd b = Scrollback2 e off rws) = (b = Scrollback2 e off rws)"
  by (auto simp: stamp_base_sum_def split: option.splits frame_body.splits)

text \<open>Every visible body the server builds rebuilds the current dump, a diff from the acknowledged one.\<close>

lemma visible_body_right:
  assumes ok: "producer_ok (h, producer s)" and small: "list_all (\<lambda>d. length d < 2 ^ 32) (map data h)" and m: "\<not> wants_morph s"
  shows "body_rebuilds (map data h) (unat (num (current (producer s)))) (visible_body nf s) \<and>
    (\<forall>k bsum diff. visible_body nf s = Diff k bsum diff \<longrightarrow> k = acked_num (producer s)) \<and>
    visible_body nf s \<noteq> Empty \<and> (\<forall>e off rws. visible_body nf s \<noteq> Scrollback2 e off rws)"
proof -
  obtain b where b: "encode_visible nf False (producer s) = b" "body_rebuilds (map data h) (unat (num (current (producer s)))) b"
    "\<forall>m bsum diff. b = Diff m bsum diff \<longrightarrow> m = acked_num (producer s) \<and> acked_data (producer s) = Some (data (h ! unat m))"
    "b \<noteq> Empty" "\<forall>e off rws. b \<noteq> Scrollback2 e off rws"
    using encode_current [OF ok small, of nf] by blast
  have "unat m < length h" if "b = Diff m bsum diff" for m bsum diff
    using b(2) that by (simp add: body_rebuilds_def)
  then have "body_rebuilds (map data h) (unat (num (current (producer s)))) (stamp_base_sum (acked_data (producer s)) b)"
    using b(2,3) by (intro stamp_keeps) auto
  with b m stamp_shape [of "acked_data (producer s)" b] show ?thesis by (auto simp: visible_body_def Let_def)
qed

text \<open>What a step leaves as it is.\<close>

definition same_wants :: "'s server_state \<Rightarrow> 's server_state \<Rightarrow> bool" where
  "same_wants s s' \<longleftrightarrow> wants_scrollback s' = wants_scrollback s \<and> current_is_sb s' = current_is_sb s \<and>
     wants_morph s' = wants_morph s \<and> wants_base_sum s' = wants_base_sum s"

lemma nudge_keeps [simp]:
  "producer (nudge e s) = producer s" "client_size (nudge e s) = client_size s" "same_wants s0 (nudge e s) = same_wants s0 s"
  "sb2 (nudge e s) = sb2 s" "wants_scrollback (nudge e s) = wants_scrollback s" "current_is_sb (nudge e s) = current_is_sb s"
  "last_frame_at (nudge e s) = last_frame_at s" "shutting_down (nudge e s) = shutting_down s" "last_gen (nudge e s) = last_gen s"
  by (simp_all add: nudge_def same_wants_def)

lemma stall_keeps [simp]:
  "producer (note_stall e v s) = producer s" "client_size (note_stall e v s) = client_size s"
  "same_wants s0 (note_stall e v s) = same_wants s0 s" "sb2 (note_stall e v s) = sb2 s"
  "wants_scrollback (note_stall e v s) = wants_scrollback s" "current_is_sb (note_stall e v s) = current_is_sb s"
  "last_frame_at (note_stall e v s) = last_frame_at s" "shutting_down (note_stall e v s) = shutting_down s"
  "last_gen (note_stall e v s) = last_gen s" "force_frame (note_stall e v s) = force_frame s"
  by (simp_all add: note_stall_def same_wants_def Let_def)

lemma no_growth_choice: "\<not> wants_scrollback s \<Longrightarrow> choose_frame e s \<noteq> MakeScrollback"
  by (simp add: choose_frame_def want_scrollback_def Let_def)

lemma visible_body_cong:
  "producer s' = producer s \<Longrightarrow> same_wants s s' \<Longrightarrow> visible_body nf s' = visible_body nf s"
  by (simp add: visible_body_def same_wants_def Let_def)

text \<open>What a tick does, from a state that neither streams version-1 history nor has it in hand.\<close>

definition tick_sends :: "('s \<Rightarrow> 's \<Rightarrow> bytes) \<Rightarrow> 's server_state \<Rightarrow> frame_choice \<Rightarrow> server_frame \<Rightarrow> bool" where
  "tick_sends nf s ch fr \<longleftrightarrow> frame_num fr = num (current (producer s)) \<and>
     (case ch of SendEmpty \<Rightarrow> body fr = Empty | MakeSb2 \<Rightarrow> (\<exists>e off rws. body fr = Scrollback2 e off rws)
      | _ \<Rightarrow> body fr = visible_body nf s)"

lemma build_result:
  assumes "\<not> current_is_sb s" "build_body nf e ch s = (s', b)"
  shows "producer s' = producer s \<and> same_wants s s' \<and>
    (case ch of SendEmpty \<Rightarrow> b = Empty | MakeSb2 \<Rightarrow> (\<exists>e off rws. b = Scrollback2 e off rws) | _ \<Rightarrow> b = visible_body nf s)"
  using assms by (auto simp: build_body_def same_wants_def next_body_def Let_def split: if_splits prod.splits frame_choice.splits)

definition next_producer :: "'s loop_env \<Rightarrow> frame_choice \<Rightarrow> 's server_state \<Rightarrow> 's frame_producer" where
  "next_producer e ch s = (if ch = MakeVisible
     then advance_visible (shown_now e s) (view_snapshot (source_term e)) (view_alt (source_term e)) (view_dims (source_term e))
       (of_nat (acked_sb_total s)) (producer s)
     else producer s)"

lemma take_result:
  assumes "\<not> wants_scrollback s" "\<not> current_is_sb s" "ch = choose_frame e s"
  shows "producer (take_choice e ch s) = next_producer e ch s \<and> same_wants s (take_choice e ch s)"
  using assms no_growth_choice [of s e]
  by (auto simp: take_choice_def next_producer_def shown_now_def same_wants_def Let_def split: frame_choice.splits)

definition tick_start :: "'s loop_env \<Rightarrow> 's server_state \<Rightarrow> 's server_state" where
  "tick_start e s = (let (ec, moved) = echo_update (env_now e) (srv_echo s);
      s = nudge e (s\<lparr>srv_echo := ec, force_ack := (force_ack s \<or> moved)\<rparr>)
    in note_stall e (choose_frame e s = MakeVisible) s)"

lemma tick_start_keeps [simp]:
  "producer (tick_start e s) = producer s" "client_size (tick_start e s) = client_size s" "same_wants s (tick_start e s)"
  "sb2 (tick_start e s) = sb2 s" "last_frame_at (tick_start e s) = last_frame_at s" "acked_sb_total (tick_start e s) = acked_sb_total s"
  "shutting_down (tick_start e s) = shutting_down s" "last_gen (tick_start e s) = last_gen s"
  by (simp_all add: tick_start_def Let_def split_beta) (simp_all add: same_wants_def nudge_def note_stall_def Let_def)

lemma tick_result:
  assumes w: "\<not> wants_scrollback s0" "\<not> current_is_sb s0" and t: "server_tick nf e s0 = (s', out)"
  defines "ch \<equiv> choose_frame e (tick_start e s0)"
  shows "same_wants s0 s' \<and>
    (if has_remote e \<and> env_now e - last_heard s0 < PEER_TIMEOUT \<and> ch \<noteq> SendNothing
     then producer s' = next_producer e ch s0 \<and> (\<exists>fr. out = Some fr \<and> tick_sends nf s' ch fr)
     else producer s' = producer s0 \<and> out = None)"
proof -
  have w': "\<not> wants_scrollback (tick_start e s0)" "\<not> current_is_sb (tick_start e s0)"
    using w tick_start_keeps(3) [of s0 e] by (simp_all add: same_wants_def)
  obtain ec moved where ec: "echo_update (env_now e) (srv_echo s0) = (ec, moved)" by (metis surj_pair)
  show ?thesis
  proof (cases "has_remote e \<and> env_now e - last_heard s0 < PEER_TIMEOUT")
    case False
    then show ?thesis using t by (auto simp: server_tick_def ec Let_def same_wants_def)
  next
    case live: True
    show ?thesis
    proof (cases "ch = SendNothing")
      case True
      then show ?thesis using t live tick_start_keeps(3) [of s0 e] unfolding ch_def
        by (auto simp: server_tick_def ec Let_def tick_start_def)
    next
      case False
      let ?s = "(take_choice e ch (tick_start e s0))\<lparr>force_ack := False\<rparr>"
      obtain s2 b where b: "build_body nf e ch ?s = (s2, b)" by (metis surj_pair)
      have s': "s' = (retry_reap e s2)\<lparr>last_frame_at := env_now e\<rparr> \<and> out = Some (assemble_frame e (retry_reap e s2) b)"
        using t live False b unfolding ch_def by (auto simp: server_tick_def ec Let_def tick_start_def)
      note tk = take_result [OF w' meta_eq_to_obj_eq [OF ch_def]]
      have "\<not> current_is_sb ?s" using tk w' by (simp add: same_wants_def)
      note bb = build_result [OF this b]
      have p: "producer s' = next_producer e ch s0" and sw: "same_wants s0 s'" "same_wants ?s s'"
        using bb tk s' tick_start_keeps(3) [of s0 e]
        by (simp_all add: retry_reap_def next_producer_def shown_now_def same_wants_def)
      have "visible_body nf ?s = visible_body nf s'"
        using visible_body_cong [of s' ?s nf] p sw(2) tk by (simp add: next_producer_def shown_now_def)
      then have "\<exists>fr. out = Some fr \<and> tick_sends nf s' ch fr"
        using s' bb by (auto simp: tick_sends_def assemble_frame_def retry_reap_def split: frame_choice.splits)
      with p sw live False show ?thesis by simp
    qed
  qed
qed

lemma honest_append:
  "body_rebuilds fs n b \<Longrightarrow> body_rebuilds (fs @ gs) n b"
  "screen_honest T fs s \<Longrightarrow> screen_honest T (fs @ gs) s"
proof -
  show "body_rebuilds fs n b \<Longrightarrow> body_rebuilds (fs @ gs) n b"
    by (auto simp: body_rebuilds_def nth_append split: frame_body.splits)
  show "screen_honest T fs s \<Longrightarrow> screen_honest T (fs @ gs) s"
    unfolding screen_honest_def by (elim conjE) (simp add: nth_append list_all_iff split_beta trans_less_add1)
qed

lemma advance_dump [simp]: "data (current (advance_visible d sn a dm t p)) = d"
  "num (current (advance_visible d sn a dm t p)) = num (current p) + 1"
  "acked_num (advance_visible d sn a dm t p) = acked_num p"
  by (simp_all add: advance_visible_def rotate_current_def Let_def)

lemma next_honest:
  assumes ok: "producer_ok (h, producer s)" and room: "length h < 2 ^ 64"
  shows "\<exists>h'. producer_ok (h', next_producer e ch s) \<and>
    map data h' = map data h @ (if num (current (next_producer e ch s)) = num (current (producer s)) then [] else [shown_now e s])"
proof (cases "ch = MakeVisible")
  case True
  let ?op = "AdvanceVisible (shown_now e s) (view_snapshot (source_term e)) (view_alt (source_term e)) (view_dims (source_term e))
    (of_nat (acked_sb_total s))"
  have p: "next_producer e ch s = producer_step ?op (producer s)" using True by (simp add: next_producer_def)
  have "producer_ok (h @ [current (producer_step ?op (producer s))], producer_step ?op (producer s))"
    by (rule producer_advance_ok [OF ok room]) simp
  then show ?thesis unfolding p by (intro exI conjI, assumption) simp
qed (use ok in \<open>auto simp: next_producer_def\<close>)

lemma tick_keeps:
  assumes s: "server_honest fs s" and room: "length fs < 2 ^ 64" and small: "length (shown_now e s) < 2 ^ 32"
    and t: "server_tick nf e s = (s', out)"
  defines "fs' \<equiv> fs @ (if num (current (producer s')) = num (current (producer s)) then [] else [shown_now e s])"
  shows "server_honest fs' s' \<and> acked_num (producer s') = acked_num (producer s) \<and>
    (\<forall>fr. out = Some fr \<longrightarrow> body_rebuilds fs' (unat (frame_num fr)) (body fr))"
proof -
  obtain h where h: "producer_ok (h, producer s)" "map data h = fs" and q: "list_all (\<lambda>d. length d < 2 ^ 32) fs"
    "\<not> wants_scrollback s" "\<not> current_is_sb s" "\<not> wants_morph s" using s by (auto simp: server_honest_def)
  let ?ch = "choose_frame e (tick_start e s)"
  note r = tick_result [OF q(2,3) t]
  have w: "\<not> wants_scrollback s'" "\<not> current_is_sb s'" "\<not> wants_morph s'" using r q by (auto simp: same_wants_def)
  have "producer s' = producer s \<or> producer s' = next_producer e ?ch s" using r by (auto split: if_splits)
  moreover have "length h < 2 ^ 64" using room h(2) by auto
  ultimately obtain h' where h': "producer_ok (h', producer s')" "map data h' = fs'"
    using next_honest [OF h(1), of e ?ch] h unfolding fs'_def by fastforce
  have fs': "list_all (\<lambda>d. length d < 2 ^ 32) fs'" using q(1) small by (simp add: fs'_def)
  have "server_honest fs' s'" unfolding server_honest_def using h' fs' w by blast
  moreover have "acked_num (producer s') = acked_num (producer s)" using r by (auto simp: next_producer_def split: if_splits)
  moreover have "body_rebuilds fs' (unat (frame_num fr)) (body fr)" if "out = Some fr" for fr
  proof -
    have "tick_sends nf s' ?ch fr" using r that by (auto split: if_splits)
    then show ?thesis using visible_body_right [OF h'(1) _ w(3), of nf] fs' h'(2)
      by (cases ?ch) (auto simp: tick_sends_def body_rebuilds_def)
  qed
  ultimately show ?thesis by blast
qed

lemma activate_active [simp]: "active (activate start tot h)"
  by (cases start) (simp_all add: activate_def Let_def)

lemma bump_active [simp]: "active (bump_epoch tot h) = active h"
  by (simp add: bump_epoch_def)

lemma entry_active: "active (on_client_entry en tot now h)"
  by (simp add: on_client_entry_def on_ack_def)

lemma size_active [simp]: "active (fst (on_client_size sz tot h)) = active h"
  by (simp add: on_client_size_def Let_def)

lemma v2_opens:
  assumes "v2_message m" "find_cap (msg_caps m) CAP_SCROLLBACK \<noteq> None"
  shows "epoch_of (sb2 (note_history m tot now s)) \<noteq> None"
  using assms entry_active by (auto simp: v2_message_def note_history_def Let_def epoch_of_def split: option.splits sum.splits)

lemma note_history_keeps [simp]:
  "producer (note_history m tot now s) = producer s" "current_is_sb (note_history m tot now s) = current_is_sb s"
  "shutting_down (note_history m tot now s) = shutting_down s" "last_heard (note_history m tot now s) = last_heard s"
  "force_frame (note_history m tot now s) = force_frame s" "last_gen (note_history m tot now s) = last_gen s"
  by (simp_all add: note_history_def Let_def split: option.splits sum.splits)

lemma note_wants_keeps [simp]:
  "producer (note_wants m tot s) = producer s" "current_is_sb (note_wants m tot s) = current_is_sb s"
  "shutting_down (note_wants m tot s) = shutting_down s" "last_heard (note_wants m tot s) = last_heard s"
  "force_frame (note_wants m tot s) = force_frame s" "last_gen (note_wants m tot s) = last_gen s"
  by (simp_all add: note_wants_def Let_def)

text \<open>The part of a message before its acknowledgement is taken.\<close>

definition message_front :: "client_message \<Rightarrow> nat \<Rightarrow> bool \<Rightarrow> 's server_state \<Rightarrow> 's server_state" where
  "message_front m now spawned s =
     (let s = fst (handle_client_message m now
            (s\<lparr>last_heard := now, wants_exit := (wants_exit s \<or> find_cap (msg_caps m) CAP_EXIT_STATUS \<noteq> None)\<rparr>));
          s = (if msg_flags m AND CLIENT_FLAG_SHUTDOWN \<noteq> 0 \<and> \<not> shutting_down s
               then s\<lparr>shutting_down := True, shutdown_at := now, force_frame := True\<rparr> else s)
      in (if spawned then s\<lparr>force_frame := True\<rparr> else s))"

lemma server_message_parts:
  "fst (server_message m tot now sp s) = note_wants m tot (note_history m tot now (ack_frame m (message_front m now sp s)))"
  by (simp add: server_message_def message_front_def Let_def split_beta)

lemma handle_keeps [simp]:
  "producer (fst (handle_client_message m now s)) = producer s"
  "current_is_sb (fst (handle_client_message m now s)) = current_is_sb s"
  "last_heard (fst (handle_client_message m now s)) = last_heard s"
  "force_frame (fst (handle_client_message m now s)) = force_frame s"
  by (simp_all add: handle_client_message_def Let_def split: prod.splits option.splits)

lemma front_keeps [simp]:
  "producer (message_front m now sp s) = producer s" "current_is_sb (message_front m now sp s) = current_is_sb s"
  "last_heard (message_front m now sp s) = now"
  by (simp_all add: message_front_def Let_def)

lemma ack_frame_keeps [simp]:
  "current_is_sb (ack_frame m s) = current_is_sb s" "last_heard (ack_frame m s) = last_heard s"
  "shutting_down (ack_frame m s) = shutting_down s" "last_gen (ack_frame m s) = last_gen s"
  by (simp_all add: ack_frame_def Let_def split_beta)

lemma ack_frame_producer:
  "producer (ack_frame m s) = (let p = fst (ack (acked_frame m) (producer s))
     in if msg_flags m AND CLIENT_FLAG_RESYNC \<noteq> 0 then drop_acked_base p else p)"
  by (simp add: ack_frame_def Let_def split_beta)

lemma drop_base_keeps [simp]: "acked_num (drop_acked_base p) = acked_num p" "current (drop_acked_base p) = current p"
  by (simp_all add: drop_acked_base_def)

lemma message_keeps:
  fixes tot now :: nat and sp :: bool
  assumes s: "server_honest fs s" and m: "v2_message m"
  defines "s' \<equiv> fst (server_message m tot now sp s)"
  shows "server_honest fs s' \<and> current (producer s') = current (producer s) \<and> last_heard s' = now \<and>
    acked_num (producer s') = (if acked_frame m \<le> acked_num (producer s) \<or> num (current (producer s)) < acked_frame m
      then acked_num (producer s) else acked_frame m)"
proof -
  obtain h where h: "producer_ok (h, producer s)" "map data h = fs" using s by (auto simp: server_honest_def)
  let ?p = "fst (ack (acked_frame m) (producer s))"
  have p: "producer_ok (h, ?p)" "current ?p = current (producer s)"
    "acked_num ?p = (if acked_frame m \<le> acked_num (producer s) \<or> num (current (producer s)) < acked_frame m
      then acked_num (producer s) else acked_frame m)"
    using ack_ok [OF h(1)] ack_history [OF h(1), of "acked_frame m"]
    by (auto simp: ack_def)
  have s'p: "producer s' = ?p \<or> producer s' = drop_acked_base ?p"
    by (simp add: s'_def server_message_parts ack_frame_producer Let_def)
  then have "producer_ok (h, producer s')" using p(1) drop_base_ok by auto
  moreover have "\<not> wants_scrollback s'" "\<not> wants_morph s'"
    using v2_opens [OF m, of tot now "ack_frame m (message_front m now sp s)"] m
    by (auto simp: s'_def server_message_parts note_wants_def Let_def v2_message_def)
  moreover have "\<not> current_is_sb s'" using s by (simp add: s'_def server_message_parts server_honest_def)
  ultimately have "server_honest fs s'" using s h(2) by (auto simp: server_honest_def)
  moreover have "last_heard s' = now" by (simp add: s'_def server_message_parts)
  ultimately show ?thesis using s'p p(2,3) by auto
qed

section \<open>Every reachable state\<close>

lemma system_ok_new: "system_ok T (system_new T blank codec retain r c gen now)"
proof -
  have "server_honest [[]] (server_new blank r c gen now)"
    using producer_ok_start [of blank r c] by (auto simp: server_honest_def server_new_def start_producer_def producer_new_def
      intro: exI [of _ "[current (producer_new blank r c)]"])
  then show ?thesis
    by (simp add: system_ok_def system_new_def client_new_def screen_honest_def server_new_def producer_new_def)
qed

lemma system_ok_step:
  assumes y: "system_ok T y" and may: "may_happen op y"
  shows "system_ok T (system_step T nf op y)"
proof -
  have sv: "server_honest (framed y) (sys_server y)" and cl: "screen_honest T (framed y) (scr (sys_client y))"
    and wi: "list_all (\<lambda>fr. body_rebuilds (framed y) (unat (frame_num fr)) (body fr)) (wire y)"
    and an: "acked_num (producer (sys_server y)) \<le> applied_num (scr (sys_client y))"
    using y by (simp_all add: system_ok_def)
  show ?thesis
  proof (cases op)
    case (Server_tick e)
    obtain s' out where t: "server_tick nf e (sys_server y) = (s', out)" by (metis surj_pair)
    have "length (framed y) < 2 ^ 64" "length (shown_now e (sys_server y)) < 2 ^ 32" using may Server_tick by simp_all
    from tick_keeps [OF sv this t] honest_append(2) [OF cl] an wi honest_append(1)
    show ?thesis unfolding Server_tick
      by (auto simp: system_ok_def t list_all_iff split: option.splits)
  next
    case (Client_message m tot now sp)
    with message_keeps [OF sv, of m tot now sp] may cl wi an show ?thesis by (auto simp: system_ok_def)
  next
    case (Shell_exit now code)
    with sv cl wi an show ?thesis by (auto simp: system_ok_def server_honest_def shell_exited_def)
  next
    case (To_client i)
    have "screen_honest T (framed y) (scr (client_step T i (sys_client y))) \<and>
        applied_num (scr (sys_client y)) \<le> applied_num (scr (client_step T i (sys_client y)))"
      by (rule client_keeps [OF cl]) (use may wi To_client in \<open>auto simp: list_all_iff\<close>)
    with sv wi an To_client show ?thesis by (auto simp: system_ok_def)
  qed
qed

lemma reachable_ok: "reachable T nf y \<Longrightarrow> system_ok T y"
  by (induction rule: reachable.induct) (auto intro: system_ok_new system_ok_step)

text \<open>
  C24. However frames are lost, repeated, delayed and reordered, and however acknowledgements arrive, what
  the client has applied under a frame number is, byte for byte, the dump the server made for that number,
  and the client's terminal is that dump replayed.
\<close>

theorem visible_screen_exact:
  assumes "reachable T nf y"
  shows "\<exists>d. unat (applied_num (scr (sys_client y))) < length (framed y) \<and>
    d = framed y ! unat (applied_num (scr (sys_client y))) \<and> applied_data (scr (sys_client y)) = d \<and>
    (applied_num (scr (sys_client y)) = 0 \<or> (\<exists>r c. server_term (scr (sys_client y)) = rebuild T r c d))"
  using reachable_ok [OF assms] unfolding system_ok_def screen_honest_def by (elim conjE) simp

section \<open>Recovery\<close>

text \<open>
  One exchange that gets through: a message of the client, a tick of the server, and the tick's frame, if
  it sent one.
\<close>

definition exchange :: "'t terminal_ops \<Rightarrow> ('s \<Rightarrow> 's \<Rightarrow> bytes) \<Rightarrow> client_message \<Rightarrow> nat \<Rightarrow> nat \<Rightarrow> bool \<Rightarrow> 's loop_env \<Rightarrow>
    ('s, 't) frame_system \<Rightarrow> ('s, 't) frame_system" where
  "exchange T nf m tot now sp e y =
     (let y1 = system_step T nf (Client_message m tot now sp) y;
          y2 = system_step T nf (Server_tick e) y1
      in if length (wire y2) = length (wire y1) then y2 else system_step T nf (To_client (Frame (last (wire y2)))) y2)"

lemma exchange_reachable:
  fixes tot now :: nat and sp :: bool and e :: "'s loop_env"
  assumes y: "reachable T nf y" and m: "may_happen (Client_message m tot now sp) y"
    and t: "may_happen (Server_tick e) (system_step T nf (Client_message m tot now sp) y)"
  shows "reachable T nf (exchange T nf m tot now sp e y)"
proof -
  let ?y1 = "system_step T nf (Client_message m tot now sp) y"
  let ?y2 = "system_step T nf (Server_tick e) ?y1"
  have r2: "reachable T nf ?y2" by (intro reachable.step y m t)
  have "length (wire ?y2) \<noteq> length (wire ?y1) \<Longrightarrow> last (wire ?y2) \<in> set (wire ?y2)"
    by (intro last_in_set) (auto simp: split_beta)
  with r2 reachable.step [OF r2, of "To_client (Frame (last (wire ?y2)))"] show ?thesis
    by (auto simp: exchange_def Let_def simp del: system_step.simps)
qed

lemma newest:
  assumes "producer_ok (h, p)" "map data h = fs"
  shows "fs ! unat (num (current p)) = last fs"
    and "screen_honest T fs s \<Longrightarrow> applied_num s \<le> num (current p)"
proof -
  have l: "unat (num (current p)) = length fs - 1" "fs \<noteq> []"
    using current_number [OF assms(1)] assms by (auto simp: producer_ok_def)
  then show "fs ! unat (num (current p)) = last fs" by (simp add: last_conv_nth)
  show "screen_honest T fs s \<Longrightarrow> applied_num s \<le> num (current p)"
    using l by (auto simp: screen_honest_def word_le_nat_alt)
qed

lemma reaches:
  assumes s: "screen_honest T fs s" and b: "body_rebuilds fs (unat n) b" and v: "b \<noteq> Empty" "\<And>e off rws. b \<noteq> Scrollback2 e off rws"
    and base: "\<And>m bsum diff. b = Diff m bsum diff \<Longrightarrow> m = applied_num s" and n: "applied_num s \<le> n"
  shows "applied_num (snd (fst (apply_frame T n b (h, s)))) = n"
proof -
  have nn: "\<not> n < applied_num s" using n by simp
  show ?thesis
  proof (cases b)
    case (Full d)
    with apply_visible_honest [OF s b _ _ _ n, of None] nn show ?thesis by (simp add: apply_frame_def split_beta)
  next
    case (Diff m bsum diff)
    have m: "m = applied_num s" by (rule base [OF Diff])
    have c: "check_base m bsum True s = Inr None"
      using b s unfolding Diff m by (auto simp: check_base_def find_base_def body_rebuilds_def screen_honest_def)
    with apply_visible_honest [OF s b _ _ _ n, of None] check_base_right [OF s c] nn Diff show ?thesis
      by (simp add: apply_frame_def split_beta)
  qed (use b v in \<open>auto simp: body_rebuilds_def\<close>)
qed

lemma choice_here:
  assumes "\<not> want_sb2 e s \<or> (is_dirty e s \<or> force_frame s) \<and> last_was_sb s" "\<not> wants_scrollback s" "is_paced e s"
    "is_dirty e s \<or> force_frame s \<or> env_rto e \<le> env_now e - last_frame_at s"
  defines "s1 \<equiv> tick_start e s"
  shows "choose_frame e s1 \<noteq> MakeSb2 \<and> choose_frame e s1 \<noteq> MakeScrollback \<and>
    (is_dirty e s \<longrightarrow> choose_frame e s1 = MakeVisible) \<and>
    (choose_frame e s1 \<in> {SendEmpty, SendNothing} \<longrightarrow> num (current (producer s)) \<le> acked_num (producer s))"
proof -
  have f: "force_frame s \<Longrightarrow> force_frame s1"
    by (auto simp: s1_def tick_start_def Let_def split_beta nudge_def)
  have "last_was_sb s1 = last_was_sb s"
    by (auto simp: s1_def tick_start_def Let_def split_beta nudge_def note_stall_def)
  moreover have v: "is_dirty e s \<or> force_frame s \<Longrightarrow> want_visible e s1"
    using assms(3) f by (auto simp: want_visible_def is_dirty_def is_paced_def s1_def)
  moreover have "\<not> want_sb2 e s \<Longrightarrow> \<not> want_sb2 e s1" using f by (auto simp: want_sb2_def s1_def is_paced_def)
  ultimately have sb2: "\<not> want_sb2 e s1 \<or> want_visible e s1 \<and> last_was_sb s1" using assms(1) by blast
  have sb: "\<not> want_scrollback e s1"
    using assms(2) tick_start_keeps(3) [of s e] by (simp add: want_scrollback_def s1_def same_wants_def)
  have "\<not> want_visible e s1 \<Longrightarrow> env_rto e \<le> env_now e - last_frame_at s1 \<and> producer s1 = producer s"
    using v assms(4) by (auto simp: s1_def)
  with sb2 sb v show ?thesis by (auto simp: choose_frame_def Let_def not_less)
qed

definition client_after :: "'t terminal_ops \<Rightarrow> server_frame option \<Rightarrow> 't client \<Rightarrow> 't client" where
  "client_after T out c = (case out of None \<Rightarrow> c | Some fr \<Rightarrow> fst (process_frame T fr c))"

text \<open>A tick whose base the client has, with no history in the way, brings it to the newest frame.\<close>

lemma tick_reaches:
  assumes sv: "server_honest fs s" "server_honest fs2 s2" and cl: "screen_honest T fs (scr c)" "screen_honest T fs2 (scr c)"
    and acked: "acked_num (producer s) = applied_num (scr c)"
    and live: "has_remote e" "env_now e - last_heard s < PEER_TIMEOUT"
    and due: "is_paced e s" "is_dirty e s \<or> force_frame s \<or> env_rto e \<le> env_now e - last_frame_at s"
      "\<not> want_sb2 e s \<or> (is_dirty e s \<or> force_frame s) \<and> last_was_sb s"
    and t: "server_tick nf e s = (s2, out)"
  shows "applied_num (scr (client_after T out c)) = num (current (producer s2))"
proof -
  let ?ch = "choose_frame e (tick_start e s)"
  have w: "\<not> wants_scrollback s" "\<not> current_is_sb s" using sv(1) by (simp_all add: server_honest_def)
  note ch = choice_here [OF due(3) w(1) due(1,2)] and tr = tick_result [OF w t]
  obtain h h2 where h: "producer_ok (h, producer s)" "map data h = fs" and h2: "producer_ok (h2, producer s2)" "map data h2 = fs2"
    using sv by (auto simp: server_honest_def)
  show ?thesis
  proof (cases "?ch \<in> {SendEmpty, SendNothing}")
    case True
    then have "num (current (producer s)) = applied_num (scr c)" "producer s2 = producer s"
      using ch tr newest(2) [OF h cl(1)] acked by (auto simp: next_producer_def split: if_splits)
    moreover have "body fr = Empty" if "out = Some fr" for fr
      using tr True that by (auto simp: tick_sends_def split: if_splits)
    ultimately show ?thesis
      by (cases out) (simp_all add: client_after_def process_frame_def apply_frame_def Let_def)
  next
    case False
    then obtain fr where fr: "out = Some fr" "tick_sends nf s2 ?ch fr" and p2: "producer s2 = next_producer e ?ch s"
      using tr live by (auto split: if_splits)
    have sends: "frame_num fr = num (current (producer s2))" "body fr = visible_body nf s2"
      using fr(2) False ch by (cases ?ch; simp add: tick_sends_def)+
    have "list_all (\<lambda>d. length d < 2 ^ 32) (map data h2)" "\<not> wants_morph s2" using sv(2) h2(2) by (simp_all add: server_honest_def)
    note vb = visible_body_right [OF h2(1) this, of nf, unfolded h2(2)]
    have a2: "acked_num (producer s2) = applied_num (scr c)" using p2 acked by (auto simp: next_producer_def)
    have rb: "body_rebuilds fs2 (unat (frame_num fr)) (body fr)" using vb sends by simp
    have "applied_num (snd (fst (apply_frame T (frame_num fr) (body fr) (g, scr c)))) = num (current (producer s2))" for g
      using reaches [OF cl(2) rb, where h = g] vb sends newest(2) [OF h2 cl(2)] a2 by simp
    then show ?thesis
      using screen_of_frame [of fr T c] body_rebuilds_growth [OF rb] fr(1) unfolding client_after_def by (metis option.case(2))
  qed
qed

text \<open>
  C25. Recovery: in every reachable state, whatever was lost before, take one exchange that gets through: a
  message acknowledging exactly the frame the client has applied, a tick within the peer timeout of it, and the
  tick's frame. If the tick is paced, there is something to send (the terminal changed, a frame is forced, or the
  retransmission timeout has passed since the last frame), and no history body goes first (none waits, or the
  screen wants out and the last body was history), the exchange brings the client to the server's newest frame
  number and its dump; when the terminal had changed since the last frame, that dump is its present screen.
\<close>

theorem visible_recovers:
  fixes tot now :: nat and sp :: bool and e :: "'s loop_env"
  assumes y: "reachable T nf y" and m: "acked_frame m = applied_num (scr (sys_client y))" "v2_message m"
  defines "s \<equiv> fst (server_message m tot now sp (sys_server y))" and "z \<equiv> exchange T nf m tot now sp e y"
  assumes live: "has_remote e" "env_now e - now < PEER_TIMEOUT"
    and due: "is_paced e s" "is_dirty e s \<or> force_frame s \<or> env_rto e \<le> env_now e - last_frame_at s"
      "\<not> want_sb2 e s \<or> (is_dirty e s \<or> force_frame s) \<and> last_was_sb s"
    and room: "length (framed y) < 2 ^ 64" "length (shown_now e s) < 2 ^ 32"
  shows "applied_num (scr (sys_client z)) = num (current (producer (sys_server z))) \<and>
    applied_data (scr (sys_client z)) = last (framed z) \<and> (is_dirty e s \<longrightarrow> last (framed z) = shown_now e s)"
proof -
  let ?cl = "sys_client y"
  define y1 where "y1 = system_step T nf (Client_message m tot now sp) y"
  define y2 where "y2 = system_step T nf (Server_tick e) y1"
  have y1: "sys_server y1 = s" "sys_client y1 = ?cl" "framed y1 = framed y" "wire y1 = wire y" by (simp_all add: y1_def s_def)
  have r1: "reachable T nf y1" unfolding y1_def using y m by (intro reachable.step) simp_all
  have ok: "server_honest (framed y) (sys_server y)" "server_honest (framed y) s" "screen_honest T (framed y) (scr ?cl)"
    "acked_num (producer (sys_server y)) \<le> applied_num (scr ?cl)"
    using reachable_ok [OF r1] reachable_ok [OF y] y1 by (simp_all add: system_ok_def)
  obtain h where h: "producer_ok (h, producer s)" "map data h = framed y" using ok(2) by (auto simp: server_honest_def)
  have acked: "acked_num (producer s) = applied_num (scr ?cl)" and heard: "last_heard s = now"
    using message_keeps [OF ok(1) m(2), of tot now sp] newest(2) [OF h ok(3)] ok(4)
    by (auto simp: s_def m(1) split: if_splits)
  obtain s2 out where t: "server_tick nf e s = (s2, out)" by (metis surj_pair)
  have y2: "sys_server y2 = s2" "sys_client y2 = ?cl" "wire y2 = wire y @ (case out of Some fr \<Rightarrow> [fr] | None \<Rightarrow> [])"
    "framed y2 = framed y @ (if num (current (producer s2)) = num (current (producer s)) then [] else [shown_now e s])"
    by (simp_all add: y2_def y1 t)
  have r2: "reachable T nf y2" unfolding y2_def using r1 room y1 by (intro reachable.step) simp_all
  have z: "z = y2\<lparr>sys_client := client_after T out ?cl\<rparr>"
    unfolding z_def exchange_def Let_def y1_def [symmetric] y2_def [symmetric]
    using y2(2,3) y1(4) by (cases out) (simp_all add: client_after_def)
  have "reachable T nf z" unfolding z_def
    by (rule exchange_reachable [OF y]) (use m room in \<open>simp_all add: s_def\<close>)
  then have okz: "server_honest (framed z) (sys_server z)" "screen_honest T (framed z) (scr (sys_client z))"
    by (blast dest: reachable_ok [unfolded system_ok_def])+
  have ok2: "server_honest (framed y2) s2" "screen_honest T (framed y2) (scr ?cl)"
    using reachable_ok [OF r2] y2 by (simp_all add: system_ok_def)
  have reached: "applied_num (scr (sys_client z)) = num (current (producer s2))"
    using tick_reaches [OF ok(2) ok2(1) ok(3) ok2(2) acked live(1) _ due t] live(2) heard z by simp
  obtain hz where hz: "producer_ok (hz, producer s2)" "map data hz = framed z"
    using okz(1) z y2(1) by (auto simp: server_honest_def)
  have "applied_data (scr (sys_client z)) = last (framed z)"
    using okz(2) reached newest(1) [OF hz] by (simp add: screen_honest_def)
  moreover have "last (framed z) = shown_now e s" if "is_dirty e s"
  proof -
    have w: "\<not> wants_scrollback s" "\<not> current_is_sb s" using ok(2) by (simp_all add: server_honest_def)
    have "choose_frame e (tick_start e s) = MakeVisible" using choice_here [OF due(3) w(1) due(1,2)] that by simp
    then have "producer s2 = next_producer e MakeVisible s" using tick_result [OF w t] live heard by simp
    then have "num (current (producer s2)) \<noteq> num (current (producer s))" by (simp add: next_producer_def)
    then show ?thesis using z y2(4) by simp
  qed
  ultimately show ?thesis using reached z y2(1) by simp
qed

text \<open>An instance: a fresh connection, a first message, and a terminal that shows one byte.\<close>

definition first_message :: client_message where
  "first_message = \<lparr>msg_flags = 0, msg_caps = [], acked_frame = 0, rows = 24, cols = 80, input_base = 0, input = []\<rparr>"

definition first_env :: "unit loop_env" where
  "first_env = \<lparr>env_now = 1000, main_term = \<lparr>generation = 1, mirror_dump = \<lambda>_ _. [65], view_snapshot = (), view_alt = False,
       view_dims = (24, 80)\<rparr>, overlay_term = None, main_history = \<lparr>primary_scrollback_total = 0, primary_scrollback_rows = []\<rparr>,
     send_interval = 20, env_rto = 100, has_remote = True, pty_echo = True, reaped = None, log_on = False, watchdog = False,
     middle_caps = [], agent_entries = []\<rparr>"

definition first_system :: "(unit, bytes) frame_system" where
  "first_system = system_new byte_terminal () SyncDumpDiff True 24 80 0 0"

theorem visible_recovers_witness:
  "applied_data (scr (sys_client (exchange byte_terminal (\<lambda>_ _. []) first_message 0 900 False first_env first_system))) = [65]"
proof -
  let ?s = "fst (server_message first_message 0 900 False (sys_server first_system))"
  have s: "last_gen ?s = 0" "last_frame_at ?s = 0" "client_size ?s = (24, 80)" "active (sb2 ?s) = False"
    by (simp_all add: first_message_def first_system_def system_new_def server_new_def server_message_parts message_front_def
      handle_client_message_def inbox_accept_def inbox_new_def ack_frame_def ack_def producer_new_def note_history_def
      note_wants_def find_cap_def cursor_new_def on_client_size_def Let_def)
  have "is_dirty first_env ?s" "is_paced first_env ?s" "\<not> want_sb2 first_env ?s"
    using s by (simp_all add: is_dirty_def is_paced_def want_sb2_def source_term_def first_env_def wants_def next_due_def)
  moreover have "shown_now first_env ?s = [65]" by (simp add: shown_now_def source_term_def first_env_def)
  moreover have "reachable byte_terminal (\<lambda>_ _. []) first_system" unfolding first_system_def by (rule reachable.start)
  ultimately show ?thesis
    using visible_recovers [of byte_terminal "\<lambda>_ _. []" first_system first_message first_env 900 0 False] s
    by (simp add: first_system_def system_new_def client_new_def first_message_def v2_message_def find_cap_def)
      (simp add: first_env_def PEER_TIMEOUT_def)
qed

definition first_exchange :: "(unit, bytes) frame_system" where
  "first_exchange = exchange byte_terminal (\<lambda>_ _. []) first_message 0 900 False first_env first_system"

lemma first_exchange_reachable: "reachable byte_terminal (\<lambda>_ _. []) first_exchange"
proof -
  have "reachable byte_terminal (\<lambda>_ _. []) first_system" unfolding first_system_def by (rule reachable.start)
  then show ?thesis unfolding first_exchange_def
    by (rule exchange_reachable) (simp_all add: first_message_def first_system_def system_new_def v2_message_def find_cap_def
      shown_now_def source_term_def first_env_def client_new_def)
qed

theorem visible_screen_exact_witness:
  "\<exists>d. unat (applied_num (scr (sys_client first_exchange))) < length (framed first_exchange) \<and>
    d = framed first_exchange ! unat (applied_num (scr (sys_client first_exchange))) \<and>
    applied_data (scr (sys_client first_exchange)) = d \<and>
    (applied_num (scr (sys_client first_exchange)) = 0 \<or> (\<exists>r c. server_term (scr (sys_client first_exchange)) = rebuild byte_terminal r c d))"
  by (rule visible_screen_exact [OF first_exchange_reachable])

section \<open>The version-1 history stream\<close>

text \<open>
  A growth frame inherits the dump that was acknowledged when it was made, but its body is anchored at
  whatever is acknowledged when it is sent (\<open>base: producer.acked_num()\<close>). A visible frame
  acknowledged in between makes the two differ.
\<close>

lemma tick_start_now:
  "current_is_sb s \<Longrightarrow> current_is_sb (tick_start e s)"
  using tick_start_keeps(3) [of s e] by (simp add: same_wants_def)

lemma retransmitted_growth:
  assumes "current_is_sb s" "choose_frame e (tick_start e s) = Retransmit" "has_remote e" "env_now e - last_heard s < PEER_TIMEOUT"
    "server_tick nf e s = (s', out)"
  shows "\<exists>fr rws. out = Some fr \<and> frame_num fr = num (current (producer s)) \<and> body fr = Scrollback (acked_num (producer s)) rws \<and>
    producer s' = producer s"
proof -
  obtain ec moved where ec: "echo_update (env_now e) (srv_echo s) = (ec, moved)" by (metis surj_pair)
  let ?s = "(tick_start e s)\<lparr>force_ack := False\<rparr>"
  have "build_body nf e Retransmit ?s = (?s, growth_body (main_history e) ?s)"
    using tick_start_now [OF assms(1)] by (simp add: build_body_def)
  then have "s' = (retry_reap e ?s)\<lparr>last_frame_at := env_now e\<rparr> \<and>
      out = Some (assemble_frame e (retry_reap e ?s) (growth_body (main_history e) ?s))"
    using assms(2-5) by (auto simp: server_tick_def ec Let_def tick_start_def take_choice_def)
  then show ?thesis by (simp add: assemble_frame_def growth_body_def retry_reap_def Let_def)
qed

lemma growth_taken:
  assumes "frame_num fr = n" "body fr = Scrollback bn rws" "bn = applied_num (scr c)" "bn < n"
  shows "applied_num (scr (fst (process_frame T fr c))) = n \<and> applied_data (scr (fst (process_frame T fr c))) = applied_data (scr c)"
  using assms by (auto simp: process_frame_def apply_frame_def apply_growth_def Let_def split: prod.splits)

text \<open>A growth frame made before the visible frame ahead of it was acknowledged, and that acknowledgement.\<close>

lemma growth_overtaken:
  fixes p :: "'s frame_producer" and tg tv :: u64 and d old :: bytes and x :: 's and al :: bool and dm :: "u16 \<times> u16"
  assumes ok: "producer_ok (h, p)" and l: "length h + 2 < 2 ^ 64" and old: "acked_data p = Some old"
  defines "q \<equiv> advance_scrollback tg (advance_visible d x al dm tv p)"
  defines "p' \<equiv> fst (ack (num (current p) + 1) q)"
  shows "acked_num p' = num (current p) + 1 \<and> acked_data p' = Some d \<and> acked_num p' < num (current p') \<and>
    num (current p') = num (current p) + 2 \<and> data (current p') = old"
proof -
  let ?v = "advance_visible d x al dm tv p"
  let ?h1 = "h @ [current ?v]" and ?h2 = "(h @ [current ?v]) @ [current q]"
  have 1: "producer_ok (?h1, ?v)"
    using producer_advance_ok [OF ok, of "AdvanceVisible d x al dm tv"] l by simp
  have 2: "producer_ok (?h2, q)"
    using producer_advance_ok [OF 1, of "AdvanceScrollback tg"] l unfolding q_def by simp
  have c: "num (current q) = num (current p) + 2" "data (current ?v) = d" "data (current q) = old"
    using old ok by (auto simp: q_def advance_scrollback_def advance_visible_def rotate_current_def Let_def split_beta
      producer_ok_def frame_base_def split: option.splits)
  have n: "unat (num (current p) + 1) = length h"
    using next_number [OF ok] l by simp
  then have a: "\<not> (num (current p) + 1 \<le> acked_num q \<or> num (current p) + 1 > num (current q))"
    using ack_range [OF 2, of "num (current p) + 1"] 2 ok
    by (simp add: q_def advance_scrollback_def advance_visible_def rotate_current_def Let_def split_beta producer_ok_def)
  have h: "?h2 ! length h = current ?v" by (simp add: nth_append)
  have "unat (num (current p) + 2) = length h + 1" using current_number [OF 2] c(1) by simp
  with ack_history [OF 2 a] n h c show ?thesis by (simp add: p'_def word_less_nat_alt)
qed

text \<open>
  C26. A visible frame with dump \<open>d\<close> and then a version-1 growth frame are made while the frame with dump
  \<open>old\<close> is the acknowledged one; then the visible frame is acknowledged, and the growth frame is retransmitted.
  A client that shows the visible frame takes the growth frame and stays at \<open>d\<close>; once it acknowledges that,
  the server diffs from \<open>old\<close>: where the two dumps differ, the ends hold different dumps under the same base number.
\<close>

theorem growth_retransmit_diverges:
  assumes p: "producer_ok (h, p)" "length h + 2 < 2 ^ 64" "acked_data p = Some old" "old \<noteq> d"
    and overtaken: "producer s = fst (ack (num (current p) + 1) (advance_scrollback tg (advance_visible d x al dm tv p)))"
    and sb: "current_is_sb s" "choose_frame e (tick_start e s) = Retransmit"
    and live: "has_remote e" "env_now e - last_heard s < PEER_TIMEOUT"
    and tick: "server_tick nf e s = (s', Some fr)"
    and shows_it: "applied_num (scr c) = num (current p) + 1" "applied_data (scr c) = d"
    and m: "acked_frame m = applied_num (scr (fst (process_frame T fr c)))" "msg_flags m AND CLIENT_FLAG_RESYNC = 0"
  shows "acked_num (producer (ack_frame m s')) = applied_num (scr (fst (process_frame T fr c))) \<and>
    acked_data (producer (ack_frame m s')) = Some old \<and> applied_data (scr (fst (process_frame T fr c))) = d \<and>
    acked_data (producer (ack_frame m s')) \<noteq> Some (applied_data (scr (fst (process_frame T fr c))))"
proof -
  note g = growth_overtaken [OF p(1-3), of tg d x al dm tv, folded overtaken]
  obtain rws where fr: "frame_num fr = num (current (producer s))" "body fr = Scrollback (acked_num (producer s)) rws"
    "producer s' = producer s" using retransmitted_growth [OF sb live tick] by auto
  have at: "acked_num (producer s) = applied_num (scr c)" "acked_num (producer s) < num (current (producer s))"
    using g shows_it(1) by auto
  note taken = growth_taken [OF fr(1,2) at]
  have "acked_data (producer (ack_frame m s')) = Some old \<and> acked_num (producer (ack_frame m s')) = num (current (producer s))"
    using taken at g m fr(3)
    by (auto simp: ack_frame_producer ack_def held_frame_def Let_def not_le split: option.splits)
  with taken shows_it(2) p(4) show ?thesis by simp
qed

text \<open>
  An instance: frame 1 is sent, growth frame 2 is made before frame 1 is acknowledged, and retransmitted
  after it was. The client shows the byte 65; the server diffs against the empty dump.
\<close>

definition overtaken_producer :: "unit frame_producer" where
  "overtaken_producer = fst (ack 1 (advance_scrollback 1 (advance_visible [65] () False (24, 80) 0 (producer_new () 24 80))))"

definition overtaken_server :: "unit server_state" where
  "overtaken_server = (server_new () 24 80 1 900)\<lparr>producer := overtaken_producer, wants_scrollback := True, sb_high := 1,
     current_is_sb := True, last_was_sb := True, last_frame_at := 900\<rparr>"

definition overtaken_client :: "bytes client" where
  "overtaken_client = fst (process_frame byte_terminal
     \<lparr>flags = 0, caps = [], frame_num = 1, input_ack = 0, echo_ack = 0, body = Full [65]\<rparr>
     (client_new byte_terminal SyncDumpDiff True 24 80))"

lemma overtaken_eval:
  "acked_num overtaken_producer = 1" "num (current overtaken_producer) = 2" "data (current overtaken_producer) = []"
  "applied_num (scr overtaken_client) = 1" "applied_data (scr overtaken_client) = [65]"
  by (simp_all add: overtaken_producer_def overtaken_client_def ack_def advance_scrollback_def advance_visible_def rotate_current_def
    producer_new_def held_frame_def process_frame_def client_new_def apply_frame_def apply_visible_def applier_def dumpdiff_apply_def
    remember_base_def Let_def)

definition overtaken_env :: "unit loop_env" where
  "overtaken_env = first_env\<lparr>env_now := 1100,
     main_history := \<lparr>primary_scrollback_total = 1, primary_scrollback_rows = [[66]]\<rparr>\<rparr>"

definition overtaken_tick :: "unit server_state \<times> server_frame option" where
  "overtaken_tick = server_tick (\<lambda>_ _. []) overtaken_env overtaken_server"

definition overtaken_after :: "bytes client" where
  "overtaken_after = client_after byte_terminal (snd overtaken_tick) overtaken_client"

definition overtaken_ack :: client_message where "overtaken_ack = first_message\<lparr>acked_frame := 2\<rparr>"

lemma overtaken_choice: "choose_frame overtaken_env (tick_start overtaken_env overtaken_server) = Retransmit"
proof -
  let ?s = "tick_start overtaken_env overtaken_server"
  have s: "producer ?s = overtaken_producer" "last_frame_at ?s = 900" "last_gen ?s = 1" "sb2 ?s = cursor_new (24, 80)"
    by (simp_all add: overtaken_server_def server_new_def)
  have d: "\<not> is_dirty overtaken_env t" if "last_gen t = 1" for t :: "unit server_state"
    using that by (simp add: is_dirty_def source_term_def overtaken_env_def first_env_def)
  have "\<not> force_frame ?s" "sb_high ?s = 1"
    using d by (simp_all add: tick_start_def nudge_def note_stall_def overtaken_server_def server_new_def overtaken_eval
      word_le_nat_alt Let_def split_beta)
  with s d [of ?s] show ?thesis
    by (simp add: choose_frame_def want_visible_def want_scrollback_def want_sb2_def wants_def next_due_def cursor_new_def
      overtaken_eval overtaken_env_def first_env_def Let_def)
qed

theorem growth_retransmit_diverges_witness:
  "acked_num (producer (ack_frame overtaken_ack (fst overtaken_tick))) = applied_num (scr overtaken_after) \<and>
   acked_data (producer (ack_frame overtaken_ack (fst overtaken_tick))) = Some [] \<and> applied_data (scr overtaken_after) = [65] \<and>
   acked_data (producer (ack_frame overtaken_ack (fst overtaken_tick))) \<noteq> Some (applied_data (scr overtaken_after))"
proof -
  have live: "current_is_sb overtaken_server" "has_remote overtaken_env" "env_now overtaken_env - last_heard overtaken_server < PEER_TIMEOUT"
    and p: "producer overtaken_server = overtaken_producer"
    by (simp_all add: overtaken_server_def overtaken_env_def first_env_def server_new_def PEER_TIMEOUT_def)
  obtain s' out where t: "server_tick (\<lambda>_ _. []) overtaken_env overtaken_server = (s', out)" by (metis surj_pair)
  obtain fr rws where fr: "out = Some fr" "frame_num fr = 2" "body fr = Scrollback 1 rws"
    using retransmitted_growth [OF live(1) overtaken_choice live(2,3) t] by (auto simp: p overtaken_eval)
  have after: "overtaken_after = fst (process_frame byte_terminal fr overtaken_client)" "fst overtaken_tick = s'"
    by (simp_all add: overtaken_after_def overtaken_tick_def t fr(1) client_after_def)
  have "applied_num (scr (fst (process_frame byte_terminal fr overtaken_client))) = 2"
    using growth_taken [OF fr(2,3), of overtaken_client byte_terminal] by (simp add: overtaken_eval)
  moreover have "producer_ok ([current (producer_new () 24 80)], producer_new () 24 80)"
    using producer_ok_start [of "()" 24 80] by (simp add: start_producer_def)
  moreover have "num (current (producer_new () 24 80)) + 1 = 1" "acked_data (producer_new () 24 80) = Some []"
    by (simp_all add: producer_new_def)
  ultimately show ?thesis
    using growth_retransmit_diverges [of "[current (producer_new () 24 80)]" "producer_new () 24 80" "[]" "[65]"
        overtaken_server 1 "()" False "(24, 80)" 0 overtaken_env "\<lambda>_ _. []" s' fr overtaken_client overtaken_ack byte_terminal]
      live overtaken_choice t [unfolded fr(1)]
    by (simp add: after p overtaken_eval overtaken_ack_def first_message_def overtaken_producer_def)
qed

end
