(* ===== verification/HistoryFacts.thy ===== *)
theory HistoryFacts
  imports History
begin

text \<open>
  What the send cursor puts on the wire: whatever scrolls, is evicted, acknowledged, resized or reflowed,
  every body carries the rows of its epoch at their numbers. The log of an epoch, oldest row first, is kept
  beside the run of the code's operations.
\<close>

section \<open>Runs\<close>

datatype server_op =
    Scroll "bytes list" nat
  | Activate history_start
  | Ack u8 nat nat
  | Size "u16 \<times> u16"
  | Reflow "bytes list" nat
  | Send_body nat nat nat

record server_history =
  cursor :: history_cursor
  terminal :: terminal_history
  epoch_logs :: "(u8 \<times> bytes list) list"
  sent_bodies :: "frame_body list"

definition server_history_new :: "u16 \<times> u16 \<Rightarrow> server_history" where
  "server_history_new sz = \<lparr>cursor = cursor_new sz,
     terminal = \<lparr>primary_scrollback_total = 0, primary_scrollback_rows = []\<rparr>, epoch_logs = [], sent_bodies = []\<rparr>"

text \<open>A log for each epoch opened, the newest first; rows below a continued start are not the cursor's.\<close>

definition set_cursor :: "history_cursor \<Rightarrow> server_history \<Rightarrow> server_history" where
  "set_cursor h s = s\<lparr>cursor := h,
     epoch_logs := (if active h \<and> (\<not> active (cursor s) \<or> cursor_epoch h \<noteq> cursor_epoch (cursor s))
       then (cursor_epoch h, replicate (anchor_rel h) []) # epoch_logs s else epoch_logs s)\<rparr>"

definition extend_log :: "bytes list \<Rightarrow> server_history \<Rightarrow> server_history" where
  "extend_log rws s = s\<lparr>epoch_logs := (case epoch_logs s of
       [] \<Rightarrow> [] | (e, l) # ls \<Rightarrow> (e, l @ rws) # ls)\<rparr>"

text \<open>
  Rows scroll off and at most \<open>keep\<close> stay; a session resize renumbers the total upwards and replaces
  the retained rows, and the cursor re-anchors.
\<close>

fun server_step :: "server_op \<Rightarrow> server_history \<Rightarrow> server_history" where
  "server_step (Scroll rws keep) s =
     (let t = terminal s; kept = primary_scrollback_rows t @ rws
      in extend_log rws (s\<lparr>terminal := \<lparr>primary_scrollback_total = primary_scrollback_total t + length rws,
           primary_scrollback_rows = drop (length kept - keep) kept\<rparr>\<rparr>))"
| "server_step (Activate st) s = set_cursor (activate st (primary_scrollback_total (terminal s)) (cursor s)) s"
| "server_step (Ack e n now) s = set_cursor (fst (on_ack e n now (primary_scrollback_total (terminal s)) (cursor s))) s"
| "server_step (Size sz) s = set_cursor (fst (on_client_size sz (primary_scrollback_total (terminal s)) (cursor s))) s"
| "server_step (Reflow rws grow) s =
     (let tot = primary_scrollback_total (terminal s) + grow
      in extend_log (replicate grow [])
           (s\<lparr>terminal := \<lparr>primary_scrollback_total = tot, primary_scrollback_rows = rws\<rparr>,
              cursor := reanchor tot (cursor s)\<rparr>))"
| "server_step (Send_body now rto window) s =
     (let (h, _, b) = next_body (terminal s) now rto window (cursor s)
      in if active (cursor s) then s\<lparr>cursor := h, sent_bodies := sent_bodies s @ [b]\<rparr> else s)"

section \<open>The invariant\<close>

text \<open>The newest rows of the log, down to the anchor, are the newest rows retained.\<close>

definition ring_agrees :: "terminal_history \<Rightarrow> history_cursor \<Rightarrow> bytes list \<Rightarrow> bool" where
  "ring_agrees t h l \<longleftrightarrow> (\<forall>r. anchor_rel h \<le> r \<and> r < length l \<and> length l - r \<le> primary_scrollback_len t \<longrightarrow>
     primary_scrollback_rows t ! (primary_scrollback_len t - (length l - r)) = l ! r)"

lemma ring_agrees_above: "length l \<le> anchor_rel h \<Longrightarrow> ring_agrees t h l"
  by (auto simp: ring_agrees_def)

definition cursor_inv :: "server_history \<Rightarrow> bool" where
  "cursor_inv s \<longleftrightarrow> active (cursor s) = (epoch_logs s \<noteq> []) \<and>
     (case epoch_logs s of [] \<Rightarrow> True | (e, l) # ls \<Rightarrow>
        e = cursor_epoch (cursor s) \<and> anchor_abs (cursor s) \<le> primary_scrollback_total (terminal s) \<and>
        length l = avail (primary_scrollback_total (terminal s)) (cursor s) \<and>
        ring_agrees (terminal s) (cursor s) l)"

lemma cursor_inv_sent: "cursor_inv (s\<lparr>sent_bodies := bs\<rparr>) = cursor_inv s"
  by (cases "epoch_logs s") (simp_all add: cursor_inv_def split: prod.splits)

definition in_log :: "(u8 \<times> bytes list) list \<Rightarrow> frame_body \<Rightarrow> bool" where
  "in_log logs b \<longleftrightarrow> (\<exists>e l off rws. b = Scrollback2 e (of_nat off) rws \<and> (e, l) \<in> set logs \<and>
     (rws = [] \<or> off + length rws \<le> length l) \<and> rws = take (length rws) (drop off l))"

text \<open>Logs only grow.\<close>

definition logs_extend :: "(u8 \<times> bytes list) list \<Rightarrow> (u8 \<times> bytes list) list \<Rightarrow> bool" where
  "logs_extend ls ls' \<longleftrightarrow> (\<forall>(e, l) \<in> set ls. \<exists>m. (e, l @ m) \<in> set ls')"

lemma in_log_extend: "in_log ls b \<Longrightarrow> logs_extend ls ls' \<Longrightarrow> in_log ls' b"
proof -
  assume "in_log ls b" and x: "logs_extend ls ls'"
  then obtain e l off rws where b: "b = Scrollback2 e (of_nat off) rws" "(e, l) \<in> set ls"
    "rws = [] \<or> off + length rws \<le> length l" "rws = take (length rws) (drop off l)"
    by (auto simp: in_log_def)
  from x b(2) obtain m where "(e, l @ m) \<in> set ls'" by (auto simp: logs_extend_def)
  moreover have "rws = take (length rws) (drop off (l @ m))" using b(3,4) by auto
  ultimately show ?thesis using b(1,3) unfolding in_log_def by fastforce
qed

lemma logs_extend_refl [simp]: "logs_extend ls ls"
  unfolding logs_extend_def by (force intro: exI [of _ "[]"])

lemma logs_extend_Cons [simp]: "logs_extend ls (x # ls)"
  unfolding logs_extend_def by (force intro: exI [of _ "[]"])

lemma extend_log_extends: "logs_extend (epoch_logs s) (epoch_logs (extend_log rws s))"
  unfolding logs_extend_def extend_log_def
  by (cases "epoch_logs s") (auto intro: exI [of _ rws] exI [of _ "[]"])

lemma set_cursor_extends: "logs_extend (epoch_logs s) (epoch_logs (set_cursor h s))"
  by (simp add: set_cursor_def)

lemma server_step_extends: "logs_extend (epoch_logs s) (epoch_logs (server_step op s))"
proof (cases op)
  case (Scroll rws keep)
  then show ?thesis using extend_log_extends [of "s\<lparr>terminal := t\<rparr>" rws for t] by (simp add: Let_def)
next
  case (Reflow rws grow)
  then show ?thesis
    using extend_log_extends [of "s\<lparr>terminal := t, cursor := h\<rparr>" "replicate grow []" for t h] by (simp add: Let_def)
qed (simp_all add: set_cursor_extends split: prod.splits)

section \<open>The steps keep it\<close>

lemma next_epoch_differs: "next_epoch e \<noteq> e"
  by (auto simp: next_epoch_def)

text \<open>A cursor whose numbering did not change keeps the invariant; a new epoch starts an empty log.\<close>

lemma set_cursor_same:
  assumes "cursor_inv s" "active h = active (cursor s)" "cursor_epoch h = cursor_epoch (cursor s)"
    "anchor_abs h = anchor_abs (cursor s)" "anchor_rel h = anchor_rel (cursor s)"
  shows "cursor_inv (set_cursor h s)"
  using assms by (cases "epoch_logs s")
    (simp_all add: cursor_inv_def set_cursor_def avail_def ring_agrees_def split: prod.splits)

lemma set_cursor_new:
  assumes "active h" "\<not> active (cursor s) \<or> cursor_epoch h \<noteq> cursor_epoch (cursor s)"
    "anchor_abs h = primary_scrollback_total (terminal s)"
  shows "cursor_inv (set_cursor h s)"
  using assms by (auto simp: cursor_inv_def set_cursor_def avail_def ring_agrees_def)

lemma bump_inv: "cursor_inv s \<Longrightarrow> active (cursor s) \<Longrightarrow>
    cursor_inv (set_cursor (bump_epoch (primary_scrollback_total (terminal s)) (cursor s\<lparr>view_size := sz\<rparr>)) s)"
  by (rule set_cursor_new) (simp_all add: bump_epoch_def next_epoch_differs)

lemma next_body_frame:
  "active (fst (next_body t now rto window h)) = active h"
  "cursor_epoch (fst (next_body t now rto window h)) = cursor_epoch h"
  "anchor_abs (fst (next_body t now rto window h)) = anchor_abs h"
  "anchor_rel (fst (next_body t now rto window h)) = anchor_rel h"
  by (simp_all add: next_body_def note_send_def Let_def split: prod.splits)

lemma server_step_inv: "cursor_inv s \<Longrightarrow> cursor_inv (server_step op s)"
proof (cases op)
  case (Scroll rws keep)
  assume i: "cursor_inv s"
  show ?thesis
  proof (cases "epoch_logs s")
    case Nil
    with i Scroll show ?thesis by (simp add: cursor_inv_def extend_log_def Let_def)
  next
    case (Cons el ls)
    obtain e l where el: "el = (e, l)" by force
    let ?t = "terminal s" and ?h = "cursor s"
    let ?kept = "primary_scrollback_rows ?t @ rws"
    let ?t' = "\<lparr>primary_scrollback_total = primary_scrollback_total ?t + length rws,
      primary_scrollback_rows = drop (length ?kept - keep) ?kept\<rparr>"
    have a: "e = cursor_epoch ?h" "active ?h" "anchor_abs ?h \<le> primary_scrollback_total ?t"
      "length l = avail (primary_scrollback_total ?t) ?h" "ring_agrees ?t ?h l"
      using i Cons el by (simp_all add: cursor_inv_def)
    have "ring_agrees ?t' ?h (l @ rws)"
      unfolding ring_agrees_def
    proof (intro allI impI)
      fix r assume r: "anchor_rel ?h \<le> r \<and> r < length (l @ rws) \<and> length (l @ rws) - r \<le> primary_scrollback_len ?t'"
      let ?d = "length ?kept - keep"
      have len: "primary_scrollback_len ?t' = length ?kept - ?d" by (simp add: primary_scrollback_len_def)
      have d: "?d \<le> length ?kept" by simp
      have "primary_scrollback_rows ?t' ! (primary_scrollback_len ?t' - (length (l @ rws) - r)) =
          ?kept ! (?d + (primary_scrollback_len ?t' - (length (l @ rws) - r)))"
        unfolding terminal_history.select_convs by (rule nth_drop) simp
      also have "?d + (primary_scrollback_len ?t' - (length (l @ rws) - r)) = length ?kept - (length (l @ rws) - r)"
        using r len d by linarith
      also have "?kept ! (length ?kept - (length (l @ rws) - r)) = (l @ rws) ! r"
      proof (cases "r < length l")
        case True
        have "length ?kept - (length (l @ rws) - r) = primary_scrollback_len ?t - (length l - r)"
          using True by (simp add: primary_scrollback_len_def)
        moreover have le: "length l - r \<le> primary_scrollback_len ?t"
        proof -
          have "length (l @ rws) - r \<le> length ?kept" using r len by linarith
          moreover have "length (l @ rws) - r = length l - r + length rws" using True by simp
          ultimately show ?thesis by (simp add: primary_scrollback_len_def)
        qed
        ultimately show ?thesis using a(5) r True
          by (auto simp: ring_agrees_def nth_append primary_scrollback_len_def)
      next
        case False
        then have "length ?kept - (length (l @ rws) - r) = length (primary_scrollback_rows ?t) + (r - length l)"
          using r by simp
        then have "?kept ! (length ?kept - (length (l @ rws) - r)) = rws ! (r - length l)" by (simp only: nth_append_length_plus)
        with False show ?thesis by (simp add: nth_append)
      qed
      finally show "primary_scrollback_rows ?t' ! (primary_scrollback_len ?t' - (length (l @ rws) - r)) = (l @ rws) ! r" .
    qed
    then show ?thesis using Scroll Cons el a
      by (simp add: cursor_inv_def extend_log_def Let_def avail_def)
  qed
next
  case (Activate st)
  assume i: "cursor_inv s"
  show ?thesis
  proof (cases "active (cursor s)")
    case True
    with i Activate show ?thesis by (simp add: activate_def set_cursor_same)
  next
    case False
    then have "cursor_inv (set_cursor (activate st (primary_scrollback_total (terminal s)) (cursor s)) s)"
      by (intro set_cursor_new) (simp_all add: activate_def Let_def split: history_start.splits)
    with Activate show ?thesis by simp
  qed
next
  case (Ack e n now)
  assume i: "cursor_inv s"
  have "cursor s\<lparr>view_size := view_size (cursor s)\<rparr> = cursor s" by simp
  with bump_inv [OF i, of "view_size (cursor s)"] i Ack show ?thesis
    by (auto simp: on_ack_def set_cursor_same)
next
  case (Size sz)
  assume i: "cursor_inv s"
  show ?thesis
  proof (cases "active (cursor s)")
    case True
    with bump_inv [OF i True, of sz] i Size show ?thesis by (simp add: on_client_size_def Let_def set_cursor_same)
  next
    case False
    with i Size show ?thesis by (simp add: on_client_size_def Let_def bump_epoch_def set_cursor_same)
  qed
next
  case (Reflow rws grow)
  assume i: "cursor_inv s"
  show ?thesis
  proof (cases "epoch_logs s")
    case Nil
    with i Reflow show ?thesis by (simp add: cursor_inv_def extend_log_def Let_def reanchor_def)
  next
    case (Cons el ls)
    obtain e l where el: "el = (e, l)" by force
    let ?tot = "primary_scrollback_total (terminal s) + grow"
    have a: "e = cursor_epoch (cursor s)" "active (cursor s)" "anchor_abs (cursor s) \<le> primary_scrollback_total (terminal s)"
      "length l = avail (primary_scrollback_total (terminal s)) (cursor s)"
      using i Cons el by (simp_all add: cursor_inv_def)
    then have n: "length (l @ replicate grow []) = avail ?tot (cursor s)" by (simp add: avail_def)
    have r: "reanchor ?tot (cursor s) = cursor s\<lparr>anchor_abs := ?tot, anchor_rel := avail ?tot (cursor s), resends := 0\<rparr>"
      using a(2) by (simp add: reanchor_def Let_def)
    from n r have "ring_agrees t (reanchor ?tot (cursor s)) (l @ replicate grow [])" for t
      by (intro ring_agrees_above) simp
    moreover have "length (l @ replicate grow []) = avail ?tot (reanchor ?tot (cursor s))"
      unfolding r n by (simp add: avail_def)
    ultimately show ?thesis using Cons el a(1,2) Reflow
      by (simp add: cursor_inv_def extend_log_def Let_def) (simp add: r)
  qed
next
  case (Send_body now rto window)
  assume i: "cursor_inv s"
  obtain h x where h: "next_body (terminal s) now rto window (cursor s) = (h, x)" by (metis surj_pair)
  then have "active h = active (cursor s)" "cursor_epoch h = cursor_epoch (cursor s)"
      "anchor_abs h = anchor_abs (cursor s)" "anchor_rel h = anchor_rel (cursor s)"
    using next_body_frame [of "terminal s" now rto window "cursor s"] by simp_all
  note same = set_cursor_same [OF i this]
  have "set_cursor h s = s\<lparr>cursor := h\<rparr>"
    using \<open>active h = active (cursor s)\<close> \<open>cursor_epoch h = cursor_epoch (cursor s)\<close> by (simp add: set_cursor_def)
  with same have "cursor_inv (s\<lparr>cursor := h\<rparr>)" by simp
  then have "cursor_inv (s\<lparr>cursor := h, sent_bodies := bs\<rparr>)" for bs by (simp only: cursor_inv_sent)
  with i Send_body h show ?thesis by (simp add: case_prod_beta)
qed

section \<open>Epoch bytes\<close>

text \<open>The byte runs through 1 to 255 and repeats only after that many epochs.\<close>

lemma next_epoch_nonzero [simp]: "next_epoch e \<noteq> 0"
  by (simp add: next_epoch_def)

lemma byte_bound: "unat (e::u8) < 256"
  using unsigned_less [of e] by simp

lemma next_epoch_unat:
  assumes "e \<noteq> 0"
  shows "unat (next_epoch e) = (if unat e = 255 then 1 else unat e + 1)"
proof (cases "unat e = 255")
  case True
  then have "of_nat (unat e) = (of_nat 255 :: u8)" by simp
  then have "e = 255" by simp
  then show ?thesis using True by (simp add: next_epoch_def)
next
  case False
  then have "unat (e + of_nat 1) = unat e + 1" 
  proof (intro unat_add_of_nat)
    have "unat e < 255" using byte_bound [of e] False by linarith
    then show "unat e + 1 < 2 ^ LENGTH(8)" by simp
  qed
  then have u: "unat (e + 1) = unat e + 1" by simp
  then have "e + 1 \<noteq> 0" by (metis add_eq_0_iff_both_eq_0 unsigned_0 zero_neq_one)
  with u False show ?thesis by (simp add: next_epoch_def)
qed

lemma next_epoch_power:
  assumes "e \<noteq> 0"
  shows "(next_epoch ^^ k) e \<noteq> 0 \<and> unat ((next_epoch ^^ k) e) = (unat e - 1 + k) mod 255 + 1"
proof (induction k)
  case 0
  have "unat e \<noteq> 0" "unat e < 256" using assms byte_bound by (simp_all add: unsigned_eq_0_iff)
  then have "unat e - 1 < 255" "unat e = unat e - 1 + 1" by linarith+
  with assms show ?case by (metis add.right_neutral funpow_0 mod_less)
next
  case (Suc k)
  have "(unat e - 1 + Suc k) mod 255 = (if (unat e - 1 + k) mod 255 = 254 then 0 else Suc ((unat e - 1 + k) mod 255))"
    by (simp add: mod_Suc)
  with Suc next_epoch_unat [of "(next_epoch ^^ k) e"] show ?case by simp
qed

lemma next_epoch_distinct:
  assumes "j < k" "k < 255"
  shows "(next_epoch ^^ j) e \<noteq> (next_epoch ^^ k) e"
proof -
  have inj: "(next_epoch ^^ j) e \<noteq> (next_epoch ^^ k) e" if "e \<noteq> 0" "j < k" "k < 255" for e j k
  proof
    assume "(next_epoch ^^ j) e = (next_epoch ^^ k) e"
    then have "(unat e - 1 + j) mod 255 = (unat e - 1 + k) mod 255"
      using next_epoch_power [OF that(1), of j] next_epoch_power [OF that(1), of k] by simp
    then obtain q1 q2 where q: "j + 255 * q1 = k + 255 * q2" unfolding nat_mod_eq_iff by auto
    show False
    proof (cases "q1 \<le> q2")
      case True
      with q that(2) show False by linarith
    next
      case False
      then have "q2 + 1 \<le> q1" by simp
      with q that(3) show False by linarith
    qed
  qed
  show ?thesis
  proof (cases "e = 0")
    case False
    with inj assms show ?thesis by blast
  next
    case True
    obtain k' where k: "k = Suc k'" using assms(1) by (cases k) auto
    show ?thesis
    proof (cases j)
      case 0
      have "(next_epoch ^^ k) e \<noteq> 0" by (simp add: k)
      with 0 True show ?thesis by simp
    next
      case (Suc j')
      then show ?thesis using inj [of "next_epoch e" j' k'] assms k
        by (simp add: funpow_Suc_right del: funpow.simps(2))
    qed
  qed
qed

text \<open>Each epoch opened is the successor of the one before.\<close>

definition epochs_chained :: "server_history \<Rightarrow> bool" where
  "epochs_chained s \<longleftrightarrow> (\<forall>i. Suc i < length (epoch_logs s) \<longrightarrow>
     fst (epoch_logs s ! i) = next_epoch (fst (epoch_logs s ! Suc i)))"

lemma extend_log_keys [simp]: "map fst (epoch_logs (extend_log rws s)) = map fst (epoch_logs s)"
  by (cases "epoch_logs s") (auto simp: extend_log_def)

lemma epochs_chained_keys:
  "map fst (epoch_logs s') = map fst (epoch_logs s) \<Longrightarrow> epochs_chained s \<Longrightarrow> epochs_chained s'"
proof -
  assume m: "map fst (epoch_logs s') = map fst (epoch_logs s)" and c: "epochs_chained s"
  from m have "length (epoch_logs s') = length (epoch_logs s)" by (metis length_map)
  moreover from m this have "fst (epoch_logs s' ! i) = fst (epoch_logs s ! i)" if "i < length (epoch_logs s)" for i
    using that by (metis nth_map)
  ultimately show ?thesis using c by (simp add: epochs_chained_def)
qed

lemma set_cursor_chained:
  assumes "cursor_inv s" "epochs_chained s"
    and "active (cursor s) \<Longrightarrow> cursor_epoch h = cursor_epoch (cursor s) \<or> cursor_epoch h = next_epoch (cursor_epoch (cursor s))"
  shows "epochs_chained (set_cursor h s)"
proof (cases "active h \<and> (\<not> active (cursor s) \<or> cursor_epoch h \<noteq> cursor_epoch (cursor s))")
  case True
  have k: "fst (epoch_logs s ! 0) = cursor_epoch (cursor s) \<and> active (cursor s)" if "epoch_logs s \<noteq> []"
    using assms(1) that by (cases "epoch_logs s") (auto simp: cursor_inv_def)
  have "fst (((cursor_epoch h, replicate (anchor_rel h) []) # epoch_logs s) ! i) =
      next_epoch (fst (((cursor_epoch h, replicate (anchor_rel h) []) # epoch_logs s) ! Suc i))"
    if "i < length (epoch_logs s)" for i
  proof (cases i)
    case 0
    with that k have "fst (epoch_logs s ! 0) = cursor_epoch (cursor s)" "active (cursor s)" by auto
    with assms(3) True 0 show ?thesis by auto
  next
    case (Suc j)
    with that assms(2) show ?thesis by (simp add: epochs_chained_def)
  qed
  with True show ?thesis by (simp add: epochs_chained_def set_cursor_def)
next
  case False
  with assms(2) show ?thesis by (auto simp: epochs_chained_def set_cursor_def)
qed

lemma server_step_chained:
  assumes "cursor_inv s" "epochs_chained s"
  shows "epochs_chained (server_step op s)"
proof (cases op)
  case (Ack e n now)
  with assms show ?thesis by (auto intro!: set_cursor_chained simp: on_ack_def bump_epoch_def)
next
  case (Size sz)
  with assms show ?thesis by (auto intro!: set_cursor_chained simp: on_client_size_def bump_epoch_def Let_def)
next
  case (Activate st)
  with assms show ?thesis by (auto intro!: set_cursor_chained simp: activate_def)
next
  case (Send_body now rto window)
  with assms show ?thesis by (auto simp: epochs_chained_def split: prod.splits)
next
  case (Scroll rws keep)
  have "map fst (epoch_logs (server_step op s)) = map fst (epoch_logs s)" using Scroll by (simp add: Let_def)
  with assms(2) show ?thesis by (rule epochs_chained_keys [rotated])
next
  case (Reflow rws grow)
  have "map fst (epoch_logs (server_step op s)) = map fst (epoch_logs s)" using Reflow by (simp add: Let_def)
  with assms(2) show ?thesis by (rule epochs_chained_keys [rotated])
qed

lemma server_run_chained:
  "cursor_inv s \<Longrightarrow> epochs_chained s \<Longrightarrow> epochs_chained (fold server_step ops s)"
  by (induction ops arbitrary: s) (simp_all add: server_step_inv server_step_chained)

lemma chained_key:
  "epochs_chained s \<Longrightarrow> i < length (epoch_logs s) \<Longrightarrow>
     fst (epoch_logs s ! (length (epoch_logs s) - 1 - i)) = (next_epoch ^^ i) (fst (last (epoch_logs s)))"
proof (induction i)
  case 0
  then show ?case by (simp add: last_conv_nth)
next
  case (Suc i)
  let ?j = "length (epoch_logs s) - 1 - Suc i"
  have "Suc ?j = length (epoch_logs s) - 1 - i" "Suc ?j < length (epoch_logs s)" using Suc.prems(2) by linarith+
  then have "fst (epoch_logs s ! ?j) = next_epoch (fst (epoch_logs s ! (length (epoch_logs s) - 1 - i)))"
    using Suc.prems(1) unfolding epochs_chained_def by metis
  with Suc show ?case by simp
qed

lemma epochs_distinct:
  assumes "epochs_chained s" "length (epoch_logs s) \<le> 255"
  shows "distinct (map fst (epoch_logs s))"
proof -
  let ?n = "length (epoch_logs s)" and ?k = "\<lambda>i. fst (epoch_logs s ! i)"
  have ne: "?k i \<noteq> ?k j" if "i < j" "j < ?n" for i j
  proof -
    have "?k i = (next_epoch ^^ (?n - 1 - i)) (fst (last (epoch_logs s)))"
      using chained_key [OF assms(1), of "?n - 1 - i"] that by simp
    moreover have "?k j = (next_epoch ^^ (?n - 1 - j)) (fst (last (epoch_logs s)))"
      using chained_key [OF assms(1), of "?n - 1 - j"] that by simp
    moreover have "?n - 1 - j < ?n - 1 - i" "?n - 1 - i < 255" using that assms(2) by linarith+
    ultimately show ?thesis using next_epoch_distinct by metis
  qed
  show ?thesis unfolding distinct_conv_nth length_map
  proof (intro allI impI)
    fix i j assume "i < ?n" "j < ?n" "i \<noteq> j"
    then show "map fst (epoch_logs s) ! i \<noteq> map fst (epoch_logs s) ! j"
      using ne [of i j] ne [of j i] by (cases "i < j") auto
  qed
qed

section \<open>What is sent\<close>

lemma body_range_bounds:
  assumes "body_range t now rto window h = (start, count)" "avail_and_floor t h = (a, fl)"
  shows "fl \<le> start" "count \<le> a - start"
  using assms by (simp_all add: body_range_def Let_def split: prod.splits) auto

lemma next_body_in_log:
  assumes i: "cursor_inv s" and a: "active (cursor s)"
  shows "in_log (epoch_logs s) (snd (snd (next_body (terminal s) now rto window (cursor s))))"
proof -
  let ?t = "terminal s" and ?h = "cursor s"
  obtain l ls where logs: "epoch_logs s = (cursor_epoch ?h, l) # ls" and abs: "anchor_abs ?h \<le> primary_scrollback_total ?t"
    and len: "length l = avail (primary_scrollback_total ?t) ?h" and ring: "ring_agrees ?t ?h l"
    using i a by (cases "epoch_logs s") (auto simp: cursor_inv_def)
  define fl where "fl = max (anchor_rel ?h) (length l - min (primary_scrollback_len ?t) (length l))"
  obtain start count where sc: "body_range ?t now rto window ?h = (start, count)" by (metis surj_pair)
  have af: "avail_and_floor ?t ?h = (length l, fl)"
    unfolding avail_and_floor_def Let_def len [symmetric] fl_def by simp
  note start = body_range_bounds(1) [OF sc af] and count = body_range_bounds(2) [OF sc af]
  have b: "snd (snd (next_body ?t now rto window ?h)) =
      Scrollback2 (cursor_epoch ?h) (of_nat start) (body_rows ?t (length l) start count)"
    by (simp add: next_body_def sc len [symmetric])
  have row: "(case dump_scrollback_row ?t (primary_scrollback_len ?t - (length l - (start + k))) of Some r \<Rightarrow> r | None \<Rightarrow> []) =
      l ! (start + k)" if "k < count" for k
  proof -
    have k: "start + k < length l" using that count by linarith
    have fit: "length l - (start + k) \<le> primary_scrollback_len ?t" using start unfolding fl_def by linarith
    have "primary_scrollback_len ?t - (length l - (start + k)) < primary_scrollback_len ?t" using k fit by linarith
    moreover have "anchor_rel ?h \<le> start + k" using start by (simp add: fl_def)
    ultimately show ?thesis using ring k fit
      by (simp add: ring_agrees_def dump_scrollback_row_def get_at_def primary_scrollback_len_def)
  qed
  define rws where "rws = map (\<lambda>k. l ! (start + k)) [0..<count]"
  have rws: "snd (snd (next_body ?t now rto window ?h)) = Scrollback2 (cursor_epoch ?h) (of_nat start) rws"
    unfolding b rws_def body_rows_def using row by simp
  have "rws = take (length rws) (drop start l)"
    using count by (intro nth_equalityI) (auto simp: rws_def)
  moreover have "rws = [] \<or> start + length rws \<le> length l" using count by (auto simp: rws_def)
  ultimately show ?thesis unfolding rws in_log_def using logs by fastforce
qed

lemma server_run_in_log:
  "cursor_inv s \<Longrightarrow> \<forall>b \<in> set (sent_bodies s). in_log (epoch_logs s) b \<Longrightarrow>
   \<forall>b \<in> set (sent_bodies (fold server_step ops s)). in_log (epoch_logs (fold server_step ops s)) b"
proof (induction ops arbitrary: s)
  case (Cons op ops)
  have old: "\<forall>b \<in> set (sent_bodies s). in_log (epoch_logs (server_step op s)) b"
    using Cons.prems(2) in_log_extend server_step_extends by blast
  have "\<forall>b \<in> set (sent_bodies (server_step op s)). in_log (epoch_logs (server_step op s)) b"
  proof (cases op)
    case (Send_body now rto window)
    have "epoch_logs (server_step op s) = epoch_logs s" using Send_body by (simp split: prod.splits)
    with old next_body_in_log [OF Cons.prems(1), of now rto window] Send_body show ?thesis
      by (auto split: prod.splits)
  qed (use old in \<open>simp_all add: set_cursor_def extend_log_def Let_def\<close>)
  with Cons.IH [OF server_step_inv [OF Cons.prems(1)]] show ?case by simp
qed simp

lemma server_new_inv: "cursor_inv (server_history_new sz)"
  by (simp add: cursor_inv_def server_history_new_def cursor_new_def)

lemma server_sent_in_log:
  "list_all (in_log (epoch_logs (fold server_step ops (server_history_new sz))))
     (sent_bodies (fold server_step ops (server_history_new sz)))"
  using server_run_in_log [OF server_new_inv, of sz ops] by (simp add: server_history_new_def list_all_iff)

lemma server_epochs_chained: "epochs_chained (fold server_step ops (server_history_new sz))"
  using server_run_chained [OF server_new_inv] by (simp add: epochs_chained_def server_history_new_def)

text \<open>
  C21. After any run of scrolling, eviction, acknowledgements, size changes, reflows and sends, every body
  put on the wire carries the rows of the log of its epoch at their numbers, and nothing past its end.
\<close>

theorem sent_rows_are_logged:
  "list_all (in_log (epoch_logs (fold server_step ops (server_history_new sz))))
     (sent_bodies (fold server_step ops (server_history_new sz)))"
  by (rule server_sent_in_log)

end
