(* ===== verification/HistorySystem.thy ===== *)
theory HistorySystem
  imports FrameSystem HistoryFacts
begin

text \<open>
  The version-2 history stream end to end: the send cursor of \<open>history.rs\<close> on one side, the frame
  handler of \<open>client.rs\<close> on the other, and between them any network that delivers frames whose
  history bodies the cursor once sent.
\<close>

text \<open>What the client may receive: history bodies the server sent, and frames without history.\<close>

definition from_server :: "frame_body list \<Rightarrow> client_input \<Rightarrow> bool" where
  "from_server sent i \<longleftrightarrow> (case i of Frame fr \<Rightarrow>
       (case body fr of Scrollback2 _ _ _ \<Rightarrow> body fr \<in> set sent | Scrollback _ _ \<Rightarrow> False | _ \<Rightarrow> True)
     | _ \<Rightarrow> True)"

text \<open>The rows of an epoch by its log, with \<open>d\<close> for a number the log does not have.\<close>

definition logged_row :: "(u8 \<times> bytes list) list \<Rightarrow> bytes \<Rightarrow> u8 \<Rightarrow> nat \<Rightarrow> bytes" where
  "logged_row logs d e n = (case map_of logs e of Some l \<Rightarrow> (if n < length l then l ! n else d) | None \<Rightarrow> d)"

lemma in_log_honest:
  assumes "in_log logs (Scrollback2 e off rws)" "distinct (map fst logs)" "\<forall>(e, l) \<in> set logs. length l < 2 ^ 64"
  shows "body_honest (logged_row logs d e) (unat off) rws"
proof (cases "rws = []")
  case True
  then show ?thesis by (simp add: body_honest_def)
next
  case False
  with assms(1) obtain l n where l: "off = of_nat n" "(e, l) \<in> set logs" "n + length rws \<le> length l"
    "rws = take (length rws) (drop n l)" by (auto simp: in_log_def)
  have m: "map_of logs e = Some l" using assms(2) l(2) by simp
  have "length l < 2 ^ 64" using assms(3) l(2) by auto
  then have n: "unat off = n" using l(1,3) by simp
  have "take (length rws) (drop n l) = map (logged_row logs d e) [n..<n + length rws]"
    using l(3) by (intro nth_equalityI) (auto simp: logged_row_def m)
  with l(4) n show ?thesis by (simp add: body_honest_def)
qed

lemma from_server_honest:
  assumes "list_all (in_log logs) sent" "distinct (map fst logs)" "\<forall>(e, l) \<in> set logs. length l < 2 ^ 64"
    "from_server sent i"
  shows "honest_input (logged_row logs d) i"
proof (cases i)
  case (Frame fr)
  with assms(4) show ?thesis
    using in_log_honest [OF _ assms(2,3)] assms(1)
    by (auto simp: from_server_def honest_frame_def list_all_iff split: frame_body.splits)
qed simp_all

text \<open>
  C22. End to end: after any run of the server (scrolling, eviction, acknowledgements, resizes, reflows,
  sends) with at most 255 epochs, and any frames the client gets from it in any order, lost, late or
  repeated, a row the client's history view shows is the row the server logged under that number in the
  epoch the client follows.
\<close>

theorem history_end_to_end:
  assumes server: "fold server_step ops (server_history_new sz) = sv"
    and client: "fold (client_step T) is (client_new T codec retain r c) = st"
    and bounds: "length (epoch_logs sv) \<le> 255" "\<forall>(e, l) \<in> set (epoch_logs sv). length l < 2 ^ 64"
    and net: "\<forall>i \<in> set is. from_server (sent_bodies sv) i"
    and shown: "row_epoch (hist st) = Some e" "view_row (scrollback (hist st)) k = Some (Row b)"
  shows "\<exists>l. (e, l) \<in> set (epoch_logs sv) \<and> row_number (hist st) k < length l \<and> b = l ! row_number (hist st) k"
proof -
  have sent: "list_all (in_log (epoch_logs sv)) (sent_bodies sv)"
    using server_sent_in_log [of ops sz] by (simp add: server)
  have dist: "distinct (map fst (epoch_logs sv))"
    using epochs_distinct [OF server_epochs_chained] bounds(1) unfolding server [symmetric] by blast
  have row: "b = logged_row (epoch_logs sv) d e (row_number (hist st) k)" for d
  proof -
    have "\<forall>i \<in> set is. honest_input (logged_row (epoch_logs sv) d) i"
      using from_server_honest [OF sent dist bounds(2)] net by blast
    then have "epoch_honest (logged_row (epoch_logs sv) d) (hist st)"
      unfolding client [symmetric] by (rule client_run_honest [OF client_new_honest])
    with shown show ?thesis by (intro shown_row_honest) (simp_all add: epoch_honest_def)
  qed
  have "\<exists>l. map_of (epoch_logs sv) e = Some l \<and> row_number (hist st) k < length l"
    using row [of "[0]"] row [of "[1]"] by (auto simp: logged_row_def split: option.splits if_splits)
  with row [of "[]"] show ?thesis by (auto simp: logged_row_def dest: map_of_SomeD)
qed

text \<open>An instance: one row scrolls off, is sent and shown.\<close>

definition one_row_server :: server_history where
  "one_row_server = fold server_step [Activate Fresh, Scroll [[65]] 10, Send_body 0 100 10] (server_history_new (24, 80))"

lemma one_row_server_eval:
  "epoch_logs one_row_server = [(1, [[65]])] \<and> sent_bodies one_row_server = [Scrollback2 1 0 [[65]]]"
  by (simp add: one_row_server_def server_history_new_def cursor_new_def activate_def set_cursor_def extend_log_def
    Let_def next_body_def body_range_def avail_and_floor_def avail_def primary_scrollback_len_def resend_due_def
    in_flight_def next_fresh_def SB2_ROWS_PER_BODY_def body_rows_def dump_scrollback_row_def get_at_def)

definition one_row_client :: "bytes client" where
  "one_row_client = fold (client_step byte_terminal)
     [some_frame [encode_scrollback2_ack 1] (Scrollback2 1 0 [[65]])] (client_new byte_terminal SyncDumpDiff True 24 80)"

lemma one_row_client_eval:
  "scrollback (hist one_row_client) = append_owned [[65]] (ring_new SCROLLBACK_RING_DEPTH)"
  "row_epoch (hist one_row_client) = Some 1"
  by (simp_all add: one_row_client_def some_frame_def process_frame_history is_growth_def adopt_epoch_def
    adopt_extent_cap_def opt_filter_def apply_scrollback2_body_def apply_scrollback2_rows_def settle_done
    append_tail_def claim_scrollback2_tail_def clear_v2_row_space_def held_clear_def client_new_def history_new_def
    held_empty_def ring_clear_def ring_new_def Let_def)

lemma one_row_shown: "view_row (append_owned [[65]] (ring_new SCROLLBACK_RING_DEPTH)) 0 = Some (Row [65])"
  by (simp add: append_owned_def ring_new_def push_row_def first_number_def view_row_def hole_search.simps
    ring_row_def get_at_def SCROLLBACK_RING_DEPTH_def)

theorem history_end_to_end_witness:
  "\<exists>l. (1, l) \<in> set (epoch_logs one_row_server) \<and> row_number (hist one_row_client) 0 < length l \<and>
     [65] = l ! row_number (hist one_row_client) 0"
proof (rule history_end_to_end)
  show "fold server_step [Activate Fresh, Scroll [[65]] 10, Send_body 0 100 10] (server_history_new (24, 80)) = one_row_server"
    by (simp add: one_row_server_def)
  show "fold (client_step byte_terminal) [some_frame [encode_scrollback2_ack 1] (Scrollback2 1 0 [[65]])]
      (client_new byte_terminal SyncDumpDiff True 24 80) = one_row_client" by (simp add: one_row_client_def)
qed (simp_all add: one_row_server_eval from_server_def some_frame_def one_row_client_eval one_row_shown)

section \<open>Catching up\<close>









subsection \<open>The client's count\<close>







subsection \<open>The message and the tick\<close>
























end
