(* ===== verification/Mux.thy ===== *)
theory Mux
  imports IpcFacts Channel Frame
begin

text \<open>
  The local mux endpoint, \<open>crates/posh/src/remote/mux.rs\<close>: destination keys, the reference
  and linger machine, the IPC protocol of the mux socket, the wire's liveness probe, and the event loop
  \<open>mux_loop\<close> as operations on its state: the IPC connections, the session channels they own, the
  routes and the closes owed to the wire. What the loop sends is recorded in \<open>outs\<close>. Sockets,
  the poll set, the ssh bootstrap and logging are outside; the agent channels are the one output
  \<open>CloseAgents\<close> (their records are \<open>agent.rs\<close>'s). Milliseconds are nats, kept below
  \<open>2 ^ 64\<close> where the code saturates.
\<close>

section \<open>Destination keys\<close>

datatype family = FamAuto | FamInet | FamInet6

definition slug_byte :: "u8 \<Rightarrow> bool" where
  "slug_byte b \<longleftrightarrow> 0x41 \<le> b \<and> b \<le> 0x5A \<or> 0x61 \<le> b \<and> b \<le> 0x7A \<or> 0x30 \<le> b \<and> b \<le> 0x39 \<or>
     b = 0x2E \<or> b = 0x5F \<or> b = 0x2D"

definition sanitize_id :: "bytes \<Rightarrow> bytes" where
  "sanitize_id s = map (\<lambda>b. if slug_byte b then b else 0x2D) s"

text \<open>\<open>str::to_lowercase\<close> on ASCII; host names carry no other letters.\<close>

definition to_lowercase :: "bytes \<Rightarrow> bytes" where
  "to_lowercase s = map (\<lambda>b. if 0x41 \<le> b \<and> b \<le> 0x5A then b + 0x20 else b) s"

definition dest_key :: "bytes option \<Rightarrow> bytes \<Rightarrow> family \<Rightarrow> bytes option \<Rightarrow> bytes" where
  "dest_key user host fam port_range =
     (case user of Some u \<Rightarrow> sanitize_id u @ [0x2D] | None \<Rightarrow> []) @
     sanitize_id (to_lowercase host) @
     (case fam of FamAuto \<Rightarrow> [] | FamInet \<Rightarrow> ascii ''-4'' | FamInet6 \<Rightarrow> ascii ''-6'') @
     (case port_range of Some r \<Rightarrow> 0x2D # sanitize_id r | None \<Rightarrow> [])"

section \<open>References and lingering\<close>

definition U64_MAX :: nat where "U64_MAX = 2 ^ 64 - 1"

definition sat_add :: "nat \<Rightarrow> nat \<Rightarrow> nat" where "sat_add a b = min U64_MAX (a + b)"

definition DEFAULT_LINGER_MS :: nat where "DEFAULT_LINGER_MS = 60000"
definition SPAWN_GRACE_MS :: nat where "SPAWN_GRACE_MS = 5000"

text \<open>\<open>str::parse::<u64>\<close>: an optional plus sign, at least one digit, no overflow.\<close>

definition parse_u64 :: "bytes \<Rightarrow> nat option" where
  "parse_u64 s =
     (let ds = (case s of b # r \<Rightarrow> if b = 0x2B then r else s | [] \<Rightarrow> []);
          n = foldl (\<lambda>a b. 10 * a + (unat b - 0x30)) 0 ds
      in if ds \<noteq> [] \<and> list_all (\<lambda>b. 0x30 \<le> b \<and> b \<le> 0x39) ds \<and> n \<le> U64_MAX then Some n else None)"

definition is_space :: "u8 \<Rightarrow> bool" where
  "is_space b \<longleftrightarrow> b = 0x20 \<or> 0x09 \<le> b \<and> b \<le> 0x0D"

definition trim_spaces :: "bytes \<Rightarrow> bytes" where
  "trim_spaces s = rev (dropWhile is_space (rev (dropWhile is_space s)))"

definition parse_linger_ms :: "bytes option \<Rightarrow> nat" where
  "parse_linger_ms v = (case Option.bind v (\<lambda>s. parse_u64 (trim_spaces s)) of
       Some secs \<Rightarrow> min U64_MAX (secs * 1000)
     | None \<Rightarrow> DEFAULT_LINGER_MS)"

record mux_state =
  refs :: nat
  linger_ms :: nat
  linger_deadline :: "nat option"

definition mux_state_new :: "nat \<Rightarrow> nat \<Rightarrow> mux_state" where
  "mux_state_new linger now = \<lparr>refs = 0, linger_ms = linger,
     linger_deadline = Some (sat_add now (max linger SPAWN_GRACE_MS))\<rparr>"

definition add_ref :: "mux_state \<Rightarrow> mux_state" where
  "add_ref s = s\<lparr>refs := refs s + 1, linger_deadline := None\<rparr>"

definition unref :: "nat \<Rightarrow> mux_state \<Rightarrow> mux_state" where
  "unref now s = (let s = s\<lparr>refs := refs s - 1\<rparr>
     in if refs s = 0 then s\<lparr>linger_deadline := Some (sat_add now (linger_ms s))\<rparr> else s)"

definition serviceable :: "mux_state \<Rightarrow> bool" where "serviceable s \<longleftrightarrow> refs s > 0"

definition lingering :: "mux_state \<Rightarrow> bool" where "lingering s \<longleftrightarrow> linger_deadline s \<noteq> None"

definition should_exit :: "nat \<Rightarrow> mux_state \<Rightarrow> bool" where
  "should_exit now s \<longleftrightarrow> (case linger_deadline s of Some d \<Rightarrow> now \<ge> d | None \<Rightarrow> False)"

section \<open>The protocol of the socket\<close>

definition MUX_PROTO_STAMP :: bytes where "MUX_PROTO_STAMP = ascii ''mux2/1''"
definition MUX_MAX_FRAME_LEN :: nat where "MUX_MAX_FRAME_LEN = 4 * 1024 * 1024"

datatype mux_tag = MHello | MHelloAck | MSessionRef | MStatus | MStatusReply | MRefAck | MSessionOpen
  | MSessionOpenAck | MSessionMsg | MSessionFrame | MSessionClose | MSessionSwitched

definition all_mux_tags :: "mux_tag list" where
  "all_mux_tags = [MHello, MHelloAck, MSessionRef, MStatus, MStatusReply, MRefAck, MSessionOpen,
     MSessionOpenAck, MSessionMsg, MSessionFrame, MSessionClose, MSessionSwitched]"

definition mux_tag_from_u8 :: "u8 \<Rightarrow> mux_tag option" where
  "mux_tag_from_u8 b = get_at all_mux_tags (unat b)"

definition mux_tag_to_u8 :: "mux_tag \<Rightarrow> u8" where
  "mux_tag_to_u8 t = (case position (\<lambda>x. x = t) all_mux_tags of Some i \<Rightarrow> of_nat i | None \<Rightarrow> 0)"

definition mux_tags :: "mux_tag frame_tags" where
  "mux_tags = \<lparr>from_tag_byte = mux_tag_from_u8, max_len = MUX_MAX_FRAME_LEN, tag_label = ''mux frame''\<rparr>"

definition encode_mux_frame :: "mux_tag \<Rightarrow> bytes \<Rightarrow> bytes" where
  "encode_mux_frame t p = append_frame [] (mux_tag_to_u8 t) p"

record mux_hello =
  hello_pid :: u32
  hello_stamp :: bytes

definition encode_hello :: "mux_hello \<Rightarrow> bytes" where
  "encode_hello h = le_bytes 4 (hello_pid h) @ hello_stamp h"

definition decode_hello :: "bytes \<Rightarrow> mux_hello option" where
  "decode_hello p = (if length p < 4 then None
     else Some \<lparr>hello_pid = le_val (take 4 p), hello_stamp = utf8_lossy (drop 4 p)\<rparr>)"

datatype mux_conn_state = Bootstrapping | Connected | Draining | Reconnecting

definition conn_state_from_u8 :: "u8 \<Rightarrow> mux_conn_state option" where
  "conn_state_from_u8 b = get_at [Bootstrapping, Connected, Draining, Reconnecting] (unat b)"

fun conn_state_to_u8 :: "mux_conn_state \<Rightarrow> u8" where
  "conn_state_to_u8 Bootstrapping = 0"
| "conn_state_to_u8 Connected = 1"
| "conn_state_to_u8 Draining = 2"
| "conn_state_to_u8 Reconnecting = 3"

record mux_hello_ack =
  ack_state :: mux_conn_state
  ack_stamp :: bytes
  ack_key :: bytes
  ack_source :: "bytes option"

definition encode_hello_ack :: "mux_hello_ack \<Rightarrow> bytes" where
  "encode_hello_ack a = [conn_state_to_u8 (ack_state a)] @
     le_bytes 2 (of_nat (length (ack_stamp a)) :: u16) @ ack_stamp a @
     le_bytes 2 (of_nat (length (ack_key a)) :: u16) @ ack_key a @
     (case ack_source a of Some s \<Rightarrow> s | None \<Rightarrow> [])"

definition decode_hello_ack :: "bytes \<Rightarrow> mux_hello_ack option" where
  "decode_hello_ack p =
     (if length p < 3 then None
      else (case conn_state_from_u8 (p ! 0) of
          None \<Rightarrow> None
        | Some st \<Rightarrow>
            (let stamp_len = unat (le_val (take 2 (drop 1 p)) :: u16); rest = drop 3 p
             in if stamp_len + 2 > length rest then None
                else (let stamp = take stamp_len rest; rest = drop stamp_len rest;
                          key_len = unat (le_val (take 2 rest) :: u16); rest = drop 2 rest
                      in if key_len > length rest then None
                         else (let source = drop key_len rest
                           in Some \<lparr>ack_state = st, ack_stamp = utf8_lossy stamp, ack_key = utf8_lossy (take key_len rest),
                                ack_source = (if source = [] then None else Some source)\<rparr>)))))"

datatype mux_open_ack = Granted u64 | Refused bytes

fun encode_open_ack :: "mux_open_ack \<Rightarrow> bytes" where
  "encode_open_ack (Granted n) = 1 # le_bytes 8 n"
| "encode_open_ack (Refused reason) = 0 # reason"

definition decode_open_ack :: "bytes \<Rightarrow> mux_open_ack option" where
  "decode_open_ack p = (case p of
       [] \<Rightarrow> None
     | b # r \<Rightarrow>
         (if b = 1 then (if length p < 9 then None else Some (Granted (le_val (take 8 r))))
          else if b = 0 then Some (Refused (utf8_lossy r)) else None))"

definition encode_session_frame :: "u32 \<Rightarrow> bytes \<Rightarrow> bytes" where
  "encode_session_frame srtt b = le_bytes 4 srtt @ b"

definition decode_session_frame :: "bytes \<Rightarrow> (u32 \<times> bytes) option" where
  "decode_session_frame p = (if length p < 4 then None else Some (le_val (take 4 p), drop 4 p))"

record mux_close =
  close_remote :: bool
  close_bytes :: bytes

definition encode_close :: "mux_close \<Rightarrow> bytes" where
  "encode_close c = (if close_remote c then 1 else 0) # close_bytes c"

definition decode_close :: "bytes \<Rightarrow> mux_close option" where
  "decode_close p = (case p of
       [] \<Rightarrow> None
     | b # r \<Rightarrow> (if b = 0 \<or> b = 1 then Some \<lparr>close_remote = (b = 1), close_bytes = r\<rparr> else None))"

section \<open>The liveness of the wire\<close>

definition PROBE_SILENCE_MS :: nat where "PROBE_SILENCE_MS = 15000"
definition PROBE_TIMEOUT_MS :: nat where "PROBE_TIMEOUT_MS = 10000"
definition SUSPEND_GAP_MIN_MS :: nat where "SUSPEND_GAP_MIN_MS = 2 * HEARTBEAT_INTERVAL"

record wire_liveness =
  silence_ms :: nat
  timeout_ms :: nat
  probe_started :: "nat option"

definition liveness_new :: "nat \<Rightarrow> nat \<Rightarrow> wire_liveness" where
  "liveness_new silence timeout = \<lparr>silence_ms = silence, timeout_ms = timeout, probe_started = None\<rparr>"

definition heard :: "wire_liveness \<Rightarrow> wire_liveness" where
  "heard w = w\<lparr>probe_started := None\<rparr>"

definition probe_due :: "nat \<Rightarrow> nat \<Rightarrow> wire_liveness \<Rightarrow> wire_liveness \<times> bool" where
  "probe_due now heard_at w =
     (if probe_started w \<noteq> None then (w, True)
      else if now - heard_at < silence_ms w then (w, False)
      else (w\<lparr>probe_started := Some now\<rparr>, True))"

definition doubt :: "nat \<Rightarrow> wire_liveness \<Rightarrow> wire_liveness" where
  "doubt now w = (if probe_started w = None then w\<lparr>probe_started := Some now\<rparr> else w)"

definition dead :: "nat \<Rightarrow> wire_liveness \<Rightarrow> bool" where
  "dead now w \<longleftrightarrow> (case probe_started w of Some t \<Rightarrow> now - t \<ge> timeout_ms w | None \<Rightarrow> False)"

definition condemn :: "nat \<Rightarrow> wire_liveness \<Rightarrow> wire_liveness" where
  "condemn now w = w\<lparr>probe_started := Some (now - timeout_ms w)\<rparr>"

definition suspend_gap :: "nat \<Rightarrow> nat \<Rightarrow> nat option" where
  "suspend_gap wall_delta mono_delta =
     (let gap = wall_delta - mono_delta in if gap \<ge> SUSPEND_GAP_MIN_MS then Some gap else None)"

definition reconnect_backoff_ms :: "nat \<Rightarrow> nat" where
  "reconnect_backoff_ms attempt = (if attempt = 0 then 0 else if attempt = 1 then 2000
     else if attempt = 2 then 5000 else if attempt = 3 then 15000 else 60000)"

end
