(* ===== verification/MuxLoop.thy ===== *)
theory MuxLoop
  imports Mux ServerLoop
begin

text \<open>
  The state of \<open>mux_loop\<close> in \<open>crates/posh/src/remote/mux.rs\<close> and its operations: an IPC
  connection's frames (\<open>process_ipc_conn\<close>), the session verbs they carry, an instruction of the
  remote on a session channel, the dead-wire verdict, the reconnect, and the send pass with its open
  retransmissions and owed closes. What is written goes to \<open>outs\<close>, oldest first.
\<close>

section \<open>State\<close>

definition SESSION_WIRE_DATA :: u8 where "SESSION_WIRE_DATA = 0"
definition SESSION_WIRE_OPEN :: u8 where "SESSION_WIRE_OPEN = 1"
definition SESSION_WIRE_CLOSE :: u8 where "SESSION_WIRE_CLOSE = 2"
definition SESSION_WIRE_SWITCH :: u8 where "SESSION_WIRE_SWITCH = 3"
definition SESSION_OPEN_RETRANSMITS_MAX :: nat where "SESSION_OPEN_RETRANSMITS_MAX = 60"
definition SESSION_CLOSE_RETRANSMITS :: nat where "SESSION_CLOSE_RETRANSMITS = 4"
definition MAX_LOCAL_SESSION_CHANNELS :: nat where "MAX_LOCAL_SESSION_CHANNELS = 16"

record ipc_session =
  chan :: channel_id
  target :: bytes
  confirmed :: bool
  queued :: "bytes list"
  open_sends :: nat
  last_open_send :: "nat option"
  resume :: session_resume

record pending_close =
  pc_chan :: channel_id
  pc_payload :: bytes
  pc_sends :: nat
  pc_last :: "nat option"

datatype session_verb = VerbOpen bytes | VerbMsg bytes | VerbClose bytes

record ipc_conn =
  conn_id :: nat
  read_buf :: frame_buffer
  hello_ok :: bool
  holds_ref :: bool
  peer_pid :: "u32 option"
  session :: "ipc_session option"

definition ipc_conn_new :: "nat \<Rightarrow> ipc_conn" where
  "ipc_conn_new i = \<lparr>conn_id = i, read_buf = frame_buffer_new, hello_ok = False, holds_ref = False,
     peer_pid = None, session = None\<rparr>"

datatype mux_out =
    ToConn nat mux_tag bytes
  | ToWire channel_id u8 bytes
  | Heartbeat bytes
  | CloseAgents

record mux_loop =
  policy :: mux_state
  conns :: "ipc_conn list"
  routes :: "channel_id \<rightharpoonup> nat"
  pending_closes :: "pending_close list"
  chan_alloc :: channel_allocator
  next_conn_id :: nat
  wire_state :: mux_conn_state
  liveness :: wire_liveness
  wire_heard :: nat
  heartbeat_at :: "nat option"
  ident_held :: bool
  reconnect :: "(nat \<times> nat) option"
  outs :: "mux_out list"
  panicked :: bool

text \<open>Ordinal 1 is taken for the heartbeat before the loop starts.\<close>

definition mux_loop_new :: "nat \<Rightarrow> nat \<Rightarrow> wire_liveness \<Rightarrow> mux_loop" where
  "mux_loop_new linger now live = \<lparr>policy = mux_state_new linger now, conns = [], routes = Map.empty, pending_closes = [],
     chan_alloc = fst (alloc_next KIND_SESSION (allocator_new Client)), next_conn_id = 1, wire_state = Connected,
     liveness = live, wire_heard = now, heartbeat_at = None, ident_held = False, reconnect = None, outs = [], panicked = False\<rparr>"

definition emit :: "mux_out list \<Rightarrow> mux_loop \<Rightarrow> mux_loop" where
  "emit xs s = s\<lparr>outs := outs s @ xs\<rparr>"

section \<open>The frames of an IPC connection\<close>

text \<open>What a reply needs of the daemon; \<open>status\<close> is the status line.\<close>

record status_ctx =
  ctx_key :: bytes
  ctx_state :: mux_conn_state
  ctx_source :: "bytes option"
  ctx_status :: "mux_state \<Rightarrow> bytes"

record conn_step =
  st_conn :: ipc_conn
  st_policy :: mux_state
  st_outs :: "mux_out list"
  st_verbs :: "session_verb list"
  st_open :: bool

definition reply :: "bool \<Rightarrow> mux_tag \<Rightarrow> bytes \<Rightarrow> conn_step \<Rightarrow> conn_step" where
  "reply writable t p s = s\<lparr>st_outs := st_outs s @ [ToConn (conn_id (st_conn s)) t p], st_open := writable\<rparr>"

definition refuse :: "conn_step \<Rightarrow> conn_step" where "refuse s = s\<lparr>st_open := False\<rparr>"

definition on_hello :: "status_ctx \<Rightarrow> bool \<Rightarrow> bytes \<Rightarrow> conn_step \<Rightarrow> conn_step" where
  "on_hello ctx writable p s = (case decode_hello p of
       None \<Rightarrow> refuse s
     | Some h \<Rightarrow>
         (let s = reply writable MHelloAck (encode_hello_ack \<lparr>ack_state = ctx_state ctx, ack_stamp = MUX_PROTO_STAMP,
                    ack_key = ctx_key ctx, ack_source = ctx_source ctx\<rparr>) s
          in if \<not> st_open s then s
             else if hello_stamp h \<noteq> MUX_PROTO_STAMP then refuse s
             else s\<lparr>st_conn := (st_conn s)\<lparr>hello_ok := True, peer_pid := Some (hello_pid h)\<rparr>\<rparr>))"

definition on_session_ref :: "bool \<Rightarrow> conn_step \<Rightarrow> conn_step" where
  "on_session_ref writable s =
     reply writable MRefAck []
       (if holds_ref (st_conn s) then s
        else s\<lparr>st_conn := (st_conn s)\<lparr>holds_ref := True\<rparr>, st_policy := add_ref (st_policy s)\<rparr>)"

definition ipc_frame :: "status_ctx \<Rightarrow> bool \<Rightarrow> mux_tag tagged_frame \<Rightarrow> conn_step \<Rightarrow> conn_step" where
  "ipc_frame ctx writable f s =
     (let p = frame_payload f; after_hello = (\<lambda>t. if hello_ok (st_conn s) then t else refuse s)
      in case tag f of
           MHello \<Rightarrow> on_hello ctx writable p s
         | MSessionRef \<Rightarrow> after_hello (on_session_ref writable s)
         | MStatus \<Rightarrow> after_hello (reply writable MStatusReply (ctx_status ctx (st_policy s)) s)
         | MSessionOpen \<Rightarrow> after_hello (s\<lparr>st_verbs := st_verbs s @ [VerbOpen p]\<rparr>)
         | MSessionMsg \<Rightarrow> after_hello (s\<lparr>st_verbs := st_verbs s @ [VerbMsg p]\<rparr>)
         | MSessionClose \<Rightarrow> after_hello (s\<lparr>st_verbs := st_verbs s @
             [VerbClose (case decode_close p of Some c \<Rightarrow> close_bytes c | None \<Rightarrow> [])]\<rparr>)
         | _ \<Rightarrow> s)"

fun ipc_frames :: "status_ctx \<Rightarrow> bool \<Rightarrow> mux_tag tagged_frame list \<Rightarrow> conn_step \<Rightarrow> conn_step" where
  "ipc_frames ctx writable [] s = s"
| "ipc_frames ctx writable (f # fs) s =
     (let s = ipc_frame ctx writable f s in if st_open s then ipc_frames ctx writable fs s else s)"

text \<open>
  One call: the reads read, whether the reads ended in end of file or an error, whether replies can be
  written. A framing error drops the peer after the frames before it.
\<close>

definition process_ipc_conn ::
  "status_ctx \<Rightarrow> bool \<Rightarrow> bytes list \<Rightarrow> bool \<Rightarrow> ipc_conn \<Rightarrow> mux_state \<Rightarrow> conn_step" where
  "process_ipc_conn ctx writable reads ended c ms =
     (let (fs, buf, err) = drain mux_tags (fold feed reads (read_buf c));
          s = ipc_frames ctx writable fs
                \<lparr>st_conn = c\<lparr>read_buf := buf\<rparr>, st_policy = ms, st_outs = [], st_verbs = [], st_open = True\<rparr>
      in s\<lparr>st_open := (st_open s \<and> err = None \<and> \<not> ended)\<rparr>)"

section \<open>References of the loop\<close>

text \<open>Every release goes through here: the edge to zero closes the agent channels.\<close>

definition release_ref :: "nat \<Rightarrow> ipc_conn \<Rightarrow> mux_loop \<Rightarrow> mux_loop" where
  "release_ref now c s =
     (if holds_ref c
      then (let p = unref now (policy s)
            in (if serviceable (policy s) \<and> \<not> serviceable p then emit [CloseAgents] else id) (s\<lparr>policy := p\<rparr>))
      else s)"

definition set_conn :: "ipc_conn \<Rightarrow> mux_loop \<Rightarrow> mux_loop" where
  "set_conn c s = s\<lparr>conns := map (\<lambda>d. if conn_id d = conn_id c then c else d) (conns s)\<rparr>"

definition live_sessions :: "mux_loop \<Rightarrow> nat" where
  "live_sessions s = length (filter (\<lambda>c. session c \<noteq> None) (conns s))"

definition owe_close :: "channel_id \<Rightarrow> bytes \<Rightarrow> mux_loop \<Rightarrow> mux_loop" where
  "owe_close ch p s = s\<lparr>routes := (routes s)(ch := None),
     pending_closes := pending_closes s @ [\<lparr>pc_chan = ch, pc_payload = p, pc_sends = 0, pc_last = None\<rparr>]\<rparr>"

section \<open>Session verbs\<close>

definition open_session :: "ipc_conn \<Rightarrow> bytes \<Rightarrow> mux_loop \<Rightarrow> mux_loop" where
  "open_session c tgt s =
     (case session c of
        Some x \<Rightarrow> emit [ToConn (conn_id c) MSessionOpenAck (encode_open_ack (Granted (ordinal (chan x))))] s
      | None \<Rightarrow>
          (if live_sessions s \<ge> MAX_LOCAL_SESSION_CHANNELS
           then emit [ToConn (conn_id c) MSessionOpenAck (encode_open_ack (Refused (ascii ''session channel table full'')))] s
           else (case alloc_next KIND_SESSION (chan_alloc s) of
               (a, Inl _) \<Rightarrow> s\<lparr>panicked := True\<rparr>
             | (a, Inr ch) \<Rightarrow>
                 emit [ToConn (conn_id c) MSessionOpenAck (encode_open_ack (Granted (ordinal ch)))]
                   (set_conn (c\<lparr>holds_ref := True, session := Some \<lparr>chan = ch, target = tgt, confirmed = False, queued = [],
                        open_sends = 0, last_open_send = None, resume = INITIAL\<rparr>\<rparr>)
                     (s\<lparr>chan_alloc := a, routes := (routes s)(ch \<mapsto> conn_id c),
                        policy := (if holds_ref c then policy s else add_ref (policy s))\<rparr>)))))"

definition session_msg :: "ipc_conn \<Rightarrow> bytes \<Rightarrow> mux_loop \<Rightarrow> mux_loop" where
  "session_msg c p s = (case session c of
       None \<Rightarrow> s
     | Some x \<Rightarrow> (if confirmed x then emit [ToWire (chan x) SESSION_WIRE_DATA p] s
                  else set_conn (c\<lparr>session := Some (x\<lparr>queued := queued x @ [p]\<rparr>)\<rparr>) s))"

definition close_session :: "nat \<Rightarrow> ipc_conn \<Rightarrow> bytes \<Rightarrow> mux_loop \<Rightarrow> mux_loop" where
  "close_session now c p s = (case session c of
       None \<Rightarrow> s
     | Some x \<Rightarrow> release_ref now c (set_conn (c\<lparr>session := None, holds_ref := False\<rparr>) (owe_close (chan x) p s)))"

definition conn_of :: "nat \<Rightarrow> mux_loop \<Rightarrow> ipc_conn option" where
  "conn_of i s = find (\<lambda>c. conn_id c = i) (conns s)"

definition apply_verb :: "nat \<Rightarrow> nat \<Rightarrow> session_verb \<Rightarrow> mux_loop \<Rightarrow> mux_loop" where
  "apply_verb now i v s = (case conn_of i s of
       None \<Rightarrow> s
     | Some c \<Rightarrow> (case v of VerbOpen tgt \<Rightarrow> open_session c tgt s | VerbMsg p \<Rightarrow> session_msg c p s
          | VerbClose p \<Rightarrow> close_session now c p s))"

text \<open>The departure of a connection, and one readable connection.\<close>

definition drop_conn :: "nat \<Rightarrow> ipc_conn \<Rightarrow> mux_loop \<Rightarrow> mux_loop" where
  "drop_conn now c s =
     (let s = s\<lparr>conns := filter (\<lambda>d. conn_id d \<noteq> conn_id c) (conns s)\<rparr>
      in release_ref now c (case session c of Some x \<Rightarrow> owe_close (chan x) [] s | None \<Rightarrow> s))"

definition read_conn :: "nat \<Rightarrow> status_ctx \<Rightarrow> bool \<Rightarrow> bytes list \<Rightarrow> bool \<Rightarrow> nat \<Rightarrow> mux_loop \<Rightarrow> mux_loop" where
  "read_conn now ctx writable reads ended i s = (case conn_of i s of
       None \<Rightarrow> s
     | Some c \<Rightarrow>
         (let r = process_ipc_conn ctx writable reads ended c (policy s);
              s = emit (st_outs r) (set_conn (st_conn r) (s\<lparr>policy := st_policy r\<rparr>))
          in if st_open r then fold (apply_verb now i) (st_verbs r) s else drop_conn now (st_conn r) s))"

definition accept_conn :: "mux_loop \<Rightarrow> mux_loop" where
  "accept_conn s = s\<lparr>conns := conns s @ [ipc_conn_new (next_conn_id s)], next_conn_id := next_conn_id s + 1\<rparr>"

section \<open>Instructions of the remote\<close>

text \<open>Any instruction on a session's channel proves that its open arrived: what queued goes out.\<close>

definition confirm :: "ipc_session \<Rightarrow> ipc_session" where
  "confirm x = x\<lparr>confirmed := True, queued := []\<rparr>"

definition flushed :: "ipc_session \<Rightarrow> mux_out list" where
  "flushed x = (if confirmed x then [] else map (ToWire (chan x) SESSION_WIRE_DATA) (queued x))"

definition note_offsets :: "bytes \<Rightarrow> ipc_session \<Rightarrow> ipc_session" where
  "note_offsets b x = (case decode_frame b of
       Inl _ \<Rightarrow> x
     | Inr f \<Rightarrow> x\<lparr>resume := advance_from_frame (frame_num f) (input_ack f) (echo_ack f) (resume x)\<rparr>)"

definition wire_session :: "nat \<Rightarrow> u32 \<Rightarrow> channel_id \<Rightarrow> bytes \<Rightarrow> ipc_conn \<Rightarrow> ipc_session \<Rightarrow> mux_loop \<Rightarrow> mux_loop" where
  "wire_session now srtt ch m c x s =
     (let i = conn_id c; y = (if confirmed x then x else confirm x); s = emit (flushed x) s; rest = drop 1 m
      in case get_at m 0 of
           None \<Rightarrow> set_conn (c\<lparr>session := Some y\<rparr>) s
         | Some k \<Rightarrow>
             (if k = SESSION_WIRE_DATA
              then emit [ToConn i MSessionFrame (encode_session_frame srtt rest)]
                     (set_conn (c\<lparr>session := Some (note_offsets rest y)\<rparr>) s)
              else if k = SESSION_WIRE_SWITCH
              then emit [ToConn i MSessionSwitched rest] (set_conn (c\<lparr>session := Some (y\<lparr>target := rest\<rparr>)\<rparr>) s)
              else if k = SESSION_WIRE_CLOSE
              then (let s = emit [ToConn i MSessionClose (encode_close \<lparr>close_remote = True, close_bytes = rest\<rparr>)]
                              (set_conn (c\<lparr>session := None, holds_ref := False\<rparr>) s)
                    in release_ref now c (s\<lparr>routes := (routes s)(ch := None)\<rparr>))
              else set_conn (c\<lparr>session := Some y\<rparr>) s))"

definition holds_ident :: "bytes \<Rightarrow> bool" where
  "holds_ident m = (case decode_frame m of
       Inl _ \<Rightarrow> False
     | Inr f \<Rightarrow> (case find_cap (caps f) CAP_SERVER_IDENT of
          None \<Rightarrow> False
        | Some c \<Rightarrow> (case decode_server_ident (payload c) of Inl _ \<Rightarrow> False | Inr _ \<Rightarrow> True)))"

text \<open>An admitted instruction of session kind; agent instructions go to the channel mux.\<close>

definition wire_instruction :: "nat \<Rightarrow> u32 \<Rightarrow> channel_id \<Rightarrow> bytes \<Rightarrow> mux_loop \<Rightarrow> mux_loop" where
  "wire_instruction now srtt ch m s =
     (let s = s\<lparr>wire_heard := now, liveness := heard (liveness s)\<rparr>
      in if channel_kind ch \<noteq> KIND_SESSION then s
         else if ch = SESSION_CHANNEL then s\<lparr>ident_held := (ident_held s \<or> holds_ident m)\<rparr>
         else (case routes s ch of
             None \<Rightarrow> s
           | Some i \<Rightarrow> (case conn_of i s of
                None \<Rightarrow> s
              | Some c \<Rightarrow> (case session c of None \<Rightarrow> s | Some x \<Rightarrow> wire_session now srtt ch m c x s))))"

section \<open>Death and reconnect\<close>

definition check_suspend :: "nat \<Rightarrow> nat \<Rightarrow> nat \<Rightarrow> mux_loop \<Rightarrow> mux_loop" where
  "check_suspend wall_delta mono_delta now s =
     (if reconnect s \<noteq> None then s
      else (case suspend_gap wall_delta mono_delta of
          None \<Rightarrow> s
        | Some gap \<Rightarrow> s\<lparr>liveness := (if gap \<ge> PEER_TIMEOUT then condemn else doubt) now (liveness s)\<rparr>))"

definition reset_session :: "ipc_session \<Rightarrow> ipc_session" where
  "reset_session x = x\<lparr>confirmed := False, open_sends := 0, last_open_send := None\<rparr>"

definition rearmed :: "ipc_conn list \<Rightarrow> channel_id \<rightharpoonup> nat" where
  "rearmed cs = fold (\<lambda>c r. case session c of Some x \<Rightarrow> r(chan x \<mapsto> conn_id c) | None \<Rightarrow> r) cs Map.empty"

definition dead_verdict :: "nat \<Rightarrow> mux_loop \<Rightarrow> mux_loop" where
  "dead_verdict now s =
     (if reconnect s \<noteq> None \<or> \<not> dead now (liveness s) then s
      else emit [CloseAgents]
        (s\<lparr>routes := rearmed (conns s), pending_closes := [], ident_held := False,
           conns := map (\<lambda>c. c\<lparr>session := map_option reset_session (session c)\<rparr>) (conns s),
           wire_state := Reconnecting, liveness := heard (liveness s), reconnect := Some (0, now)\<rparr>))"

text \<open>\<open>later\<close> is the clock after the attempt, which may take seconds.\<close>

definition try_reconnect :: "nat \<Rightarrow> nat \<Rightarrow> bool \<Rightarrow> mux_loop \<Rightarrow> mux_loop" where
  "try_reconnect now later ok s = (case reconnect s of
       None \<Rightarrow> s
     | Some (attempt, next_try) \<Rightarrow>
         (if now < next_try then s
          else if ok then s\<lparr>wire_state := Connected, reconnect := None, heartbeat_at := None, wire_heard := later,
                 liveness := heard (liveness s)\<rparr>
          else s\<lparr>reconnect := Some (min (2 ^ 32 - 1) (attempt + 1),
                 sat_add now (reconnect_backoff_ms (min (2 ^ 32 - 1) (attempt + 1))))\<rparr>))"

section \<open>Sending\<close>

definition open_due :: "nat \<Rightarrow> nat \<Rightarrow> ipc_session \<Rightarrow> bool" where
  "open_due now rto x \<longleftrightarrow> \<not> confirmed x \<and> open_sends x < SESSION_OPEN_RETRANSMITS_MAX \<and>
     (case last_open_send x of None \<Rightarrow> True | Some t \<Rightarrow> now - t \<ge> rto)"

definition open_expired :: "ipc_session \<Rightarrow> bool" where
  "open_expired x \<longleftrightarrow> \<not> confirmed x \<and> open_sends x \<ge> SESSION_OPEN_RETRANSMITS_MAX"

definition session_has :: "(ipc_session \<Rightarrow> bool) \<Rightarrow> ipc_conn \<Rightarrow> bool" where
  "session_has p c = (case session c of Some x \<Rightarrow> p x | None \<Rightarrow> False)"

definition count_open :: "nat \<Rightarrow> nat \<Rightarrow> ipc_conn \<Rightarrow> ipc_conn" where
  "count_open now rto c = (if session_has (open_due now rto) c
     then c\<lparr>session := map_option (\<lambda>x. x\<lparr>open_sends := open_sends x + 1, last_open_send := Some now\<rparr>) (session c)\<rparr>
     else c)"

definition opens_sent :: "nat \<Rightarrow> nat \<Rightarrow> ipc_conn list \<Rightarrow> mux_out list" where
  "opens_sent now rto cs = map (\<lambda>x. ToWire (chan x) SESSION_WIRE_OPEN (encode_open (target x) (resume x)))
     (filter (open_due now rto) (List.map_filter session cs))"

definition expire_open :: "nat \<Rightarrow> nat \<Rightarrow> mux_loop \<Rightarrow> mux_loop" where
  "expire_open now i s = (case conn_of i s of
       None \<Rightarrow> s
     | Some c \<Rightarrow> (case session c of
          None \<Rightarrow> s
        | Some x \<Rightarrow> release_ref now c
            (emit [ToConn i MSessionClose (encode_close \<lparr>close_remote = True,
                close_bytes = ascii ''session open timed out (no answer from the remote peer)''\<rparr>)]
              (set_conn (c\<lparr>session := None, holds_ref := False\<rparr>) (owe_close (chan x) [] s)))))"

definition close_due :: "nat \<Rightarrow> nat \<Rightarrow> pending_close \<Rightarrow> bool" where
  "close_due now rto p \<longleftrightarrow> (case pc_last p of None \<Rightarrow> True | Some t \<Rightarrow> now - t \<ge> rto)"

definition count_close :: "nat \<Rightarrow> nat \<Rightarrow> pending_close \<Rightarrow> pending_close" where
  "count_close now rto p = (if close_due now rto p then p\<lparr>pc_sends := pc_sends p + 1, pc_last := Some now\<rparr> else p)"

definition send_closes :: "nat \<Rightarrow> nat \<Rightarrow> mux_loop \<Rightarrow> mux_loop" where
  "send_closes now rto s = emit
     (map (\<lambda>p. ToWire (pc_chan p) SESSION_WIRE_CLOSE (pc_payload p)) (filter (close_due now rto) (pending_closes s)))
     (s\<lparr>pending_closes := filter (\<lambda>p. pc_sends p < SESSION_CLOSE_RETRANSMITS) (map (count_close now rto) (pending_closes s))\<rparr>)"

definition heartbeat_message :: "bool \<Rightarrow> bytes" where
  "heartbeat_message request_ident = encode_client_message
     \<lparr>msg_flags = 0, msg_caps = (if request_ident then [\<lparr>cap_id = CAP_SERVER_IDENT, payload = []\<rparr>] else []),
      acked_frame = 0, rows = 0, cols = 0, input_base = 0, input = []\<rparr>"

definition send_heartbeat :: "nat \<Rightarrow> mux_loop \<Rightarrow> mux_loop" where
  "send_heartbeat now s =
     (let due = (case heartbeat_at s of None \<Rightarrow> True | Some t \<Rightarrow> now - t \<ge> HEARTBEAT_INTERVAL);
          (w, probing) = probe_due now (wire_heard s) (liveness s);
          s = s\<lparr>liveness := w\<rparr>
      in if due then emit [Heartbeat (heartbeat_message (\<not> ident_held s \<or> probing))] (s\<lparr>heartbeat_at := Some now\<rparr>) else s)"

definition send_pass :: "nat \<Rightarrow> nat \<Rightarrow> mux_loop \<Rightarrow> mux_loop" where
  "send_pass now rto s =
     (if reconnect s \<noteq> None then s
      else (let expired = map conn_id (filter (session_has open_expired) (conns s));
                s = emit (opens_sent now rto (conns s)) (s\<lparr>conns := map (count_open now rto) (conns s)\<rparr>)
            in send_heartbeat now (send_closes now rto (fold (expire_open now) expired s))))"

section \<open>The loop's events\<close>

datatype mux_event =
    Accepts
  | Reads nat status_ctx bool "bytes list" bool nat
  | Arrives nat u32 channel_id bytes
  | Resumes nat nat nat
  | Judges nat
  | Reconnects nat nat bool
  | Sends nat nat

fun mux_step :: "mux_event \<Rightarrow> mux_loop \<Rightarrow> mux_loop" where
  "mux_step Accepts s = accept_conn s"
| "mux_step (Reads now ctx writable reads ended i) s = read_conn now ctx writable reads ended i s"
| "mux_step (Arrives now srtt ch m) s = wire_instruction now srtt ch m s"
| "mux_step (Resumes wall_delta mono_delta now) s = check_suspend wall_delta mono_delta now s"
| "mux_step (Judges now) s = dead_verdict now s"
| "mux_step (Reconnects now later ok) s = try_reconnect now later ok s"
| "mux_step (Sends now rto) s = send_pass now rto s"

end
