(* ===== verification/MuxFacts.thy ===== *)
theory MuxFacts
  imports MuxLoop ChannelFacts CapsFacts
begin

text \<open>
  What the mux endpoint keeps, over any sequence of its loop's events: the reference count is the number of
  connections that hold one, the linger clock runs exactly while it is zero, the routes are exactly the
  channels of the live sessions, which are bounded; the agent channels are closed whenever the last
  reference goes. And two ways it goes wrong: destination keys that collide, and a session left behind by
  a reconnect.
\<close>

section \<open>Replacing a connection\<close>

definition replaced :: "ipc_conn \<Rightarrow> ipc_conn list \<Rightarrow> ipc_conn list" where
  "replaced c cs = map (\<lambda>d. if conn_id d = conn_id c then c else d) cs"

lemma replaced_ids [simp]: "map conn_id (replaced c cs) = map conn_id cs"
  by (induction cs) (simp_all add: replaced_def)

lemma replaced_absent: "conn_id c \<notin> conn_id ` set cs \<Longrightarrow> replaced c cs = cs"
  by (induction cs) (auto simp: replaced_def)

lemma replaced_set:
  assumes "distinct (map conn_id cs)" "c \<in> set cs" "conn_id c' = conn_id c"
  shows "set (replaced c' cs) = insert c' (set cs - {c})"
  using assms by (auto simp: replaced_def distinct_map inj_on_def)

lemma replaced_count:
  assumes "distinct (map conn_id cs)" "c \<in> set cs" "conn_id c' = conn_id c"
  shows "length (filter P (replaced c' cs)) + of_bool (P c) = length (filter P cs) + (of_bool (P c') :: nat)"
  using assms
proof (induction cs)
  case (Cons d ds)
  show ?case
  proof (cases "d = c")
    case True
    then have "replaced c' ds = ds" using Cons.prems by (intro replaced_absent) (auto simp: distinct_map)
    with True Cons.prems(3) show ?thesis by (simp add: replaced_def)
  next
    case False
    then have "c \<in> set ds" "conn_id d \<noteq> conn_id c" using Cons.prems by (auto simp: distinct_map)
    with Cons show ?thesis by (auto simp: replaced_def)
  qed
qed simp

lemma removed_count:
  assumes "distinct (map conn_id cs)" "c \<in> set cs"
  shows "length (filter P (filter (\<lambda>d. conn_id d \<noteq> conn_id c) cs)) + of_bool (P c) = length (filter P cs)"
  using assms
proof (induction cs)
  case (Cons d ds)
  show ?case
  proof (cases "d = c")
    case True
    then have "filter (\<lambda>e. conn_id e \<noteq> conn_id c) ds = ds"
      using Cons.prems by (auto simp: filter_id_conv distinct_map intro: rev_image_eqI)
    with True show ?thesis by simp
  next
    case False
    then have "c \<in> set ds" "conn_id d \<noteq> conn_id c" using Cons.prems by (auto simp: distinct_map)
    with Cons show ?thesis by auto
  qed
qed simp

lemma conn_of_some: "conn_of i s = Some c \<Longrightarrow> c \<in> set (conns s) \<and> conn_id c = i"
  by (auto simp: conn_of_def find_Some_iff)

lemma set_conn_conns [simp]: "conns (set_conn c s) = replaced c (conns s)"
  by (simp add: set_conn_def replaced_def)

section \<open>The invariant\<close>

definition next_session :: "mux_loop \<Rightarrow> nat" where
  "next_session s = unat (next_ordinal (chan_alloc s) ! 0)"

definition conns_ok :: "mux_loop \<Rightarrow> bool" where
  "conns_ok s \<longleftrightarrow> distinct (map conn_id (conns s)) \<and>
     (\<forall>c \<in> set (conns s). conn_id c < next_conn_id s \<and> (session c \<noteq> None \<longrightarrow> holds_ref c)) \<and>
     live_sessions s \<le> MAX_LOCAL_SESSION_CHANNELS"

definition refs_ok :: "mux_loop \<Rightarrow> bool" where
  "refs_ok s \<longleftrightarrow> refs (policy s) = length (filter holds_ref (conns s)) \<and>
     (lingering (policy s) \<longleftrightarrow> refs (policy s) = 0)"

definition owns :: "ipc_conn \<Rightarrow> channel_id \<Rightarrow> bool" where
  "owns c ch \<longleftrightarrow> (\<exists>x. session c = Some x \<and> chan x = ch)"

definition routes_ok :: "mux_loop \<Rightarrow> bool" where
  "routes_ok s \<longleftrightarrow> (\<forall>ch i. routes s ch = Some i \<longleftrightarrow> (\<exists>c \<in> set (conns s). conn_id c = i \<and> owns c ch))"

definition alloc_ok :: "mux_loop \<Rightarrow> bool" where
  "alloc_ok s \<longleftrightarrow> alloc_role (chan_alloc s) = Client \<and> length (next_ordinal (chan_alloc s)) = 128 \<and>
     (\<forall>c \<in> set (conns s). \<forall>ch. owns c ch \<longrightarrow> (\<exists>n. ch = channel_new False KIND_SESSION n \<and> unat n < next_session s))"

definition mux_ok :: "mux_loop \<Rightarrow> bool" where
  "mux_ok s \<longleftrightarrow> conns_ok s \<and> refs_ok s \<and> routes_ok s \<and> alloc_ok s"

text \<open>
  An operation keeps the invariant while the channel identifiers last, it never hands out an identifier
  twice, it only adds output, and when it gives up the last reference it says so.
\<close>

definition edge_closes :: "mux_loop \<Rightarrow> mux_loop \<Rightarrow> bool" where
  "edge_closes s t \<longleftrightarrow> (\<exists>xs. outs t = outs s @ xs \<and>
     (serviceable (policy s) \<and> \<not> serviceable (policy t) \<longrightarrow> CloseAgents \<in> set xs))"

definition sound :: "mux_loop \<Rightarrow> mux_loop \<Rightarrow> bool" where
  "sound s t \<longleftrightarrow> next_session s \<le> next_session t \<and> edge_closes s t \<and> (mux_ok s \<and> next_session t < 2 ^ 56 \<longrightarrow> mux_ok t)"

lemma edge_closes_refl [simp]: "edge_closes s s"
  by (simp add: edge_closes_def)

lemma edge_closes_trans: "edge_closes s t \<Longrightarrow> edge_closes t u \<Longrightarrow> edge_closes s u"
  by (auto simp: edge_closes_def)

lemma sound_refl [simp]: "sound s s"
  by (simp add: sound_def)

lemma sound_trans: "sound s t \<Longrightarrow> sound t u \<Longrightarrow> sound s u"
  unfolding sound_def by (meson edge_closes_trans le_trans le_less_trans)

lemma sound_fold: "(\<And>x s. sound s (f x s)) \<Longrightarrow> sound s (fold f xs s)"
  by (induction xs arbitrary: s) (auto intro: sound_trans)

lemma edge_outs:
  "outs t = outs s @ xs \<Longrightarrow> (serviceable (policy s) \<Longrightarrow> serviceable (policy t)) \<Longrightarrow> edge_closes s t"
  by (auto simp: edge_closes_def)

text \<open>A step that leaves the policy and only adds output.\<close>

lemma soundI:
  assumes "outs t = outs s @ xs" "refs (policy s) \<le> refs (policy t)" "next_session s \<le> next_session t"
    "mux_ok s \<Longrightarrow> next_session t < 2 ^ 56 \<Longrightarrow> mux_ok t"
  shows "sound s t"
  using assms edge_outs [OF assms(1)] by (auto simp: sound_def serviceable_def)

section \<open>Changes that touch no ownership\<close>

lemma mux_ok_frame [simp]:
  "mux_ok (s\<lparr>outs := o1\<rparr>) = mux_ok s" "mux_ok (s\<lparr>pending_closes := pcs\<rparr>) = mux_ok s"
  "mux_ok (s\<lparr>wire_state := ws\<rparr>) = mux_ok s" "mux_ok (s\<lparr>liveness := lv\<rparr>) = mux_ok s"
  "mux_ok (s\<lparr>wire_heard := n\<rparr>) = mux_ok s" "mux_ok (s\<lparr>heartbeat_at := no\<rparr>) = mux_ok s"
  "mux_ok (s\<lparr>ident_held := b\<rparr>) = mux_ok s" "mux_ok (s\<lparr>reconnect := rc\<rparr>) = mux_ok s"
  "mux_ok (s\<lparr>panicked := b\<rparr>) = mux_ok s" "mux_ok (emit xs s) = mux_ok s"
  by (simp_all add: mux_ok_def conns_ok_def refs_ok_def routes_ok_def alloc_ok_def live_sessions_def next_session_def emit_def)

definition same_holdings :: "ipc_conn \<Rightarrow> ipc_conn \<Rightarrow> bool" where
  "same_holdings c d \<longleftrightarrow> conn_id d = conn_id c \<and> holds_ref d = holds_ref c \<and> (\<forall>ch. owns d ch = owns c ch) \<and>
     (session d = None) = (session c = None)"

lemma same_holdings_refl [simp]: "same_holdings c c"
  by (simp add: same_holdings_def)

lemma relabelled:
  assumes "list_all2 same_holdings cs ds"
  shows "map conn_id ds = map conn_id cs \<and> length (filter holds_ref ds) = length (filter holds_ref cs) \<and>
    length (filter (\<lambda>c. session c \<noteq> None) ds) = length (filter (\<lambda>c. session c \<noteq> None) cs) \<and>
    (\<forall>d \<in> set ds. \<exists>c \<in> set cs. same_holdings c d) \<and> (\<forall>c \<in> set cs. \<exists>d \<in> set ds. same_holdings c d)"
  using assms by induction (auto simp: same_holdings_def)

lemma relabel_ok:
  assumes ok: "mux_ok s" and ds: "list_all2 same_holdings (conns s) ds"
  shows "mux_ok (s\<lparr>conns := ds\<rparr>)"
proof -
  note r = relabelled [OF ds]
  have own: "(\<exists>d \<in> set ds. conn_id d = i \<and> owns d ch) \<longleftrightarrow> (\<exists>c \<in> set (conns s). conn_id c = i \<and> owns c ch)" for i ch
    using r unfolding same_holdings_def by metis
  have hold: "\<forall>d \<in> set ds. conn_id d < next_conn_id s \<and> (session d \<noteq> None \<longrightarrow> holds_ref d)"
    using ok r unfolding mux_ok_def conns_ok_def same_holdings_def by metis
  have al: "\<forall>d \<in> set ds. \<forall>ch. owns d ch \<longrightarrow> (\<exists>n. ch = channel_new False KIND_SESSION n \<and> unat n < next_session s)"
    using ok r unfolding mux_ok_def alloc_ok_def same_holdings_def by metis
  show ?thesis using ok r own hold al
    by (simp add: mux_ok_def conns_ok_def refs_ok_def routes_ok_def alloc_ok_def live_sessions_def next_session_def)
qed

lemma set_conn_same:
  assumes "mux_ok s" "c \<in> set (conns s)" "same_holdings c c'"
  shows "mux_ok (set_conn c' s)"
proof -
  have "distinct (map conn_id (conns s))" using assms(1) by (simp add: mux_ok_def conns_ok_def)
  then have "\<forall>d \<in> set (conns s). conn_id d = conn_id c \<longrightarrow> d = c" using assms(2) by (auto simp: distinct_map inj_on_def)
  with assms(3) have "list_all2 same_holdings (conns s) (map (\<lambda>d. if conn_id d = conn_id c' then c' else d) (conns s))"
    by (auto simp: list_all2_map2 same_holdings_def intro!: list.rel_refl_strong)
  from relabel_ok [OF assms(1) this] show ?thesis by (simp add: set_conn_def)
qed

lemma mapped_ok:
  assumes "mux_ok s" "\<And>c. same_holdings c (g c)"
  shows "mux_ok (s\<lparr>conns := map g (conns s)\<rparr>)"
  using assms by (intro relabel_ok) (simp_all add: list_all2_map2 list.rel_refl_strong)

section \<open>Ending a session\<close>

lemma policy_steps [simp]:
  "refs (unref now p) = refs p - 1" "refs (add_ref p) = refs p + 1" "\<not> lingering (add_ref p)"
  by (simp_all add: unref_def add_ref_def lingering_def Let_def)

lemma lingering_unref: "lingering p = (refs p = 0) \<Longrightarrow> lingering (unref now p) = (refs p - 1 = 0)"
  by (simp add: unref_def lingering_def Let_def)

lemma release_ref_frame [simp]:
  "conns (release_ref now c s) = conns s" "routes (release_ref now c s) = routes s"
  "chan_alloc (release_ref now c s) = chan_alloc s" "next_conn_id (release_ref now c s) = next_conn_id s"
  "policy (release_ref now c s) = (if holds_ref c then unref now (policy s) else policy s)"
  by (simp_all add: release_ref_def Let_def emit_def)

lemma set_conn_frame [simp]:
  "routes (set_conn c s) = routes s" "chan_alloc (set_conn c s) = chan_alloc s" "next_conn_id (set_conn c s) = next_conn_id s"
  "policy (set_conn c s) = policy s" "outs (set_conn c s) = outs s"
  by (simp_all add: set_conn_def)

text \<open>A channel has one owner.\<close>

lemma one_owner:
  assumes "mux_ok s" "c \<in> set (conns s)" "d \<in> set (conns s)" "owns c ch" "owns d ch"
  shows "d = c"
proof -
  have "routes s ch = Some (conn_id c)" "routes s ch = Some (conn_id d)"
    using assms unfolding mux_ok_def routes_ok_def by blast+
  with assms(1-3) show ?thesis by (auto simp: mux_ok_def conns_ok_def distinct_map inj_on_def)
qed

text \<open>
  Connection \<open>c\<close> loses its session and its reference, or goes altogether: \<open>cs\<close> is what is left.
\<close>

lemma taken_ok:
  assumes ok: "mux_ok s" and c: "c \<in> set (conns s)"
    and cs: "distinct (map conn_id (conns t))" "set (conns t) \<subseteq> insert c' (set (conns s) - {c})" "set (conns s) - {c} \<subseteq> set (conns t)"
    and c': "conn_id c' = conn_id c" "\<not> holds_ref c'" "session c' = None"
    and count: "\<And>P. \<not> P c' \<Longrightarrow> length (filter P (conns t)) + of_bool (P c) = length (filter P (conns s))"
    and t: "policy t = (if holds_ref c then unref now (policy s) else policy s)" "chan_alloc t = chan_alloc s" "next_conn_id t = next_conn_id s"
      "routes t = (case session c of Some x \<Rightarrow> (routes s)(chan x := None) | None \<Rightarrow> routes s)"
  shows "mux_ok t"
proof -
  have hold: "session c \<noteq> None \<Longrightarrow> holds_ref c" using ok c by (auto simp: mux_ok_def conns_ok_def)
  have none: "\<not> owns c' ch" for ch using c'(3) by (simp add: owns_def)
  have "conns_ok t"
    using ok c cs(1,2) c' t(3) count [of "\<lambda>c. session c \<noteq> None"] by (fastforce simp: mux_ok_def conns_ok_def live_sessions_def)
  moreover have "refs_ok t"
  proof -
    have r: "refs (policy s) = length (filter holds_ref (conns s))" "lingering (policy s) = (refs (policy s) = 0)"
      using ok by (simp_all add: mux_ok_def refs_ok_def)
    have "refs (policy t) = length (filter holds_ref (conns t))"
      using r(1) count [of holds_ref] c'(2) t(1) by (cases "holds_ref c") auto
    moreover have "lingering (policy t) = (refs (policy t) = 0)"
      using t(1) r(2) lingering_unref [OF r(2), of now] by (cases "holds_ref c") auto
    ultimately show ?thesis by (simp add: refs_ok_def)
  qed
  moreover have "alloc_ok t"
    using ok cs(2) none t(2) by (fastforce simp: mux_ok_def alloc_ok_def next_session_def)
  moreover have "routes_ok t"
    unfolding routes_ok_def
  proof (intro allI)
    fix ch i
    have own: "(\<exists>d \<in> set (conns t). conn_id d = i \<and> owns d ch) \<longleftrightarrow> (\<exists>d \<in> set (conns s) - {c}. conn_id d = i \<and> owns d ch)"
      using cs(2,3) none by blast
    have r: "routes s ch = Some i \<longleftrightarrow> (\<exists>d \<in> set (conns s). conn_id d = i \<and> owns d ch)" using ok by (simp add: mux_ok_def routes_ok_def)
    show "routes t ch = Some i \<longleftrightarrow> (\<exists>d \<in> set (conns t). conn_id d = i \<and> owns d ch)"
    proof (cases "owns c ch")
      case True
      then have "routes t ch = None" using t(4) by (auto simp: owns_def)
      moreover have "\<not> owns d ch" if "d \<in> set (conns s) - {c}" for d using one_owner [OF ok c _ True] that by blast
      ultimately show ?thesis using own by auto
    next
      case False
      then have "routes t ch = routes s ch" using t(4) by (auto simp: owns_def split: option.splits)
      with own r False show ?thesis by auto
    qed
  qed
  ultimately show ?thesis by (simp add: mux_ok_def)
qed

lemma end_session_ok:
  assumes ok: "mux_ok s" and c: "c \<in> set (conns s)" "session c = Some x"
  shows "mux_ok (release_ref now c (set_conn (c\<lparr>session := None, holds_ref := False\<rparr>) (s\<lparr>routes := (routes s)(chan x := None)\<rparr>)))"
proof -
  have d: "distinct (map conn_id (conns s))" using ok by (simp add: mux_ok_def conns_ok_def)
  let ?c = "c\<lparr>session := None, holds_ref := False\<rparr>"
  show ?thesis
    using replaced_set [OF d c(1), of ?c] replaced_count [OF d c(1), of ?c] c d
    by (intro taken_ok [OF ok c(1), where c' = ?c and now = now]) auto
qed

lemma drop_ok:
  assumes ok: "mux_ok s" and c: "c \<in> set (conns s)"
  shows "mux_ok (drop_conn now c s)"
proof -
  have d: "distinct (map conn_id (conns s))" using ok by (simp add: mux_ok_def conns_ok_def)
  have left: "conns (drop_conn now c s) = filter (\<lambda>d. conn_id d \<noteq> conn_id c) (conns s)"
    by (simp add: drop_conn_def owe_close_def Let_def split: option.splits)
  have "set (filter (\<lambda>d. conn_id d \<noteq> conn_id c) (conns s)) = set (conns s) - {c}"
    using d c by (auto simp: distinct_map inj_on_def)
  moreover have "distinct (map conn_id (filter (\<lambda>d. conn_id d \<noteq> conn_id c) (conns s)))"
    using d by (simp add: distinct_map_filter)
  ultimately show ?thesis
    using removed_count [OF d c] left
    by (intro taken_ok [OF ok c, where c' = "c\<lparr>session := None, holds_ref := False\<rparr>" and now = now])
      (auto simp: drop_conn_def owe_close_def Let_def split: option.splits)
qed

section \<open>Taking a reference, opening a session\<close>

lemma replaced_facts:
  assumes "mux_ok s" "c \<in> set (conns s)" "conn_id c' = conn_id c"
  shows "set (replaced c' (conns s)) = insert c' (set (conns s) - {c})"
    and "length (filter P (replaced c' (conns s))) + of_bool (P c) = length (filter P (conns s)) + (of_bool (P c') :: nat)"
proof -
  have d: "distinct (map conn_id (conns s))" using assms(1) by (simp add: mux_ok_def conns_ok_def)
  from replaced_set [OF d assms(2,3)] show "set (replaced c' (conns s)) = insert c' (set (conns s) - {c})" .
  from replaced_count [OF d assms(2,3)]
  show "length (filter P (replaced c' (conns s))) + of_bool (P c) = length (filter P (conns s)) + (of_bool (P c') :: nat)" .
qed

lemma gained_refs:
  assumes ok: "mux_ok s" and c: "c \<in> set (conns s)" "conn_id c' = conn_id c" "holds_ref c'"
    and t: "conns t = replaced c' (conns s)" "policy t = (if holds_ref c then policy s else add_ref (policy s))"
  shows "refs_ok t"
  using replaced_facts(2) [OF ok c(1,2), of holds_ref] ok c t by (cases "holds_ref c") (auto simp: mux_ok_def refs_ok_def)

lemma claimed_ok:
  assumes ok: "mux_ok s" and c: "c \<in> set (conns s)" "conn_id c' = conn_id c" "holds_ref c'" "session c' = session c"
    and t: "conns t = replaced c' (conns s)" "policy t = (if holds_ref c then policy s else add_ref (policy s))"
      "routes t = routes s" "chan_alloc t = chan_alloc s" "next_conn_id t = next_conn_id s"
  shows "mux_ok t"
proof -
  note set = replaced_facts(1) [OF ok c(1,2)]
  have own: "owns c' ch = owns c ch" for ch by (simp add: owns_def c(4))
  have "conns_ok t" using ok c t(1,5) replaced_facts(2) [OF ok c(1,2), of "\<lambda>c. session c \<noteq> None"]
    by (auto simp: mux_ok_def conns_ok_def live_sessions_def set)
  moreover have "(\<exists>d \<in> set (conns t). conn_id d = i \<and> owns d ch) \<longleftrightarrow> (\<exists>d \<in> set (conns s). conn_id d = i \<and> owns d ch)" for i ch
    using c(1,2) own unfolding t(1) set by auto
  ultimately show ?thesis using ok gained_refs [OF ok c(1-3) t(1,2)] c(1) own t
    by (auto simp: mux_ok_def routes_ok_def alloc_ok_def next_session_def set)
qed

lemma unat_succ:
  assumes "n \<noteq> (- 1 :: u64)"
  shows "unat (n + 1) = unat n + 1"
proof -
  have "unat n \<noteq> unat (- 1 :: u64)" using assms by (simp add: word_unat_eq_iff)
  then have "unat n \<noteq> 2 ^ 64 - 1" by (simp add: unsigned_minus_1_eq_mask mask_eq_exp_minus_1)
  moreover have "unat n < 2 ^ 64" by (rule less_le_trans [OF unsigned_less]) simp
  ultimately have "unat n + 1 < 2 ^ 64" by linarith
  then have "unat n + 1 < 2 ^ LENGTH(64)" by simp
  then show ?thesis using unat_add_of_nat [of n 1] by simp
qed

lemma alloc_session:
  assumes "alloc_ok s" "alloc_next KIND_SESSION (chan_alloc s) = (a, Inr ch)"
  shows "ch = channel_new False KIND_SESSION (next_ordinal (chan_alloc s) ! 0) \<and> alloc_role a = Client \<and>
    length (next_ordinal a) = 128 \<and> unat (next_ordinal a ! 0) = next_session s + 1"
proof -
  let ?n = "next_ordinal (chan_alloc s) ! 0"
  have n: "?n \<noteq> - 1" "a = (chan_alloc s)\<lparr>next_ordinal := (next_ordinal (chan_alloc s))[0 := ?n + 1]\<rparr>"
    "ch = channel_new False KIND_SESSION ?n"
    using assms by (auto simp: alloc_next_def Let_def KIND_SESSION_def alloc_ok_def split: if_splits)
  then have "unat (?n + 1) = unat ?n + 1" using unat_succ by blast
  with n assms(1) show ?thesis by (simp add: alloc_ok_def next_session_def)
qed

lemma opened_ok:
  assumes ok: "mux_ok s" and c: "c \<in> set (conns s)" "session c = None" "conn_id c' = conn_id c" "holds_ref c'" "session c' = Some x"
    and room: "live_sessions s < MAX_LOCAL_SESSION_CHANNELS" "next_session t < 2 ^ 56"
    and t: "conns t = replaced c' (conns s)" "policy t = (if holds_ref c then policy s else add_ref (policy s))"
      "routes t = (routes s)(chan x \<mapsto> conn_id c)" "alloc_next KIND_SESSION (chan_alloc s) = (chan_alloc t, Inr (chan x))"
      "next_conn_id t = next_conn_id s"
  shows "mux_ok t"
proof -
  note set = replaced_facts(1) [OF ok c(1,3)]
  have al: "alloc_ok s" using ok by (simp add: mux_ok_def)
  note a = alloc_session [OF al t(4)]
  have nxt: "next_session t = next_session s + 1" using a by (simp add: next_session_def)
  have fresh: "\<not> owns d (chan x)" if "d \<in> set (conns s)" for d
  proof
    assume "owns d (chan x)"
    then obtain n where n: "chan x = channel_new False KIND_SESSION n" "unat n < next_session s"
      using al \<open>d \<in> set (conns s)\<close> by (auto simp: alloc_ok_def)
    have "unat n < 2 ^ 56" "unat (next_ordinal (chan_alloc s) ! 0) < 2 ^ 56"
      using n(2) nxt room(2) by (simp_all add: next_session_def)
    then have "n = next_ordinal (chan_alloc s) ! 0" using n(1) a ordinal_new by metis
    with n(2) show False by (simp add: next_session_def)
  qed
  have own: "owns c' ch \<longleftrightarrow> ch = chan x" "\<not> owns c ch" for ch using c(2,5) by (auto simp: owns_def)
  have "conns_ok t" using ok c room(1) t(1,5) replaced_facts(2) [OF ok c(1,3), of "\<lambda>c. session c \<noteq> None"]
    by (auto simp: mux_ok_def conns_ok_def live_sessions_def set)
  moreover have "routes_ok t"
    unfolding routes_ok_def
  proof (intro allI)
    fix ch i
    have "routes s ch = Some i \<longleftrightarrow> (\<exists>d \<in> set (conns s). conn_id d = i \<and> owns d ch)" using ok by (simp add: mux_ok_def routes_ok_def)
    then show "routes t ch = Some i \<longleftrightarrow> (\<exists>d \<in> set (conns t). conn_id d = i \<and> owns d ch)"
      using fresh own c(3) by (auto simp: t(1,3) set)
  qed
  moreover have "alloc_ok t"
    unfolding alloc_ok_def
  proof (intro conjI ballI allI impI)
    fix d ch assume d: "d \<in> set (conns t)" "owns d ch"
    show "\<exists>n. ch = channel_new False KIND_SESSION n \<and> unat n < next_session t"
    proof (cases "d = c'")
      case True
      then show ?thesis using a d(2) own nxt by (auto simp: next_session_def)
    next
      case False
      then have "d \<in> set (conns s)" using d(1) by (auto simp: t(1) set)
      then show ?thesis using al d(2) nxt by (fastforce simp: alloc_ok_def)
    qed
  qed (use a in simp_all)
  ultimately show ?thesis using gained_refs [OF ok c(1,3,4) t(1,2)] by (simp add: mux_ok_def)
qed

section \<open>Every event keeps it\<close>

lemma next_session_frame [simp]:
  "next_session (emit xs s) = next_session s" "next_session (set_conn c s) = next_session s"
  "next_session (release_ref now c s) = next_session s" "next_session (owe_close ch p s) = next_session s"
  "next_session (s\<lparr>policy := p1\<rparr>) = next_session s" "next_session (s\<lparr>routes := r1\<rparr>) = next_session s"
  "next_session (s\<lparr>conns := cs\<rparr>) = next_session s"
  by (simp_all add: next_session_def emit_def set_conn_def owe_close_def)

lemma emit_frame [simp]:
  "policy (emit xs s) = policy s" "outs (emit xs s) = outs s @ xs" "conns (emit xs s) = conns s" "routes (emit xs s) = routes s"
  "chan_alloc (emit xs s) = chan_alloc s" "next_conn_id (emit xs s) = next_conn_id s"
  by (simp_all add: emit_def)

lemma emit_nothing [simp]: "emit [] s = s"
  by (simp add: emit_def)

lemma owe_close_frame [simp]:
  "policy (owe_close ch p s) = policy s" "outs (owe_close ch p s) = outs s" "conns (owe_close ch p s) = conns s"
  "routes (owe_close ch p s) = (routes s)(ch := None)" "chan_alloc (owe_close ch p s) = chan_alloc s"
  "next_conn_id (owe_close ch p s) = next_conn_id s"
  by (simp_all add: owe_close_def)

lemma edge_release: "edge_closes s (release_ref now c s)"
  by (auto simp: edge_closes_def release_ref_def Let_def)

lemma mux_ok_same:
  "conns t = conns s \<Longrightarrow> policy t = policy s \<Longrightarrow> routes t = routes s \<Longrightarrow> chan_alloc t = chan_alloc s \<Longrightarrow>
    next_conn_id t = next_conn_id s \<Longrightarrow> mux_ok t = mux_ok s"
  by (simp add: mux_ok_def conns_ok_def refs_ok_def routes_ok_def alloc_ok_def live_sessions_def next_session_def)

lemma ended_ok:
  assumes "mux_ok s" "c \<in> set (conns s)" "session c = Some x"
    and "conns t = replaced (c\<lparr>session := None, holds_ref := False\<rparr>) (conns s)" "policy t = policy s"
      "routes t = (routes s)(chan x := None)" "chan_alloc t = chan_alloc s" "next_conn_id t = next_conn_id s"
  shows "mux_ok (release_ref now c t)"
  using end_session_ok [OF assms(1-3), of now] assms(4-8)
  by (subst (asm) mux_ok_same [where t = "release_ref now c t", symmetric]) simp_all

lemma sound_ended:
  assumes "c \<in> set (conns s)" "session c = Some x"
    and "conns t = replaced (c\<lparr>session := None, holds_ref := False\<rparr>) (conns s)" "policy t = policy s"
      "routes t = (routes s)(chan x := None)" "chan_alloc t = chan_alloc s" "next_conn_id t = next_conn_id s" "outs t = outs s @ xs"
  shows "sound s (release_ref now c t)"
proof -
  have "edge_closes s t" using assms by (intro edge_outs) simp_all
  then have "edge_closes s (release_ref now c t)" using edge_release edge_closes_trans by blast
  then show ?thesis using ended_ok [OF _ assms(1-7)] assms(6) by (auto simp: sound_def next_session_def)
qed

lemma sound_close: "conn_of i s = Some c \<Longrightarrow> sound s (close_session now c p s)"
  using conn_of_some [of i s c]
  by (auto simp: close_session_def split: option.splits intro!: sound_ended [where xs = "[]"])

lemma sound_expire: "sound s (expire_open now i s)"
  using conn_of_some [of i s]
  by (auto simp: expire_open_def split: option.splits intro!: sound_ended)

lemma alloc_grows: "alloc_next k a = (b, r) \<Longrightarrow> unat (next_ordinal a ! 0) \<le> unat (next_ordinal b ! 0)"
  using unat_succ by (cases "next_ordinal a") (auto simp: alloc_next_def Let_def list_update_def split: if_splits nat.splits)

lemma sound_open:
  assumes "conn_of i s = Some c"
  shows "sound s (open_session c tgt s)"
proof -
  have c: "c \<in> set (conns s)" using assms conn_of_some by blast
  have e: "sound s (emit xs s)" for xs by (rule soundI [where xs = xs]) simp_all
  show ?thesis
  proof (cases "session c = None \<and> live_sessions s < MAX_LOCAL_SESSION_CHANNELS")
    case False
    with e show ?thesis by (auto simp: open_session_def split: option.splits)
  next
    case True
    obtain a r where al: "alloc_next KIND_SESSION (chan_alloc s) = (a, r)" by (metis surj_pair)
    show ?thesis
    proof (cases r)
      case (Inl x)
      have "open_session c tgt s = s\<lparr>panicked := True\<rparr>" using True al Inl by (simp add: open_session_def)
      then show ?thesis by (simp add: sound_def edge_closes_def next_session_def)
    next
      case (Inr ch)
      let ?x = "\<lparr>chan = ch, target = tgt, confirmed = False, queued = [], open_sends = 0, last_open_send = None, resume = INITIAL\<rparr>"
      let ?t = "open_session c tgt s"
      have t: "conns ?t = replaced (c\<lparr>holds_ref := True, session := Some ?x\<rparr>) (conns s)"
        "policy ?t = (if holds_ref c then policy s else add_ref (policy s))" "routes ?t = (routes s)(ch \<mapsto> conn_id c)"
        "chan_alloc ?t = a" "next_conn_id ?t = next_conn_id s" "\<exists>xs. outs ?t = outs s @ xs"
        using True al Inr by (simp_all add: open_session_def set_conn_def replaced_def)
      then obtain xs where xs: "outs ?t = outs s @ xs" by blast
      have "mux_ok ?t" if "mux_ok s" "next_session ?t < 2 ^ 56"
        using True al Inr t that
        by (intro opened_ok [OF that(1) c, of "c\<lparr>holds_ref := True, session := Some ?x\<rparr>" ?x]) simp_all
      then show ?thesis using t(2,4) alloc_grows [OF al] by (intro soundI [OF xs]) (simp_all add: next_session_def)
    qed
  qed
qed

lemma sound_msg: "conn_of i s = Some c \<Longrightarrow> sound s (session_msg c p s)"
proof -
  assume "conn_of i s = Some c"
  then have c: "c \<in> set (conns s)" using conn_of_some by blast
  show ?thesis
  proof (cases "session c")
    case (Some x)
    have "same_holdings c (c\<lparr>session := Some (x\<lparr>queued := queued x @ [p]\<rparr>)\<rparr>)"
      using Some by (simp add: same_holdings_def owns_def)
    from set_conn_same [OF _ c this] Some show ?thesis
      by (auto simp: session_msg_def intro!: soundI)
  qed (simp add: session_msg_def)
qed

lemma sound_verb: "sound s (apply_verb now i v s)"
  using sound_open sound_msg sound_close by (simp add: apply_verb_def split: option.splits session_verb.splits)

text \<open>What the frames of a connection can do to it: greet, and claim its reference once.\<close>

definition claims :: "ipc_conn \<Rightarrow> mux_state \<Rightarrow> conn_step \<Rightarrow> bool" where
  "claims c ms r \<longleftrightarrow> conn_id (st_conn r) = conn_id c \<and> session (st_conn r) = session c \<and>
     (holds_ref c \<longrightarrow> holds_ref (st_conn r)) \<and>
     st_policy r = (if holds_ref (st_conn r) \<and> \<not> holds_ref c then add_ref ms else ms)"

lemma claims_steps:
  assumes "claims c ms r"
  shows "claims c ms (refuse r)" "claims c ms (reply w t p r)" "claims c ms (r\<lparr>st_verbs := vs\<rparr>)"
    "claims c ms (r\<lparr>st_conn := (st_conn r)\<lparr>hello_ok := True, peer_pid := pd\<rparr>\<rparr>)"
  using assms by (simp_all add: claims_def refuse_def reply_def)

lemma claims_if: "claims c ms x \<Longrightarrow> claims c ms y \<Longrightarrow> claims c ms (if b then x else y)"
  by simp

lemma hello_claims: "claims c ms r \<Longrightarrow> claims c ms (on_hello ctx w p r)"
  unfolding on_hello_def Let_def
  by (cases "decode_hello p") (simp_all only: option.case, (intro claims_if claims_steps; assumption)+)

lemma ref_claims: "claims c ms r \<Longrightarrow> claims c ms (on_session_ref w r)"
  unfolding on_session_ref_def
  by (rule claims_steps(2)) (cases "holds_ref (st_conn r)", simp, simp add: claims_def)

lemma ipc_frame_claims: "claims c ms r \<Longrightarrow> claims c ms (ipc_frame ctx w f r)"
  by (cases "tag f") (simp_all add: ipc_frame_def hello_claims ref_claims claims_steps)

lemma ipc_frames_claims: "claims c ms r \<Longrightarrow> claims c ms (ipc_frames ctx w fs r)"
  by (induction fs arbitrary: r) (auto simp: Let_def ipc_frame_claims)

lemma process_claims: "claims c ms (process_ipc_conn ctx w reads ended c ms)"
proof -
  obtain fs buf err where d: "drain mux_tags (fold feed reads (read_buf c)) = (fs, buf, err)" by (metis surj_pair)
  have "claims c ms (ipc_frames ctx w fs \<lparr>st_conn = c\<lparr>read_buf := buf\<rparr>, st_policy = ms, st_outs = [], st_verbs = [], st_open = True\<rparr>)"
    by (rule ipc_frames_claims) (simp add: claims_def)
  then show ?thesis by (simp add: process_ipc_conn_def d Let_def claims_def)
qed

lemma claimed_good:
  assumes c: "c \<in> set (conns s)" and r: "claims c (policy s) r"
  shows "sound s (emit (st_outs r) (set_conn (st_conn r) (s\<lparr>policy := st_policy r\<rparr>)))"
proof (rule soundI [where xs = "st_outs r"])
  let ?t = "emit (st_outs r) (set_conn (st_conn r) (s\<lparr>policy := st_policy r\<rparr>))"
  assume ok: "mux_ok s"
  show "mux_ok ?t"
  proof (cases "holds_ref (st_conn r)")
    case True
    with r show ?thesis by (intro claimed_ok [OF ok c, of "st_conn r"]) (auto simp: claims_def)
  next
    case False
    then have "same_holdings c (st_conn r)" "st_policy r = policy s"
      using r by (auto simp: claims_def same_holdings_def owns_def)
    with set_conn_same [OF ok c] show ?thesis by simp
  qed
qed (use r in \<open>simp_all add: claims_def\<close>)

lemma sound_drop: "c \<in> set (conns s) \<Longrightarrow> sound s (drop_conn now c s)"
proof -
  assume c: "c \<in> set (conns s)"
  let ?t = "case session c of Some x \<Rightarrow> owe_close (chan x) [] (s\<lparr>conns := filter (\<lambda>d. conn_id d \<noteq> conn_id c) (conns s)\<rparr>)
     | None \<Rightarrow> s\<lparr>conns := filter (\<lambda>d. conn_id d \<noteq> conn_id c) (conns s)\<rparr>"
  have "edge_closes s ?t" by (cases "session c") (auto intro!: edge_outs [where xs = "[]"])
  then have "edge_closes s (drop_conn now c s)"
    using edge_release edge_closes_trans by (auto simp: drop_conn_def Let_def)
  moreover have "next_session (drop_conn now c s) = next_session s"
    by (simp add: drop_conn_def Let_def split: option.splits)
  ultimately show ?thesis using drop_ok [OF _ c] by (simp add: sound_def)
qed

lemma sound_read: "sound s (read_conn now ctx w reads ended i s)"
proof (cases "conn_of i s")
  case (Some c)
  let ?r = "process_ipc_conn ctx w reads ended c (policy s)"
  let ?s = "emit (st_outs ?r) (set_conn (st_conn ?r) (s\<lparr>policy := st_policy ?r\<rparr>))"
  have c: "c \<in> set (conns s)" using conn_of_some [OF Some] by simp
  note r = process_claims [of c "policy s" ctx w reads ended]
  note g = claimed_good [OF c r]
  have "st_conn ?r \<in> set (conns ?s)" using c r by (auto simp: replaced_def claims_def intro!: image_eqI [of _ _ c])
  then have "sound ?s (drop_conn now (st_conn ?r) ?s)" by (rule sound_drop)
  moreover have "sound ?s (fold (apply_verb now i) (st_verbs ?r) ?s)" by (intro sound_fold sound_verb)
  ultimately show ?thesis using g Some sound_trans by (auto simp: read_conn_def Let_def)
qed (simp add: read_conn_def)

lemma sound_accept: "sound s (accept_conn s)"
proof (rule soundI [where xs = "[]"])
  assume ok: "mux_ok s"
  let ?n = "ipc_conn_new (next_conn_id s)"
  have n: "conn_id ?n = next_conn_id s" "session ?n = None" "\<not> holds_ref ?n" "\<not> owns ?n ch" for ch
    by (simp_all add: ipc_conn_new_def owns_def)
  have "next_conn_id s \<notin> conn_id ` set (conns s)" using ok by (auto simp: mux_ok_def conns_ok_def)
  with ok n show "mux_ok (accept_conn s)"
    by (auto simp: mux_ok_def conns_ok_def refs_ok_def routes_ok_def alloc_ok_def live_sessions_def next_session_def
      accept_conn_def less_SucI)
qed (simp_all add: accept_conn_def next_session_def)

lemma own_route:
  assumes "mux_ok s" "routes s ch = Some i" "conn_of i s = Some c" "session c = Some x"
  shows "chan x = ch"
proof -
  obtain d where d: "d \<in> set (conns s)" "conn_id d = i" "owns d ch" using assms(1,2) by (auto simp: mux_ok_def routes_ok_def)
  have "d = c" using d(1,2) conn_of_some [OF assms(3)] assms(1) by (auto simp: mux_ok_def conns_ok_def distinct_map inj_on_def)
  with d(3) assms(4) show ?thesis by (simp add: owns_def)
qed

lemma sound_same:
  assumes "c \<in> set (conns s)" "same_holdings c c'"
  shows "sound s (emit ys (set_conn c' (emit xs s)))"
  using set_conn_same [OF _ _ assms(2), of "emit xs s"] assms(1) by (intro soundI [where xs = "xs @ ys"]) simp_all

lemma same_session:
  "session c = Some x \<Longrightarrow> chan y = chan x \<Longrightarrow> same_holdings c (c\<lparr>session := Some y\<rparr>)"
  by (simp add: same_holdings_def owns_def)

lemma note_offsets_chan [simp]: "chan (note_offsets b x) = chan x" "chan (confirm x) = chan x"
  by (simp_all add: note_offsets_def confirm_def split: sum.splits)

lemma sound_wire_session:
  assumes c: "conn_of i s = Some c" "session c = Some x" and r: "routes s ch = Some i"
  shows "sound s (wire_session now srtt ch m c x s)"
proof -
  have cs: "c \<in> set (conns s)" using conn_of_some [OF c(1)] by simp
  define y where "y = (if confirmed x then x else confirm x)"
  have y: "chan y = chan x" "chan (y\<lparr>target := b\<rparr>) = chan x" "chan (note_offsets b y) = chan x" for b by (simp_all add: y_def)
  have same: "sound s (emit ys (set_conn (c\<lparr>session := Some z\<rparr>) (emit (flushed x) s)))" if "chan z = chan x" for z ys
    by (rule sound_same [OF cs same_session [OF c(2) that]])
  have same0: "sound s (set_conn (c\<lparr>session := Some z\<rparr>) (emit (flushed x) s))" if "chan z = chan x" for z
    using same [OF that, of "[]"] by simp
  let ?t = "(emit [ToConn (conn_id c) MSessionClose (encode_close \<lparr>close_remote = True, close_bytes = drop 1 m\<rparr>)]
      (set_conn (c\<lparr>session := None, holds_ref := False\<rparr>) (emit (flushed x) s)))"
  have close: "sound s (release_ref now c (?t\<lparr>routes := (routes ?t)(ch := None)\<rparr>))"
  proof -
    have "edge_closes s (?t\<lparr>routes := (routes ?t)(ch := None)\<rparr>)" by (intro edge_outs) simp_all
    then have "edge_closes s (release_ref now c (?t\<lparr>routes := (routes ?t)(ch := None)\<rparr>))"
      using edge_release edge_closes_trans by blast
    moreover have "mux_ok (release_ref now c (?t\<lparr>routes := (routes ?t)(ch := None)\<rparr>))" if "mux_ok s"
      using own_route [OF that r c] by (intro ended_ok [OF that cs c(2)]) simp_all
    ultimately show ?thesis by (simp add: sound_def)
  qed
  show ?thesis unfolding wire_session_def Let_def y_def [symmetric]
    using same [OF y(2)] same [OF y(3)] same0 [OF y(1)] close by (cases "get_at m 0") simp_all
qed

lemma sound_wire: "sound s (wire_instruction now srtt ch m s)"
proof -
  let ?s = "s\<lparr>wire_heard := now, liveness := heard (liveness s)\<rparr>"
  have s: "sound s ?s" by (rule soundI [where xs = "[]"]) (simp_all add: next_session_def)
  have i: "sound ?s (?s\<lparr>ident_held := b\<rparr>)" for b by (rule soundI [where xs = "[]"]) (simp_all add: next_session_def)
  have w: "sound ?s (wire_session now srtt ch m c x ?s)" if "routes s ch = Some j" "conn_of j ?s = Some c" "session c = Some x" for j c x
    using that by (intro sound_wire_session) simp_all
  show ?thesis unfolding wire_instruction_def Let_def
    using s sound_trans [OF s i] sound_trans [OF s w] by (simp split: option.splits)
qed

lemma rearmed_routes:
  assumes "\<And>c d ch. c \<in> set cs \<Longrightarrow> d \<in> set cs \<Longrightarrow> owns c ch \<Longrightarrow> owns d ch \<Longrightarrow> d = c"
  shows "rearmed cs ch = Some i \<longleftrightarrow> (\<exists>c \<in> set cs. conn_id c = i \<and> owns c ch)"
  using assms
proof (induction cs rule: rev_induct)
  case (snoc c cs)
  have u: "owns d ch \<Longrightarrow> owns c ch \<Longrightarrow> d \<in> set cs \<Longrightarrow> d = c" for d using snoc.prems [of c d ch] by simp
  have ih: "rearmed cs ch = Some i \<longleftrightarrow> (\<exists>c \<in> set cs. conn_id c = i \<and> owns c ch)" by (rule snoc.IH) (use snoc.prems in auto)
  show ?case
  proof (cases "owns c ch")
    case True
    then have "rearmed (cs @ [c]) ch = Some (conn_id c)" by (auto simp: rearmed_def owns_def)
    with True u show ?thesis by auto
  next
    case False
    then have "rearmed (cs @ [c]) ch = rearmed cs ch" by (auto simp: rearmed_def owns_def split: option.splits)
    with ih False show ?thesis by auto
  qed
qed (simp add: rearmed_def)

lemma reset_same: "same_holdings c (c\<lparr>session := map_option reset_session (session c)\<rparr>)"
  by (auto simp: same_holdings_def owns_def reset_session_def)

lemma sound_verdict: "sound s (dead_verdict now s)"
proof (cases "reconnect s \<noteq> None \<or> \<not> dead now (liveness s)")
  case False
  show ?thesis
  proof (rule soundI [where xs = "[CloseAgents]"])
    assume ok: "mux_ok s"
    have "rearmed (conns s) ch = Some i \<longleftrightarrow> routes s ch = Some i" for ch i
      using rearmed_routes [of "conns s"] one_owner [OF ok] ok by (auto simp: mux_ok_def routes_ok_def)
    then have "rearmed (conns s) = routes s" by (metis option.exhaust ext)
    then have "mux_ok (dead_verdict now s) = mux_ok (s\<lparr>conns := map (\<lambda>c. c\<lparr>session := map_option reset_session (session c)\<rparr>) (conns s)\<rparr>)"
      using False by (intro mux_ok_same) (simp_all add: dead_verdict_def)
    with mapped_ok [OF ok reset_same] show "mux_ok (dead_verdict now s)" by simp
  qed (use False in \<open>simp_all add: dead_verdict_def next_session_def emit_def\<close>)
qed (simp add: dead_verdict_def)

lemma sound_suspend: "sound s (check_suspend w m now s)"
  by (rule soundI [where xs = "[]"]) (simp_all add: check_suspend_def next_session_def split: option.splits)

lemma sound_reconnect: "sound s (try_reconnect now later b s)"
  by (rule soundI [where xs = "[]"]) (simp_all add: try_reconnect_def next_session_def split: option.splits prod.splits)

lemma count_open_same: "same_holdings c (count_open now rto c)"
  by (auto simp: same_holdings_def owns_def count_open_def)

lemma sound_closes: "sound s (send_closes now rto s)"
  by (rule soundI [OF _ _ _]) (simp_all add: send_closes_def next_session_def emit_def)

lemma sound_heartbeat: "sound s (send_heartbeat now s)"
proof -
  obtain w b where p: "probe_due now (wire_heard s) (liveness s) = (w, b)" by (metis surj_pair)
  show ?thesis unfolding send_heartbeat_def p Let_def
    by (cases "case heartbeat_at s of None \<Rightarrow> True | Some t \<Rightarrow> now - t \<ge> HEARTBEAT_INTERVAL")
      (simp_all add: sound_def edge_closes_def next_session_def emit_def)
qed

lemma sound_send: "sound s (send_pass now rto s)"
proof (cases "reconnect s = None")
  case True
  let ?t = "emit (opens_sent now rto (conns s)) (s\<lparr>conns := map (count_open now rto) (conns s)\<rparr>)"
  have t: "sound s ?t"
    by (rule soundI) (use mapped_ok [OF _ count_open_same] in simp_all)
  have "sound ?t (fold (expire_open now) ids ?t)" for ids by (intro sound_fold sound_expire)
  then have "sound s (send_heartbeat now (send_closes now rto (fold (expire_open now) ids ?t)))" for ids
    using t sound_trans sound_closes sound_heartbeat by meson
  with True show ?thesis by (simp add: send_pass_def Let_def)
qed (simp add: send_pass_def)

lemma sound_step: "sound s (mux_step ev s)"
  by (cases ev) (simp_all add: sound_accept sound_read sound_wire sound_suspend sound_verdict sound_reconnect sound_send)

lemma alloc_shape [simp]:
  "alloc_role (fst (alloc_next k a)) = alloc_role a" "length (next_ordinal (fst (alloc_next k a))) = length (next_ordinal a)"
  by (simp_all add: alloc_next_def Let_def)

lemma mux_new_ok: "mux_ok (mux_loop_new linger now live)"
  by (simp add: mux_ok_def conns_ok_def refs_ok_def routes_ok_def alloc_ok_def live_sessions_def mux_loop_new_def
    mux_state_new_def lingering_def allocator_new_def)

lemma run_ok:
  assumes "next_session (fold mux_step evs (mux_loop_new linger now live)) < 2 ^ 56"
  shows "mux_ok (fold mux_step evs (mux_loop_new linger now live))"
  using sound_fold [of mux_step, OF sound_step] mux_new_ok assms unfolding sound_def by blast

section \<open>A concrete run\<close>

text \<open>The frames one read delivers, however the stream was cut before.\<close>

lemma drain_written:
  assumes "\<forall>f \<in> set fs. length (snd f) \<le> max_len T \<and> length (snd f) < 2 ^ 32"
    and "avail_bytes fb = concat (map tagged_bytes fs)"
  shows "\<exists>fb'. drain T fb = (List.map_filter (known_frame T) fs, fb', None)"
proof -
  have "records (frame_head T) (concat (map tagged_bytes fs) @ []) =
      (concat (map (\<lambda>f. item_list (known_frame T f)) fs), [], None)"
    using assms(1) tagged.empty_more by (intro tagged.records_written) (auto simp: frame_head_bytes)
  moreover have "concat (map (\<lambda>f. item_list (known_frame T f)) fs) = List.map_filter (known_frame T) fs"
    by (induction fs) (auto simp: item_list_def map_filter_simps split: option.split)
  ultimately have r: "records (frame_head T) (avail_bytes fb) = (List.map_filter (known_frame T) fs, [], None)"
    by (simp add: assms(2))
  obtain gs c e where d: "drain T fb = (gs, c, e)" by (cases "drain T fb")
  with drain_records [OF d] r show ?thesis by simp
qed

definition first_read :: bytes where
  "first_read = encode_mux_frame MHello (encode_hello \<lparr>hello_pid = 7, hello_stamp = MUX_PROTO_STAMP\<rparr>) @
     encode_mux_frame MSessionOpen [97]"

definition an_env :: status_ctx where
  "an_env = \<lparr>ctx_key = [], ctx_state = Connected, ctx_source = None, ctx_status = (\<lambda>_. [])\<rparr>"

lemma stamp_hello: "decode_hello (encode_hello \<lparr>hello_pid = 7, hello_stamp = MUX_PROTO_STAMP\<rparr>) = Some \<lparr>hello_pid = 7, hello_stamp = MUX_PROTO_STAMP\<rparr>"
proof -
  have "utf8_lossy MUX_PROTO_STAMP = MUX_PROTO_STAMP"
    by (rule utf8_lossy_id [OF utf8_valid_ascii]) (simp add: MUX_PROTO_STAMP_def ascii_def)
  then show ?thesis by (simp add: decode_hello_def encode_hello_def)
qed
lemma opening_frames:
  "\<exists>b. drain mux_tags (feed first_read frame_buffer_new) =
     ([\<lparr>tag = MHello, frame_payload = encode_hello \<lparr>hello_pid = 7, hello_stamp = MUX_PROTO_STAMP\<rparr>\<rparr>,
       \<lparr>tag = MSessionOpen, frame_payload = [97]\<rparr>], b, None)"
proof -
  let ?h = "encode_hello \<lparr>hello_pid = 7, hello_stamp = MUX_PROTO_STAMP\<rparr>"
  have l: "length ?h = 10" by (simp add: encode_hello_def MUX_PROTO_STAMP_def ascii_def)
  have "avail_bytes (feed first_read frame_buffer_new) = concat (map tagged_bytes [(mux_tag_to_u8 MHello, ?h), (mux_tag_to_u8 MSessionOpen, [97])])"
    by (simp add: first_read_def tagged_bytes_def encode_mux_frame_def)
  from drain_written [OF _ this, of mux_tags] show ?thesis
    by (simp add: l mux_tags_def MUX_MAX_FRAME_LEN_def List.map_filter_simps known_frame_def mux_tag_to_u8_def mux_tag_from_u8_def all_mux_tags_def get_at_def)
qed

definition opened_run :: mux_loop where
  "opened_run = fold mux_step [Accepts, Reads 10 an_env True [first_read] False 1] (mux_loop_new 0 5 (liveness_new 0 0))"

definition lost_run :: mux_loop where
  "lost_run = fold mux_step [Resumes 100000 0 20, Judges 20] opened_run"

definition an_id :: channel_id where "an_id = channel_new False KIND_SESSION 2"

lemma opened_state:
  "\<exists>b. conns opened_run = [\<lparr>conn_id = 1, read_buf = b, hello_ok = True, holds_ref = True, peer_pid = Some 7,
      session = Some \<lparr>chan = an_id, target = [97], confirmed = False, queued = [],
                        open_sends = 0, last_open_send = None, resume = INITIAL\<rparr>\<rparr>] \<and>
     policy opened_run = \<lparr>refs = 1, linger_ms = 0, linger_deadline = None\<rparr> \<and>
     next_session opened_run = 3 \<and> reconnect opened_run = None \<and> liveness opened_run = liveness_new 0 0 \<and>
     routes opened_run an_id = Some 1"
proof -
  obtain b where b: "drain mux_tags (feed first_read frame_buffer_new) =
     ([\<lparr>tag = MHello, frame_payload = encode_hello \<lparr>hello_pid = 7, hello_stamp = MUX_PROTO_STAMP\<rparr>\<rparr>,
       \<lparr>tag = MSessionOpen, frame_payload = [97]\<rparr>], b, None)" using opening_frames by blast
  have 0: "unat (KIND_SESSION AND 0x7f) = 0" by (simp add: KIND_SESSION_def)
  have a1: "alloc_next KIND_SESSION \<lparr>alloc_role = Client, next_ordinal = 1 # xs\<rparr> =
      (\<lparr>alloc_role = Client, next_ordinal = 2 # xs\<rparr>, Inr (channel_new False KIND_SESSION 1))" for xs
    by (simp add: alloc_next_def 0 Let_def)
  have a2: "alloc_next KIND_SESSION \<lparr>alloc_role = Client, next_ordinal = 2 # xs\<rparr> =
      (\<lparr>alloc_role = Client, next_ordinal = 3 # xs\<rparr>, Inr an_id)" for xs
    by (simp add: alloc_next_def 0 Let_def an_id_def)
  have n: "allocator_new Client = \<lparr>alloc_role = Client, next_ordinal = 1 # replicate 127 1\<rparr>"
    by (simp add: allocator_new_def numeral_eq_Suc)
  show ?thesis
    by (simp add: opened_run_def accept_conn_def mux_loop_new_def read_conn_def conn_of_def ipc_conn_new_def
      process_ipc_conn_def b ipc_frame_def on_hello_def stamp_hello reply_def Let_def an_env_def emit_def set_conn_def
      apply_verb_def open_session_def live_sessions_def MAX_LOCAL_SESSION_CHANNELS_def n a1 a2 add_ref_def mux_state_new_def
      next_session_def)
qed

lemma lost_state:
  "\<exists>b. conns lost_run = [\<lparr>conn_id = 1, read_buf = b, hello_ok = True, holds_ref = True, peer_pid = Some 7,
      session = Some \<lparr>chan = an_id, target = [97], confirmed = False, queued = [],
                        open_sends = 0, last_open_send = None, resume = INITIAL\<rparr>\<rparr>] \<and>
     next_session lost_run = 3 \<and> reconnect lost_run = Some (0, 20)"
proof -
  obtain b where b: "conns opened_run = [\<lparr>conn_id = 1, read_buf = b, hello_ok = True, holds_ref = True, peer_pid = Some 7,
      session = Some \<lparr>chan = an_id, target = [97], confirmed = False, queued = [],
                        open_sends = 0, last_open_send = None, resume = INITIAL\<rparr>\<rparr>]" "reconnect opened_run = None"
      "liveness opened_run = liveness_new 0 0" "next_session opened_run = 3" using opened_state by blast
  then show ?thesis
    by (simp add: lost_run_def check_suspend_def dead_verdict_def suspend_gap_def SUSPEND_GAP_MIN_MS_def HEARTBEAT_INTERVAL_def Let_def
      PEER_TIMEOUT_def condemn_def dead_def liveness_new_def emit_def reset_session_def next_session_def)
qed

text \<open>
  C27. Whatever connections come and go, whatever they send and the remote answers, through any number of wire
  deaths and reconnects, for fewer than \<open>2 ^ 56\<close> channels: the reference count is the number of
  connections holding a reference, the linger clock runs exactly at zero, every session holds a reference,
  the routes are exactly the live sessions' channels, at most 16 of them, and the endpoint only exits when
  nobody uses it.
\<close>

theorem mux_accounts:
  assumes "s = fold mux_step evs (mux_loop_new linger now live)" "next_session s < 2 ^ 56"
  shows "refs (policy s) = length (filter holds_ref (conns s)) \<and> (lingering (policy s) \<longleftrightarrow> refs (policy s) = 0) \<and>
    (\<forall>c \<in> set (conns s). session c \<noteq> None \<longrightarrow> holds_ref c) \<and>
    (\<forall>ch i. routes s ch = Some i \<longleftrightarrow> (\<exists>c \<in> set (conns s). conn_id c = i \<and> (\<exists>x. session c = Some x \<and> chan x = ch))) \<and>
    live_sessions s \<le> MAX_LOCAL_SESSION_CHANNELS \<and>
    (\<forall>t. should_exit t (policy s) \<longrightarrow> (\<forall>c \<in> set (conns s). \<not> holds_ref c \<and> session c = None))"
proof -
  have ok: "mux_ok s" using run_ok assms by simp
  then have refs: "refs (policy s) = length (filter holds_ref (conns s))" "lingering (policy s) \<longleftrightarrow> refs (policy s) = 0"
    and hold: "\<forall>c \<in> set (conns s). session c \<noteq> None \<longrightarrow> holds_ref c" and live: "live_sessions s \<le> MAX_LOCAL_SESSION_CHANNELS"
    and routes: "\<forall>ch i. routes s ch = Some i \<longleftrightarrow> (\<exists>c \<in> set (conns s). conn_id c = i \<and> (\<exists>x. session c = Some x \<and> chan x = ch))"
    by (simp_all add: mux_ok_def refs_ok_def conns_ok_def routes_ok_def owns_def)
  have "\<not> holds_ref c \<and> session c = None" if "should_exit t (policy s)" "c \<in> set (conns s)" for t c
  proof -
    have "lingering (policy s)" using that(1) by (auto simp: should_exit_def lingering_def split: option.splits)
    then have "filter holds_ref (conns s) = []" using refs by simp
    then have "\<not> holds_ref c" using that(2) by (simp add: filter_empty_conv)
    with hold that(2) show ?thesis by blast
  qed
  with refs hold live routes show ?thesis by blast
qed

theorem mux_accounts_witness:
  "refs (policy opened_run) = length (filter holds_ref (conns opened_run)) \<and> live_sessions opened_run \<le> MAX_LOCAL_SESSION_CHANNELS"
  using mux_accounts [of opened_run "[Accepts, Reads 10 an_env True [first_read] False 1]" 0 5 "liveness_new 0 0"] opened_state
  by (auto simp: opened_run_def)

text \<open>
  C28. Whenever a step of the loop gives up the last reference, it closes the agent channels: no connection to
  the local agent outlives the sessions that allow it.
\<close>

theorem agent_service_ends:
  assumes "serviceable (policy s)" "\<not> serviceable (policy (mux_step ev s))"
  shows "CloseAgents \<in> set (drop (length (outs s)) (outs (mux_step ev s)))"
  using sound_step [of s ev] assms by (auto simp: sound_def edge_closes_def)

theorem agent_service_ends_witness:
  "CloseAgents \<in> set (drop (length (outs opened_run)) (outs (mux_step (Arrives 20 0 an_id [2]) opened_run)))"
proof (rule agent_service_ends)
  show "serviceable (policy opened_run)" using opened_state by (auto simp: serviceable_def)
  have k: "channel_kind an_id = KIND_SESSION" "an_id \<noteq> SESSION_CHANNEL"
    by (simp_all add: an_id_def SESSION_CHANNEL_def channel_new_def channel_kind_def KIND_SESSION_def)
  show "\<not> serviceable (policy (mux_step (Arrives 20 0 an_id [2]) opened_run))"
    using opened_state
    by (auto simp: wire_instruction_def k conn_of_def wire_session_def get_at_def Let_def SESSION_WIRE_DATA_def
      SESSION_WIRE_SWITCH_def SESSION_WIRE_CLOSE_def serviceable_def emit_def)
qed

section \<open>Destination keys collide\<close>

lemma sanitize_append: "sanitize_id (a @ b) = sanitize_id a @ sanitize_id b"
  by (simp add: sanitize_id_def)

text \<open>
  A destination key does not name its destination: the joiners are bytes a host name may contain, so a
  user at a host shares its key, and with it the endpoint, with the host of the hyphenated name, and an
  address family with a host name that ends like its suffix.
\<close>

lemma dest_keys_collide:
  assumes "to_lowercase u = u"
  shows "dest_key (Some u) h FamAuto pr = dest_key None (u @ [0x2D] @ h) FamAuto pr \<and>
    dest_key usr h FamInet None = dest_key usr (h @ ascii ''-4'') FamAuto None"
  using assms by (simp add: dest_key_def sanitize_id_def to_lowercase_def slug_byte_def ascii_def)

lemma dest_keys_collide_witness:
  "dest_key (Some (ascii ''al'')) (ascii ''box'') FamAuto None = dest_key None (ascii ''al'' @ [0x2D] @ ascii ''box'') FamAuto None \<and>
   dest_key None (ascii ''box'') FamInet None = dest_key None (ascii ''box'' @ ascii ''-4'') FamAuto None"
  by (rule dest_keys_collide) (simp add: to_lowercase_def ascii_def)

section \<open>A session left behind\<close>

lemma find_mapped:
  "(\<And>c. conn_id (g c) = conn_id c) \<Longrightarrow> find (\<lambda>c. conn_id c = i) (map g cs) = map_option g (find (\<lambda>c. conn_id c = i) cs)"
  by (induction cs) simp_all

lemma find_replaced: "conn_id c \<noteq> i \<Longrightarrow> find (\<lambda>c. conn_id c = i) (replaced c cs) = find (\<lambda>c. conn_id c = i) cs"
  by (induction cs) (auto simp: replaced_def)

lemma conn_of_frame [simp]:
  "conn_of i (emit xs s) = conn_of i s" "conn_of i (release_ref now c s) = conn_of i s" "conn_of i (owe_close ch p s) = conn_of i s"
  by (simp_all add: conn_of_def)

lemma conn_of_set_conn: "conn_id c \<noteq> i \<Longrightarrow> conn_of i (set_conn c s) = conn_of i s"
  by (simp add: conn_of_def find_replaced)

text \<open>Outputs that open no channel \<open>ch\<close>.\<close>

definition opens :: "channel_id \<Rightarrow> mux_out \<Rightarrow> bool" where
  "opens ch o1 \<longleftrightarrow> (\<exists>p. o1 = ToWire ch SESSION_WIRE_OPEN p)"

lemma expire_other:
  assumes "i \<noteq> j"
  shows "conn_of i (expire_open now j s) = conn_of i s \<and> (\<exists>xs. outs (expire_open now j s) = outs s @ xs \<and> list_all (\<lambda>x. \<not> opens ch x) xs)"
proof (cases "conn_of j s")
  case (Some c)
  then have c: "conn_id c = j" using conn_of_some by blast
  show ?thesis
  proof (cases "session c")
    case (Some x)
    with \<open>conn_of j s = Some c\<close> c assms show ?thesis
      by (simp add: expire_open_def release_ref_def conn_of_set_conn Let_def) (simp add: emit_def opens_def conn_of_def find_replaced)
  qed (simp add: expire_open_def \<open>conn_of j s = Some c\<close>)
qed (simp add: expire_open_def)

lemma expire_others:
  "i \<notin> set js \<Longrightarrow> conn_of i (fold (expire_open now) js s) = conn_of i s \<and>
     (\<exists>xs. outs (fold (expire_open now) js s) = outs s @ xs \<and> list_all (\<lambda>x. \<not> opens ch x) xs)"
proof (induction js arbitrary: s)
  case (Cons j js)
  then have "i \<noteq> j" by simp
  from expire_other [OF this, of now s ch] Cons.IH [of "expire_open now j s"] Cons.prems show ?case by auto
qed simp

lemma expire_next [simp]: "next_session (fold (expire_open now) js s) = next_session s"
  by (induction js arbitrary: s) (simp_all add: expire_open_def split: option.splits)

lemma expire_reconnect [simp]: "reconnect (fold (expire_open now) js s) = reconnect s"
  by (induction js arbitrary: s)
    (simp_all add: expire_open_def release_ref_def set_conn_def owe_close_def emit_def Let_def split: option.splits)

lemma send_tail:
  "conn_of i (send_heartbeat now (send_closes now rto s)) = conn_of i s \<and>
   next_session (send_heartbeat now (send_closes now rto s)) = next_session s \<and>
   reconnect (send_heartbeat now (send_closes now rto s)) = reconnect s \<and>
   (\<exists>xs. outs (send_heartbeat now (send_closes now rto s)) = outs s @ xs \<and> list_all (\<lambda>o1. \<not> opens ch o1) xs)"
proof -
  have c: "\<not> opens ch (ToWire d SESSION_WIRE_CLOSE p)" "\<not> opens ch (Heartbeat b)" for d p b
    by (simp_all add: opens_def SESSION_WIRE_CLOSE_def SESSION_WIRE_OPEN_def)
  show ?thesis
    by (simp add: send_heartbeat_def send_closes_def emit_def conn_of_def next_session_def Let_def split_beta c list_all_iff)
qed

lemma send_confirmed:
  fixes now rto :: nat
  assumes ok: "mux_ok s" and c: "conn_of i s = Some c" "session c = Some x" "confirmed x" and small: "next_session s < 2 ^ 56"
    and r: "reconnect s = None"
  defines "t \<equiv> send_pass now rto s"
  shows "conn_of i t = Some c \<and> mux_ok t \<and> next_session t = next_session s \<and> reconnect t = None \<and>
    (\<exists>xs. outs t = outs s @ xs \<and> list_all (\<lambda>o1. \<not> opens (chan x) o1) xs)"
proof -
  have cs: "c \<in> set (conns s)" "conn_id c = i" using conn_of_some [OF c(1)] by simp_all
  define js where "js = map conn_id (filter (session_has open_expired) (conns s))"
  define u where "u = emit (opens_sent now rto (conns s)) (s\<lparr>conns := map (count_open now rto) (conns s)\<rparr>)"
  have t: "t = send_heartbeat now (send_closes now rto (fold (expire_open now) js u))"
    using r by (simp add: t_def send_pass_def js_def u_def Let_def)
  have i: "i \<notin> set js"
  proof
    assume "i \<in> set js"
    then obtain d where d: "d \<in> set (conns s)" "conn_id d = i" "session_has open_expired d" by (auto simp: js_def)
    then have "d = c" using ok cs by (auto simp: mux_ok_def conns_ok_def distinct_map inj_on_def)
    with d(3) c(2,3) show False by (simp add: session_has_def open_expired_def)
  qed
  have "conn_of i (s\<lparr>conns := map (count_open now rto) (conns s)\<rparr>) = map_option (count_open now rto) (conn_of i s)"
    by (simp add: conn_of_def find_mapped count_open_def)
  then have cu: "conn_of i u = Some c" using c by (simp add: u_def count_open_def session_has_def open_due_def)
  have "chan y \<noteq> chan x" if due: "open_due now rto y" and y: "y \<in> set (List.map_filter session (conns s))" for y
  proof
    assume e: "chan y = chan x"
    obtain d where d: "d \<in> set (conns s)" "session d = Some y" using y by (auto simp: List.map_filter_def)
    have "d = c" by (rule one_owner [OF ok cs(1) d(1), of "chan x"]) (simp_all add: owns_def c(2) d(2) e)
    with d(2) c(2,3) due show False by (simp add: open_due_def)
  qed
  then have ou: "outs u = outs s @ opens_sent now rto (conns s)" "list_all (\<lambda>o1. \<not> opens (chan x) o1) (opens_sent now rto (conns s))"
    by (auto simp: u_def opens_sent_def opens_def list_all_iff)
  have nu: "next_session u = next_session s" "reconnect u = None" using r by (simp_all add: u_def) (simp add: emit_def)
  note e = expire_others [OF i, of now u "chan x"] and st = send_tail [of i now rto "fold (expire_open now) js u" "chan x"]
  have "next_session t = next_session s" using st nu by (simp add: t)
  moreover then have "mux_ok t" using sound_send [of s now rto] ok small unfolding t_def sound_def by simp
  ultimately show ?thesis using st e cu ou nu unfolding t by auto
qed

lemma sends_confirmed:
  assumes "mux_ok s" "conn_of i s = Some c" "session c = Some x" "confirmed x" "next_session s < 2 ^ 56" "reconnect s = None"
  shows "conn_of i (fold (\<lambda>(now, rto). send_pass now rto) ts s) = Some c \<and>
    (\<exists>xs. outs (fold (\<lambda>(now, rto). send_pass now rto) ts s) = outs s @ xs \<and> list_all (\<lambda>o1. \<not> opens (chan x) o1) xs)"
  using assms
proof (induction ts arbitrary: s)
  case (Cons t ts)
  obtain now rto where t: "t = (now, rto)" by force
  note sc = send_confirmed [OF Cons.prems, of now rto]
  have "next_session (send_pass now rto s) < 2 ^ 56" using sc Cons.prems(5) by simp
  with Cons.IH [of "send_pass now rto s"] sc Cons.prems(3,4) show ?case by (auto simp: t)
qed simp

lemma note_offsets_confirmed: "confirmed (note_offsets b (confirm x))"
  by (simp add: note_offsets_def confirm_def split: sum.splits)

lemma find_replaced_same:
  "find (\<lambda>c. conn_id c = i) cs = Some c \<Longrightarrow> conn_id c' = i \<Longrightarrow> find (\<lambda>c. conn_id c = i) (replaced c' cs) = Some c'"
  by (induction cs) (auto simp: replaced_def split: if_splits)

lemma conn_of_set_same: "conn_of i s = Some c \<Longrightarrow> conn_id c' = i \<Longrightarrow> conn_of i (set_conn c' s) = Some c'"
  by (simp add: conn_of_def find_replaced_same)

text \<open>
  C29. A datagram of the old wire that arrives while the endpoint reconnects confirms a session whose open
  the new wire has yet to carry: once the reconnect succeeds the endpoint never sends that open, however
  long it runs, and the client's session hangs with the connection reported healthy.
\<close>

theorem late_instruction_strands_session:
  fixes ts :: "(nat \<times> nat) list" and t0 later now :: nat and srtt :: u32
  assumes s: "s = fold mux_step evs (mux_loop_new linger began live)" "next_session s < 2 ^ 56"
    and sess: "conn_of i s = Some c" "session c = Some x" "\<not> confirmed x"
    and re: "reconnect s = Some (attempt, next_try)" "next_try \<le> now"
    and m: "channel_kind (chan x) = KIND_SESSION" "chan x \<noteq> SESSION_CHANNEL" "get_at m 0 = Some SESSION_WIRE_DATA"
  defines "z \<equiv> fold (\<lambda>(now, rto). send_pass now rto) ts (try_reconnect now later True (wire_instruction t0 srtt (chan x) m s))"
  shows "(\<exists>d y. conn_of i z = Some d \<and> session d = Some y \<and> chan y = chan x \<and> confirmed y) \<and>
    (\<forall>p. ToWire (chan x) SESSION_WIRE_OPEN p \<notin> set (drop (length (outs s)) (outs z)))"
proof -
  have ok: "mux_ok s" using run_ok s by simp
  have c: "c \<in> set (conns s)" "conn_id c = i" using conn_of_some [OF sess(1)] by simp_all
  then have r: "routes s (chan x) = Some i" using ok sess(2) by (auto simp: mux_ok_def routes_ok_def owns_def)
  let ?c = "c\<lparr>session := Some (note_offsets (drop 1 m) (confirm x))\<rparr>"
  let ?s = "s\<lparr>wire_heard := t0, liveness := heard (liveness s)\<rparr>"
  define s1 where "s1 = wire_instruction t0 srtt (chan x) m s"
  define s2 where "s2 = try_reconnect now later True s1"
  have s1: "s1 = emit [ToConn (conn_id c) MSessionFrame (encode_session_frame srtt (drop 1 m))]
      (set_conn ?c (emit (flushed x) ?s))"
    using r sess m by (simp add: s1_def wire_instruction_def conn_of_def wire_session_def Let_def)
  have c1: "conn_of i s1 = Some ?c"
    unfolding s1 by (simp add: c(2)) (rule conn_of_set_same, simp add: conn_of_def sess(1) [unfolded conn_of_def], simp add: c(2))
  have o1: "outs s1 = outs s @ flushed x @ [ToConn (conn_id c) MSessionFrame (encode_session_frame srtt (drop 1 m))]"
    "reconnect s1 = reconnect s" "next_session s1 = next_session s"
    unfolding s1 by (simp_all add: set_conn_def emit_def next_session_def)
  have ok1: "mux_ok s1" using sound_wire [of s t0 srtt "chan x" m] ok s(2) o1(3) unfolding s1_def sound_def by simp
  have s2: "s2 = s1\<lparr>wire_state := Connected, reconnect := None, heartbeat_at := None, wire_heard := later, liveness := heard (liveness s1)\<rparr>"
    using re o1(2) by (simp add: s2_def try_reconnect_def)
  have "mux_ok s2" "conn_of i s2 = Some ?c" "next_session s2 < 2 ^ 56" "reconnect s2 = None" "outs s2 = outs s1"
    using ok1 c1 o1(3) s(2) unfolding s2 by (simp_all add: conn_of_def next_session_def)
  with sends_confirmed [of s2 i ?c "note_offsets (drop 1 m) (confirm x)" ts]
  have z: "conn_of i z = Some ?c" "\<exists>xs. outs z = outs s1 @ xs \<and> list_all (\<lambda>o1. \<not> opens (chan x) o1) xs"
    unfolding z_def s2_def [symmetric] s1_def [symmetric] by (simp_all add: note_offsets_confirmed)
  have "list_all (\<lambda>o1. \<not> opens (chan x) o1) (flushed x)"
    by (auto simp: flushed_def opens_def SESSION_WIRE_DATA_def SESSION_WIRE_OPEN_def list_all_iff)
  then have "list_all (\<lambda>o1. \<not> opens (chan x) o1) (drop (length (outs s)) (outs z))"
    using z(2) o1(1) by (auto simp: opens_def)
  then show ?thesis using z(1) by (auto simp: list_all_iff opens_def note_offsets_confirmed)
qed

theorem late_instruction_strands_session_witness:
  "let z = fold (\<lambda>(now, rto). send_pass now rto) [(100, 20), (200, 20)]
       (try_reconnect 30 40 True (wire_instruction 25 0 an_id [0] lost_run)) in
   (\<exists>d y. conn_of 1 z = Some d \<and> session d = Some y \<and> chan y = an_id \<and> confirmed y) \<and>
   (\<forall>p. ToWire an_id SESSION_WIRE_OPEN p \<notin> set (drop (length (outs lost_run)) (outs z)))"
proof -
  have run: "lost_run = fold mux_step ([Accepts, Reads 10 an_env True [first_read] False 1] @ [Resumes 100000 0 20, Judges 20])
      (mux_loop_new 0 5 (liveness_new 0 0))" by (simp only: lost_run_def opened_run_def fold_append o_apply)
  obtain b where b: "conns lost_run = [\<lparr>conn_id = 1, read_buf = b, hello_ok = True, holds_ref = True, peer_pid = Some 7,
      session = Some \<lparr>chan = an_id, target = [97], confirmed = False, queued = [],
                        open_sends = 0, last_open_send = None, resume = INITIAL\<rparr>\<rparr>]" "next_session lost_run = 3"
      "reconnect lost_run = Some (0, 20)" using lost_state by blast
  have k: "channel_kind an_id = KIND_SESSION" "an_id \<noteq> SESSION_CHANNEL"
    by (simp_all add: an_id_def SESSION_CHANNEL_def channel_new_def channel_kind_def KIND_SESSION_def)
  from b(1) have "conn_of 1 lost_run = Some (hd (conns lost_run))" by (simp add: conn_of_def)
  from late_instruction_strands_session [OF run _ this, of "the (session (hd (conns lost_run)))" 0 20 30 "[0]" "[(100, 20), (200, 20)]" 40 25 0]
  show ?thesis unfolding Let_def by (simp add: b k get_at_def SESSION_WIRE_DATA_def)
qed

end
