(* ===== verification/AgentMux.thy ===== *)
theory AgentMux
  imports AgentStream Channel
begin

text \<open>
  The agent channels of \<open>crates/posh/src/remote/agent.rs\<close>: \<open>AgentChannelMux\<close>, which carries the
  records of the local agent connections over per-channel cumulative streams, with its retransmission
  back-off, its window budget and its memory of closed channels; the client's proxy \<open>AgentClient\<close> and
  the accept and fail paths of \<open>AgentEndpoint\<close>, with the sockets as the environment; the request
  sniffer and the notice. Clocks and byte counts are naturals.
\<close>

section \<open>Constants\<close>

definition MAX_AGENT_CHANNELS :: nat where "MAX_AGENT_CHANNELS = 8"
definition TERM_RETRANSMITS :: nat where "TERM_RETRANSMITS = 4"
definition CLOSED_CHANNEL_MEMORY :: nat where "CLOSED_CHANNEL_MEMORY = 256"
definition BACKOFF_SHIFT_MAX :: nat where "BACKOFF_SHIFT_MAX = 3"
definition CWND_MAX :: nat where "CWND_MAX = MAX_AGENT_CHANNELS * AGENT_INSTRUCTION_DATA_MAX"
definition CWND_FLOOR :: nat where "CWND_FLOOR = AGENT_INSTRUCTION_DATA_MAX"
definition CWND_INCREMENT :: nat where "CWND_INCREMENT = AGENT_INSTRUCTION_DATA_MAX"

definition backed_off :: "nat \<Rightarrow> nat \<Rightarrow> nat" where
  "backed_off rto streak = backoff rto streak BACKOFF_SHIFT_MAX"

section \<open>State\<close>

record mux_channel =
  ac_id :: channel_id
  rec_id :: u32
  ac_outbox :: input_outbox
  ac_inbox :: input_inbox
  open_unconfirmed :: bool
  term_flag :: "u8 option"
  term_sends :: nat
  send_due :: bool
  last_send :: nat
  retx_streak :: nat
  budget_starved :: bool

definition mux_channel_new :: "channel_id \<Rightarrow> u32 \<Rightarrow> bool \<Rightarrow> mux_channel" where
  "mux_channel_new i r opener = \<lparr>ac_id = i, rec_id = r, ac_outbox = outbox_new, ac_inbox = inbox_new,
     open_unconfirmed = opener, term_flag = None, term_sends = 0, send_due = True, last_send = 0,
     retx_streak = 0, budget_starved = False\<rparr>"

record tombstone =
  tomb_id :: channel_id
  tomb_flag :: u8
  echo_due :: bool
  final_base :: u64
  final_ack :: u64

record agent_mux =
  am_role :: role
  am_alloc :: channel_allocator
  next_rec_id :: u32
  channels :: "mux_channel list"
  closed :: "tombstone list"
  cwnd :: nat
  window_start :: nat
  window_used :: nat
  window_cut :: bool
  window_progress :: bool
  cuts :: nat
  streak_hwm :: nat
  congestion :: bool
  am_panicked :: bool

definition agent_mux_new :: "bool \<Rightarrow> role \<Rightarrow> agent_mux" where
  "agent_mux_new cong r = \<lparr>am_role = r, am_alloc = allocator_new r, next_rec_id = 1, channels = [], closed = [],
     cwnd = CWND_MAX, window_start = 0, window_used = 0, window_cut = False, window_progress = False, cuts = 0,
     streak_hwm = 0, congestion = cong, am_panicked = False\<rparr>"

definition bury :: "channel_id \<Rightarrow> u8 \<Rightarrow> u64 \<Rightarrow> u64 \<Rightarrow> bool \<Rightarrow> agent_mux \<Rightarrow> agent_mux" where
  "bury i f b a due m =
     m\<lparr>closed := (if length (closed m) \<ge> CLOSED_CHANNEL_MEMORY then drop 1 (closed m) else closed m) @
        [\<lparr>tomb_id = i, tomb_flag = f, echo_due = due, final_base = b, final_ack = a\<rparr>]\<rparr>"

definition by_rec :: "u32 \<Rightarrow> agent_mux \<Rightarrow> nat option" where
  "by_rec r m = position (\<lambda>c. rec_id c = r) (channels m)"

section \<open>Records of the local end\<close>

text \<open>
  One record. The allocator's panic at the end of the ordinal space stops the process; it is kept as a
  flag.
\<close>

definition queue_record :: "agent_record \<Rightarrow> agent_mux \<Rightarrow> agent_mux" where
  "queue_record r m = (case kind r of
       Open \<Rightarrow>
         (if am_role m \<noteq> Server \<or> by_rec (channel r) m \<noteq> None then m
          else (case alloc_next KIND_AGENT (am_alloc m) of
              (a, Inl _) \<Rightarrow> m\<lparr>am_panicked := True\<rparr>
            | (a, Inr i) \<Rightarrow> m\<lparr>am_alloc := a, channels := channels m @ [mux_channel_new i (channel r) True]\<rparr>))
     | Data \<Rightarrow> (case by_rec (channel r) m of
          None \<Rightarrow> m
        | Some k \<Rightarrow> (let c = channels m ! k in m\<lparr>channels := (channels m)[k := c\<lparr>ac_outbox := outbox_push (rec_payload r) (ac_outbox c),
              send_due := True\<rparr>]\<rparr>))
     | _ \<Rightarrow> (case by_rec (channel r) m of
          None \<Rightarrow> m
        | Some k \<Rightarrow> (let c = channels m ! k
             in if term_flag c = None
                then m\<lparr>channels := (channels m)[k := c\<lparr>term_flag := Some (if kind r = Fail then AGENT_FLAG_FAIL else AGENT_FLAG_CLOSE),
                      send_due := True\<rparr>]\<rparr>
                else m)))"

definition queue_records :: "agent_record list \<Rightarrow> agent_mux \<Rightarrow> agent_mux" where
  "queue_records rs m = fold queue_record rs m"

section \<open>Instructions of the peer\<close>

definition rec_of :: "u32 \<Rightarrow> record_kind \<Rightarrow> bytes \<Rightarrow> agent_record" where
  "rec_of r k p = \<lparr>channel = r, kind = k, rec_payload = p\<rparr>"

definition is_term :: "u8 \<Rightarrow> bool" where
  "is_term f \<longleftrightarrow> f AND (AGENT_FLAG_CLOSE OR AGENT_FLAG_FAIL) \<noteq> 0"

text \<open>The channel an instruction is for: a live one, or one its open flag creates at the adopting end.\<close>

definition find_or_adopt :: "channel_id \<Rightarrow> u8 \<Rightarrow> agent_mux \<Rightarrow> agent_mux \<times> nat option \<times> agent_record list" where
  "find_or_adopt i f m = (case position (\<lambda>c. ac_id c = i) (channels m) of
       Some k \<Rightarrow> (m, Some k, [])
     | None \<Rightarrow>
         (if am_role m \<noteq> Client \<or> f AND AGENT_FLAG_OPEN = 0 then (m, None, [])
          else if length (channels m) \<ge> MAX_AGENT_CHANNELS then (bury i AGENT_FLAG_FAIL 0 0 True m, None, [])
          else (m\<lparr>next_rec_id := next_rec_id m + 1, channels := channels m @ [mux_channel_new i (next_rec_id m) False]\<rparr>,
                Some (length (channels m)), [rec_of (next_rec_id m) Open []])))"

text \<open>The acknowledgement it carries, and whether it made progress.\<close>

definition take_ack :: "u64 \<Rightarrow> mux_channel \<Rightarrow> mux_channel \<times> bool" where
  "take_ack a c =
     (let c = (if open_unconfirmed c then c\<lparr>retx_streak := 0\<rparr> else c)\<lparr>open_unconfirmed := False\<rparr>;
          ob = outbox_ack a (ac_outbox c); progress = (base ob > base (ac_outbox c));
          c = (if progress then c\<lparr>ac_outbox := ob, retx_streak := 0\<rparr> else c\<lparr>ac_outbox := ob\<rparr>)
      in (if buf ob \<noteq> [] then c\<lparr>send_due := True\<rparr> else c, progress))"

text \<open>Its data.\<close>

definition take_data :: "u64 \<Rightarrow> bytes \<Rightarrow> mux_channel \<Rightarrow> mux_channel \<times> agent_record list" where
  "take_data b d c = (case inbox_accept b d (ac_inbox c) of
       (x, None) \<Rightarrow> (c\<lparr>ac_inbox := x\<rparr>, [])
     | (x, Some fresh) \<Rightarrow> (c\<lparr>ac_inbox := x, send_due := True\<rparr>, [rec_of (rec_id c) Data fresh]))"

definition removed_at :: "nat \<Rightarrow> 'a list \<Rightarrow> 'a list" where
  "removed_at k xs = take k xs @ drop (Suc k) xs"

text \<open>An instruction applied to the live channel at index \<open>k\<close>: a terminal one closes it.\<close>

definition apply_instruction :: "channel_id \<Rightarrow> agent_payload \<Rightarrow> nat \<Rightarrow> agent_mux \<Rightarrow> agent_mux \<times> agent_record list" where
  "apply_instruction i p k m =
     (let (c, progress) = take_ack (precv_ack p) (channels m ! k);
          (c, given) = take_data (send_base p) (pdata p) c;
          m = m\<lparr>window_progress := (window_progress m \<or> progress)\<rparr>
      in if is_term (pflags p)
         then (bury i (case term_flag c of Some f \<Rightarrow> f | None \<Rightarrow> AGENT_FLAG_CLOSE) (end_offset (ac_outbox c))
                 (next_offset (ac_inbox c)) True (m\<lparr>channels := removed_at k (channels m)\<rparr>),
               given @ [rec_of (rec_id c) (if pflags p AND AGENT_FLAG_FAIL \<noteq> 0 then Fail else Close) []])
         else (m\<lparr>channels := (channels m)[k := c]\<rparr>, given))"

definition on_instruction :: "channel_id \<Rightarrow> bytes \<Rightarrow> agent_mux \<Rightarrow> agent_mux \<times> agent_record list" where
  "on_instruction i pl m = (case agent_payload_decode pl of
       Inl _ \<Rightarrow> (m, [])
     | Inr p \<Rightarrow>
         (if has_unknown_flags p then (m, [])
          else (case position (\<lambda>t. tomb_id t = i) (closed m) of
              Some k \<Rightarrow> (if is_term (pflags p) then (m, [])
                 else (m\<lparr>closed := (closed m)[k := (closed m ! k)\<lparr>echo_due := True\<rparr>]\<rparr>, []))
            | None \<Rightarrow> (case find_or_adopt i (pflags p) m of
                (m, None, _) \<Rightarrow> (m, [])
              | (m, Some k, opened) \<Rightarrow> (case apply_instruction i p k m of (m, rs) \<Rightarrow> (m, opened @ rs))))))"

section \<open>Instructions due\<close>

definition roll_window :: "nat \<Rightarrow> nat \<Rightarrow> agent_mux \<Rightarrow> agent_mux" where
  "roll_window now rto m =
     (if now - window_start m \<ge> rto
      then m\<lparr>cwnd := (if \<not> window_cut m \<and> window_progress m then min CWND_MAX (cwnd m + CWND_INCREMENT) else cwnd m),
             window_cut := False, window_progress := False, window_used := 0, window_start := now,
             channels := map (\<lambda>c. if budget_starved c then c\<lparr>budget_starved := False, send_due := True\<rparr> else c) (channels m)\<rparr>
      else m)"

definition rotated :: "'a list \<Rightarrow> 'a list" where
  "rotated xs = (if length xs > 1 then rotate1 xs else xs)"

definition instruction :: "channel_id \<Rightarrow> u8 \<Rightarrow> u64 \<Rightarrow> u64 \<Rightarrow> bytes \<Rightarrow> channel_id \<times> bytes" where
  "instruction i f b a d = (i, agent_payload_bytes \<lparr>pflags = f, send_base = b, precv_ack = a, pdata = d\<rparr>)"

definition echoes :: "tombstone list \<Rightarrow> (channel_id \<times> bytes) list" where
  "echoes ts = map (\<lambda>t. instruction (tomb_id t) (tomb_flag t) (final_base t) (final_ack t) []) (filter echo_due ts)"

definition term_unsettled :: "mux_channel \<Rightarrow> bool" where
  "term_unsettled c \<longleftrightarrow> term_flag c \<noteq> None \<and> term_sends c < TERM_RETRANSMITS"

definition wants_retx :: "mux_channel \<Rightarrow> bool" where
  "wants_retx c \<longleftrightarrow> buf (ac_outbox c) \<noteq> [] \<or> open_unconfirmed c \<or> term_unsettled c"

definition retx_fires :: "nat \<Rightarrow> nat \<Rightarrow> mux_channel \<Rightarrow> bool" where
  "retx_fires now rto c \<longleftrightarrow> wants_retx c \<and> now - last_send c \<ge> backed_off rto (retx_streak c)"

text \<open>A retransmission backs the channel off; one of data also cuts the window, once per window.\<close>

definition note_retx :: "mux_channel \<Rightarrow> agent_mux \<Rightarrow> mux_channel \<times> agent_mux" where
  "note_retx c m =
     (let c' = c\<lparr>retx_streak := min (2 ^ 32 - 1) (retx_streak c + 1)\<rparr>;
          m = m\<lparr>streak_hwm := max (streak_hwm m) (retx_streak c')\<rparr>
      in (c', if buf (ac_outbox c) \<noteq> [] \<and> \<not> window_cut m
              then m\<lparr>window_cut := True, cwnd := max CWND_FLOOR (cwnd m div 2), cuts := cuts m + 1\<rparr> else m))"

definition send_size :: "agent_mux \<Rightarrow> mux_channel \<Rightarrow> nat" where
  "send_size m c = (let desired = min (length (buf (ac_outbox c))) AGENT_INSTRUCTION_DATA_MAX
     in if cwnd m < CWND_MAX then min desired (cwnd m - window_used m) else desired)"

definition emit_instruction ::
  "nat \<Rightarrow> mux_channel \<Rightarrow> agent_mux \<Rightarrow> mux_channel \<times> agent_mux \<times> (channel_id \<times> bytes)" where
  "emit_instruction now c m =
     (let pending = buf (ac_outbox c); n = send_size m c; whole = (n = length pending);
          starved = (n < min (length pending) AGENT_INSTRUCTION_DATA_MAX);
          f = (if open_unconfirmed c then AGENT_FLAG_OPEN else 0) OR
              (case term_flag c of Some t \<Rightarrow> if whole then t else 0 | None \<Rightarrow> 0)
      in (c\<lparr>budget_starved := (budget_starved c \<or> starved),
            term_sends := (if term_flag c \<noteq> None \<and> whole then term_sends c + 1 else term_sends c),
            send_due := False, last_send := now\<rparr>,
          m\<lparr>window_used := window_used m + n\<rparr>,
          instruction (ac_id c) f (base (ac_outbox c)) (next_offset (ac_inbox c)) (take n pending)))"

text \<open>One channel's turn of the loop, and the loop; \<open>channels\<close> holds those already served.\<close>

definition service :: "nat \<Rightarrow> nat \<Rightarrow> mux_channel \<Rightarrow> agent_mux \<Rightarrow> mux_channel \<times> agent_mux \<times> (channel_id \<times> bytes) list" where
  "service now rto c m =
     (let fires = retx_fires now rto c;
          (c, m) = (if fires \<and> \<not> send_due c \<and> congestion m then note_retx c m else (c, m))
      in if send_due c \<or> fires
         then (case emit_instruction now c m of (c, m, o1) \<Rightarrow> (c, m, [o1])) else (c, m, []))"

definition settled :: "mux_channel \<Rightarrow> bool" where
  "settled c \<longleftrightarrow> term_flag c \<noteq> None \<and> buf (ac_outbox c) = [] \<and> term_sends c \<ge> TERM_RETRANSMITS"

fun serve :: "nat \<Rightarrow> nat \<Rightarrow> mux_channel list \<Rightarrow> agent_mux \<Rightarrow> agent_mux \<times> (channel_id \<times> bytes) list" where
  "serve now rto [] m = (m, [])"
| "serve now rto (c # cs) m = (case service now rto c m of
     (c, m, o1) \<Rightarrow>
       (let m = (if settled c then bury (ac_id c) (the (term_flag c)) (end_offset (ac_outbox c)) (next_offset (ac_inbox c)) False m
                 else m\<lparr>channels := channels m @ [c]\<rparr>)
        in case serve now rto cs m of (m, o2) \<Rightarrow> (m, o1 @ o2)))"

definition outgoing :: "nat \<Rightarrow> nat \<Rightarrow> agent_mux \<Rightarrow> agent_mux \<times> (channel_id \<times> bytes) list" where
  "outgoing now rto m =
     (let m = roll_window now rto m; cs = rotated (channels m); o1 = echoes (closed m);
          m = m\<lparr>channels := [], closed := map (\<lambda>t. t\<lparr>echo_due := False\<rparr>) (closed m)\<rparr>
      in case serve now rto cs m of (m, o2) \<Rightarrow> (m, o1 @ o2))"

section \<open>The deadline\<close>

definition channel_deadline :: "nat \<Rightarrow> agent_mux \<Rightarrow> mux_channel \<Rightarrow> nat option" where
  "channel_deadline rto m c =
     (if send_due c then Some 0
      else if budget_starved c then Some (window_start m + rto)
      else if wants_retx c then Some (last_send c + backed_off rto (retx_streak c))
      else None)"

definition earliest :: "nat option \<Rightarrow> nat option \<Rightarrow> nat option" where
  "earliest a b = (case (a, b) of (Some x, Some y) \<Rightarrow> Some (min x y) | (Some x, None) \<Rightarrow> Some x | (None, y) \<Rightarrow> y)"

definition next_deadline :: "nat \<Rightarrow> agent_mux \<Rightarrow> nat option" where
  "next_deadline rto m = fold (\<lambda>c due. earliest due (channel_deadline rto m c)) (channels m)
     (if \<exists>t \<in> set (closed m). echo_due t then Some 0 else None)"

definition congestion_summary :: "agent_mux \<Rightarrow> nat \<times> nat \<times> nat" where
  "congestion_summary m = (cwnd m, cuts m, streak_hwm m)"

definition iteration_sends :: "bytes option \<Rightarrow> agent_mux option \<Rightarrow> nat \<Rightarrow> nat \<Rightarrow> agent_mux option \<times> (channel_id \<times> bytes) list" where
  "iteration_sends session mx now rto =
     (let s = (case session of Some p \<Rightarrow> [(SESSION_CHANNEL, p)] | None \<Rightarrow> [])
      in case mx of None \<Rightarrow> (None, s) | Some m \<Rightarrow> (case outgoing now rto m of (m, o1) \<Rightarrow> (Some m, s @ o1)))"

end
