(* ===== verification/AgentMuxFacts.thy ===== *)
theory AgentMuxFacts
  imports AgentMux ChannelFacts "HOL-Library.Multiset" "HOL-Library.Sublist"
begin

text \<open>
  Two ends of the agent channels over a network that loses, repeats and reorders: what one end's local
  connections were given is a prefix of what the other's wrote, and a close arrives only after everything
  written before it. The window budget, and the poll deadline.
\<close>

section \<open>Tables keyed by a field\<close>

lemma updated_members:
  assumes "distinct (map f xs)" "k < length xs"
  shows "set (xs[k := y]) = insert y {x \<in> set xs. f x \<noteq> f (xs ! k)}"
proof -
  have "f (xs ! j) \<noteq> f (xs ! k) \<longleftrightarrow> j \<noteq> k" if "j < length xs" for j
    using assms that by (auto simp: distinct_conv_nth)
  then show ?thesis using assms(2) by (auto simp: set_conv_nth nth_list_update) (metis nth_list_update_neq)+
qed

lemma removed_members:
  assumes "distinct (map f xs)" "k < length xs"
  shows "set (removed_at k xs) = {x \<in> set xs. f x \<noteq> f (xs ! k)}"
proof -
  have xs: "xs = take k xs @ xs ! k # drop (Suc k) xs" using assms(2) by (simp add: id_take_nth_drop)
  have "distinct (map f (take k xs @ xs ! k # drop (Suc k) xs))" using assms(1) xs by simp
  then show ?thesis unfolding removed_at_def by (subst (3) xs) (auto intro: rev_image_eqI)
qed

lemma removed_mset: "k < length xs \<Longrightarrow> add_mset (xs ! k) (mset (removed_at k xs)) = mset xs"
  unfolding removed_at_def by (subst (4) id_take_nth_drop [of k xs]) simp_all

section \<open>What a step keeps of a channel\<close>

definition same_streams :: "mux_channel \<Rightarrow> mux_channel \<Rightarrow> bool" where
  "same_streams c d \<longleftrightarrow> ac_id d = ac_id c \<and> ac_outbox d = ac_outbox c \<and> ac_inbox d = ac_inbox c \<and> term_flag d = term_flag c"

lemma same_streams_refl [simp]: "same_streams c c"
  by (simp add: same_streams_def)

lemma same_streams_trans: "same_streams c d \<Longrightarrow> same_streams d e \<Longrightarrow> same_streams c e"
  by (simp add: same_streams_def)

definition ids :: "agent_mux \<Rightarrow> channel_id list" where
  "ids m = map ac_id (channels m) @ map tomb_id (closed m)"

text \<open>A tombstone is added at the end while there is room.\<close>

lemma bury_room:
  assumes "length (closed (bury i f b a due m)) < CLOSED_CHANNEL_MEMORY"
  shows "closed (bury i f b a due m) = closed m @ [\<lparr>tomb_id = i, tomb_flag = f, echo_due = due, final_base = b, final_ack = a\<rparr>]"
    "length (closed m) < CLOSED_CHANNEL_MEMORY"
  using assms by (auto simp: bury_def CLOSED_CHANNEL_MEMORY_def split: if_splits)

lemma bury_frame [simp]:
  "channels (bury i f b a due m) = channels m" "cwnd (bury i f b a due m) = cwnd m"
  "am_alloc (bury i f b a due m) = am_alloc m" "am_role (bury i f b a due m) = am_role m"
  by (simp_all add: bury_def)

lemma note_retx_frame:
  assumes "note_retx c m = (c', m')"
  shows "same_streams c c'" "closed m' = closed m" "channels m' = channels m" "am_alloc m' = am_alloc m" "am_role m' = am_role m"
  using assms by (auto simp: note_retx_def Let_def same_streams_def)

lemma emit_frames:
  assumes "emit_instruction now c m = (c', m', o1)"
  shows "same_streams c c'" "closed m' = closed m" "channels m' = channels m" "am_alloc m' = am_alloc m" "am_role m' = am_role m"
  using assms by (auto simp: emit_instruction_def Let_def same_streams_def)

text \<open>What an instruction carries of its channel: a part of the pending bytes, and the terminal flag only with all of it.\<close>

definition carries :: "mux_channel \<Rightarrow> channel_id \<times> bytes \<Rightarrow> bool" where
  "carries c x \<longleftrightarrow> fst x = ac_id c \<and> (\<exists>fl n. snd x = agent_payload_bytes \<lparr>pflags = fl, send_base = base (ac_outbox c),
      precv_ack = next_offset (ac_inbox c), pdata = take n (buf (ac_outbox c))\<rparr> \<and>
      (fl = 0 \<or> fl = AGENT_FLAG_OPEN \<or> (\<exists>f. term_flag c = Some f \<and> (fl = f \<or> fl = AGENT_FLAG_OPEN OR f) \<and> n = length (buf (ac_outbox c)))))"

lemma carries_same: "same_streams c d \<Longrightarrow> carries d x \<Longrightarrow> carries c x"
  by (simp add: carries_def same_streams_def)

lemma emit_carries:
  assumes "emit_instruction now c m = (c', m', x)"
  shows "carries c x"
proof -
  let ?n = "send_size m c"
  define fl where "fl = (if open_unconfirmed c then AGENT_FLAG_OPEN else 0) OR
      (case term_flag c of Some t \<Rightarrow> if ?n = length (buf (ac_outbox c)) then t else 0 | None \<Rightarrow> 0)"
  have "x = (ac_id c, agent_payload_bytes \<lparr>pflags = fl, send_base = base (ac_outbox c),
      precv_ack = next_offset (ac_inbox c), pdata = take ?n (buf (ac_outbox c))\<rparr>)"
    using assms by (auto simp: emit_instruction_def instruction_def Let_def fl_def)
  moreover have "fl = 0 \<or> fl = AGENT_FLAG_OPEN \<or>
      (\<exists>f. term_flag c = Some f \<and> (fl = f \<or> fl = AGENT_FLAG_OPEN OR f) \<and> ?n = length (buf (ac_outbox c)))"
    by (simp add: fl_def split: option.splits)
  ultimately show ?thesis unfolding carries_def by auto
qed

lemma service_frame:
  assumes "service now rto c m = (c', m', xs)"
  shows "same_streams c c'" "closed m' = closed m" "channels m' = channels m" "am_alloc m' = am_alloc m" "am_role m' = am_role m"
    "list_all (carries c) xs"
proof -
  obtain d n where d: "(if retx_fires now rto c \<and> \<not> send_due c \<and> congestion m then note_retx c m else (c, m)) = (d, n)" by force
  have n: "same_streams c d" "closed n = closed m" "channels n = channels m" "am_alloc n = am_alloc m" "am_role n = am_role m"
    using d note_retx_frame [of c m d n] by (auto split: if_splits)
  obtain e p x where e: "emit_instruction now d n = (e, p, x)" by (cases "emit_instruction now d n")
  show "same_streams c c'" "closed m' = closed m" "channels m' = channels m" "am_alloc m' = am_alloc m" "am_role m' = am_role m"
    using assms d e n emit_frames [OF e] same_streams_trans by (auto simp: service_def Let_def split: if_splits)
  have "carries c x" by (rule carries_same [OF n(1) emit_carries [OF e]])
  then show "list_all (carries c) xs" using assms d e by (auto simp: service_def Let_def split: if_splits)
qed

lemma serve_closed_grows: "length (closed m) \<le> length (closed (fst (serve now rto cs m)))"
proof (induction now rto cs m rule: serve.induct)
  case (2 now rto c cs m)
  obtain d n xs where s: "service now rto c m = (d, n, xs)" by (cases "service now rto c m")
  note f = service_frame [OF s]
  have "length (closed m) \<le> length (closed (if settled d then bury (ac_id d) (the (term_flag d)) (end_offset (ac_outbox d))
      (next_offset (ac_inbox d)) False n else n\<lparr>channels := channels n @ [d]\<rparr>))"
    using f by (auto simp: bury_def)
  with 2 [OF s [symmetric] refl refl] s show ?case by (fastforce simp: Let_def split: prod.splits)
qed simp

definition retired :: "mux_channel \<Rightarrow> tombstone" where
  "retired c = \<lparr>tomb_id = ac_id c, tomb_flag = the (term_flag c), echo_due = False,
     final_base = end_offset (ac_outbox c), final_ack = next_offset (ac_inbox c)\<rparr>"

lemma retired_same: "same_streams c d \<Longrightarrow> retired d = retired c"
  by (simp add: retired_def same_streams_def)

text \<open>The loop: channels stay or retire when nothing is pending, and each instruction is one channel's.\<close>

lemma serve_frame:
  assumes "serve now rto cs m = (m', xs)" "length (closed m') < CLOSED_CHANNEL_MEMORY"
  shows "mset (ids m') = mset (ids m) + mset (map ac_id cs) \<and>
    (\<forall>d \<in> set (channels m'). d \<in> set (channels m) \<or> (\<exists>c \<in> set cs. same_streams c d)) \<and>
    (\<forall>t \<in> set (closed m'). t \<in> set (closed m) \<or> (\<exists>c \<in> set cs. t = retired c \<and> term_flag c \<noteq> None \<and> buf (ac_outbox c) = [])) \<and>
    (\<forall>x \<in> set xs. \<exists>c \<in> set cs. carries c x) \<and> am_alloc m' = am_alloc m \<and> am_role m' = am_role m"
  using assms
proof (induction now rto cs m arbitrary: xs m' rule: serve.induct)
  case (2 now rto c cs m)
  obtain d n ys where s: "service now rto c m = (d, n, ys)" by (cases "service now rto c m")
  note f = service_frame [OF s]
  let ?p = "if settled d then bury (ac_id d) (the (term_flag d)) (end_offset (ac_outbox d)) (next_offset (ac_inbox d)) False n
      else n\<lparr>channels := channels n @ [d]\<rparr>"
  obtain zs where r: "serve now rto cs ?p = (m', zs)" "xs = ys @ zs"
    using 2(2) s by (auto simp: Let_def split: prod.splits)
  have room: "length (closed ?p) < CLOSED_CHANNEL_MEMORY" using serve_closed_grows [of ?p now rto cs] r(1) 2(3) by simp
  note ih = 2(1) [OF s [symmetric] refl refl r(1) 2(3)]
  have cl: "closed ?p = closed m @ (if settled d then [retired d] else [])"
    using bury_room(1) [of "ac_id d" "the (term_flag d)" "end_offset (ac_outbox d)" "next_offset (ac_inbox d)" False n] room f(2)
    by (simp add: retired_def split: if_splits)
  have p: "mset (ids ?p) = add_mset (ac_id c) (mset (ids m))"
    using cl f(1,3) by (simp add: ids_def retired_def same_streams_def)
  have "\<forall>d' \<in> set (channels ?p). d' \<in> set (channels m) \<or> same_streams c d'" using f by auto
  moreover have "\<forall>t \<in> set (closed ?p). t \<in> set (closed m) \<or> (t = retired c \<and> term_flag c \<noteq> None \<and> buf (ac_outbox c) = [])"
    using cl f(1) retired_same [OF f(1)] by (auto simp: settled_def same_streams_def)
  moreover have "am_alloc ?p = am_alloc m" "am_role ?p = am_role m" using f by auto
  ultimately show ?case using ih p f(6) r(2) by (fastforce simp: list_all_iff)
qed simp

section \<open>Two ends and a network\<close>

text \<open>
  \<open>told\<close> is what the local connections wrote on each channel and \<open>handed\<close> what they were given; \<open>sent\<close>
  holds every instruction ever sent, so that the network loses, repeats and reorders by the choice of
  what is received. A connection that has reported its end writes nothing more. The runs considered are
  those in which the memory of closed channels has not filled up.
\<close>

record agent_end =
  am :: agent_mux
  told :: "channel_id \<Rightarrow> bytes"
  handed :: "channel_id \<Rightarrow> bytes"
  sent :: "(channel_id \<times> bytes) set"

definition agent_end_new :: "bool \<Rightarrow> role \<Rightarrow> agent_end" where
  "agent_end_new cong r = \<lparr>am = agent_mux_new cong r, told = (\<lambda>_. []), handed = (\<lambda>_. []), sent = {}\<rparr>"

definition tell :: "agent_record \<Rightarrow> agent_mux \<Rightarrow> (channel_id \<Rightarrow> bytes) \<Rightarrow> channel_id \<Rightarrow> bytes" where
  "tell r m q = (case by_rec (channel r) m of
       Some k \<Rightarrow> (if kind r = Data then q(ac_id (channels m ! k) := q (ac_id (channels m ! k)) @ rec_payload r) else q)
     | None \<Rightarrow> q)"

definition data_of :: "agent_record list \<Rightarrow> bytes" where
  "data_of rs = concat (map rec_payload (filter (\<lambda>r. kind r = Data) rs))"

text \<open>The records a local connection may produce now.\<close>

definition may_tell :: "agent_record \<Rightarrow> agent_end \<Rightarrow> bool" where
  "may_tell r x \<longleftrightarrow> (case by_rec (channel r) (am x) of
       Some k \<Rightarrow> kind r = Data \<longrightarrow> term_flag (channels (am x) ! k) = None \<and>
         length (told x (ac_id (channels (am x) ! k))) + length (rec_payload r) < 2 ^ 64
     | None \<Rightarrow> kind r = Open \<longrightarrow> unat (next_ordinal (am_alloc (am x)) ! 1) < 2 ^ 56 - 1)"

inductive end_step :: "(channel_id \<times> bytes) set \<Rightarrow> agent_end \<Rightarrow> agent_end \<Rightarrow> bool" for peer where
  Tells: "may_tell r x \<Longrightarrow> end_step peer x (x\<lparr>am := queue_record r (am x), told := tell r (am x) (told x)\<rparr>)"
| Drains: "outgoing now rto (am x) = (m, xs) \<Longrightarrow> length (closed m) < CLOSED_CHANNEL_MEMORY \<Longrightarrow>
    end_step peer x (x\<lparr>am := m, sent := sent x \<union> set xs\<rparr>)"
| Receives: "(i, pl) \<in> peer \<Longrightarrow> on_instruction i pl (am x) = (m, rs) \<Longrightarrow> length (closed m) < CLOSED_CHANNEL_MEMORY \<Longrightarrow>
    end_step peer x (x\<lparr>am := m, handed := (handed x)(i := handed x i @ data_of rs)\<rparr>)"

inductive agent_system :: "agent_end \<Rightarrow> agent_end \<Rightarrow> bool" where
  Starts: "agent_system (agent_end_new b Server) (agent_end_new d Client)"
| ServerSteps: "agent_system s c \<Longrightarrow> end_step (sent c) s s' \<Longrightarrow> agent_system s' c"
| ClientSteps: "agent_system s c \<Longrightarrow> end_step (sent s) c c' \<Longrightarrow> agent_system s c'"

section \<open>The invariant\<close>

definition known :: "agent_end \<Rightarrow> channel_id set" where
  "known x = set (ids (am x))"

definition ended :: "agent_end \<Rightarrow> channel_id \<Rightarrow> bool" where
  "ended x i \<longleftrightarrow> (\<exists>c \<in> set (channels (am x)). ac_id c = i \<and> term_flag c \<noteq> None) \<or> i \<in> tomb_id ` set (closed (am x))"

definition term_byte :: "u8 \<Rightarrow> bool" where
  "term_byte f \<longleftrightarrow> f = AGENT_FLAG_CLOSE \<or> f = AGENT_FLAG_FAIL"

definition channel_ok :: "agent_end \<Rightarrow> mux_channel \<Rightarrow> bool" where
  "channel_ok x c \<longleftrightarrow> buf (ac_outbox c) = drop (unat (base (ac_outbox c))) (told x (ac_id c)) \<and>
     unat (base (ac_outbox c)) \<le> length (told x (ac_id c)) \<and>
     unat (next_offset (ac_inbox c)) = length (handed x (ac_id c)) \<and> (\<forall>f. term_flag c = Some f \<longrightarrow> term_byte f)"

definition tomb_ok :: "agent_end \<Rightarrow> tombstone \<Rightarrow> bool" where
  "tomb_ok x t \<longleftrightarrow> unat (final_base t) = length (told x (tomb_id t)) \<and>
     unat (final_ack t) = length (handed x (tomb_id t)) \<and> term_byte (tomb_flag t)"

definition message_ok :: "agent_end \<Rightarrow> channel_id \<times> bytes \<Rightarrow> bool" where
  "message_ok x z \<longleftrightarrow> fst z \<in> known x \<and> (\<exists>p. snd z = agent_payload_bytes p \<and>
     unat (send_base p) + length (pdata p) \<le> length (told x (fst z)) \<and>
     pdata p = take (length (pdata p)) (drop (unat (send_base p)) (told x (fst z))) \<and>
     unat (precv_ack p) \<le> length (handed x (fst z)) \<and>
     (is_term (pflags p) \<longrightarrow> ended x (fst z) \<and> unat (send_base p) + length (pdata p) = length (told x (fst z))))"

text \<open>The identifiers a server knows are those its allocator has handed out.\<close>

definition alloc_fresh :: "agent_end \<Rightarrow> bool" where
  "alloc_fresh x \<longleftrightarrow> alloc_role (am_alloc (am x)) = am_role (am x) \<and> length (next_ordinal (am_alloc (am x))) = 128 \<and>
     (am_role (am x) = Server \<longrightarrow> (\<forall>i \<in> known x. \<exists>n. i = channel_new True KIND_AGENT n \<and> unat n < unat (next_ordinal (am_alloc (am x)) ! 1)) \<and>
        unat (next_ordinal (am_alloc (am x)) ! 1) < 2 ^ 56)"

definition local_ok :: "agent_end \<Rightarrow> bool" where
  "local_ok x \<longleftrightarrow> distinct (ids (am x)) \<and> (\<forall>c \<in> set (channels (am x)). channel_ok x c) \<and>
     (\<forall>t \<in> set (closed (am x)). tomb_ok x t) \<and> (\<forall>z \<in> sent x. message_ok x z) \<and>
     (\<forall>i. i \<notin> known x \<longrightarrow> told x i = [] \<and> handed x i = []) \<and> (\<forall>i. length (told x i) < 2 ^ 64) \<and> alloc_fresh x"

text \<open>From \<open>x\<close> to \<open>y\<close>.\<close>

definition flow_ok :: "agent_end \<Rightarrow> agent_end \<Rightarrow> bool" where
  "flow_ok x y \<longleftrightarrow> (\<forall>i. prefix (handed y i) (told x i)) \<and>
     (\<forall>c \<in> set (channels (am x)). unat (base (ac_outbox c)) \<le> length (handed y (ac_id c))) \<and>
     (\<forall>t \<in> set (closed (am x)). unat (final_base t) \<le> length (handed y (tomb_id t)) \<or> ended y (tomb_id t)) \<and>
     (\<forall>(i, pl) \<in> sent x. \<forall>p. pl = agent_payload_bytes p \<longrightarrow>
        unat (send_base p) \<le> length (handed y i) \<or> ended y i \<and> pdata p = [])"

definition agents_ok :: "agent_end \<Rightarrow> agent_end \<Rightarrow> bool" where
  "agents_ok s c \<longleftrightarrow> local_ok s \<and> local_ok c \<and> flow_ok s c \<and> flow_ok c s"

lemma agents_ok_new: "agents_ok (agent_end_new b Server) (agent_end_new d Client)"
  by (auto simp: agents_ok_def local_ok_def flow_ok_def agent_end_new_def agent_mux_new_def known_def ids_def alloc_fresh_def allocator_new_def)

section \<open>Records of the local end\<close>

text \<open>The flags of an instruction say whether it is terminal.\<close>

lemma flag_bits [simp]:
  "\<not> is_term 0" "\<not> is_term AGENT_FLAG_OPEN"
  "term_byte f \<Longrightarrow> is_term f" "term_byte f \<Longrightarrow> is_term (AGENT_FLAG_OPEN OR f)"
  by (auto simp: is_term_def term_byte_def AGENT_FLAG_OPEN_def AGENT_FLAG_CLOSE_def AGENT_FLAG_FAIL_def)

lemma payload_inject: "agent_payload_bytes p = agent_payload_bytes q \<longleftrightarrow> p = q"
  by (metis agent_payload_roundtrip sum.inject(2))

section \<open>What keeps the invariant\<close>

text \<open>A step of \<open>x\<close> to \<open>y\<close>: what was said stays said, and an ended channel says no more.\<close>

definition grows :: "agent_end \<Rightarrow> agent_end \<Rightarrow> bool" where
  "grows x y \<longleftrightarrow> known x \<subseteq> known y \<and> (\<forall>i. prefix (told x i) (told y i) \<and> prefix (handed x i) (handed y i) \<and>
     (ended x i \<longrightarrow> ended y i \<and> told y i = told x i))"

definition kept :: "agent_end \<Rightarrow> agent_end \<Rightarrow> channel_id \<Rightarrow> bool" where
  "kept x y i \<longleftrightarrow> told y i = told x i \<and> handed y i = handed x i"

lemma slice_prefix:
  "prefix a b \<Longrightarrow> n + length d \<le> length a \<Longrightarrow> take (length d) (drop n b) = take (length d) (drop n a)"
  by (auto simp: prefix_def)

lemma message_grows:
  assumes "grows x y" "message_ok x z"
  shows "message_ok y z"
proof -
  obtain p where p: "snd z = agent_payload_bytes p" "unat (send_base p) + length (pdata p) \<le> length (told x (fst z))"
     "pdata p = take (length (pdata p)) (drop (unat (send_base p)) (told x (fst z)))"
     "unat (precv_ack p) \<le> length (handed x (fst z))"
     "is_term (pflags p) \<longrightarrow> ended x (fst z) \<and> unat (send_base p) + length (pdata p) = length (told x (fst z))"
    using assms(2) by (auto simp: message_ok_def)
  have g: "prefix (told x (fst z)) (told y (fst z))" "prefix (handed x (fst z)) (handed y (fst z))"
    "ended x (fst z) \<Longrightarrow> ended y (fst z) \<and> told y (fst z) = told x (fst z)" "fst z \<in> known y"
    using assms by (auto simp: grows_def message_ok_def)
  have "pdata p = take (length (pdata p)) (drop (unat (send_base p)) (told y (fst z)))"
    using slice_prefix [OF g(1) p(2)] p(3) by simp
  with p(1,2,4,5) g prefix_length_le [OF g(1)] prefix_length_le [OF g(2)] show ?thesis
    unfolding message_ok_def by (auto intro!: exI [of _ p])
qed

definition same_tomb :: "tombstone \<Rightarrow> tombstone \<Rightarrow> bool" where
  "same_tomb t u \<longleftrightarrow> tomb_id u = tomb_id t \<and> tomb_flag u = tomb_flag t \<and> final_base u = final_base t \<and> final_ack u = final_ack t"

lemma same_tomb_refl [simp]: "same_tomb t t"
  by (simp add: same_tomb_def)

lemma local_step:
  assumes ok: "local_ok x" and g: "grows x y"
    and "distinct (ids (am y))"
    and chans: "\<forall>d \<in> set (channels (am y)). (\<exists>c \<in> set (channels (am x)). same_streams c d \<and> kept x y (ac_id c)) \<or> channel_ok y d"
    and tombs: "\<forall>u \<in> set (closed (am y)). (\<exists>t \<in> set (closed (am x)). same_tomb t u \<and> kept x y (tomb_id t)) \<or> tomb_ok y u"
    and sent: "\<forall>z \<in> sent y. z \<in> sent x \<or> message_ok y z"
    and "\<forall>i. i \<notin> known y \<longrightarrow> told y i = [] \<and> handed y i = []" "\<forall>i. length (told y i) < 2 ^ 64" "alloc_fresh y"
  shows "local_ok y"
proof -
  have "channel_ok y d" if d: "d \<in> set (channels (am y))" for d
  proof -
    consider "channel_ok y d" | c where "c \<in> set (channels (am x))" "same_streams c d" "kept x y (ac_id c)" using chans d by blast
    then show ?thesis using ok by cases (auto simp: local_ok_def channel_ok_def same_streams_def kept_def)
  qed
  moreover have "tomb_ok y u" if u: "u \<in> set (closed (am y))" for u
  proof -
    consider "tomb_ok y u" | t where "t \<in> set (closed (am x))" "same_tomb t u" "kept x y (tomb_id t)" using tombs u by blast
    then show ?thesis using ok by cases (auto simp: local_ok_def tomb_ok_def same_tomb_def kept_def)
  qed
  moreover have "\<forall>z \<in> sent y. message_ok y z" using sent ok message_grows [OF g] by (auto simp: local_ok_def)
  ultimately show ?thesis using assms by (simp add: local_ok_def)
qed

lemma flow_out_step:
  assumes ok: "flow_ok x z" and g: "grows x y"
    and chans: "\<forall>d \<in> set (channels (am y)). (\<exists>c \<in> set (channels (am x)). same_streams c d) \<or> unat (base (ac_outbox d)) \<le> length (handed z (ac_id d))"
    and tombs: "\<forall>u \<in> set (closed (am y)). (\<exists>t \<in> set (closed (am x)). same_tomb t u) \<or>
      unat (final_base u) \<le> length (handed z (tomb_id u)) \<or> ended z (tomb_id u)"
    and sent: "\<forall>(i, pl) \<in> sent y. (i, pl) \<in> sent x \<or> (\<forall>p. pl = agent_payload_bytes p \<longrightarrow>
        unat (send_base p) \<le> length (handed z i) \<or> ended z i \<and> pdata p = [])"
  shows "flow_ok y z"
proof -
  have "prefix (handed z i) (told y i)" for i
    using ok g unfolding flow_ok_def grows_def by (meson prefix_order.trans)
  moreover have "unat (base (ac_outbox d)) \<le> length (handed z (ac_id d))" if d: "d \<in> set (channels (am y))" for d
  proof -
    consider "unat (base (ac_outbox d)) \<le> length (handed z (ac_id d))" | c where "c \<in> set (channels (am x))" "same_streams c d"
      using chans d by blast
    then show ?thesis using ok by cases (auto simp: flow_ok_def same_streams_def)
  qed
  moreover have "unat (final_base u) \<le> length (handed z (tomb_id u)) \<or> ended z (tomb_id u)" if u: "u \<in> set (closed (am y))" for u
  proof -
    consider "unat (final_base u) \<le> length (handed z (tomb_id u)) \<or> ended z (tomb_id u)"
      | t where "t \<in> set (closed (am x))" "same_tomb t u" using tombs u by blast
    then show ?thesis using ok by cases (auto simp: flow_ok_def same_tomb_def)
  qed
  moreover have "\<forall>(i, pl) \<in> sent y. \<forall>p. pl = agent_payload_bytes p \<longrightarrow> unat (send_base p) \<le> length (handed z i) \<or> ended z i \<and> pdata p = []"
    using sent ok unfolding flow_ok_def by blast
  ultimately show ?thesis unfolding flow_ok_def by blast
qed

lemma flow_in_step:
  assumes ok: "flow_ok z x" and g: "grows x y" and told: "\<forall>i. prefix (handed y i) (told z i)"
  shows "flow_ok z y"
proof -
  have l: "length (handed x i) \<le> length (handed y i)" "ended x i \<Longrightarrow> ended y i" for i
    using g by (auto simp: grows_def prefix_length_le)
  have "unat (base (ac_outbox c)) \<le> length (handed y (ac_id c))" if "c \<in> set (channels (am z))" for c
    using ok that l(1) unfolding flow_ok_def by (meson le_trans)
  moreover have "unat (final_base t) \<le> length (handed y (tomb_id t)) \<or> ended y (tomb_id t)" if "t \<in> set (closed (am z))" for t
    using ok that l unfolding flow_ok_def by (meson le_trans)
  moreover have "unat (send_base p) \<le> length (handed y i) \<or> ended y i \<and> pdata p = []"
    if "(i, pl) \<in> sent z" "pl = agent_payload_bytes p" for i pl p
  proof -
    have "unat (send_base p) \<le> length (handed x i) \<or> ended x i \<and> pdata p = []" using ok that unfolding flow_ok_def by blast
    with l [of i] show ?thesis by linarith
  qed
  ultimately show ?thesis using told unfolding flow_ok_def by blast
qed

section \<open>A record told\<close>

lemma distinct_ids:
  assumes "distinct (ids m)"
  shows "distinct (map ac_id (channels m))" "distinct (map tomb_id (closed m))"
    "c \<in> set (channels m) \<Longrightarrow> t \<in> set (closed m) \<Longrightarrow> tomb_id t \<noteq> ac_id c"
    "c \<in> set (channels m) \<Longrightarrow> d \<in> set (channels m) \<Longrightarrow> ac_id d = ac_id c \<Longrightarrow> d = c"
  using assms by (auto simp: ids_def distinct_map inj_on_def image_iff disjoint_iff)

lemma ended_live:
  assumes "distinct (ids (am x))" "c \<in> set (channels (am x))"
  shows "ended x (ac_id c) \<longleftrightarrow> term_flag c \<noteq> None"
proof -
  have "ac_id c \<notin> tomb_id ` set (closed (am x))" using distinct_ids(3) [OF assms] by (metis imageE)
  moreover have "(\<exists>d \<in> set (channels (am x)). ac_id d = ac_id c \<and> term_flag d \<noteq> None) \<longleftrightarrow> term_flag c \<noteq> None"
    using distinct_ids(4) [OF assms] assms(2) by metis
  ultimately show ?thesis by (simp add: ended_def)
qed

lemma known_alt: "known x = ac_id ` set (channels (am x)) \<union> tomb_id ` set (closed (am x))"
  by (auto simp: known_def ids_def)

text \<open>One channel changed in place, the streams it carries perhaps longer.\<close>

lemma live_update:
  assumes ok: "local_ok x" and k: "k < length (channels (am x))" "c = channels (am x) ! k"
    and d: "ac_id d = ac_id c" "term_flag c \<noteq> None \<Longrightarrow> term_flag d \<noteq> None"
    and y: "channels (am y) = (channels (am x))[k := d]" "closed (am y) = closed (am x)" "am_alloc (am y) = am_alloc (am x)"
      "am_role (am y) = am_role (am x)" "sent y = sent x"
    and other: "\<And>i. i \<noteq> ac_id c \<Longrightarrow> kept x y i"
    and here: "prefix (told x (ac_id c)) (told y (ac_id c))" "prefix (handed x (ac_id c)) (handed y (ac_id c))"
      "term_flag c \<noteq> None \<Longrightarrow> told y (ac_id c) = told x (ac_id c)" "length (told y (ac_id c)) < 2 ^ 64"
    and dok: "channel_ok y d"
  shows "local_ok y" "grows x y"
proof -
  have dist: "distinct (ids (am x))" using ok by (simp add: local_ok_def)
  note di = distinct_ids [OF dist]
  have c: "c \<in> set (channels (am x))" using k by simp
  have mem: "set (channels (am y)) = insert d {e \<in> set (channels (am x)). ac_id e \<noteq> ac_id c}"
    using updated_members [OF di(1) k(1)] k(2) y(1) by simp
  have ids: "ids (am y) = ids (am x)" using k d(1) y(1,2) by (simp add: ids_def map_update list_update_same_conv)
  then have kn: "known y = known x" by (simp add: known_def)
  have en: "ended x i \<Longrightarrow> ended y i" for i
  proof -
    assume "ended x i"
    then consider "i \<in> tomb_id ` set (closed (am x))" | e where "e \<in> set (channels (am x))" "ac_id e = i" "term_flag e \<noteq> None"
      by (auto simp: ended_def)
    then show "ended y i"
    proof cases
      case 2
      then show ?thesis using di(4) [OF c, of e] d by (cases "ac_id e = ac_id c") (auto simp: ended_def mem)
    qed (simp add: ended_def y(2))
  qed
  show g: "grows x y"
    unfolding grows_def kn
  proof (intro conjI allI impI subset_refl)
    fix i
    show "prefix (told x i) (told y i)" "prefix (handed x i) (handed y i)"
      using other [of i] here(1,2) by (cases "i = ac_id c"; simp add: kept_def)+
    assume e: "ended x i"
    then show "ended y i" by (rule en)
    show "told y i = told x i"
      using other [of i] here(3) e ended_live [OF dist c] by (cases "i = ac_id c") (simp_all add: kept_def)
  qed
  show "local_ok y"
  proof (rule local_step [OF ok g])
    show "\<forall>e \<in> set (channels (am y)). (\<exists>c' \<in> set (channels (am x)). same_streams c' e \<and> kept x y (ac_id c')) \<or> channel_ok y e"
      using other dok unfolding mem by (auto intro!: bexI [where P = "\<lambda>c'. same_streams c' _ \<and> kept x y (ac_id c')"])
    show "\<forall>u \<in> set (closed (am y)). (\<exists>t \<in> set (closed (am x)). same_tomb t u \<and> kept x y (tomb_id t)) \<or> tomb_ok y u"
      unfolding y(2) using other di(3) [OF c] same_tomb_refl by metis
    show "\<forall>i. i \<notin> known y \<longrightarrow> told y i = [] \<and> handed y i = []"
    proof (intro allI impI)
      fix i assume i: "i \<notin> known y"
      have "ac_id c \<in> known x" using c by (simp add: known_alt)
      with i have "i \<noteq> ac_id c" by (auto simp: kn)
      then show "told y i = [] \<and> handed y i = []" using other [of i] ok i by (simp add: kept_def kn local_ok_def)
    qed
    show "\<forall>i. length (told y i) < 2 ^ 64"
      using other here(4) ok by (metis kept_def local_ok_def)
    show "alloc_fresh y" using ok y(3,4) by (simp add: local_ok_def alloc_fresh_def kn)
  qed (use dist ids y(5) in simp_all)
qed

lemma queue_same:
  "queue_record r m = m \<Longrightarrow> kind r \<noteq> Data \<Longrightarrow> x\<lparr>am := queue_record r (am x), told := tell r (am x) (told x)\<rparr> = x\<lparr>am := queue_record r (am x)\<rparr>"
  by (simp add: tell_def split: option.splits)

lemma told_other: "kind r \<noteq> Data \<Longrightarrow> tell r m q = q"
  by (simp add: tell_def split: option.splits)

lemma told_none: "by_rec (channel r) m = None \<Longrightarrow> tell r m q = q"
  by (simp add: tell_def)

lemma by_rec_live: "by_rec r m = Some k \<Longrightarrow> k < length (channels m) \<and> channels m ! k \<in> set (channels m)"
  by (auto simp: by_rec_def dest!: position_SomeD)

lemma alloc_agent:
  assumes "length (next_ordinal a) = 128" "unat (next_ordinal a ! 1) < 2 ^ 56 - 1" "alloc_role a = Server"
  shows "\<exists>b. alloc_next KIND_AGENT a = (b, Inr (channel_new True KIND_AGENT (next_ordinal a ! 1))) \<and> alloc_role b = Server \<and>
     length (next_ordinal b) = 128 \<and> unat (next_ordinal b ! 1) = unat (next_ordinal a ! 1) + 1"
proof -
  have slot: "unat (KIND_AGENT AND 0x7f) = 1" by (simp add: KIND_AGENT_def)
  have "unat (- 1 :: u64) = 2 ^ 64 - 1" by (simp add: unsigned_minus_1_eq_mask mask_eq_exp_minus_1)
  then have "next_ordinal a ! 1 \<noteq> - 1" using assms(2) by auto
  moreover have "unat (next_ordinal a ! 1 + 1) = unat (next_ordinal a ! 1) + 1"
    using assms(2) unat_add_of_nat [of "next_ordinal a ! 1" 1] by simp
  ultimately show ?thesis using assms by (simp add: alloc_next_def slot Let_def)
qed

lemma told_open:
  assumes ok: "local_ok x" and r: "may_tell r x" "kind r = Open" "by_rec (channel r) (am x) = None" "am_role (am x) = Server"
    and y: "y = x\<lparr>am := queue_record r (am x)\<rparr>"
  shows "local_ok y" "grows x y" "channels (am y) = channels (am x) @ [mux_channel_new (channel_new True KIND_AGENT (next_ordinal (am_alloc (am x)) ! 1)) (channel r) True]"
    "closed (am y) = closed (am x)"
proof -
  let ?n = "next_ordinal (am_alloc (am x)) ! 1"
  let ?i = "channel_new True KIND_AGENT ?n" and ?c = "mux_channel_new (channel_new True KIND_AGENT (next_ordinal (am_alloc (am x)) ! 1)) (channel r) True"
  have al: "length (next_ordinal (am_alloc (am x))) = 128" "unat ?n < 2 ^ 56 - 1" "alloc_role (am_alloc (am x)) = Server"
    using ok r by (simp_all add: local_ok_def alloc_fresh_def may_tell_def)
  obtain b where b: "alloc_next KIND_AGENT (am_alloc (am x)) = (b, Inr ?i)" "alloc_role b = Server"
     "length (next_ordinal b) = 128" "unat (next_ordinal b ! 1) = unat ?n + 1" using alloc_agent [OF al] by blast
  have q: "queue_record r (am x) = (am x)\<lparr>am_alloc := b, channels := channels (am x) @ [?c]\<rparr>"
    using r(2-4) b(1) by (simp add: queue_record_def)
  show ch: "channels (am y) = channels (am x) @ [?c]" and cl: "closed (am y) = closed (am x)" by (simp_all add: y q)
  have fresh: "?i \<notin> known x"
  proof
    assume "?i \<in> known x"
    then obtain n where n: "?i = channel_new True KIND_AGENT n" "unat n < unat ?n"
      using ok r(4) unfolding local_ok_def alloc_fresh_def by blast
    have "ordinal ?i = ?n" by (rule ordinal_new) (use al(2) in simp)
    moreover have "ordinal (channel_new True KIND_AGENT n) = n" by (rule ordinal_new) (use n(2) al(2) in linarith)
    ultimately have "?n = n" using n(1) by metis
    with n(2) show False by simp
  qed
  have kn: "known y = insert ?i (known x)" by (auto simp: known_alt ch cl mux_channel_new_def)
  have en: "ended y i = ended x i" for i by (auto simp: ended_def ch cl mux_channel_new_def)
  show g: "grows x y" using kn en by (auto simp: grows_def y)
  have blank: "told x ?i = []" "handed x ?i = []" using ok fresh by (auto simp: local_ok_def)
  show "local_ok y"
  proof (rule local_step [OF ok g])
    show "distinct (ids (am y))"
      using ok fresh by (auto simp: local_ok_def known_def ids_def ch cl mux_channel_new_def)
    show "\<forall>d \<in> set (channels (am y)). (\<exists>c \<in> set (channels (am x)). same_streams c d \<and> kept x y (ac_id c)) \<or> channel_ok y d"
    proof -
      have "told y = told x" "handed y = handed x" by (simp_all add: y)
      then have "kept x y i" "channel_ok y ?c" for i
        using blank by (simp_all add: kept_def channel_ok_def mux_channel_new_def outbox_new_def inbox_new_def)
      moreover have "d \<in> set (channels (am x)) \<or> d = ?c" if "d \<in> set (channels (am y))" for d using that ch by auto
      ultimately show ?thesis using same_streams_refl by metis
    qed
    show "\<forall>u \<in> set (closed (am y)). (\<exists>t \<in> set (closed (am x)). same_tomb t u \<and> kept x y (tomb_id t)) \<or> tomb_ok y u"
      using same_tomb_refl unfolding cl by (metis kept_def select_convs(2,3) surjective update_convs(1) y)
    show "\<forall>i. i \<notin> known y \<longrightarrow> told y i = [] \<and> handed y i = []" using ok kn by (simp add: y local_ok_def)
    show "alloc_fresh y"
    proof -
      have "\<exists>n. i = channel_new True KIND_AGENT n \<and> unat n < unat (next_ordinal b ! 1)" if "i \<in> known y" for i
      proof (cases "i = ?i")
        case False
        then have "i \<in> known x" using that kn by simp
        then obtain n where "i = channel_new True KIND_AGENT n" "unat n < unat ?n"
          using ok r(4) unfolding local_ok_def alloc_fresh_def by blast
        then show ?thesis using b(4) by auto
      qed (use b(4) in auto)
      moreover have "am_alloc (am y) = b" "am_role (am y) = Server" using r(4) by (simp_all add: y q)
      ultimately show ?thesis using b al(2) by (simp add: alloc_fresh_def)
    qed
  qed (use ok in \<open>auto simp: y local_ok_def\<close>)
qed

text \<open>A record told keeps the invariant, and what the peer relies on.\<close>

lemma tells_ok:
  assumes ok: "local_ok x" and r: "may_tell r x" and y: "y = x\<lparr>am := queue_record r (am x), told := tell r (am x) (told x)\<rparr>"
  shows "local_ok y \<and> grows x y \<and> sent y = sent x \<and> handed y = handed x \<and> closed (am y) = closed (am x) \<and>
    (\<forall>d \<in> set (channels (am y)). (\<exists>c \<in> set (channels (am x)). ac_id c = ac_id d \<and> base (ac_outbox c) = base (ac_outbox d)) \<or> base (ac_outbox d) = 0)"
proof -
  have dist: "distinct (ids (am x))" using ok by (simp add: local_ok_def)
  have idle: "queue_record r (am x) = am x \<Longrightarrow> kind r \<noteq> Data \<or> by_rec (channel r) (am x) = None \<Longrightarrow> y = x"
    using y told_other told_none by auto
  show ?thesis
  proof (cases "by_rec (channel r) (am x)")
    case None
    show ?thesis
    proof (cases "kind r = Open \<and> am_role (am x) = Server")
      case True
      then have y': "y = x\<lparr>am := queue_record r (am x)\<rparr>" using y told_none None by simp
      from told_open [OF ok r _ None _ this] True show ?thesis by (auto simp: y' mux_channel_new_def outbox_new_def)
    next
      case False
      then have "queue_record r (am x) = am x" using None by (auto simp: queue_record_def split: record_kind.splits)
      from idle [OF this] None ok show ?thesis by (auto simp: grows_def)
    qed
  next
    case (Some k)
    define c where "c = channels (am x) ! k"
    have k: "k < length (channels (am x))" "c \<in> set (channels (am x))" using by_rec_live [OF Some] by (simp_all add: c_def)
    then have cok: "channel_ok x c" using ok by (simp add: local_ok_def)
    consider "queue_record r (am x) = am x" "kind r \<noteq> Data"
      | "kind r = Data"
      | d where "kind r \<noteq> Data" "queue_record r (am x) = (am x)\<lparr>channels := (channels (am x))[k := d]\<rparr>"
          "d = c\<lparr>term_flag := Some (if kind r = Fail then AGENT_FLAG_FAIL else AGENT_FLAG_CLOSE), send_due := True\<rparr>"
      using Some by (cases "kind r"; cases "term_flag c") (auto simp: queue_record_def c_def Let_def)
    then show ?thesis
    proof cases
      case 1
      from idle [OF 1(1)] 1(2) ok show ?thesis by (auto simp: grows_def)
    next
      case 2
      let ?d = "c\<lparr>ac_outbox := outbox_push (rec_payload r) (ac_outbox c), send_due := True\<rparr>"
      have t: "term_flag c = None" "length (told x (ac_id c)) + length (rec_payload r) < 2 ^ 64"
        using r 2 Some by (simp_all add: may_tell_def c_def)
      have y': "channels (am y) = (channels (am x))[k := ?d]" "closed (am y) = closed (am x)" "am_alloc (am y) = am_alloc (am x)"
          "am_role (am y) = am_role (am x)" "sent y = sent x" "handed y = handed x"
          "told y = (told x)(ac_id c := told x (ac_id c) @ rec_payload r)"
        using 2 Some by (simp_all add: y queue_record_def tell_def c_def Let_def)
      have dok: "channel_ok y ?d"
        using cok by (auto simp: channel_ok_def y' outbox_push_def)
      from live_update [OF ok k(1) c_def _ _ y'(1-5) _ _ _ _ _ dok] t y'(6,7)
      have "local_ok y" "grows x y" by (simp_all add: kept_def)
      moreover have "\<exists>b \<in> set (channels (am x)). ac_id b = ac_id e \<and> base (ac_outbox b) = base (ac_outbox e)" if "e \<in> set (channels (am y))" for e
        using that k(2) set_update_subset_insert [of "channels (am x)" k ?d] unfolding y'(1)
        by (cases "e = ?d") (auto simp: outbox_push_def)
      ultimately show ?thesis using y'(2,5,6) by simp
    next
      case (3 d)
      have y': "channels (am y) = (channels (am x))[k := d]" "closed (am y) = closed (am x)" "am_alloc (am y) = am_alloc (am x)"
          "am_role (am y) = am_role (am x)" "sent y = sent x" "handed y = handed x" "told y = told x"
        using 3 told_other by (simp_all add: y)
      have dok: "channel_ok y d"
        using cok 3(3) by (auto simp: channel_ok_def y' term_byte_def)
      have same: "ac_id d = ac_id c" "term_flag d \<noteq> None" "\<And>i. kept x y i" "\<And>i. prefix (told x i) (told y i)"
         "\<And>i. prefix (handed x i) (handed y i)" "\<And>i. told y i = told x i" "\<And>i. length (told y i) < 2 ^ 64"
        using 3(3) y'(6,7) ok by (simp_all add: kept_def local_ok_def)
      note lu = live_update [OF ok k(1) c_def same(1) same(2) y'(1-5) same(3-7) dok]
      have "\<exists>b \<in> set (channels (am x)). ac_id b = ac_id e \<and> base (ac_outbox b) = base (ac_outbox e)" if "e \<in> set (channels (am y))" for e
        using that k(2) 3(3) set_update_subset_insert [of "channels (am x)" k d] unfolding y'(1) by (cases "e = d") auto
      then show ?thesis using lu y'(2,5,6) by simp
    qed
  qed
qed

section \<open>Instructions sent\<close>

lemma rolled_channels:
  "(\<forall>d \<in> set (channels (roll_window now rto m)). \<exists>c \<in> set (channels m). same_streams c d) \<and>
   map ac_id (channels (roll_window now rto m)) = map ac_id (channels m) \<and> closed (roll_window now rto m) = closed m \<and>
   am_alloc (roll_window now rto m) = am_alloc m \<and> am_role (roll_window now rto m) = am_role m"
proof (cases "now - window_start m \<ge> rto")
  case True
  define g :: "mux_channel \<Rightarrow> mux_channel" where "g = (\<lambda>c. if budget_starved c then c\<lparr>budget_starved := False, send_due := True\<rparr> else c)"
  have g: "same_streams c (g c)" "ac_id (g c) = ac_id c" for c by (simp_all add: g_def same_streams_def)
  have "channels (roll_window now rto m) = map g (channels m)" using True by (simp add: roll_window_def g_def)
  then have "(\<forall>d \<in> set (channels (roll_window now rto m)). \<exists>c \<in> set (channels m). same_streams c d) \<and>
      map ac_id (channels (roll_window now rto m)) = map ac_id (channels m)" using g by auto
  with True show ?thesis by (simp add: roll_window_def)
next
  case False
  then have "roll_window now rto m = m" by (simp add: roll_window_def)
  then show ?thesis using same_streams_refl by metis
qed

lemma rotated_mset [simp]: "mset (rotated xs) = mset xs" "set (rotated xs) = set xs"
  by (cases xs; simp add: rotated_def)+

definition echo_of :: "tombstone \<Rightarrow> channel_id \<times> bytes" where
  "echo_of t = instruction (tomb_id t) (tomb_flag t) (final_base t) (final_ack t) []"

lemma outgoing_frame:
  assumes o: "outgoing now rto m = (m', xs)" "length (closed m') < CLOSED_CHANNEL_MEMORY"
  shows "mset (ids m') = mset (ids m) \<and> (\<forall>d \<in> set (channels m'). \<exists>c \<in> set (channels m). same_streams c d) \<and>
    (\<forall>u \<in> set (closed m'). (\<exists>t \<in> set (closed m). same_tomb t u) \<or>
       (\<exists>c \<in> set (channels m). u = retired c \<and> term_flag c \<noteq> None \<and> buf (ac_outbox c) = [])) \<and>
    (\<forall>x \<in> set xs. (\<exists>c \<in> set (channels m). carries c x) \<or> (\<exists>t \<in> set (closed m). x = echo_of t)) \<and>
    am_alloc m' = am_alloc m \<and> am_role m' = am_role m"
proof -
  define r where "r = roll_window now rto m"
  define n where "n = r\<lparr>channels := [], closed := map (\<lambda>t. t\<lparr>echo_due := False\<rparr>) (closed r)\<rparr>"
  note rc = rolled_channels [of now rto m, folded r_def]
  obtain zs where z: "serve now rto (rotated (channels r)) n = (m', zs)" "xs = echoes (closed r) @ zs"
    using o(1) by (auto simp: outgoing_def Let_def n_def r_def split: prod.splits)
  note sf = serve_frame [OF z(1) o(2)]
  have tombs: "\<forall>u \<in> set (closed n). \<exists>t \<in> set (closed m). same_tomb t u"
    using rc by (auto simp: n_def same_tomb_def intro!: bexI)
  have "ids n = map tomb_id (closed m)" using rc by (simp add: ids_def n_def)
  moreover have "mset (map ac_id (rotated (channels r))) = mset (map ac_id (channels m))"
    using rc by (metis mset_map rotated_mset(1))
  ultimately have "mset (ids n) + mset (map ac_id (rotated (channels r))) = mset (ids m)"
    by (simp only: ids_def mset_append add.commute)
  moreover have "set (rotated (channels r)) = set (channels r)" "channels n = []" by (simp_all add: n_def)
  moreover have "am_alloc n = am_alloc m" "am_role n = am_role m" using rc by (simp_all add: n_def)
  moreover have "\<forall>x \<in> set (echoes (closed r)). \<exists>t \<in> set (closed m). x = echo_of t" using rc by (auto simp: echoes_def echo_of_def)
  moreover have "\<exists>c \<in> set (channels m). same_streams c d" if "d \<in> set (channels m')" for d
    using sf that rc calculation(2,3) same_streams_trans by (metis empty_iff list.set(1))
  moreover have "(\<exists>t \<in> set (closed m). same_tomb t u) \<or> (\<exists>c \<in> set (channels m). u = retired c \<and> term_flag c \<noteq> None \<and> buf (ac_outbox c) = [])"
    if u: "u \<in> set (closed m')" for u
  proof -
    consider "u \<in> set (closed n)" | d where "d \<in> set (channels r)" "u = retired d" "term_flag d \<noteq> None" "buf (ac_outbox d) = []"
      using sf u calculation(2) by metis
    then show ?thesis
    proof cases
      case 2
      then obtain c where c: "c \<in> set (channels m)" "same_streams c d" using rc by blast
      with 2 retired_same [OF c(2)] have "u = retired c \<and> term_flag c \<noteq> None \<and> buf (ac_outbox c) = []" by (simp add: same_streams_def)
      with c(1) show ?thesis by blast
    qed (use tombs in blast)
  qed
  moreover have "\<exists>c \<in> set (channels m). carries c x" if "x \<in> set zs" for x
    using sf that rc carries_same calculation(2) by metis
  ultimately show ?thesis using sf z(2) by auto
qed

lemma carried_ok:
  assumes ok: "local_ok y" "c \<in> set (channels (am y))" and z: "carries c z"
  shows "message_ok y z \<and> (\<forall>p. snd z = agent_payload_bytes p \<longrightarrow> send_base p = base (ac_outbox c)) \<and> fst z = ac_id c"
proof -
  obtain fl n where m: "fst z = ac_id c" "snd z = agent_payload_bytes \<lparr>pflags = fl, send_base = base (ac_outbox c),
      precv_ack = next_offset (ac_inbox c), pdata = take n (buf (ac_outbox c))\<rparr>"
      "fl = 0 \<or> fl = AGENT_FLAG_OPEN \<or> (\<exists>f. term_flag c = Some f \<and> (fl = f \<or> fl = AGENT_FLAG_OPEN OR f) \<and> n = length (buf (ac_outbox c)))"
    using z unfolding carries_def by blast
  have c: "buf (ac_outbox c) = drop (unat (base (ac_outbox c))) (told y (ac_id c))"
     "unat (base (ac_outbox c)) \<le> length (told y (ac_id c))" "unat (next_offset (ac_inbox c)) = length (handed y (ac_id c))"
     using ok by (auto simp: local_ok_def channel_ok_def)
  have "ac_id c \<in> known y" using ok(2) by (simp add: known_alt)
  moreover define d where "d = take n (buf (ac_outbox c))"
  have d: "d = take (length d) (drop (unat (base (ac_outbox c))) (told y (ac_id c)))"
    by (simp add: d_def c(1) min_def)
  moreover have "unat (base (ac_outbox c)) + length d \<le> length (told y (ac_id c))"
    using c(1,2) by (simp add: d_def)
  moreover have "ended y (ac_id c) \<and> unat (base (ac_outbox c)) + length d = length (told y (ac_id c))"
    if "is_term fl"
  proof -
    have "term_flag c \<noteq> None \<and> n = length (buf (ac_outbox c))" using m(3) that by auto
    with c(1,2) ended_live [of y c] ok show ?thesis by (simp add: local_ok_def d_def)
  qed
  moreover define p where "p = \<lparr>pflags = fl, send_base = base (ac_outbox c), precv_ack = next_offset (ac_inbox c),
      pdata = d\<rparr>"
  ultimately have "fst z \<in> known y" "snd z = agent_payload_bytes p" "unat (send_base p) + length (pdata p) \<le> length (told y (fst z))"
     "pdata p = take (length (pdata p)) (drop (unat (send_base p)) (told y (fst z)))"
     "unat (precv_ack p) \<le> length (handed y (fst z))"
     "is_term (pflags p) \<longrightarrow> ended y (fst z) \<and> unat (send_base p) + length (pdata p) = length (told y (fst z))"
     "send_base p = base (ac_outbox c)"
    using m(1) m(2) [folded d_def] c(3) by (simp_all only: p_def agent_payload.simps HOL.simp_thms) blast
  then show ?thesis unfolding message_ok_def using m(1) payload_inject by metis
qed

lemma echo_ok:
  assumes ok: "local_ok y" "t \<in> set (closed (am y))"
  shows "message_ok y (echo_of t) \<and> (\<forall>p. snd (echo_of t) = agent_payload_bytes p \<longrightarrow> send_base p = final_base t \<and> pdata p = []) \<and>
     fst (echo_of t) = tomb_id t"
proof -
  have "tomb_ok y t" "tomb_id t \<in> known y" "ended y (tomb_id t)" using ok by (auto simp: local_ok_def known_alt ended_def)
  then show ?thesis
    by (auto simp: echo_of_def instruction_def message_ok_def tomb_ok_def payload_inject
      intro!: exI [where x = "\<lparr>pflags = tomb_flag t, send_base = final_base t, precv_ack = final_ack t, pdata = []\<rparr>"])
qed

lemma drains_ok:
  assumes ok: "local_ok x" and o: "outgoing now rto (am x) = (m, xs)" "length (closed m) < CLOSED_CHANNEL_MEMORY"
    and y: "y = x\<lparr>am := m, sent := sent x \<union> set xs\<rparr>"
  shows "local_ok y" "grows x y" "flow_ok x z \<Longrightarrow> flow_ok y z"
proof -
  note fr = outgoing_frame [OF o]
  have y': "am y = m" "told y = told x" "handed y = handed x" "sent y = sent x \<union> set xs" by (simp_all add: y)
  have dist: "distinct (ids (am x))" using ok by (simp add: local_ok_def)
  have ids: "mset (ids (am y)) = mset (ids (am x))" using fr y'(1) by simp
  have kn: "known y = known x" using ids by (metis known_def set_mset_mset)
  have buried: "\<exists>u \<in> set (closed m). tomb_id u = i" if t: "t \<in> set (closed (am x))" "tomb_id t = i" for t i
  proof -
    have "i \<in> known y" using t kn by (auto simp: known_alt)
    moreover have "ac_id d \<noteq> i" if d: "d \<in> set (channels m)" for d
    proof -
      obtain c where "c \<in> set (channels (am x))" "same_streams c d" using fr d by blast
      then show ?thesis using distinct_ids(3) [OF dist _ t(1)] t(2) by (metis same_streams_def)
    qed
    ultimately show ?thesis using y'(1) by (auto simp: known_alt)
  qed
  have en: "ended y i" if e: "ended x i" for i
  proof -
    consider t where "t \<in> set (closed (am x))" "tomb_id t = i" | c where "c \<in> set (channels (am x))" "ac_id c = i" "term_flag c \<noteq> None"
      using e by (auto simp: ended_def)
    then show ?thesis
    proof cases
      case (1 t)
      from buried [OF this] show ?thesis by (auto simp: ended_def y'(1))
    next
      case (2 c)
      then have "i \<in> known y" using kn by (auto simp: known_alt)
      then consider u where "u \<in> set (closed m)" "tomb_id u = i" | d where "d \<in> set (channels m)" "ac_id d = i"
        by (auto simp: known_alt y'(1))
      then show ?thesis
      proof cases
        case (2 d)
        obtain b where b: "b \<in> set (channels (am x))" "same_streams b d" using fr 2 by blast
        then have "b = c" using distinct_ids(4) [OF dist \<open>c \<in> _\<close> b(1)] 2(2) \<open>ac_id c = i\<close> by (metis same_streams_def)
        with b(2) \<open>term_flag c \<noteq> None\<close> have "term_flag d \<noteq> None" by (metis same_streams_def)
        with 2 show ?thesis unfolding ended_def y'(1) by blast
      qed (auto simp: ended_def y'(1))
    qed
  qed
  show g: "grows x y" using kn en by (simp add: grows_def y'(2,3))
  have kept: "kept x y i" for i by (simp add: kept_def y'(2,3))
  have retire: "tomb_ok x (retired c) \<and> final_base (retired c) = base (ac_outbox c)"
    if c: "c \<in> set (channels (am x))" "term_flag c \<noteq> None" "buf (ac_outbox c) = []" for c
  proof -
    have "channel_ok x c" using ok c by (simp add: local_ok_def)
    moreover have "end_offset (ac_outbox c) = base (ac_outbox c)" using c(3) by (simp add: end_offset_def)
    ultimately show ?thesis using c by (auto simp: tomb_ok_def retired_def channel_ok_def)
  qed
  have msg: "message_ok x z" if "z \<in> set xs" for z
    using fr that carried_ok [OF ok] echo_ok [OF ok] by blast
  show "local_ok y"
  proof (rule local_step [OF ok g])
    show "distinct (ids (am y))" using dist ids by (metis mset_eq_imp_distinct_iff)
    show "\<forall>d \<in> set (channels (am y)). (\<exists>c \<in> set (channels (am x)). same_streams c d \<and> kept x y (ac_id c)) \<or> channel_ok y d"
      using fr kept by (simp add: y'(1))
    have "tomb_ok y (retired c)" if "c \<in> set (channels (am x))" "term_flag c \<noteq> None" "buf (ac_outbox c) = []" for c
      using retire [OF that] unfolding tomb_ok_def y'(2,3) by blast
    then show "\<forall>u \<in> set (closed (am y)). (\<exists>t \<in> set (closed (am x)). same_tomb t u \<and> kept x y (tomb_id t)) \<or> tomb_ok y u"
      using fr kept unfolding y'(1) by metis
    show "\<forall>z \<in> sent y. z \<in> sent x \<or> message_ok y z" using msg message_grows [OF g] by (auto simp: y'(4))
    show "alloc_fresh y" using ok fr kn by (simp add: local_ok_def alloc_fresh_def y'(1))
  qed (use ok kn in \<open>simp_all add: local_ok_def y'(2,3)\<close>)
  assume f: "flow_ok x z"
  show "flow_ok y z"
  proof (rule flow_out_step [OF f g])
    show "\<forall>d \<in> set (channels (am y)). (\<exists>c \<in> set (channels (am x)). same_streams c d) \<or> unat (base (ac_outbox d)) \<le> length (handed z (ac_id d))"
      using fr by (simp add: y'(1))
    have "unat (final_base (retired c)) \<le> length (handed z (tomb_id (retired c)))"
      if "c \<in> set (channels (am x))" "term_flag c \<noteq> None" "buf (ac_outbox c) = []" for c
      using retire [OF that] f that(1) by (simp add: flow_ok_def) (simp add: retired_def)
    then show "\<forall>u \<in> set (closed (am y)). (\<exists>t \<in> set (closed (am x)). same_tomb t u) \<or>
        unat (final_base u) \<le> length (handed z (tomb_id u)) \<or> ended z (tomb_id u)"
      using fr unfolding y'(1) by metis
    have "unat (send_base p) \<le> length (handed z (fst w)) \<or> ended z (fst w) \<and> pdata p = []"
      if w: "w \<in> set xs" "snd w = agent_payload_bytes p" for w p
    proof -
      consider c where "c \<in> set (channels (am x))" "carries c w" | t where "t \<in> set (closed (am x))" "w = echo_of t" using fr w(1) by blast
      then show ?thesis
      proof cases
        case (1 c)
        with carried_ok [OF ok 1] w(2) f show ?thesis by (auto simp: flow_ok_def)
      next
        case (2 t)
        with echo_ok [OF ok 2(1)] w(2) f show ?thesis by (auto simp: flow_ok_def)
      qed
    qed
    then show "\<forall>(i, pl) \<in> sent y. (i, pl) \<in> sent x \<or> (\<forall>p. pl = agent_payload_bytes p \<longrightarrow>
        unat (send_base p) \<le> length (handed z i) \<or> ended z i \<and> pdata p = [])" by (fastforce simp: y'(4))
  qed
qed

section \<open>An instruction received\<close>

lemma data_of_simps [simp]:
  "data_of [] = []" "data_of (r # rs) = (if kind r = Data then rec_payload r else []) @ data_of rs"
  "data_of (rs @ qs) = data_of rs @ data_of qs" "kind (rec_of n k b) = k" "rec_payload (rec_of n k b) = b"
  by (simp_all add: data_of_def rec_of_def)

lemma take_ack_frame:
  assumes "take_ack a c = (d, b)"
  shows "ac_id d = ac_id c" "ac_inbox d = ac_inbox c" "term_flag d = term_flag c" "rec_id d = rec_id c"
    "ac_outbox d = outbox_ack a (ac_outbox c)"
  using assms by (auto simp: take_ack_def Let_def split: if_splits)

lemma take_data_frame:
  assumes "take_data b d c = (e, rs)"
  shows "ac_id e = ac_id c" "ac_outbox e = ac_outbox c" "term_flag e = term_flag c" "list_all (\<lambda>r. kind r = Data) rs"
    "inbox_accept b d (ac_inbox c) = (ac_inbox e, if rs = [] then None else Some (data_of rs))"
  using assms by (auto simp: take_data_def split: prod.splits option.splits)

text \<open>What is handed out after the data of a message of the peer's stream \<open>s\<close>.\<close>

lemma data_taken:
  assumes d: "take_data b d c = (e, rs)" and s: "unat b + length d \<le> length s" "d = take (length d) (drop (unat b) s)" "length s < 2 ^ 64"
    and g: "prefix g s" "unat (next_offset (ac_inbox c)) = length g" and early: "unat b \<le> length g \<or> d = []"
  shows "prefix (g @ data_of rs) s \<and> unat (next_offset (ac_inbox e)) = length (g @ data_of rs) \<and>
    (unat b \<le> length g \<longrightarrow> unat b + length d \<le> length (g @ data_of rs))"
proof (cases "unat b \<le> length g")
  case True
  note f = take_data_frame(5) [OF d]
  obtain x fresh where x: "inbox_accept b d (ac_inbox c) = (x, fresh)" "unat (next_offset x) = max (length g) (unat b + length d)"
    "take (length g) s @ (case fresh of Some f \<Rightarrow> f | None \<Rightarrow> []) = take (unat (next_offset x)) s"
    using inbox_accept_stream [OF s, of "ac_inbox c"] True g(2) by auto
  have "data_of rs = (case fresh of Some f \<Rightarrow> f | None \<Rightarrow> [])" "ac_inbox e = x" using f x(1) by (auto split: if_splits)
  moreover have "take (length g) s = g" using g(1) by (auto simp: prefix_def)
  ultimately have "g @ data_of rs = take (unat (next_offset (ac_inbox e))) s" "ac_inbox e = x" using x(3) by simp_all
  moreover have "unat (next_offset x) \<le> length s" using x(2) s(1) prefix_length_le [OF g(1)] by simp
  ultimately show ?thesis using x(2) take_is_prefix [of "unat (next_offset x)" s] by simp
next
  case False
  then have "d = []" using early by simp
  then have "inbox_accept b d (ac_inbox c) = (ac_inbox c, None)" by (simp add: inbox_accept_def)
  with take_data_frame(5) [OF d] have "rs = []" "ac_inbox e = ac_inbox c" by (auto split: if_splits)
  with g False show ?thesis by simp
qed

text \<open>What holds of an instruction of the peer, read off its invariant.\<close>

definition arrives :: "agent_end \<Rightarrow> agent_end \<Rightarrow> channel_id \<Rightarrow> agent_payload \<Rightarrow> bool" where
  "arrives x w i p \<longleftrightarrow> unat (send_base p) + length (pdata p) \<le> length (told w i) \<and>
     pdata p = take (length (pdata p)) (drop (unat (send_base p)) (told w i)) \<and>
     unat (precv_ack p) \<le> length (handed w i) \<and>
     (is_term (pflags p) \<longrightarrow> ended w i \<and> unat (send_base p) + length (pdata p) = length (told w i)) \<and>
     (unat (send_base p) \<le> length (handed x i) \<or> ended x i \<and> pdata p = [])"

lemma arrival:
  assumes "local_ok w" "flow_ok w x" "(i, pl) \<in> sent w"
  obtains p where "agent_payload_decode pl = Inr p" "arrives x w i p"
proof -
  have "message_ok w (i, pl)" using assms(1,3) by (simp add: local_ok_def)
  then obtain p where p: "pl = agent_payload_bytes p" "unat (send_base p) + length (pdata p) \<le> length (told w i)"
     "pdata p = take (length (pdata p)) (drop (unat (send_base p)) (told w i))" "unat (precv_ack p) \<le> length (handed w i)"
     "is_term (pflags p) \<longrightarrow> ended w i \<and> unat (send_base p) + length (pdata p) = length (told w i)"
    by (auto simp: message_ok_def)
  moreover have "unat (send_base p) \<le> length (handed x i) \<or> ended x i \<and> pdata p = []"
    using assms(2,3) p(1) unfolding flow_ok_def by blast
  ultimately show thesis by (intro that [of p]) (simp_all add: agent_payload_roundtrip arrives_def)
qed

text \<open>The channel after the acknowledgement and the data.\<close>

lemma channel_after:
  assumes ok: "local_ok x" "length (told w i) < 2 ^ 64" and flow: "flow_ok x w" "prefix (handed x i) (told w i)"
    and c: "c \<in> set (channels (am x))" "ac_id c = i" and a: "arrives x w i p"
    and ack: "take_ack (precv_ack p) c = (d, b)" and dat: "take_data (send_base p) (pdata p) d = (e, rs)"
  shows "prefix (handed x i @ data_of rs) (told w i)" "unat (next_offset (ac_inbox e)) = length (handed x i @ data_of rs)"
    "unat (base (ac_outbox e)) \<le> length (handed w i)" "buf (ac_outbox e) = drop (unat (base (ac_outbox e))) (told x i)"
    "unat (base (ac_outbox e)) \<le> length (told x i)"
    "ac_id e = i" "term_flag e = term_flag c" "is_term (pflags p) \<Longrightarrow> \<not> ended x i \<Longrightarrow> handed x i @ data_of rs = told w i"
proof -
  note fa = take_ack_frame [OF ack] and fd = take_data_frame [OF dat]
  have cok: "channel_ok x c" using ok(1) c by (simp add: local_ok_def)
  have early: "unat (send_base p) \<le> length (handed x i) \<or> pdata p = []" using a by (auto simp: arrives_def)
  have dt: "prefix (handed x i @ data_of rs) (told w i) \<and> unat (next_offset (ac_inbox e)) = length (handed x i @ data_of rs) \<and>
    (unat (send_base p) \<le> length (handed x i) \<longrightarrow> unat (send_base p) + length (pdata p) \<le> length (handed x i @ data_of rs))"
    using a cok c(2) fa by (intro data_taken [OF dat _ _ ok(2) flow(2) _ early]) (simp_all add: arrives_def channel_ok_def)
  then show "prefix (handed x i @ data_of rs) (told w i)" "unat (next_offset (ac_inbox e)) = length (handed x i @ data_of rs)" by simp_all
  show "ac_id e = i" "term_flag e = term_flag c" using fa fd c by simp_all
  have px: "prefix (handed w i) (told x i)" using flow(1) by (simp add: flow_ok_def)
  have "unat (precv_ack p) \<le> length (told x i)" using a prefix_length_le [OF px] by (simp add: arrives_def)
  moreover have "length (told x i) < 2 ^ 64" using ok(1) by (simp add: local_ok_def)
  ultimately have "unat (base (ac_outbox e)) = max (unat (precv_ack p)) (unat (base (ac_outbox c))) \<and>
      buf (ac_outbox e) = drop (unat (base (ac_outbox e))) (told x i)"
    using outbox_ack_stream [of "ac_outbox c" "told x i" "precv_ack p"] cok c(2) fa(5) fd(2) by (simp add: channel_ok_def)
  moreover have "unat (base (ac_outbox c)) \<le> length (handed w i)" using flow(1) c by (auto simp: flow_ok_def)
  ultimately show "unat (base (ac_outbox e)) \<le> length (handed w i)" "buf (ac_outbox e) = drop (unat (base (ac_outbox e))) (told x i)"
      "unat (base (ac_outbox e)) \<le> length (told x i)"
    using a prefix_length_le [OF px] by (simp_all add: arrives_def)
  assume "is_term (pflags p)" "\<not> ended x i"
  then have "length (told w i) \<le> length (handed x i @ data_of rs)" using a dt by (auto simp: arrives_def)
  with dt show "handed x i @ data_of rs = told w i" by (metis prefix_def append_Nil2 append_eq_append_conv le_antisym prefix_length_le)
qed

text \<open>The instruction of a live channel: the channel goes on, or it is closed.\<close>

lemma received_more:
  assumes ok: "local_ok x" "length (told w i) < 2 ^ 64" and flow: "flow_ok x w" "flow_ok w x" and a: "arrives x w i p"
    and k: "k < length (channels (am x))" "c = channels (am x) ! k" "ac_id c = i"
    and ack: "take_ack (precv_ack p) c = (d, b)" and dat: "take_data (send_base p) (pdata p) d = (e, rs)"
    and y: "channels (am y) = (channels (am x))[k := e]" "closed (am y) = closed (am x)" "am_alloc (am y) = am_alloc (am x)"
      "am_role (am y) = am_role (am x)" "sent y = sent x" "told y = told x" "handed y = (handed x)(i := handed x i @ data_of rs)"
  shows "local_ok y" "grows x y" "flow_ok y w" "flow_ok w y"
proof -
  have c: "c \<in> set (channels (am x))" using k by simp
  have px: "prefix (handed x i) (told w i)" using flow(2) by (simp add: flow_ok_def)
  note ca = channel_after [OF ok flow(1) px c k(3) a ack dat]
  have cok: "channel_ok x c" using ok c by (simp add: local_ok_def)
  have eok: "channel_ok y e"
    using ca(2,4,5,6,7) cok unfolding channel_ok_def y(6,7) by simp
  have small: "length (told x i) < 2 ^ 64" using ok by (simp add: local_ok_def)
  have kept: "\<And>j. j \<noteq> ac_id c \<Longrightarrow> kept x y j" by (simp add: kept_def y(6,7) k(3))
  have lu: "ac_id e = ac_id c" "term_flag c \<noteq> None \<Longrightarrow> term_flag e \<noteq> None"
     "prefix (told x (ac_id c)) (told y (ac_id c))" "prefix (handed x (ac_id c)) (handed y (ac_id c))"
     "term_flag c \<noteq> None \<Longrightarrow> told y (ac_id c) = told x (ac_id c)" "length (told y (ac_id c)) < 2 ^ 64"
    using ca(6,7) small by (simp_all add: k(3) y(6,7))
  note lu = live_update [OF ok(1) k(1,2) lu(1,2) y(1-5) kept lu(3-6) eok]
  show "local_ok y" "grows x y" using lu by simp_all
  have mem: "f \<in> set (channels (am x)) \<or> f = e" if "f \<in> set (channels (am y))" for f
    using that set_update_subset_insert [of "channels (am x)" k e] unfolding y(1) by auto
  show "flow_ok y w"
  proof (rule flow_out_step [OF flow(1) lu(2)])
    show "\<forall>d \<in> set (channels (am y)). (\<exists>c \<in> set (channels (am x)). same_streams c d) \<or> unat (base (ac_outbox d)) \<le> length (handed w (ac_id d))"
      using mem ca(3,6) same_streams_refl by metis
    show "\<forall>u \<in> set (closed (am y)). (\<exists>t \<in> set (closed (am x)). same_tomb t u) \<or>
        unat (final_base u) \<le> length (handed w (tomb_id u)) \<or> ended w (tomb_id u)"
      unfolding y(2) using same_tomb_refl by metis
  qed (auto simp: y(5))
  have "prefix (handed y j) (told w j)" for j
    using flow(2) ca(1) by (simp add: y(7) flow_ok_def)
  then show "flow_ok w y" by (intro flow_in_step [OF flow(2) lu(2)] allI)
qed

lemma received_last:
  assumes ok: "local_ok x" "length (told w i) < 2 ^ 64" and flow: "flow_ok x w" "flow_ok w x" and a: "arrives x w i p" "is_term (pflags p)"
    and k: "k < length (channels (am x))" "c = channels (am x) ! k" "ac_id c = i"
    and ack: "take_ack (precv_ack p) c = (d, b)" and dat: "take_data (send_base p) (pdata p) d = (e, rs)"
    and y: "channels (am y) = removed_at k (channels (am x))" "closed (am y) = closed (am x) @ [t]" "am_alloc (am y) = am_alloc (am x)"
      "am_role (am y) = am_role (am x)" "sent y = sent x" "told y = told x" "handed y = (handed x)(i := handed x i @ data_of rs)"
    and t: "tomb_id t = i" "tomb_flag t = (case term_flag e of Some f \<Rightarrow> f | None \<Rightarrow> AGENT_FLAG_CLOSE)"
      "final_base t = end_offset (ac_outbox e)" "final_ack t = next_offset (ac_inbox e)"
  shows "local_ok y" "grows x y" "flow_ok y w" "flow_ok w y"
proof -
  have c: "c \<in> set (channels (am x))" using k by simp
  have dist: "distinct (ids (am x))" using ok by (simp add: local_ok_def)
  note di = distinct_ids [OF dist]
  have px: "prefix (handed x i) (told w i)" using flow(2) by (simp add: flow_ok_def)
  note ca = channel_after [OF ok flow(1) px c k(3) a(1) ack dat]
  have cok: "channel_ok x c" using ok c by (simp add: local_ok_def)
  have mem: "set (channels (am y)) = {f \<in> set (channels (am x)). ac_id f \<noteq> i}"
    using removed_members [OF di(1) k(1)] k(2,3) y(1) by simp
  have "add_mset c (mset (channels (am y))) = mset (channels (am x))" using removed_mset [OF k(1)] k(2) y(1) by simp
  then have "image_mset ac_id (add_mset c (mset (channels (am y)))) = image_mset ac_id (mset (channels (am x)))" by simp
  then have ids: "mset (ids (am y)) = mset (ids (am x))" using k(3) t(1) y(2) by (simp add: ids_def)
  have kn: "known y = known x" using ids by (metis known_def set_mset_mset)
  have en: "ended y j" if j: "ended x j" for j
  proof (cases "j = i")
    case True
    then show ?thesis using t(1) y(2) by (simp add: ended_def)
  next
    case False
    then show ?thesis using j unfolding ended_def mem y(2) by auto
  qed
  show g: "grows x y" using kn en by (simp add: grows_def y(6,7))
  have kept: "\<And>j. j \<noteq> i \<Longrightarrow> kept x y j" by (simp add: kept_def y(6,7))
  have small: "length (told x i) < 2 ^ 64" using ok by (simp add: local_ok_def)
  have eo: "unat (end_offset (ac_outbox e)) = length (told x i)"
    using ca(4,5) small unat_add_of_nat [of "base (ac_outbox e)" "length (buf (ac_outbox e))"] by (simp add: end_offset_def)
  have tok: "tomb_ok y t"
    using eo ca(2,7) cok unfolding tomb_ok_def t y(6,7) channel_ok_def by (auto simp: term_byte_def split: option.splits)
  show "local_ok y"
  proof (rule local_step [OF ok(1) g])
    show "distinct (ids (am y))" using dist ids by (metis mset_eq_imp_distinct_iff)
    show "\<forall>d \<in> set (channels (am y)). (\<exists>c \<in> set (channels (am x)). same_streams c d \<and> kept x y (ac_id c)) \<or> channel_ok y d"
      unfolding mem using kept same_streams_refl by blast
    have "\<forall>u \<in> set (closed (am x)). tomb_id u \<noteq> i" using di(3) [OF c] k(3) by simp
    then show "\<forall>u \<in> set (closed (am y)). (\<exists>t \<in> set (closed (am x)). same_tomb t u \<and> kept x y (tomb_id t)) \<or> tomb_ok y u"
      using kept tok same_tomb_refl unfolding y(2) by (metis in_set_conv_decomp rotate1.simps(2) set_ConsD set_rotate1)
    have "i \<in> known y" using c k(3) kn by (auto simp: known_alt)
    then show "\<forall>j. j \<notin> known y \<longrightarrow> told y j = [] \<and> handed y j = []" using ok(1) kn by (auto simp: local_ok_def y(6,7))
    show "alloc_fresh y" using ok kn by (simp add: local_ok_def alloc_fresh_def y(3,4))
  qed (use ok in \<open>simp_all add: local_ok_def y(5,6)\<close>)
  show "flow_ok y w"
  proof (rule flow_out_step [OF flow(1) g])
    show "\<forall>d \<in> set (channels (am y)). (\<exists>c \<in> set (channels (am x)). same_streams c d) \<or> unat (base (ac_outbox d)) \<le> length (handed w (ac_id d))"
      unfolding mem using same_streams_refl by blast
    have "ended w i" using a by (simp add: arrives_def)
    then show "\<forall>u \<in> set (closed (am y)). (\<exists>t \<in> set (closed (am x)). same_tomb t u) \<or>
        unat (final_base u) \<le> length (handed w (tomb_id u)) \<or> ended w (tomb_id u)"
      unfolding y(2) using same_tomb_refl t(1) by (metis in_set_conv_decomp rotate1.simps(2) set_ConsD set_rotate1)
  qed (auto simp: y(5))
  have "prefix (handed y j) (told w j)" for j
    using flow(2) ca(1) by (simp add: y(7) flow_ok_def)
  then show "flow_ok w y" by (intro flow_in_step [OF flow(2) g] allI)
qed

text \<open>A channel adopted, or refused with a tombstone.\<close>

lemma adopted_ok:
  assumes ok: "local_ok x" and flow: "flow_ok x w" "flow_ok w x" and new: "i \<notin> known x" "am_role (am x) = Client"
    and y: "channels (am y) = channels (am x) @ [mux_channel_new i r False]" "closed (am y) = closed (am x)" "am_alloc (am y) = am_alloc (am x)"
      "am_role (am y) = am_role (am x)" "sent y = sent x" "told y = told x" "handed y = handed x"
  shows "local_ok y" "grows x y" "flow_ok y w" "flow_ok w y" "ended y = ended x"
proof -
  let ?c = "mux_channel_new i r False"
  have id: "ac_id ?c = i" by (simp add: mux_channel_new_def)
  have kn: "known y = insert i (known x)" by (auto simp: known_alt y mux_channel_new_def)
  show en: "ended y = ended x" by (rule ext) (auto simp: ended_def y mux_channel_new_def)
  show g: "grows x y" using kn en by (auto simp: grows_def y)
  have kept: "kept x y j" for j by (simp add: kept_def y)
  have blank: "told x i = []" "handed x i = []" using ok new by (auto simp: local_ok_def)
  have cok: "channel_ok y ?c"
    using blank by (simp add: channel_ok_def y mux_channel_new_def outbox_new_def inbox_new_def)
  have mem: "d \<in> set (channels (am x)) \<or> d = ?c" if "d \<in> set (channels (am y))" for d using that y(1) by auto
  show "local_ok y"
  proof (rule local_step [OF ok g])
    show "distinct (ids (am y))" using ok new by (auto simp: local_ok_def known_def ids_def y mux_channel_new_def)
    show "\<forall>d \<in> set (channels (am y)). (\<exists>c \<in> set (channels (am x)). same_streams c d \<and> kept x y (ac_id c)) \<or> channel_ok y d"
      using mem cok kept same_streams_refl by metis
    show "\<forall>u \<in> set (closed (am y)). (\<exists>t \<in> set (closed (am x)). same_tomb t u \<and> kept x y (tomb_id t)) \<or> tomb_ok y u"
      unfolding y(2) using kept same_tomb_refl by metis
    show "alloc_fresh y" using ok new(2) by (simp add: local_ok_def alloc_fresh_def y)
  qed (use ok kn in \<open>simp_all add: local_ok_def y\<close>)
  show "flow_ok y w"
  proof (rule flow_out_step [OF flow(1) g])
    have "unat (base (ac_outbox ?c)) = 0" by (simp add: mux_channel_new_def outbox_new_def)
    then show "\<forall>d \<in> set (channels (am y)). (\<exists>c \<in> set (channels (am x)). same_streams c d) \<or> unat (base (ac_outbox d)) \<le> length (handed w (ac_id d))"
      using mem same_streams_refl by (metis le0)
    show "\<forall>u \<in> set (closed (am y)). (\<exists>t \<in> set (closed (am x)). same_tomb t u) \<or>
        unat (final_base u) \<le> length (handed w (tomb_id u)) \<or> ended w (tomb_id u)"
      unfolding y(2) using same_tomb_refl by metis
  qed (auto simp: y(5))
  show "flow_ok w y" by (rule flow_in_step [OF flow(2) g]) (use flow(2) in \<open>simp add: y(7) flow_ok_def\<close>)
qed

text \<open>Tombstones marked or added, the channels and streams as they were.\<close>

lemma tombs_ok:
  assumes ok: "local_ok x" and flow: "flow_ok x w" "flow_ok w x"
    and y: "channels (am y) = channels (am x)" "am_alloc (am y) = am_alloc (am x)" "am_role (am y) = am_role (am x)"
      "sent y = sent x" "told y = told x" "handed y = handed x"
    and ids: "distinct (ids (am y))" "known x \<subseteq> known y" "am_role (am x) = Server \<Longrightarrow> known y = known x"
    and tombs: "\<forall>u \<in> set (closed (am y)). (\<exists>t \<in> set (closed (am x)). same_tomb t u) \<or>
      (tomb_id u \<notin> known x \<and> final_base u = 0 \<and> final_ack u = 0 \<and> term_byte (tomb_flag u))"
    and mono: "tomb_id ` set (closed (am x)) \<subseteq> tomb_id ` set (closed (am y))"
  shows "local_ok y" "grows x y" "flow_ok y w" "flow_ok w y"
proof -
  have en: "ended x j \<Longrightarrow> ended y j" for j using mono by (auto simp: ended_def y(1))
  show g: "grows x y" using ids(2) en by (auto simp: grows_def y)
  have kept: "kept x y j" for j by (simp add: kept_def y)
  have blank: "told x j = []" "handed x j = []" if "j \<notin> known x" for j using ok that by (auto simp: local_ok_def)
  show "local_ok y"
  proof (rule local_step [OF ok g])
    show "\<forall>d \<in> set (channels (am y)). (\<exists>c \<in> set (channels (am x)). same_streams c d \<and> kept x y (ac_id c)) \<or> channel_ok y d"
      unfolding y(1) using kept same_streams_refl by metis
    have "tomb_ok y u" if "tomb_id u \<notin> known x" "final_base u = 0" "final_ack u = 0" "term_byte (tomb_flag u)" for u
      using that blank [OF that(1)] by (simp add: tomb_ok_def y)
    then show "\<forall>u \<in> set (closed (am y)). (\<exists>t \<in> set (closed (am x)). same_tomb t u \<and> kept x y (tomb_id t)) \<or> tomb_ok y u"
      using tombs kept by metis
    show "alloc_fresh y" using ok ids(3) by (auto simp: local_ok_def alloc_fresh_def y)
    show "\<forall>i. i \<notin> known y \<longrightarrow> told y i = [] \<and> handed y i = []" using ok ids(2) by (auto simp: local_ok_def y)
  qed (use ok ids in \<open>simp_all add: local_ok_def y\<close>)
  show "flow_ok y w"
  proof (rule flow_out_step [OF flow(1) g])
    show "\<forall>d \<in> set (channels (am y)). (\<exists>c \<in> set (channels (am x)). same_streams c d) \<or> unat (base (ac_outbox d)) \<le> length (handed w (ac_id d))"
      unfolding y(1) using same_streams_refl by metis
    show "\<forall>u \<in> set (closed (am y)). (\<exists>t \<in> set (closed (am x)). same_tomb t u) \<or>
        unat (final_base u) \<le> length (handed w (tomb_id u)) \<or> ended w (tomb_id u)"
      using tombs by fastforce
  qed (auto simp: y(4))
  show "flow_ok w y" by (rule flow_in_step [OF flow(2) g]) (use flow(2) in \<open>simp add: y(6) flow_ok_def\<close>)
qed

lemma received_at:
  assumes ok: "local_ok x" "length (told w i) < 2 ^ 64" and flow: "flow_ok x w" "flow_ok w x" and a: "arrives x w i p"
    and k: "k < length (channels (am x))" "ac_id (channels (am x) ! k) = i"
    and o: "apply_instruction i p k (am x) = (m, rs)" "length (closed m) < CLOSED_CHANNEL_MEMORY"
    and y: "y = x\<lparr>am := m, handed := (handed x)(i := handed x i @ data_of rs)\<rparr>"
  shows "local_ok y \<and> grows x y \<and> flow_ok y w \<and> flow_ok w y \<and>
    ((\<exists>r \<in> set rs. kind r = Close \<or> kind r = Fail) \<and> \<not> ended x i \<longrightarrow> handed y i = told w i)"
proof -
  obtain d b where ack: "take_ack (precv_ack p) (channels (am x) ! k) = (d, b)" by force
  obtain e gs where dat: "take_data (send_base p) (pdata p) d = (e, gs)" by force
  have px: "prefix (handed x i) (told w i)" using flow(2) by (simp add: flow_ok_def)
  have c: "channels (am x) ! k \<in> set (channels (am x))" using k by simp
  note ca = channel_after [OF ok flow(1) px c k(2) a ack dat]
  have data: "list_all (\<lambda>r. kind r = Data) gs" by (rule take_data_frame(4) [OF dat])
  show ?thesis
  proof (cases "is_term (pflags p)")
    case True
    let ?t = "\<lparr>tomb_id = i, tomb_flag = (case term_flag e of Some f \<Rightarrow> f | None \<Rightarrow> AGENT_FLAG_CLOSE), echo_due = True,
        final_base = end_offset (ac_outbox e), final_ack = next_offset (ac_inbox e)\<rparr>"
    let ?n = "(am x)\<lparr>window_progress := (window_progress (am x) \<or> b), channels := removed_at k (channels (am x))\<rparr>"
    have m: "m = bury i (tomb_flag ?t) (final_base ?t) (final_ack ?t) True ?n"
      "rs = gs @ [rec_of (rec_id e) (if pflags p AND AGENT_FLAG_FAIL \<noteq> 0 then Fail else Close) []]"
      using o(1) True ack dat by (simp_all add: apply_instruction_def Let_def)
    have cl: "closed m = closed (am x) @ [?t]" using bury_room(1) [OF o(2) [unfolded m(1)]] by (simp add: m(1))
    have dr: "data_of rs = data_of gs" by (simp add: m(2))
    have y': "channels (am y) = removed_at k (channels (am x))" "closed (am y) = closed (am x) @ [?t]" "am_alloc (am y) = am_alloc (am x)"
      "am_role (am y) = am_role (am x)" "sent y = sent x" "told y = told x" "handed y = (handed x)(i := handed x i @ data_of gs)"
      using cl by (simp_all add: y dr) (simp_all add: m(1))
    from received_last [OF ok flow a True k(1) refl k(2) ack dat y'] ca(8) [OF True] show ?thesis by (simp add: y'(7))
  next
    case False
    have m: "m = (am x)\<lparr>window_progress := (window_progress (am x) \<or> b), channels := (channels (am x))[k := e]\<rparr>" "rs = gs"
      using o(1) False ack dat by (simp_all add: apply_instruction_def Let_def)
    have y': "channels (am y) = (channels (am x))[k := e]" "closed (am y) = closed (am x)" "am_alloc (am y) = am_alloc (am x)"
      "am_role (am y) = am_role (am x)" "sent y = sent x" "told y = told x" "handed y = (handed x)(i := handed x i @ data_of gs)"
      by (simp_all add: y m)
    from received_more [OF ok flow a k(1) refl k(2) ack dat y'] data show ?thesis by (auto simp: m(2) list_all_iff)
  qed
qed

text \<open>Any instruction of the peer; a close at a channel not yet ended comes with everything the peer wrote.\<close>

lemma receives_ok:
  assumes ok: "local_ok x" "local_ok w" and flow: "flow_ok x w" "flow_ok w x" and z: "(i, pl) \<in> sent w"
    and o: "on_instruction i pl (am x) = (m, rs)" "length (closed m) < CLOSED_CHANNEL_MEMORY"
    and y: "y = x\<lparr>am := m, handed := (handed x)(i := handed x i @ data_of rs)\<rparr>"
  shows "local_ok y \<and> grows x y \<and> flow_ok y w \<and> flow_ok w y \<and>
    ((\<exists>r \<in> set rs. kind r = Close \<or> kind r = Fail) \<and> \<not> ended x i \<longrightarrow> handed y i = told w i)"
proof -
  obtain p where p: "agent_payload_decode pl = Inr p" "arrives x w i p" using arrival [OF ok(2) flow(2) z] .
  have dist: "distinct (ids (am x))" and small: "length (told w i) < 2 ^ 64" using ok by (simp_all add: local_ok_def)
  have same: ?thesis if "m = am x" "rs = []"
  proof -
    have "y = x" by (simp add: y that)
    with ok flow that show ?thesis by (simp add: grows_def)
  qed
  show ?thesis
  proof (cases "has_unknown_flags p")
    case True
    then show ?thesis using same o p(1) by (simp add: on_instruction_def)
  next
    case known: False
    show ?thesis
    proof (cases "position (\<lambda>t. tomb_id t = i) (closed (am x))")
      case (Some k)
      note k = position_SomeD [OF Some]
      have rs: "rs = []" using o(1) p(1) known Some by (auto simp: on_instruction_def split: if_splits)
      show ?thesis
      proof (cases "is_term (pflags p)")
        case True
        then show ?thesis using same rs o(1) p(1) known Some by (simp add: on_instruction_def)
      next
        case False
        let ?u = "(closed (am x) ! k)\<lparr>echo_due := True\<rparr>"
        have m: "m = (am x)\<lparr>closed := (closed (am x))[k := ?u]\<rparr>"
          using o(1) p(1) known Some False by (simp add: on_instruction_def)
        have ids: "map tomb_id (closed m) = map tomb_id (closed (am x))" using k by (simp add: m map_update list_update_same_conv)
        then have im: "tomb_id ` set (closed m) = tomb_id ` set (closed (am x))" by (metis list.set_map)
        have tm: "\<exists>t \<in> set (closed (am x)). same_tomb t u" if "u \<in> set (closed m)" for u
        proof -
          have "u \<in> insert ?u (set (closed (am x)))" using that set_update_subset_insert [of "closed (am x)" k ?u] by (auto simp: m)
          moreover have "same_tomb (closed (am x) ! k) ?u" by (simp add: same_tomb_def)
          ultimately show ?thesis using k same_tomb_refl by (metis insertE nth_mem)
        qed
        have y': "channels (am y) = channels (am x)" "am_alloc (am y) = am_alloc (am x)" "am_role (am y) = am_role (am x)"
            "sent y = sent x" "told y = told x" "handed y = handed x" by (simp_all add: y m rs fun_upd_idem_iff)
        have kn: "known y = known x" using im by (simp add: known_alt y m)
        note tombs_ok [OF ok(1) flow y']
        from this [unfolded kn] have "local_ok y \<and> grows x y \<and> flow_ok y w \<and> flow_ok w y"
          using dist ids tm im by (simp add: y m ids_def)
        then show ?thesis using rs by simp
      qed
    next
      case None
      then have nt: "i \<notin> tomb_id ` set (closed (am x))" by auto
      show ?thesis
      proof (cases "position (\<lambda>c. ac_id c = i) (channels (am x))")
        case (Some k)
        note k = position_SomeD [OF Some]
        have "apply_instruction i p k (am x) = (m, rs)"
          using o(1) p(1) known None Some by (simp add: on_instruction_def find_or_adopt_def split: prod.splits)
        from received_at [OF ok(1) small flow p(2) _ _ this o(2) y] k show ?thesis by blast
      next
        case fresh: None
        then have new: "i \<notin> known x" using nt by (auto simp: known_alt)
        show ?thesis
        proof (cases "am_role (am x) \<noteq> Client \<or> pflags p AND AGENT_FLAG_OPEN = 0")
          case True
          then show ?thesis using same o(1) p(1) known None fresh by (simp add: on_instruction_def find_or_adopt_def)
        next
          case client: False
          show ?thesis
          proof (cases "length (channels (am x)) \<ge> MAX_AGENT_CHANNELS")
            case True
            have m: "m = bury i AGENT_FLAG_FAIL 0 0 True (am x)" "rs = []"
              using o(1) p(1) known None fresh client True by (simp_all add: on_instruction_def find_or_adopt_def)
            let ?t = "\<lparr>tomb_id = i, tomb_flag = AGENT_FLAG_FAIL, echo_due = True, final_base = 0, final_ack = 0\<rparr>"
            have cl: "closed m = closed (am x) @ [?t]" using bury_room(1) [OF o(2) [unfolded m(1)]] by (simp add: m(1))
            have y': "channels (am y) = channels (am x)" "am_alloc (am y) = am_alloc (am x)" "am_role (am y) = am_role (am x)"
              "sent y = sent x" "told y = told x" "handed y = handed x" by (simp_all add: y m fun_upd_idem_iff)
            have cy: "closed (am y) = closed (am x) @ [?t]" using cl by (simp add: y)
            have t: "(\<exists>t \<in> set (closed (am x)). same_tomb t u) \<or> (tomb_id u \<notin> known x \<and> final_base u = 0 \<and> final_ack u = 0 \<and> term_byte (tomb_flag u))"
              if "u \<in> set (closed (am y))" for u
            proof (cases "u = ?t")
              case False
              then have "u \<in> set (closed (am x))" using that cy by simp
              then show ?thesis using same_tomb_refl by blast
            qed (use new in \<open>simp add: term_byte_def\<close>)
            have d: "distinct (ids (am y))" using dist new by (auto simp: ids_def y'(1) cy known_alt)
            have s: "known x \<subseteq> known y" "tomb_id ` set (closed (am x)) \<subseteq> tomb_id ` set (closed (am y))"
              by (auto simp: known_alt y'(1) cy)
            have "am_role (am x) = Server \<Longrightarrow> known y = known x" using client by simp
            from tombs_ok [OF ok(1) flow y' d s(1) this _ s(2)] t show ?thesis by (simp add: m(2))
          next
            case room: False
            let ?n = "(am x)\<lparr>next_rec_id := next_rec_id (am x) + 1, channels := channels (am x) @ [mux_channel_new i (next_rec_id (am x)) False]\<rparr>"
            obtain qs where q: "apply_instruction i p (length (channels (am x))) ?n = (m, qs)" "rs = rec_of (next_rec_id (am x)) Open [] # qs"
              using o(1) p(1) known None fresh client room by (auto simp: on_instruction_def find_or_adopt_def split: prod.splits)
            define v where "v = x\<lparr>am := ?n\<rparr>"
            have v: "channels (am v) = channels (am x) @ [mux_channel_new i (next_rec_id (am x)) False]" "closed (am v) = closed (am x)"
              "am_alloc (am v) = am_alloc (am x)" "am_role (am v) = am_role (am x)" "sent v = sent x" "told v = told x" "handed v = handed x"
              by (simp_all add: v_def)
            have "am_role (am x) = Client" using client by simp
            note av = adopted_ok [OF ok(1) flow new this v]
            have "arrives v w i p" using p(2) av(5) by (simp add: arrives_def v)
            moreover have "y = v\<lparr>am := m, handed := (handed v)(i := handed v i @ data_of qs)\<rparr>" by (simp add: y v_def q(2))
            moreover have "apply_instruction i p (length (channels (am x))) (am v) = (m, qs)" using q(1) by (simp add: v_def)
            moreover have "length (channels (am x)) < length (channels (am v))" "ac_id (channels (am v) ! length (channels (am x))) = i"
              by (simp_all add: v mux_channel_new_def)
            ultimately have r: "local_ok y \<and> grows v y \<and> flow_ok y w \<and> flow_ok w y \<and>
                ((\<exists>r \<in> set qs. kind r = Close \<or> kind r = Fail) \<and> \<not> ended v i \<longrightarrow> handed y i = told w i)"
              using received_at [OF av(1) small av(3,4)] o(2) by blast
            have "grows x y" using av(2) r unfolding grows_def by (metis prefix_order.trans subset_trans)
            with r show ?thesis using q(2) av(5) by auto
          qed
        qed
      qed
    qed
  qed
qed

section \<open>What the connections see\<close>

lemma end_step_ok:
  assumes "end_step (sent w) x y" "local_ok x" "local_ok w" "flow_ok x w" "flow_ok w x"
  shows "local_ok y \<and> flow_ok y w \<and> flow_ok w y"
  using assms
proof (cases rule: end_step.cases)
  case (Tells r)
  from tells_ok [OF assms(2) Tells(2,1)] have t: "local_ok y" "grows x y" "sent y = sent x" "handed y = handed x" "closed (am y) = closed (am x)"
    and b: "\<forall>d \<in> set (channels (am y)). (\<exists>c \<in> set (channels (am x)). ac_id c = ac_id d \<and> base (ac_outbox c) = base (ac_outbox d)) \<or> base (ac_outbox d) = 0"
    by blast+
  have "flow_ok y w"
  proof (rule flow_out_step [OF assms(4) t(2)])
    have "unat (base (ac_outbox d)) \<le> length (handed w (ac_id d))" if d: "d \<in> set (channels (am y))" for d
    proof (cases "base (ac_outbox d) = 0")
      case False
      then obtain c where "c \<in> set (channels (am x))" "ac_id c = ac_id d" "base (ac_outbox c) = base (ac_outbox d)" using b d by blast
      then show ?thesis using assms(4) unfolding flow_ok_def by metis
    qed simp
    then show "\<forall>d \<in> set (channels (am y)). (\<exists>c \<in> set (channels (am x)). same_streams c d) \<or> unat (base (ac_outbox d)) \<le> length (handed w (ac_id d))"
      by blast
    show "\<forall>u \<in> set (closed (am y)). (\<exists>t \<in> set (closed (am x)). same_tomb t u) \<or>
        unat (final_base u) \<le> length (handed w (tomb_id u)) \<or> ended w (tomb_id u)"
      unfolding t(5) using same_tomb_refl by metis
  qed (auto simp: t(3))
  moreover have "flow_ok w y" by (rule flow_in_step [OF assms(5) t(2)]) (use assms(5) in \<open>simp add: t(4) flow_ok_def\<close>)
  ultimately show ?thesis using t(1) by blast
next
  case (Drains now rto m xs)
  note d = drains_ok [OF assms(2) Drains(2,3,1)]
  have "flow_ok w y" by (rule flow_in_step [OF assms(5) d(2)]) (use assms(5) Drains(1) in \<open>simp add: flow_ok_def\<close>)
  then show ?thesis using d(1) d(3) [OF assms(4)] by blast
next
  case (Receives i pl m rs)
  then show ?thesis using receives_ok [OF assms(2-5) Receives(2,3,4,1)] by blast
qed

lemma system_ok: "agent_system s c \<Longrightarrow> agents_ok s c"
proof (induction rule: agent_system.induct)
  case (Starts b d)
  then show ?case by (rule agents_ok_new)
next
  case (ServerSteps s c s')
  then show ?case using end_step_ok [of c s s'] by (simp add: agents_ok_def)
next
  case (ClientSteps s c c')
  then show ?case using end_step_ok [of s c c'] by (simp add: agents_ok_def)
qed

text \<open>Connection \<open>i\<close> of \<open>x\<close> is told by instruction \<open>pl\<close> that the peer's end is over, before it reported its own.\<close>

definition told_over :: "agent_end \<Rightarrow> channel_id \<Rightarrow> bytes \<Rightarrow> bool" where
  "told_over x i pl \<longleftrightarrow> \<not> ended x i \<and> length (closed (fst (on_instruction i pl (am x)))) < CLOSED_CHANNEL_MEMORY \<and>
     (\<exists>r \<in> set (snd (on_instruction i pl (am x))). kind r = Close \<or> kind r = Fail)"

lemma told_over_complete:
  assumes "local_ok x" "local_ok w" "flow_ok x w" "flow_ok w x" "(i, pl) \<in> sent w" "told_over x i pl"
  shows "handed x i @ data_of (snd (on_instruction i pl (am x))) = told w i"
proof -
  obtain m rs where o: "on_instruction i pl (am x) = (m, rs)" by force
  from receives_ok [OF assms(1-5) o _ refl] assms(6) show ?thesis by (simp add: o told_over_def)
qed

text \<open>
  C30. The agent connections over a network that loses, repeats and reorders: on every channel what one side
  was given is a prefix of what the other wrote, in both directions, and a side that is told the other's
  end is over, not having ended its own, has by then been given everything the other wrote.
\<close>

theorem agent_channels_deliver:
  assumes "agent_system s c"
  shows "(\<forall>i. prefix (handed c i) (told s i) \<and> prefix (handed s i) (told c i)) \<and>
    (\<forall>(i, pl) \<in> sent s. told_over c i pl \<longrightarrow> handed c i @ data_of (snd (on_instruction i pl (am c))) = told s i) \<and>
    (\<forall>(i, pl) \<in> sent c. told_over s i pl \<longrightarrow> handed s i @ data_of (snd (on_instruction i pl (am s))) = told c i)"
proof -
  have ok: "local_ok s" "local_ok c" "flow_ok s c" "flow_ok c s" using system_ok [OF assms] by (simp_all add: agents_ok_def)
  then have "prefix (handed c i) (told s i) \<and> prefix (handed s i) (told c i)" for i by (simp add: flow_ok_def)
  then show ?thesis using told_over_complete [OF ok(2,1,4,3)] told_over_complete [OF ok] by auto
qed

section \<open>A concrete run\<close>

definition asking :: channel_id where "asking = channel_new True KIND_AGENT 1"

definition asked :: agent_mux where
  "asked = queue_records [rec_of 7 Open [], rec_of 7 Data [1, 2], rec_of 7 Close []] (agent_mux_new True Server)"

definition the_request :: bytes where
  "the_request = agent_payload_bytes \<lparr>pflags = AGENT_FLAG_OPEN OR AGENT_FLAG_CLOSE, send_base = 0, precv_ack = 0, pdata = [1, 2]\<rparr>"

definition asking_server :: agent_end where
  "asking_server = \<lparr>am = fst (outgoing 0 100 asked), told = (\<lambda>_. [])(asking := [1, 2]), handed = (\<lambda>_. []), sent = {(asking, the_request)}\<rparr>"

lemma asked_state:
  "channels asked = [\<lparr>ac_id = asking, rec_id = 7, ac_outbox = \<lparr>base = 0, buf = [1, 2]\<rparr>, ac_inbox = inbox_new, open_unconfirmed = True,
      term_flag = Some AGENT_FLAG_CLOSE, term_sends = 0, send_due = True, last_send = 0, retx_streak = 0, budget_starved = False\<rparr>]"
  "closed asked = []" "cwnd asked = CWND_MAX" "window_start asked = 0"
proof -
  have slot: "unat (KIND_AGENT AND 0x7f) = 1" by (simp add: KIND_AGENT_def)
  note d = asked_def queue_records_def queue_record_def rec_of_def by_rec_def agent_mux_new_def alloc_next_def allocator_new_def slot
    mux_channel_new_def outbox_push_def outbox_new_def Let_def asking_def numeral_eq_Suc
  show "channels asked = [\<lparr>ac_id = asking, rec_id = 7, ac_outbox = \<lparr>base = 0, buf = [1, 2]\<rparr>, ac_inbox = inbox_new, open_unconfirmed = True,
      term_flag = Some AGENT_FLAG_CLOSE, term_sends = 0, send_due = True, last_send = 0, retx_streak = 0, budget_starved = False\<rparr>]"
    "closed asked = []" "cwnd asked = CWND_MAX" "window_start asked = 0"
    by (simp_all add: d)
qed

lemma asking_reachable: "agent_system asking_server (agent_end_new False Client)"
proof -
  let ?c = "agent_end_new False Client" and ?m0 = "agent_mux_new True Server"
  define m1 where "m1 = queue_record (rec_of 7 Open []) ?m0"
  define m2 where "m2 = queue_record (rec_of 7 Data [1, 2]) m1"
  define m3 where "m3 = queue_record (rec_of 7 Close []) m2"
  have slot: "unat (KIND_AGENT AND 0x7f) = 1" by (simp add: KIND_AGENT_def)
  note d = queue_record_def rec_of_def by_rec_def agent_mux_new_def alloc_next_def allocator_new_def slot
    mux_channel_new_def outbox_push_def outbox_new_def Let_def numeral_eq_Suc
  have a: "asked = m3" by (simp add: asked_def queue_records_def m1_def m2_def m3_def)
  have c1: "channels m1 = [mux_channel_new asking 7 True]" by (simp add: m1_def d asking_def)
  have c2: "channels m2 = [(mux_channel_new asking 7 True)\<lparr>ac_outbox := \<lparr>base = 0, buf = [1, 2]\<rparr>\<rparr>]"
    using c1 by (simp add: m2_def d)
  have r: "by_rec 7 ?m0 = None" "by_rec 7 m1 = Some 0" "by_rec 7 m2 = Some 0"
    by (simp_all add: by_rec_def c1 c2) (simp_all add: agent_mux_new_def mux_channel_new_def)
  have s1: "agent_system \<lparr>am = m1, told = (\<lambda>_. []), handed = (\<lambda>_. []), sent = {}\<rparr> ?c"
    using ServerSteps [OF Starts [of True False] Tells [of "rec_of 7 Open []"]] r(1)
    by (simp add: may_tell_def tell_def agent_end_new_def rec_of_def m1_def) (simp add: agent_mux_new_def allocator_new_def)
  have s2: "agent_system \<lparr>am = m2, told = (\<lambda>_. [])(asking := [1, 2]), handed = (\<lambda>_. []), sent = {}\<rparr> ?c"
    using ServerSteps [OF s1 Tells [of "rec_of 7 Data [1, 2]"]] r(2)
    by (simp add: may_tell_def tell_def rec_of_def m2_def c1 mux_channel_new_def)
  have s3: "agent_system \<lparr>am = m3, told = (\<lambda>_. [])(asking := [1, 2]), handed = (\<lambda>_. []), sent = {}\<rparr> ?c"
    using ServerSteps [OF s2 Tells [of "rec_of 7 Close []"]] r(3)
    by (simp add: may_tell_def tell_def rec_of_def m3_def)
  obtain m xs where o: "outgoing 0 100 asked = (m, xs)" by force
  have out: "xs = [(asking, the_request)] \<and> closed m = []"
    using o by (auto simp: outgoing_def Let_def roll_window_def asked_state rotated_def echoes_def service_def note_retx_def
      retx_fires_def wants_retx_def emit_instruction_def send_size_def instruction_def the_request_def inbox_new_def
      AGENT_INSTRUCTION_DATA_MAX_def settled_def TERM_RETRANSMITS_def CWND_MAX_def MAX_AGENT_CHANNELS_def)
  have "agent_system \<lparr>am = m, told = (\<lambda>_. [])(asking := [1, 2]), handed = (\<lambda>_. []), sent = set xs\<rparr> ?c"
    using ServerSteps [OF s3 Drains [of 0 100 _ m xs]] o out by (simp add: a CLOSED_CHANNEL_MEMORY_def)
  then show ?thesis using o out by (simp add: asking_server_def)
qed

lemma asking_over:
  "told_over (agent_end_new False Client) asking the_request"
  "data_of (snd (on_instruction asking the_request (am (agent_end_new False Client)))) = [1, 2]"
proof -
  have "on_instruction asking the_request (am (agent_end_new False Client)) =
      (fst (on_instruction asking the_request (agent_mux_new False Client)), [rec_of 1 Open [], rec_of 1 Data [1, 2], rec_of 1 Close []])"
    "closed (fst (on_instruction asking the_request (agent_mux_new False Client))) =
      [\<lparr>tomb_id = asking, tomb_flag = AGENT_FLAG_CLOSE, echo_due = True, final_base = 0, final_ack = 2\<rparr>]"
    by (simp_all add: agent_end_new_def on_instruction_def the_request_def agent_payload_roundtrip has_unknown_flags_def agent_mux_new_def
      find_or_adopt_def apply_instruction_def mux_channel_new_def take_ack_def take_data_def Let_def outbox_ack_def inbox_accept_def
      outbox_new_def inbox_new_def is_term_def AGENT_FLAG_OPEN_def AGENT_FLAG_CLOSE_def AGENT_FLAG_FAIL_def AGENT_FLAGS_KNOWN_def
      MAX_AGENT_CHANNELS_def rec_of_def bury_def CLOSED_CHANNEL_MEMORY_def end_offset_def)
  then show "told_over (agent_end_new False Client) asking the_request"
    "data_of (snd (on_instruction asking the_request (am (agent_end_new False Client)))) = [1, 2]"
    by (simp_all add: told_over_def CLOSED_CHANNEL_MEMORY_def) (simp add: agent_end_new_def agent_mux_new_def ended_def)
qed

theorem agent_channels_deliver_witness:
  "told_over (agent_end_new False Client) asking the_request \<and>
   handed (agent_end_new False Client) asking @ data_of (snd (on_instruction asking the_request (am (agent_end_new False Client)))) = told asking_server asking"
  using agent_channels_deliver [OF asking_reachable] asking_over by (simp add: asking_server_def)

end
