(* ===== verification/AgentPacing.thy ===== *)
theory AgentPacing
  imports AgentMux
begin

text \<open>
  When the agent channels send, and how much: the poll deadline is exact, the window budget binds, and the
  congestion response stays within its bounds or, switched off, never shows.
\<close>

section \<open>Runs of one end\<close>

datatype agent_event = Queued agent_record | Arrived channel_id bytes | Drained nat

fun agent_event_step :: "nat \<Rightarrow> agent_event \<Rightarrow> agent_mux \<Rightarrow> agent_mux" where
  "agent_event_step now (Queued r) m = queue_record r m"
| "agent_event_step now (Arrived i pl) m = fst (on_instruction i pl m)"
| "agent_event_step now (Drained rto) m = fst (outgoing now rto m)"

fun agent_run :: "(nat \<times> agent_event) list \<Rightarrow> agent_mux \<Rightarrow> agent_mux" where
  "agent_run [] m = m"
| "agent_run ((t, e) # es) m = agent_run es (agent_event_step t e m)"

section \<open>Any property of the channels and the window\<close>

text \<open>
  A predicate of the channels that holds of a new one and that every step of a channel keeps, given one of
  the window that depends on nothing else.
\<close>

locale channel_invariant =
  fixes cong :: bool and P :: "nat \<Rightarrow> nat \<Rightarrow> mux_channel \<Rightarrow> bool"
  assumes fresh: "P now ws (mux_channel_new i r opener)"
    and streams: "P now ws c \<Longrightarrow> P now ws (c\<lparr>ac_outbox := ob, send_due := due\<rparr>)"
    and ends: "P now ws c \<Longrightarrow> P now ws (c\<lparr>term_flag := f, send_due := due\<rparr>)"
    and acked: "P now ws c \<Longrightarrow> take_ack a c = (d, b) \<Longrightarrow> P now ws d"
    and taken: "P now ws c \<Longrightarrow> take_data off bs c = (d, rs) \<Longrightarrow> P now ws d"
    and later: "P now ws c \<Longrightarrow> now \<le> now' \<Longrightarrow> P now' ws c"
    and rolled: "P now ws c \<Longrightarrow> P now now (if budget_starved c then c\<lparr>budget_starved := False, send_due := True\<rparr> else c)"
    and backed: "P now ws c \<Longrightarrow> cong \<Longrightarrow> P now ws (c\<lparr>retx_streak := n\<rparr>)"
    and emitted: "P now ws c \<Longrightarrow> ws \<le> now \<Longrightarrow> emit_instruction now c m = (d, m', x) \<Longrightarrow> P now ws d"
begin

definition held :: "nat \<Rightarrow> agent_mux \<Rightarrow> bool" where
  "held now m \<longleftrightarrow> congestion m = cong \<and> window_start m \<le> now \<and> (\<forall>c \<in> set (channels m). P now (window_start m) c)"

lemma held_later: "held now m \<Longrightarrow> now \<le> now' \<Longrightarrow> held now' m"
  using later by (auto simp: held_def)

lemma held_update: "held now m \<Longrightarrow> P now (window_start m) c \<Longrightarrow> held now (m\<lparr>channels := (channels m)[k := c]\<rparr>)"
  using set_update_subset_insert [of "channels m" k c] by (auto simp: held_def)

lemma held_nth: "held now m \<Longrightarrow> k < length (channels m) \<Longrightarrow> P now (window_start m) (channels m ! k)"
  by (simp add: held_def)

lemma by_rec_bound: "by_rec r m = Some k \<Longrightarrow> k < length (channels m)"
  by (auto simp: by_rec_def dest!: position_SomeD)

lemma held_queue: "held now m \<Longrightarrow> held now (queue_record r m)"
proof -
  assume h: "held now m"
  have up: "held now (m\<lparr>channels := (channels m)[k := c]\<rparr>)" if "P now (window_start m) c" for k c by (rule held_update [OF h that])
  have old: "P now (window_start m) (channels m ! k)" if "by_rec (channel r) m = Some k" for k by (rule held_nth [OF h by_rec_bound [OF that]])
  have new: "held now (m\<lparr>am_alloc := a, channels := channels m @ [mux_channel_new i q b]\<rparr>)" for a i q b
    using h fresh by (auto simp: held_def)
  have p: "held now (m\<lparr>am_panicked := True\<rparr>)" using h by (simp add: held_def)
  show ?thesis
  proof (cases "by_rec (channel r) m")
    case None
    then show ?thesis using h new p by (auto simp: queue_record_def split: record_kind.splits prod.splits sum.splits)
  next
    case (Some k)
    note o = old [OF Some]
    then show ?thesis using Some h up streams [OF o] ends [OF o]
      by (simp add: queue_record_def Let_def split: record_kind.splits)
  qed
qed

lemma held_frame:
  "held now m \<Longrightarrow> congestion m' = congestion m \<Longrightarrow> window_start m' = window_start m \<Longrightarrow> set (channels m') \<subseteq> set (channels m) \<Longrightarrow> held now m'"
  by (auto simp: held_def)

lemma held_apply:
  assumes h: "held now m" and k: "k < length (channels m)" and o: "apply_instruction i p k m = (m', rs)"
  shows "held now m'"
proof -
  obtain d b where a: "take_ack (precv_ack p) (channels m ! k) = (d, b)" by force
  obtain e gs where t: "take_data (send_base p) (pdata p) d = (e, gs)" by force
  have e: "P now (window_start m) e" using taken [OF acked [OF held_nth [OF h k] a] t] .
  let ?m = "m\<lparr>window_progress := (window_progress m \<or> b)\<rparr>"
  have hm: "held now ?m" using h by (simp add: held_def)
  have "set (removed_at k (channels m)) \<subseteq> set (channels m)"
    unfolding removed_at_def using set_take_subset set_drop_subset by fastforce
  then show ?thesis
    using o hm held_update [OF hm, of e k] e by (auto simp: apply_instruction_def a t Let_def bury_def held_def split: if_splits)
qed

lemma held_instruction: "held now m \<Longrightarrow> held now (fst (on_instruction i pl m))"
proof -
  assume h: "held now m"
  have tomb: "held now (m\<lparr>closed := cl\<rparr>)" for cl using h by (simp add: held_def)
  have adopt: "held now (fst (find_or_adopt i fl m)) \<and>
      (\<forall>k. fst (snd (find_or_adopt i fl m)) = Some k \<longrightarrow> k < length (channels (fst (find_or_adopt i fl m))))" for fl
    using h fresh position_SomeD [of "\<lambda>c. ac_id c = i" "channels m"]
    by (auto simp: find_or_adopt_def bury_def held_def split: option.splits)
  have ap: "held now (fst (apply_instruction i p k n))" if "held now n" "k < length (channels n)" for p k n
    using held_apply [OF that, of i p] by (cases "apply_instruction i p k n") auto
  show ?thesis using h tomb adopt ap
    by (auto simp: on_instruction_def split: sum.splits option.splits prod.splits) (metis fst_conv snd_conv)+
qed

lemma held_service:
  assumes h: "held now m" and c: "P now (window_start m) c" and s: "service now rto c m = (d, m', xs)"
  shows "P now (window_start m) d \<and> window_start m' = window_start m \<and> channels m' = channels m \<and> congestion m' = congestion m"
proof -
  have ws: "window_start m \<le> now" "congestion m = cong" using h by (simp_all add: held_def)
  obtain e n where en: "(if retx_fires now rto c \<and> \<not> send_due c \<and> congestion m then note_retx c m else (c, m)) = (e, n)" by force
  have e: "P now (window_start m) e" "window_start n = window_start m" "channels n = channels m" "congestion n = congestion m"
    using en c backed ws(2) by (auto simp: note_retx_def Let_def split: if_splits)
  obtain f p x where f: "emit_instruction now e n = (f, p, x)" by (cases "emit_instruction now e n")
  have "window_start p = window_start n" "channels p = channels n" "congestion p = congestion n" using f by (auto simp: emit_instruction_def Let_def)
  with e emitted [OF e(1) ws(1) f] s en f show ?thesis by (auto simp: service_def Let_def split: if_splits)
qed

lemma held_serve:
  "held now m \<Longrightarrow> \<forall>c \<in> set cs. P now (window_start m) c \<Longrightarrow> held now (fst (serve now rto cs m))"
proof (induction now rto cs m rule: serve.induct)
  case (2 now rto c cs m)
  obtain d n xs where s: "service now rto c m = (d, n, xs)" by (cases "service now rto c m")
  have d: "P now (window_start m) d" "window_start n = window_start m" "channels n = channels m" "congestion n = congestion m"
    using held_service [OF 2(2) _ s] 2(3) by auto
  let ?p = "if settled d then bury (ac_id d) (the (term_flag d)) (end_offset (ac_outbox d)) (next_offset (ac_inbox d)) False n
      else n\<lparr>channels := channels n @ [d]\<rparr>"
  have "held now ?p" "window_start ?p = window_start m" using d 2(2) by (auto simp: held_def bury_def)
  with 2(1) [OF s [symmetric] refl refl] 2(3) have "held now (fst (serve now rto cs ?p))" by simp
  moreover have "fst (serve now rto (c # cs) m) = fst (serve now rto cs ?p)"
    by (cases "serve now rto cs ?p") (simp add: s Let_def del: if_split)
  ultimately show ?case by (simp only:)
qed simp

lemma held_outgoing:
  assumes h: "held now m"
  shows "held now (fst (outgoing now rto m))"
proof -
  define r where "r = roll_window now rto m"
  have "\<forall>c \<in> set (channels m). P now now (if budget_starved c then c\<lparr>budget_starved := False, send_due := True\<rparr> else c)"
    using h rolled unfolding held_def by blast
  then have r: "held now r" using h by (auto simp: r_def roll_window_def held_def)
  let ?n = "r\<lparr>channels := [], closed := map (\<lambda>t. t\<lparr>echo_due := False\<rparr>) (closed r)\<rparr>"
  have "held now ?n" "\<forall>c \<in> set (rotated (channels r)). P now (window_start ?n) c"
    using r by (auto simp: held_def rotated_def split: if_splits)
  from held_serve [OF this, of rto] show ?thesis
    by (cases "serve now rto (rotated (channels r)) ?n") (simp add: outgoing_def Let_def r_def [symmetric])
qed

lemma held_step: "held now m \<Longrightarrow> held now (agent_event_step now e m)"
  by (cases e) (simp_all add: held_queue held_instruction held_outgoing)

lemma held_run:
  "held t0 m \<Longrightarrow> sorted (t0 # map fst es) \<Longrightarrow> \<forall>t \<in> fst ` set es. t \<le> now \<Longrightarrow> t0 \<le> now \<Longrightarrow> held now (agent_run es m)"
proof (induction es arbitrary: t0 m)
  case (Cons x es)
  obtain t e where x: "x = (t, e)" by force
  have "held t (agent_event_step t e m)" using held_step [OF held_later [OF Cons.prems(1)]] Cons.prems(2) by (simp add: x)
  with Cons show ?case by (auto simp: x)
qed (use held_later in auto)

lemma held_new: "held 0 (agent_mux_new cong r)"
  by (simp add: held_def agent_mux_new_def)

end

lemma backed_off_ge: "rto < 2 ^ 64 \<Longrightarrow> rto \<le> backed_off rto n"
  by (simp add: backed_off_def backoff_def)

text \<open>A channel whose data was cut short by the budget sent in the current window.\<close>

interpretation starved: channel_invariant cong "\<lambda>now ws c. last_send c \<le> now \<and> (budget_starved c \<longrightarrow> ws \<le> last_send c)"
  for cong
proof
  fix now ws now' i r opener c ob due f a d b off bs rs n m' x and m :: agent_mux
  show "take_ack a c = (d, b) \<Longrightarrow> last_send c \<le> now \<and> (budget_starved c \<longrightarrow> ws \<le> last_send c) \<Longrightarrow>
      last_send d \<le> now \<and> (budget_starved d \<longrightarrow> ws \<le> last_send d)" for c :: mux_channel
    by (auto simp: take_ack_def Let_def split: if_splits)
  show "take_data off bs c = (d, rs) \<Longrightarrow> last_send c \<le> now \<and> (budget_starved c \<longrightarrow> ws \<le> last_send c) \<Longrightarrow>
      last_send d \<le> now \<and> (budget_starved d \<longrightarrow> ws \<le> last_send d)" for c :: mux_channel
    by (auto simp: take_data_def split: prod.splits option.splits)
qed (auto simp: mux_channel_new_def emit_instruction_def Let_def)

text \<open>With the congestion response off no channel ever backs off.\<close>

interpretation unhurt: channel_invariant False "\<lambda>now ws c. retx_streak c = 0"
proof
  show "take_ack a c = (d, b) \<Longrightarrow> retx_streak c = 0 \<Longrightarrow> retx_streak d = 0" for a c d b
    by (auto simp: take_ack_def Let_def split: if_splits)
  show "take_data off bs c = (d, rs) \<Longrightarrow> retx_streak c = 0 \<Longrightarrow> retx_streak d = 0" for off bs c d rs
    by (auto simp: take_data_def split: prod.splits option.splits)
qed (auto simp: mux_channel_new_def emit_instruction_def Let_def)

section \<open>The poll deadline\<close>

lemma serve_emits: "snd (serve now rto cs m) \<noteq> [] \<longleftrightarrow> (\<exists>c \<in> set cs. send_due c \<or> retx_fires now rto c)"
proof (induction now rto cs m rule: serve.induct)
  case (2 now rto c cs m)
  obtain d n xs where s: "service now rto c m = (d, n, xs)" by (cases "service now rto c m")
  have "xs \<noteq> [] \<longleftrightarrow> send_due c \<or> retx_fires now rto c"
    using s by (auto simp: service_def note_retx_def Let_def split: if_splits prod.splits)
  moreover have "snd (serve now rto (c # cs) m) = xs @ snd (serve now rto cs
      (if settled d then bury (ac_id d) (the (term_flag d)) (end_offset (ac_outbox d)) (next_offset (ac_inbox d)) False n
       else n\<lparr>channels := channels n @ [d]\<rparr>))"
    by (simp add: s Let_def split_beta del: if_split)
  ultimately show ?case using 2 [OF s [symmetric] refl refl] by auto
qed simp

lemma outgoing_emits:
  "snd (outgoing now rto m) \<noteq> [] \<longleftrightarrow> (\<exists>t \<in> set (closed m). echo_due t) \<or>
     (\<exists>c \<in> set (channels m). send_due c \<or> retx_fires now rto c \<or> (budget_starved c \<and> now - window_start m \<ge> rto))"
proof -
  let ?r = "roll_window now rto m"
  let ?n = "?r\<lparr>channels := [], closed := map (\<lambda>t. t\<lparr>echo_due := False\<rparr>) (closed ?r)\<rparr>"
  have cl: "closed ?r = closed m" by (simp add: roll_window_def)
  have f: "retx_fires now rto (c\<lparr>budget_starved := False, send_due := True\<rparr>) = retx_fires now rto c" for c :: mux_channel
    by (simp add: retx_fires_def wants_retx_def term_unsettled_def)
  have "set (rotated (channels ?r)) = set (channels ?r)" by (cases "channels ?r") (simp_all add: rotated_def)
  then have "(\<exists>c \<in> set (rotated (channels ?r)). send_due c \<or> retx_fires now rto c) \<longleftrightarrow>
      (\<exists>c \<in> set (channels m). send_due c \<or> retx_fires now rto c \<or> (budget_starved c \<and> now - window_start m \<ge> rto))"
  proof (cases "now - window_start m \<ge> rto")
    case True
    define g :: "mux_channel \<Rightarrow> mux_channel" where "g = (\<lambda>c. if budget_starved c then c\<lparr>budget_starved := False, send_due := True\<rparr> else c)"
    have "channels ?r = map g (channels m)" using True by (simp add: roll_window_def g_def)
    moreover have "send_due (g c) \<or> retx_fires now rto (g c) \<longleftrightarrow> send_due c \<or> retx_fires now rto c \<or> budget_starved c" for c
      by (simp add: g_def f)
    ultimately show ?thesis using True \<open>set (rotated (channels ?r)) = set (channels ?r)\<close> by simp
  qed (simp add: roll_window_def rotated_def)
  moreover have "snd (outgoing now rto m) = echoes (closed m) @ snd (serve now rto (rotated (channels ?r)) ?n)"
    by (simp add: outgoing_def Let_def cl split_beta)
  ultimately show ?thesis by (auto simp: serve_emits echoes_def filter_empty_conv)
qed

lemma earliest_due: "(\<exists>d. earliest a b = Some d \<and> d \<le> now) \<longleftrightarrow> (\<exists>d. a = Some d \<and> d \<le> now) \<or> (\<exists>d. b = Some d \<and> d \<le> (now :: nat))"
  by (auto simp: earliest_def split: option.splits)

lemma fold_due:
  "(\<exists>d. fold (\<lambda>c due. earliest due (g c)) cs a = Some d \<and> d \<le> (now :: nat)) \<longleftrightarrow>
     (\<exists>d. a = Some d \<and> d \<le> now) \<or> (\<exists>c \<in> set cs. \<exists>d. g c = Some d \<and> d \<le> now)"
proof (induction cs arbitrary: a)
  case (Cons c cs)
  show ?case unfolding fold_Cons o_apply Cons.IH earliest_due by auto
qed simp

text \<open>
  C31. The deadline the poll loop sleeps to is exact: after any events with a clock that does not go back, the
  drain at \<open>now\<close> sends something if and only if the deadline has come, so the loop neither sleeps past a
  retransmission nor wakes for nothing.
\<close>

theorem agent_deadline_exact:
  assumes "m = agent_run es (agent_mux_new cong r)" "sorted (map fst es)" "\<forall>t \<in> fst ` set es. t \<le> now" "0 < rto" "rto < 2 ^ 64"
  shows "snd (outgoing now rto m) \<noteq> [] \<longleftrightarrow> (\<exists>d. next_deadline rto m = Some d \<and> d \<le> now)"
proof -
  have h: "starved.held cong now m"
    unfolding assms(1) by (rule starved.held_run [OF starved.held_new]) (use assms in auto)
  have c: "(\<exists>d. channel_deadline rto m c = Some d \<and> d \<le> now) \<longleftrightarrow>
      send_due c \<or> retx_fires now rto c \<or> (budget_starved c \<and> now - window_start m \<ge> rto)" if "c \<in> set (channels m)" for c
  proof -
    have l: "window_start m \<le> now" "last_send c \<le> now" "budget_starved c \<Longrightarrow> window_start m \<le> last_send c"
      using h that by (auto simp: starved.held_def)
    have "rto \<le> backed_off rto (retx_streak c)" by (rule backed_off_ge [OF assms(5)])
    with l assms(4) show ?thesis by (auto simp: channel_deadline_def retx_fires_def)
  qed
  show ?thesis unfolding outgoing_emits next_deadline_def fold_due using c by auto
qed

theorem agent_deadline_exact_witness:
  "snd (outgoing 100 50 (agent_run [(0, Queued (rec_of 7 Open []))] (agent_mux_new True Server))) \<noteq> [] \<longleftrightarrow>
   (\<exists>d. next_deadline 50 (agent_run [(0, Queued (rec_of 7 Open []))] (agent_mux_new True Server)) = Some d \<and> d \<le> 100)"
  by (rule agent_deadline_exact [OF refl]) simp_all

section \<open>The window\<close>

definition window_ok :: "agent_mux \<Rightarrow> bool" where
  "window_ok m \<longleftrightarrow> CWND_FLOOR \<le> cwnd m \<and> cwnd m \<le> CWND_MAX \<and> (\<not> congestion m \<longrightarrow> cwnd m = CWND_MAX)"

definition data_bytes :: "(channel_id \<times> bytes) list \<Rightarrow> nat" where
  "data_bytes xs = (\<Sum>x\<leftarrow>xs. length (snd x) - AGENT_PAYLOAD_HEADER_LEN)"

lemma data_bytes_simps [simp]:
  "data_bytes [] = 0" "data_bytes (x # xs) = length (snd x) - AGENT_PAYLOAD_HEADER_LEN + data_bytes xs"
  "data_bytes (xs @ ys) = data_bytes xs + data_bytes ys"
  by (simp_all add: data_bytes_def)

lemma instruction_data: "length (snd (instruction i f b a d)) - AGENT_PAYLOAD_HEADER_LEN = length d"
  by (simp add: instruction_def agent_payload_bytes_def AGENT_PAYLOAD_HEADER_LEN_def)

lemma window_note:
  assumes "window_ok m" "congestion m" "note_retx c m = (d, n)"
  shows "window_ok n \<and> cwnd n \<le> cwnd m \<and> window_used n = window_used m \<and> congestion n \<and> window_start n = window_start m"
proof -
  have "max CWND_FLOOR (cwnd m div 2) \<le> cwnd m" using assms(1) by (simp add: window_ok_def)
  then show ?thesis using assms by (auto simp: note_retx_def Let_def window_ok_def)
qed

lemma window_service:
  assumes w: "window_ok m" and s: "service now rto c m = (d, n, xs)"
  shows "window_ok n \<and> congestion n = congestion m \<and> cwnd n \<le> cwnd m \<and> window_used n = window_used m + data_bytes xs \<and>
    window_start n = window_start m \<and>
    (cwnd m < CWND_MAX \<longrightarrow> data_bytes xs \<le> cwnd n - window_used m)"
proof -
  obtain e p where en: "(if retx_fires now rto c \<and> \<not> send_due c \<and> congestion m then note_retx c m else (c, m)) = (e, p)" by force
  have p: "window_ok p" "cwnd p \<le> cwnd m" "window_used p = window_used m" "congestion p = congestion m" "window_start p = window_start m"
    using en w window_note [OF w, of c e p] by (auto split: if_splits)
  obtain f q x where f: "emit_instruction now e p = (f, q, x)" by (cases "emit_instruction now e p")
  have q: "window_ok q" "window_start q = window_start p" "cwnd q = cwnd p" "congestion q = congestion p" "window_used q = window_used p + length (take (send_size p e) (buf (ac_outbox e)))"
    "data_bytes [x] = length (take (send_size p e) (buf (ac_outbox e)))"
    using f p(1) by (auto simp: emit_instruction_def Let_def window_ok_def instruction_data send_size_def)
  have "cwnd m < CWND_MAX \<Longrightarrow> length (take (send_size p e) (buf (ac_outbox e))) \<le> cwnd p - window_used p"
    using p(2) by (simp add: send_size_def Let_def)
  note d = this
  have "service now rto c m = (if send_due e \<or> retx_fires now rto c then (f, q, [x]) else (e, p, []))"
    by (simp add: service_def Let_def en f)
  then have "n = q \<and> xs = [x] \<or> n = p \<and> xs = []" using s by (auto split: if_splits)
  then show ?thesis
  proof
    assume "n = q \<and> xs = [x]"
    with p q d show ?thesis by simp
  next
    assume "n = p \<and> xs = []"
    with p show ?thesis by simp
  qed
qed

lemma window_serve:
  "window_ok m \<Longrightarrow> window_ok (fst (serve now rto cs m)) \<and> congestion (fst (serve now rto cs m)) = congestion m \<and>
     window_used (fst (serve now rto cs m)) = window_used m + data_bytes (snd (serve now rto cs m)) \<and>
     window_start (fst (serve now rto cs m)) = window_start m \<and>
     (cwnd m < CWND_MAX \<longrightarrow> data_bytes (snd (serve now rto cs m)) \<le> cwnd m - window_used m)"
proof (induction now rto cs m rule: serve.induct)
  case (2 now rto c cs m)
  obtain d n xs where s: "service now rto c m = (d, n, xs)" by (cases "service now rto c m")
  note w = window_service [OF 2(2) s]
  let ?p = "if settled d then bury (ac_id d) (the (term_flag d)) (end_offset (ac_outbox d)) (next_offset (ac_inbox d)) False n
      else n\<lparr>channels := channels n @ [d]\<rparr>"
  have p: "window_ok ?p" "congestion ?p = congestion m" "cwnd ?p = cwnd n" "window_used ?p = window_used n" "window_start ?p = window_start n" using w by (auto simp: window_ok_def bury_def)
  obtain q ys where q: "serve now rto cs ?p = (q, ys)" by (cases "serve now rto cs ?p")
  have r: "serve now rto (c # cs) m = (q, xs @ ys)" using q by (simp add: s Let_def del: if_split)
  have "window_ok q \<and> congestion q = congestion ?p \<and> window_used q = window_used ?p + data_bytes ys \<and>
      window_start q = window_start ?p \<and> (cwnd ?p < CWND_MAX \<longrightarrow> data_bytes ys \<le> cwnd ?p - window_used ?p)"
    using 2(1) [OF s [symmetric] refl refl p(1)] q by simp
  with p w show ?case unfolding r by (auto simp: not_less)
qed simp

lemma window_outgoing:
  assumes "window_ok m"
  shows "window_ok (fst (outgoing now rto m)) \<and> congestion (fst (outgoing now rto m)) = congestion m \<and>
    window_used (fst (outgoing now rto m)) = window_used (roll_window now rto m) + data_bytes (snd (outgoing now rto m)) \<and>
    window_start (fst (outgoing now rto m)) = window_start (roll_window now rto m) \<and>
    (cwnd (roll_window now rto m) < CWND_MAX \<longrightarrow>
       data_bytes (snd (outgoing now rto m)) \<le> cwnd (roll_window now rto m) - window_used (roll_window now rto m))"
proof -
  let ?r = "roll_window now rto m"
  let ?n = "?r\<lparr>channels := [], closed := map (\<lambda>t. t\<lparr>echo_due := False\<rparr>) (closed ?r)\<rparr>"
  have "window_ok ?n" "congestion ?r = congestion m" using assms by (auto simp: window_ok_def roll_window_def CWND_FLOOR_def CWND_MAX_def MAX_AGENT_CHANNELS_def)
  moreover have "data_bytes (echoes ts) = 0" for ts by (induction ts) (simp_all add: echoes_def instruction_data)
  ultimately show ?thesis
    using window_serve [of ?n now rto "rotated (channels ?r)"] by (auto simp: outgoing_def Let_def split_beta)
qed

text \<open>
  The specification of the meter: the data really sent since the window began, which a drain \<open>rto\<close> or more
  after its beginning starts anew.
\<close>

fun metered :: "(nat \<times> agent_event) list \<Rightarrow> agent_mux \<Rightarrow> nat \<times> nat \<Rightarrow> nat \<times> nat" where
  "metered [] m v = v"
| "metered ((t, Drained rto) # es) m (w, d) =
     (let sent = data_bytes (snd (outgoing t rto m))
      in metered es (agent_event_step t (Drained rto) m) (if t - w \<ge> rto then (t, sent) else (w, d + sent)))"
| "metered ((t, e) # es) m v = metered es (agent_event_step t e m) v"

lemma queue_keeps_window:
  "cwnd (queue_record r m) = cwnd m \<and> congestion (queue_record r m) = congestion m \<and>
   window_used (queue_record r m) = window_used m \<and> window_start (queue_record r m) = window_start m"
  by (simp add: queue_record_def Let_def split: record_kind.split option.split prod.split sum.split)

lemma instruction_keeps_window:
  "cwnd (fst (on_instruction i pl m)) = cwnd m \<and> congestion (fst (on_instruction i pl m)) = congestion m \<and>
   window_used (fst (on_instruction i pl m)) = window_used m \<and> window_start (fst (on_instruction i pl m)) = window_start m"
  by (auto simp: on_instruction_def find_or_adopt_def apply_instruction_def bury_def Let_def split: sum.split option.split prod.split)

lemma window_kept: "window_ok m \<Longrightarrow> cwnd n = cwnd m \<Longrightarrow> congestion n = congestion m \<Longrightarrow> window_ok n"
  by (simp add: window_ok_def)

lemma window_run:
  "window_ok m \<Longrightarrow> window_ok (agent_run es m) \<and> congestion (agent_run es m) = congestion m \<and>
     metered es m (window_start m, window_used m) = (window_start (agent_run es m), window_used (agent_run es m))"
proof (induction es arbitrary: m)
  case (Cons x es)
  obtain t e where x: "x = (t, e)" by force
  let ?n = "agent_event_step t e m"
  have n: "window_ok ?n \<and> congestion ?n = congestion m"
    using Cons.prems window_outgoing [OF Cons.prems] queue_keeps_window instruction_keeps_window
    by (cases e) (auto intro: window_kept)
  have "metered (x # es) m (window_start m, window_used m) = metered es ?n (window_start ?n, window_used ?n)"
  proof (cases e)
    case (Queued r)
    then show ?thesis using queue_keeps_window [of r m] by (simp add: x)
  next
    case (Arrived i pl)
    then show ?thesis using instruction_keeps_window [of i pl m] by (simp add: x)
  next
    case (Drained rto)
    then show ?thesis using window_outgoing [OF Cons.prems, of t rto] by (simp add: x Let_def roll_window_def)
  qed
  with Cons.IH [of ?n] n show ?case by (simp add: x)
qed simp

text \<open>
  C32. The congestion response is bounded and optional. After any events with a clock that does not go back: the
  window lies between one full instruction and eight; the meter is the data really sent since the window began, and
  a drain under a reduced window sends no more data than the window leaves above that; with the response switched
  off the window never leaves its maximum and no channel ever backs off.
\<close>

theorem agent_window_bounded:
  assumes "m = agent_run es (agent_mux_new cong r)" "sorted (map fst es)" "metered es (agent_mux_new cong r) (0, 0) = (began, sent)"
  shows "CWND_FLOOR \<le> cwnd m \<and> cwnd m \<le> CWND_MAX \<and> window_start m = began \<and> window_used m = sent \<and>
    (cwnd (roll_window now rto m) < CWND_MAX \<longrightarrow> data_bytes (snd (outgoing now rto m)) \<le>
       cwnd (roll_window now rto m) - (if now - began \<ge> rto then 0 else sent)) \<and>
    (\<not> cong \<longrightarrow> cwnd m = CWND_MAX \<and> (\<forall>c \<in> set (channels m). backed_off rto (retx_streak c) = backed_off rto 0))"
proof -
  have new: "window_ok (agent_mux_new cong r)" by (simp add: window_ok_def agent_mux_new_def CWND_FLOOR_def CWND_MAX_def MAX_AGENT_CHANNELS_def)
  have w: "window_ok m" "congestion m = cong" "window_start m = began" "window_used m = sent"
    using window_run [OF new, of es] assms(1,3) by (simp_all add: agent_mux_new_def)
  have "retx_streak c = 0" if "\<not> cong" "c \<in> set (channels m)" for c
  proof -
    have cong: "cong = False" using that(1) by simp
    define now where "now = Max (insert 0 (fst ` set es))"
    have "unhurt.held now m"
      unfolding assms(1) cong by (rule unhurt.held_run [OF unhurt.held_new]) (use assms(2) in \<open>auto simp: now_def\<close>)
    then show ?thesis using that(2) by (simp add: unhurt.held_def)
  qed
  moreover have "window_used (roll_window now rto m) = (if now - began \<ge> rto then 0 else sent)"
    using w by (simp add: roll_window_def)
  ultimately show ?thesis using w window_outgoing [OF w(1), of now rto] by (auto simp: window_ok_def)
qed

text \<open>An instance: one byte is sent and sent again 100 ms later, which cuts the window in half.\<close>

definition cut_events :: "(nat \<times> agent_event) list" where
  "cut_events = [(0, Queued (rec_of 7 Open [])), (0, Queued (rec_of 7 Data [65])), (0, Drained 50), (100, Drained 50)]"

definition cut_channel :: mux_channel where
  "cut_channel = (mux_channel_new (channel_new True KIND_AGENT 1) 7 True)\<lparr>ac_outbox := \<lparr>base = 0, buf = [65]\<rparr>\<rparr>"

definition cut_queued :: agent_mux where
  "cut_queued = agent_run [(0, Queued (rec_of 7 Open [])), (0, Queued (rec_of 7 Data [65]))] (agent_mux_new True Server)"

lemma cut_queued_eval:
  "channels cut_queued = [cut_channel]" "closed cut_queued = []" "cwnd cut_queued = CWND_MAX" "window_start cut_queued = 0"
  "window_used cut_queued = 0" "window_cut cut_queued = False" "congestion cut_queued = True"
proof -
  have slot: "unat (KIND_AGENT AND 0x7f) = 1" by (simp add: KIND_AGENT_def)
  note d = cut_queued_def cut_channel_def queue_record_def rec_of_def by_rec_def agent_mux_new_def alloc_next_def allocator_new_def slot
    mux_channel_new_def outbox_push_def outbox_new_def Let_def numeral_eq_Suc
  show "channels cut_queued = [cut_channel]" "closed cut_queued = []" "cwnd cut_queued = CWND_MAX" "window_start cut_queued = 0"
    "window_used cut_queued = 0" "window_cut cut_queued = False" "congestion cut_queued = True"
    by (simp_all add: d)
qed

text \<open>One channel with a byte to send, under a window that is not reduced.\<close>

lemma one_emit:
  assumes "buf (ac_outbox c) = [65]" "term_flag c = None" "\<not> budget_starved c" "cwnd m = CWND_MAX \<or> window_used m < cwnd m"
  shows "\<exists>x. emit_instruction now c m = (c\<lparr>send_due := False, last_send := now\<rparr>, m\<lparr>window_used := window_used m + 1\<rparr>, x) \<and> data_bytes [x] = 1"
proof -
  have "send_size m c = 1" using assms(1,4) by (auto simp: send_size_def AGENT_INSTRUCTION_DATA_MAX_def Let_def)
  then show ?thesis using assms(1-3)
    by (simp add: emit_instruction_def AGENT_INSTRUCTION_DATA_MAX_def Let_def instruction_data)
qed

lemma one_drain:
  assumes "channels m = [c]" "closed m = []" "buf (ac_outbox c) = [65]" "term_flag c = None" "\<not> budget_starved c"
    and s: "service now rto c (roll_window now rto m\<lparr>channels := [], closed := []\<rparr>) = (d, n, [x])" "term_flag d = None"
  shows "outgoing now rto m = (n\<lparr>channels := channels n @ [d]\<rparr>, [x])"
proof -
  have r: "channels (roll_window now rto m) = [c]" "closed (roll_window now rto m) = []"
    using assms(1,2,5) by (simp_all add: roll_window_def)
  then show ?thesis using s by (simp add: outgoing_def rotated_def echoes_def settled_def Let_def)
qed

definition cut_drained :: agent_mux where "cut_drained = fst (outgoing 0 50 cut_queued)"

lemma cut_drained_eval:
  "channels cut_drained = [cut_channel\<lparr>send_due := False\<rparr>]" "closed cut_drained = []" "cwnd cut_drained = CWND_MAX"
  "window_start cut_drained = 0" "window_cut cut_drained = False" "congestion cut_drained = True"
  "data_bytes (snd (outgoing 0 50 cut_queued)) = 1" "window_used cut_drained = 1"
proof -
  let ?m = "roll_window 0 50 cut_queued\<lparr>channels := [], closed := []\<rparr>"
  have c: "buf (ac_outbox cut_channel) = [65]" "term_flag cut_channel = None" "\<not> budget_starved cut_channel" "send_due cut_channel"
    "cut_channel\<lparr>send_due := False, last_send := 0\<rparr> = cut_channel\<lparr>send_due := False\<rparr>"
    by (simp_all add: cut_channel_def mux_channel_new_def)
  have m: "?m = cut_queued\<lparr>channels := [], closed := []\<rparr>" by (simp add: roll_window_def cut_queued_eval)
  obtain x where x: "emit_instruction 0 cut_channel ?m = (cut_channel\<lparr>send_due := False\<rparr>, ?m\<lparr>window_used := window_used ?m + 1\<rparr>, x)"
    "data_bytes [x] = 1" using one_emit [OF c(1-3), of ?m 0] c(5) by (auto simp: m cut_queued_eval)
  have "service 0 50 cut_channel ?m = (cut_channel\<lparr>send_due := False\<rparr>, ?m\<lparr>window_used := window_used ?m + 1\<rparr>, [x])"
    using c(4) x(1) by (simp add: service_def)
  from one_drain [OF cut_queued_eval(1,2) c(1-3) this] c(2)
  have o: "outgoing 0 50 cut_queued = (?m\<lparr>window_used := window_used ?m + 1, channels := [cut_channel\<lparr>send_due := False\<rparr>]\<rparr>, [x])" by simp
  show "channels cut_drained = [cut_channel\<lparr>send_due := False\<rparr>]" "closed cut_drained = []" "cwnd cut_drained = CWND_MAX"
    "window_start cut_drained = 0" "window_cut cut_drained = False" "congestion cut_drained = True"
    "data_bytes (snd (outgoing 0 50 cut_queued)) = 1" "window_used cut_drained = 1"
    using x(2) by (simp_all add: cut_drained_def o m cut_queued_eval)
qed

lemma cut_resent:
  "data_bytes (snd (outgoing 100 50 cut_drained)) = 1" "cwnd (fst (outgoing 100 50 cut_drained)) = CWND_MAX div 2"
  "window_start (fst (outgoing 100 50 cut_drained)) = 100"
proof -
  let ?c = "cut_channel\<lparr>send_due := False\<rparr>" and ?m = "roll_window 100 50 cut_drained\<lparr>channels := [], closed := []\<rparr>"
  have c: "buf (ac_outbox ?c) = [65]" "term_flag ?c = None" "\<not> budget_starved ?c" "\<not> send_due ?c" "retx_streak ?c = 0" "last_send ?c = 0"
    by (simp_all add: cut_channel_def mux_channel_new_def)
  have m: "window_start ?m = 100" "window_cut ?m = False" "congestion ?m" "window_used ?m = 0" "cwnd ?m = CWND_MAX"
    by (simp_all add: roll_window_def cut_drained_eval)
  have f: "retx_fires 100 50 ?c" using c(1,5,6) by (simp add: retx_fires_def wants_retx_def backed_off_def backoff_def)
  obtain d n where nr: "note_retx ?c ?m = (d, n)" by force
  have d: "buf (ac_outbox d) = [65]" "term_flag d = None" "\<not> budget_starved d"
    and n: "cwnd n = CWND_MAX div 2" "window_used n = 0" "window_start n = 100"
    using nr c m by (auto simp: note_retx_def Let_def CWND_MAX_def CWND_FLOOR_def MAX_AGENT_CHANNELS_def)
  have pos: "0 < CWND_MAX div 2" by (simp add: CWND_MAX_def MAX_AGENT_CHANNELS_def AGENT_INSTRUCTION_DATA_MAX_def)
  obtain x where x: "emit_instruction 100 d n = (d\<lparr>send_due := False, last_send := 100\<rparr>, n\<lparr>window_used := window_used n + 1\<rparr>, x)"
    "data_bytes [x] = 1" using one_emit [OF d, of n 100] n(1,2) pos by auto
  have "service 100 50 ?c ?m = (d\<lparr>send_due := False, last_send := 100\<rparr>, n\<lparr>window_used := window_used n + 1\<rparr>, [x])"
    using f c(4) m(3) nr x(1) by (simp add: service_def)
  from one_drain [OF cut_drained_eval(1,2) c(1-3) this] d(2) x(2) n
  show "data_bytes (snd (outgoing 100 50 cut_drained)) = 1" "cwnd (fst (outgoing 100 50 cut_drained)) = CWND_MAX div 2"
    "window_start (fst (outgoing 100 50 cut_drained)) = 100" by simp_all
qed

lemma cut_run: "agent_run cut_events (agent_mux_new True Server) = fst (outgoing 100 50 cut_drained)"
  by (simp add: cut_events_def cut_drained_def cut_queued_def)

lemma cut_metered: "metered cut_events (agent_mux_new True Server) (0, 0) = (100, 1)"
  using cut_drained_eval(7) cut_resent(1) by (simp add: cut_events_def cut_drained_def cut_queued_def Let_def)

lemma cut_window: "cwnd (roll_window 120 50 (agent_run cut_events (agent_mux_new True Server))) = CWND_MAX div 2"
  by (simp add: cut_run roll_window_def cut_resent)

theorem agent_window_bounded_witness:
  "data_bytes (snd (outgoing 120 50 (agent_run cut_events (agent_mux_new True Server)))) \<le> CWND_MAX div 2 - 1"
proof -
  have "sorted (map fst cut_events)" by (simp add: cut_events_def)
  from agent_window_bounded [OF refl this cut_metered, where now = 120 and rto = 50]
  show ?thesis unfolding cut_window by (simp add: CWND_MAX_def MAX_AGENT_CHANNELS_def AGENT_INSTRUCTION_DATA_MAX_def)
qed

end
