(* ===== verification/AgentProxy.thy ===== *)
theory AgentProxy
  imports AgentMux Caps
begin

text \<open>
  The client's side of a forwarded agent in \<open>crates/posh/src/remote/agent.rs\<close>: the classification of the
  requests that pass (\<open>OpSniffer\<close>), the notice shown for them (\<open>AgentNotice\<close>), the proxy's table
  of local connections (\<open>AgentClient\<close>), the client's handling of an agent instruction and of the capability
  entries that carry the baseline stream (\<open>remote/client.rs\<close>), and the accept and fail paths of the remote \<open>AgentEndpoint\<close>.
  Sockets are the environment: whether a connect or a write works and what a read returns are arguments.
\<close>

section \<open>Classifying requests\<close>

definition AGENT_NOTICE_INTERVAL_MS :: nat where "AGENT_NOTICE_INTERVAL_MS = 60000"
definition AGENT_REQUEST_HEADER :: nat where "AGENT_REQUEST_HEADER = 5"

datatype agent_op = ListKeys | Sign | AddKey | RemoveKey | RemoveAllKeys | AddSmartcardKey | RemoveSmartcardKey
  | Lock | Unlock | Extension | Other u8

definition classify :: "u8 \<Rightarrow> agent_op" where
  "classify k =
     (if k = 11 then ListKeys else if k = 13 then Sign else if k = 17 \<or> k = 25 then AddKey
      else if k = 18 then RemoveKey else if k = 19 then RemoveAllKeys else if k = 20 \<or> k = 26 then AddSmartcardKey
      else if k = 21 then RemoveSmartcardKey else if k = 22 then Lock else if k = 23 then Unlock
      else if k = 27 then Extension else Other k)"

record op_sniffer =
  sniff_head :: bytes
  sniff_skip :: nat

definition op_sniffer_new :: op_sniffer where "op_sniffer_new = \<lparr>sniff_head = [], sniff_skip = 0\<rparr>"

text \<open>The bytes of a complete header: the body to skip and the request's kind.\<close>

definition header_skip :: "bytes \<Rightarrow> nat" where
  "header_skip h = unat (be_val (take 4 h) :: u32) - 1"

function sniff :: "op_sniffer \<Rightarrow> bytes \<Rightarrow> op_sniffer \<times> agent_op list" where
  "sniff s rest =
     (if rest = [] then (s, [])
      else if sniff_skip s > 0
      then (let n = min (sniff_skip s) (length rest) in sniff (s\<lparr>sniff_skip := sniff_skip s - n\<rparr>) (drop n rest))
      else (let n = min (AGENT_REQUEST_HEADER - length (sniff_head s)) (length rest); h = sniff_head s @ take n rest
        in if length h < AGENT_REQUEST_HEADER then (s\<lparr>sniff_head := h\<rparr>, [])
           else (case sniff \<lparr>sniff_head = [], sniff_skip = header_skip h\<rparr> (drop n rest) of
             (t, ops) \<Rightarrow> (t, classify (h ! 4) # ops))))"
  by pat_completeness auto
termination
  by (relation "measure (\<lambda>(s, rest). 2 * length rest + (if length (sniff_head s) < AGENT_REQUEST_HEADER then 0 else 1))")
    (auto simp: Let_def AGENT_REQUEST_HEADER_def)

declare sniff.simps [simp del]

section \<open>The notice\<close>

record agent_notice =
  silenced :: bool
  last_shown :: "nat option"
  notice_host :: bytes

definition notice_text :: "agent_op \<Rightarrow> bytes" where
  "notice_text op = (case op of
       Sign \<Rightarrow> ascii '' SIGNED with your forwarded ssh key''
     | AddKey \<Rightarrow> ascii '' ADDED a key to your ssh agent''
     | RemoveKey \<Rightarrow> ascii '' REMOVED a key from your ssh agent''
     | RemoveAllKeys \<Rightarrow> ascii '' REMOVED ALL keys from your ssh agent''
     | AddSmartcardKey \<Rightarrow> ascii '' ADDED smartcard keys to your ssh agent''
     | RemoveSmartcardKey \<Rightarrow> ascii '' REMOVED smartcard keys from your ssh agent''
     | Lock \<Rightarrow> ascii '' LOCKED your ssh agent''
     | Unlock \<Rightarrow> ascii '' UNLOCKED your ssh agent''
     | Extension \<Rightarrow> ascii '' sent an ssh-agent extension request '' @ [0xE2, 0x80, 0x94] @ ascii '' this may modify your agent''
     | Other k \<Rightarrow> ascii '' made an unrecognised ssh-agent request (type '' @ decimal_digits (unat k) @ ascii '') '' @ [0xE2, 0x80, 0x94] @
         ascii '' this may modify your agent''
     | ListKeys \<Rightarrow> ascii '' listed your forwarded ssh keys'')"

definition on_request :: "agent_op \<Rightarrow> nat \<Rightarrow> agent_notice \<Rightarrow> agent_notice \<times> bytes option" where
  "on_request op now a =
     (if silenced a then (a, None)
      else if op = ListKeys
      then (if (case last_shown a of Some t \<Rightarrow> now - t \<ge> AGENT_NOTICE_INTERVAL_MS | None \<Rightarrow> True)
            then (a\<lparr>last_shown := Some now\<rparr>, Some (notice_host a @ notice_text op)) else (a, None))
      else (a, Some (notice_host a @ notice_text op)))"

section \<open>The table of local connections\<close>

record local_channel =
  lc_id :: u32
  lc_closed :: bool

definition live_count :: "local_channel list \<Rightarrow> nat" where
  "live_count cs = length (filter (\<lambda>c. \<not> lc_closed c) cs)"

definition reap_closed :: "local_channel list \<Rightarrow> local_channel list" where
  "reap_closed cs = filter (\<lambda>c. \<not> lc_closed c) cs"

definition close_at :: "u32 \<Rightarrow> local_channel list \<Rightarrow> local_channel list" where
  "close_at i cs = (case position (\<lambda>c. lc_id c = i) cs of
       None \<Rightarrow> cs
     | Some k \<Rightarrow> cs[k := (cs ! k)\<lparr>lc_closed := True\<rparr>])"

text \<open>\<open>works\<close>: the write of the record's bytes succeeds.\<close>

definition apply_data_or_close :: "bool \<Rightarrow> agent_record \<Rightarrow> local_channel list \<Rightarrow> local_channel list" where
  "apply_data_or_close works r cs = (case kind r of
       Data \<Rightarrow> if works then cs else close_at (channel r) cs
     | Open \<Rightarrow> cs
     | _ \<Rightarrow> close_at (channel r) cs)"

text \<open>\<open>reads i\<close>: what the reads of connection \<open>i\<close> return until they would block, and whether it then ended.\<close>

fun read_channel_data :: "(u32 \<Rightarrow> bytes list \<times> bool) \<Rightarrow> local_channel list \<Rightarrow> local_channel list \<times> agent_record list" where
  "read_channel_data reads [] = ([], [])"
| "read_channel_data reads (c # cs) = (case read_channel_data reads cs of
     (ds, rs) \<Rightarrow>
       (if lc_closed c then (ds, rs)
        else (case reads (lc_id c) of (bs, ended) \<Rightarrow>
          (if ended then ds else c # ds,
           map (rec_of (lc_id c) Data) bs @ (if ended then [rec_of (lc_id c) Close []] else []) @ rs))))"

section \<open>The client's proxy\<close>

record agent_client =
  proxied :: "local_channel list"
  sniffers :: "(u32 \<times> op_sniffer) list"
  agent_ops :: "agent_op list"

definition agent_client_new :: agent_client where
  "agent_client_new = \<lparr>proxied = [], sniffers = [], agent_ops = []\<rparr>"

definition take_ops :: "agent_client \<Rightarrow> agent_client \<times> agent_op list" where
  "take_ops a = (a\<lparr>agent_ops := []\<rparr>, agent_ops a)"

definition sniff_record :: "agent_record \<Rightarrow> agent_client \<Rightarrow> agent_client" where
  "sniff_record r a = (case position (\<lambda>x. fst x = channel r) (sniffers a) of
       None \<Rightarrow> a
     | Some k \<Rightarrow> (case sniff (snd (sniffers a ! k)) (rec_payload r) of
          (s, ops) \<Rightarrow> a\<lparr>sniffers := (sniffers a)[k := (fst (sniffers a ! k), s)], agent_ops := agent_ops a @ ops\<rparr>))"

text \<open>One record with the outcome of its system call: the connect of an open, the write of data.\<close>

definition apply_record :: "bool \<Rightarrow> agent_record \<Rightarrow> agent_client \<Rightarrow> agent_client \<times> agent_record list" where
  "apply_record works r a = (case kind r of
       Open \<Rightarrow>
         (if live_count (proxied a) \<ge> MAX_AGENT_CHANNELS \<or> \<not> works then (a, [rec_of (channel r) Fail []])
          else (a\<lparr>proxied := proxied a @ [\<lparr>lc_id = channel r, lc_closed = False\<rparr>],
                  sniffers := sniffers a @ [(channel r, op_sniffer_new)]\<rparr>, []))
     | Data \<Rightarrow> (let a = sniff_record r a in (a\<lparr>proxied := apply_data_or_close works r (proxied a)\<rparr>, []))
     | _ \<Rightarrow> (a\<lparr>proxied := apply_data_or_close works r (proxied a)\<rparr>, []))"

fun apply_each :: "(agent_record \<times> bool) list \<Rightarrow> agent_client \<Rightarrow> agent_client \<times> agent_record list" where
  "apply_each [] a = (a, [])"
| "apply_each ((r, works) # rs) a = (case apply_record works r a of
     (a, o1) \<Rightarrow> (case apply_each rs a of (a, o2) \<Rightarrow> (a, o1 @ o2)))"

definition swept :: "agent_client \<Rightarrow> agent_client" where
  "swept a = (let cs = reap_closed (proxied a)
     in a\<lparr>proxied := cs, sniffers := filter (\<lambda>x. \<exists>c \<in> set cs. lc_id c = fst x \<and> \<not> lc_closed c) (sniffers a)\<rparr>)"

definition apply_records :: "(agent_record \<times> bool) list \<Rightarrow> agent_client \<Rightarrow> agent_client \<times> agent_record list" where
  "apply_records rs a = (case apply_each rs a of (a, out) \<Rightarrow> (swept a, out))"

definition client_reads :: "(u32 \<Rightarrow> bytes list \<times> bool) \<Rightarrow> agent_client \<Rightarrow> agent_client \<times> agent_record list" where
  "client_reads reads a = (case read_channel_data reads (proxied a) of (cs, rs) \<Rightarrow> (a\<lparr>proxied := cs\<rparr>, rs))"

definition close_all :: "agent_client \<Rightarrow> agent_client \<times> agent_record list" where
  "close_all a = (swept (a\<lparr>proxied := map (\<lambda>c. c\<lparr>lc_closed := True\<rparr>) (proxied a)\<rparr>),
     map (\<lambda>c. rec_of (lc_id c) Close []) (filter (\<lambda>c. \<not> lc_closed c) (proxied a)))"

section \<open>The remote endpoint\<close>

record agent_endpoint =
  accepted :: "local_channel list"
  next_conn_id :: u32

text \<open>One pending connection; \<open>works\<close>: it could be made non-blocking.\<close>

definition accept_one :: "bool \<Rightarrow> agent_endpoint \<Rightarrow> agent_endpoint \<times> agent_record list" where
  "accept_one works e =
     (if live_count (accepted e) \<ge> MAX_AGENT_CHANNELS \<or> \<not> works then (e, [])
      else (e\<lparr>accepted := accepted e @ [\<lparr>lc_id = next_conn_id e, lc_closed = False\<rparr>], next_conn_id := next_conn_id e + 1\<rparr>,
            [rec_of (next_conn_id e) Open []]))"

fun accept_pending :: "bool list \<Rightarrow> agent_endpoint \<Rightarrow> agent_endpoint \<times> agent_record list" where
  "accept_pending [] e = (e, [])"
| "accept_pending (w # ws) e = (case accept_one w e of
     (e, o1) \<Rightarrow> (case accept_pending ws e of (e, o2) \<Rightarrow> (e, o1 @ o2)))"

definition endpoint_apply :: "(agent_record \<times> bool) list \<Rightarrow> agent_endpoint \<Rightarrow> agent_endpoint" where
  "endpoint_apply rs e = e\<lparr>accepted := reap_closed (fold (\<lambda>(r, works). apply_data_or_close works r) rs (accepted e))\<rparr>"

definition endpoint_reads :: "(u32 \<Rightarrow> bytes list \<times> bool) \<Rightarrow> agent_endpoint \<Rightarrow> agent_endpoint \<times> agent_record list" where
  "endpoint_reads reads e = (case read_channel_data reads (accepted e) of (cs, rs) \<Rightarrow> (e\<lparr>accepted := cs\<rparr>, rs))"

text \<open>The peer has gone: every open connection fails at once.\<close>

definition fast_fail :: "bool \<Rightarrow> agent_endpoint \<Rightarrow> agent_endpoint \<times> agent_record list" where
  "fast_fail peer_active e =
     (if peer_active then (e, [])
      else (e\<lparr>accepted := []\<rparr>, map (\<lambda>c. rec_of (lc_id c) Close []) (filter (\<lambda>c. \<not> lc_closed c) (accepted e))))"

section \<open>The client's handlers\<close>

text \<open>The agent fields of \<open>ClientState\<close>; \<open>banner\<close> is the message the notification line shows.\<close>

record agent_side =
  agent_proxy :: "agent_client option"
  agent_chans :: "agent_mux option"
  baseline_stream :: agent_stream
  use_notice :: "agent_notice option"
  banner :: "bytes option"
  agent_seen :: bool
  enveloped :: bool

definition significance :: "agent_op \<Rightarrow> nat" where
  "significance op = (case op of ListKeys \<Rightarrow> 0 | Sign \<Rightarrow> 2 | _ \<Rightarrow> 1)"

definition surface_one :: "nat \<Rightarrow> agent_op \<Rightarrow> agent_side \<Rightarrow> agent_side" where
  "surface_one now op st = (case use_notice st of
       None \<Rightarrow> st
     | Some a \<Rightarrow> (case on_request op now a of
         (a, None) \<Rightarrow> st\<lparr>use_notice := Some a\<rparr>
       | (a, Some msg) \<Rightarrow> st\<lparr>use_notice := Some a, banner := Some msg\<rparr>))"

definition surface_agent_ops :: "nat \<Rightarrow> agent_op list \<Rightarrow> agent_side \<Rightarrow> agent_side" where
  "surface_agent_ops now ops st = fold (surface_one now) (sort_key significance ops) st"

text \<open>\<open>io k\<close>: whether the system call of the batch's \<open>k\<close>-th record works.\<close>

definition with_outcomes :: "(nat \<Rightarrow> bool) \<Rightarrow> agent_record list \<Rightarrow> (agent_record \<times> bool) list" where
  "with_outcomes io rs = map (\<lambda>k. (rs ! k, io k)) [0..<length rs]"

definition proxy_batch :: "(nat \<Rightarrow> bool) \<Rightarrow> agent_record list \<Rightarrow> agent_client \<Rightarrow> agent_client \<times> agent_record list \<times> agent_op list" where
  "proxy_batch io rs a = (case apply_records (with_outcomes io rs) a of
     (a, replies) \<Rightarrow> (case take_ops a of (a, ops) \<Rightarrow> (a, replies, ops)))"

definition handle_agent_instruction :: "nat \<Rightarrow> (nat \<Rightarrow> bool) \<Rightarrow> channel_id \<Rightarrow> bytes \<Rightarrow> agent_side \<Rightarrow> agent_side" where
  "handle_agent_instruction now io i pl st = (case agent_chans st of
       None \<Rightarrow> st
     | Some m \<Rightarrow> (case on_instruction i pl m of (m, rs) \<Rightarrow>
         (case agent_proxy st of
            None \<Rightarrow> surface_agent_ops now [] (st\<lparr>agent_chans := Some m\<rparr>)
          | Some a \<Rightarrow> (case proxy_batch io rs a of (a, replies, ops) \<Rightarrow>
              surface_agent_ops now ops (st\<lparr>agent_proxy := Some a, agent_chans := Some (queue_records replies m)\<rparr>)))))"

text \<open>The entries of a frame, in order: the proxy, the stream, the requests seen, and whether decoding failed.\<close>

fun consume_data :: "(nat \<Rightarrow> nat \<Rightarrow> bool) \<Rightarrow> nat \<Rightarrow> cap list \<Rightarrow> agent_client \<Rightarrow> agent_stream \<Rightarrow> agent_op list \<Rightarrow>
    agent_client \<times> agent_stream \<times> agent_op list \<times> bool" where
  "consume_data io k [] a s ops = (a, s, ops, False)"
| "consume_data io k (c # cs) a s ops = (case decode_agent_data (payload c) of
       Inl _ \<Rightarrow> (a, s, ops, True)
     | Inr (b, d) \<Rightarrow> (case agent_recv b d s of
         (s, Inl _) \<Rightarrow> (a, s, ops, True)
       | (s, Inr rs) \<Rightarrow> (case proxy_batch (io k) rs a of (a, replies, new) \<Rightarrow>
           consume_data io (Suc k) cs a (fold agent_send replies s) (ops @ new))))"

definition consume_agent_caps :: "nat \<Rightarrow> (nat \<Rightarrow> nat \<Rightarrow> bool) \<Rightarrow> cap list \<Rightarrow> agent_side \<Rightarrow> agent_side" where
  "consume_agent_caps now io cs st = (case agent_proxy st of
       None \<Rightarrow> st
     | Some a \<Rightarrow>
         (if enveloped st then st
          else (case consume_data io 0 (find_all cs CAP_AGENT_DATA) a (baseline_stream st) [] of
            (a, s, ops, failed) \<Rightarrow>
              (let s = (case find_cap cs CAP_AGENT_ACK of
                          None \<Rightarrow> s
                        | Some c \<Rightarrow> (case decode_agent_ack (payload c) of Inl _ \<Rightarrow> s | Inr n \<Rightarrow> agent_ack n s));
                   st = st\<lparr>agent_proxy := Some a, baseline_stream := s,
                           agent_seen := (agent_seen st \<or> find_cap cs CAP_AGENT_FORWARD \<noteq> None)\<rparr>
               in if failed then st\<lparr>agent_proxy := None, agent_seen := False\<rparr> else surface_agent_ops now ops st))))"

end
