(* ===== verification/AgentProxyFacts.thy ===== *)
theory AgentProxyFacts
  imports AgentProxy "HOL-Library.Sublist"
begin

text \<open>
  What the user is told of a forwarded agent: the classifier against a byte-by-byte reference, that every
  request of an open connection is classified, that a signature is shown, how a re-used identifier hides one,
  and the bounds of the connection tables.
\<close>

section \<open>What the sniffer sees\<close>

text \<open>Byte by byte, as a reference.\<close>

definition sniff_byte :: "u8 \<Rightarrow> op_sniffer \<times> agent_op list \<Rightarrow> op_sniffer \<times> agent_op list" where
  "sniff_byte b x = (case x of (s, ops) \<Rightarrow>
     (if sniff_skip s > 0 then (s\<lparr>sniff_skip := sniff_skip s - 1\<rparr>, ops)
      else (let h = sniff_head s @ [b]
        in if length h < AGENT_REQUEST_HEADER then (s\<lparr>sniff_head := h\<rparr>, ops)
           else (\<lparr>sniff_head = [], sniff_skip = header_skip h\<rparr>, ops @ [classify (h ! 4)]))))"

lemma sniff_bytes_skip:
  "length bs \<le> sniff_skip s \<Longrightarrow> fold sniff_byte bs (s, ops) = (s\<lparr>sniff_skip := sniff_skip s - length bs\<rparr>, ops)"
  by (induction bs arbitrary: s) (auto simp: sniff_byte_def)

lemma sniff_bytes_head:
  "sniff_skip s = 0 \<Longrightarrow> length (sniff_head s @ bs) < AGENT_REQUEST_HEADER \<Longrightarrow>
     fold sniff_byte bs (s, ops) = (s\<lparr>sniff_head := sniff_head s @ bs\<rparr>, ops)"
proof (induction bs arbitrary: s)
  case (Cons b bs)
  from Cons.IH [of "s\<lparr>sniff_head := sniff_head s @ [b]\<rparr>"] Cons.prems show ?case by (simp add: sniff_byte_def Let_def)
qed simp

lemma sniff_bytes_header:
  assumes "sniff_skip s = 0" "length (sniff_head s) < AGENT_REQUEST_HEADER" "length (sniff_head s @ bs) = AGENT_REQUEST_HEADER"
  shows "fold sniff_byte bs (s, ops) =
    (\<lparr>sniff_head = [], sniff_skip = header_skip (sniff_head s @ bs)\<rparr>, ops @ [classify ((sniff_head s @ bs) ! 4)])"
proof -
  obtain cs b where bs: "bs = cs @ [b]" using assms(2,3) by (cases bs rule: rev_cases) auto
  have "fold sniff_byte cs (s, ops) = (s\<lparr>sniff_head := sniff_head s @ cs\<rparr>, ops)"
    using assms by (intro sniff_bytes_head) (simp_all add: bs)
  with assms show ?thesis by (simp add: bs sniff_byte_def Let_def)
qed

lemma sniff_ops_append: "fold sniff_byte bs (s, xs @ ys) = (let (t, zs) = fold sniff_byte bs (s, ys) in (t, xs @ zs))"
proof (induction bs arbitrary: s ys)
  case (Cons b bs)
  obtain t zs where "sniff_byte b (s, ys) = (t, zs)" by force
  then have "sniff_byte b (s, xs @ ys) = (t, xs @ zs)" by (auto simp: sniff_byte_def Let_def split: if_splits)
  with Cons.IH \<open>sniff_byte b (s, ys) = (t, zs)\<close> show ?case by simp
qed simp

lemma sniff_bytewise:
  "length (sniff_head s) < AGENT_REQUEST_HEADER \<Longrightarrow> sniff s rest = fold sniff_byte rest (s, []) \<and>
     length (sniff_head (fst (sniff s rest))) < AGENT_REQUEST_HEADER"
proof (induction s rest rule: sniff.induct)
  case (1 s rest)
  consider "rest = []" | "rest \<noteq> []" "sniff_skip s > 0" | "rest \<noteq> []" "sniff_skip s = 0" by auto
  then show ?case
  proof cases
    case 1
    then show ?thesis using 1 "1.prems" by (simp add: sniff.simps)
  next
    case 2
    define n where "n = min (sniff_skip s) (length rest)"
    have "fold sniff_byte rest (s, []) = fold sniff_byte (drop n rest) (fold sniff_byte (take n rest) (s, []))"
      by (simp flip: fold_append [unfolded o_def, THEN fun_cong])
    moreover have "fold sniff_byte (take n rest) (s, []) = (s\<lparr>sniff_skip := sniff_skip s - n\<rparr>, [])"
      by (subst sniff_bytes_skip) (simp_all add: n_def)
    moreover have "sniff s rest = sniff (s\<lparr>sniff_skip := sniff_skip s - n\<rparr>) (drop n rest)"
      using 2 by (subst sniff.simps) (simp add: n_def Let_def)
    moreover have "length (sniff_head (s\<lparr>sniff_skip := sniff_skip s - n\<rparr>)) < AGENT_REQUEST_HEADER"
      using "1.prems" by simp
    ultimately show ?thesis using "1.IH"(1) [OF 2 n_def] by metis
  next
    case 3
    define n where "n = min (AGENT_REQUEST_HEADER - length (sniff_head s)) (length rest)"
    define h where "h = sniff_head s @ take n rest"
    have split: "fold sniff_byte rest (s, []) = fold sniff_byte (drop n rest) (fold sniff_byte (take n rest) (s, []))"
      by (simp flip: fold_append [unfolded o_def, THEN fun_cong])
    show ?thesis
    proof (cases "length h < AGENT_REQUEST_HEADER")
      case True
      then have "n = length rest" using "1.prems" by (auto simp: h_def n_def min_def split: if_splits)
      moreover have "sniff s rest = (s\<lparr>sniff_head := h\<rparr>, [])"
        using 3 True by (subst sniff.simps) (simp only: Let_def n_def [symmetric] h_def [symmetric], simp)
      ultimately show ?thesis using True 3 sniff_bytes_head [of s rest "[]"] by (simp add: h_def)
    next
      case False
      let ?t = "\<lparr>sniff_head = [], sniff_skip = header_skip h\<rparr>"
      have l: "length (sniff_head s @ take n rest) = AGENT_REQUEST_HEADER" using False "1.prems" by (simp add: h_def n_def)
      have "sniff s rest = (case sniff ?t (drop n rest) of (t, ops) \<Rightarrow> (t, classify (h ! 4) # ops))"
        using 3 False by (subst sniff.simps) (simp only: Let_def n_def [symmetric] h_def [symmetric], simp)
      moreover have "sniff ?t (drop n rest) = fold sniff_byte (drop n rest) (?t, []) \<and> length (sniff_head (fst (sniff ?t (drop n rest)))) < AGENT_REQUEST_HEADER"
        by (rule "1.IH"(2) [OF 3(1) _ n_def h_def False]) (use 3 in \<open>simp_all add: AGENT_REQUEST_HEADER_def\<close>)
      moreover have "fold sniff_byte (take n rest) (s, []) = (?t, [classify (h ! 4)])"
        using sniff_bytes_header [OF _ "1.prems" l, of "[]"] 3 by (simp add: h_def)
      ultimately show ?thesis
        using split sniff_ops_append [of "drop n rest" ?t "[classify (h ! 4)]" "[]"] by (auto split: prod.splits)
    qed
  qed
qed


text \<open>A whole request: its length, its type and its body.\<close>

definition agent_request :: "u8 \<times> bytes \<Rightarrow> bytes" where
  "agent_request q = be_bytes 4 (of_nat (Suc (length (snd q))) :: u32) @ [fst q] @ snd q"

lemma sniff_request:
  assumes "Suc (length (snd q)) < 2 ^ 32"
  shows "fold sniff_byte (agent_request q) (op_sniffer_new, ops) = (op_sniffer_new, ops @ [classify (fst q)])"
proof -
  let ?h = "be_bytes 4 (of_nat (Suc (length (snd q))) :: u32) @ [fst q]"
  have u: "unat (of_nat (Suc (length (snd q))) :: u32) = Suc (length (snd q))"
    using assms by (intro unat_of_nat_small) simp
  have skip: "header_skip ?h = length (snd q)" using u by (simp add: header_skip_def)
  have "fold sniff_byte ?h (op_sniffer_new, ops) = (\<lparr>sniff_head = [], sniff_skip = length (snd q)\<rparr>, ops @ [classify (fst q)])"
    using sniff_bytes_header [of op_sniffer_new ?h ops] skip
    by (simp add: op_sniffer_new_def AGENT_REQUEST_HEADER_def nth_append)
  moreover have "agent_request q = ?h @ snd q" by (simp add: agent_request_def)
  ultimately show ?thesis using sniff_bytes_skip [of "snd q" "\<lparr>sniff_head = [], sniff_skip = length (snd q)\<rparr>"]
    by (simp add: op_sniffer_new_def)
qed

lemma sniff_requests:
  "\<forall>q \<in> set qs. Suc (length (snd q)) < 2 ^ 32 \<Longrightarrow>
     fold sniff_byte (concat (map agent_request qs)) (op_sniffer_new, ops) = (op_sniffer_new, ops @ map (classify \<circ> fst) qs)"
  by (induction qs arbitrary: ops) (simp_all add: sniff_request)

section \<open>Every request is classified\<close>

definition sniffing :: "u32 \<Rightarrow> agent_client \<Rightarrow> op_sniffer \<Rightarrow> bool" where
  "sniffing i a s \<longleftrightarrow> map_of (sniffers a) i = Some s \<and> length (sniff_head s) < AGENT_REQUEST_HEADER"

text \<open>The bytes a batch carries for one connection.\<close>

definition bytes_for :: "u32 \<Rightarrow> (agent_record \<times> bool) list \<Rightarrow> bytes" where
  "bytes_for i rs = concat (map (\<lambda>(r, _). if channel r = i \<and> kind r = Data then rec_payload r else []) rs)"

lemma position_map_of:
  "position (\<lambda>x. fst x = i) xs = Some k \<Longrightarrow> k < length xs \<and> fst (xs ! k) = i \<and> map_of xs i = Some (snd (xs ! k)) \<and>
     (\<forall>s j. map_of (xs[k := (i, s)]) j = ((map_of xs)(i \<mapsto> s)) j)"
  by (induction xs arbitrary: k) (auto split: if_splits)

lemma sniff_record_client:
  assumes "sniffing i a s" "fold sniff_byte (bytes_for i [(r, w)]) (s, []) = (s', own)" "kind r = Data"
  shows "sniffing i (sniff_record r a) s' \<and> (\<exists>ops. agent_ops (sniff_record r a) = agent_ops a @ ops \<and> subseq own ops)"
proof (cases "position (\<lambda>x. fst x = channel r) (sniffers a)")
  case None
  then have a: "sniff_record r a = a" by (simp add: sniff_record_def del: position_None_iff)
  from None have "map_of (sniffers a) (channel r) = None" by (auto simp: map_of_eq_None_iff)
  with assms have "channel r \<noteq> i" by (auto simp: sniffing_def)
  with assms show ?thesis by (simp add: a bytes_for_def)
next
  case (Some k)
  from position_map_of [OF this] have k: "k < length (sniffers a)" "fst (sniffers a ! k) = channel r"
    "map_of (sniffers a) (channel r) = Some (snd (sniffers a ! k))"
    "\<And>s j. map_of ((sniffers a)[k := (channel r, s)]) j = ((map_of (sniffers a))(channel r \<mapsto> s)) j" by simp_all
  obtain t ops where t: "sniff (snd (sniffers a ! k)) (rec_payload r) = (t, ops)" by force
  have a: "sniff_record r a = a\<lparr>sniffers := (sniffers a)[k := (channel r, t)], agent_ops := agent_ops a @ ops\<rparr>"
    using Some t k(2) by (simp add: sniff_record_def)
  show ?thesis
  proof (cases "channel r = i")
    case True
    with assms k have s: "snd (sniffers a ! k) = s" "length (sniff_head s) < AGENT_REQUEST_HEADER" by (auto simp: sniffing_def)
    have o: "sniff s (rec_payload r) = (s', own)"
      using sniff_bytewise [OF s(2), of "rec_payload r"] assms(2,3) True by (simp add: bytes_for_def)
    then have "length (sniff_head s') < AGENT_REQUEST_HEADER"
      using sniff_bytewise [OF s(2), of "rec_payload r"] by (metis fst_conv)
    moreover from o t s have "t = s'" "ops = own" by auto
    ultimately have "t = s'" "ops = own" "length (sniff_head s') < AGENT_REQUEST_HEADER" by blast+
    with a k True show ?thesis by (simp add: sniffing_def)
  next
    case False
    with assms have "s' = s" "own = []" by (simp_all add: bytes_for_def)
    with a k False assms(1) show ?thesis by (simp add: sniffing_def)
  qed
qed

lemma apply_record_client:
  assumes "sniffing i a s" "fold sniff_byte (bytes_for i [(r, w)]) (s, []) = (s', own)" "apply_record w r a = (a', out)"
  shows "sniffing i a' s' \<and> (\<exists>ops. agent_ops a' = agent_ops a @ ops \<and> subseq own ops)"
proof (cases "kind r = Data")
  case True
  then show ?thesis using sniff_record_client [OF assms(1,2)] assms(3)
    by (auto simp: apply_record_def Let_def sniffing_def)
next
  case False
  with assms(2) have "s' = s" "own = []" by (simp_all add: bytes_for_def)
  with assms(1,3) False show ?thesis
    by (cases "kind r") (auto simp: apply_record_def sniffing_def map_add_def split: if_splits option.splits)
qed

lemma apply_each_client:
  assumes "sniffing i a s" "fold sniff_byte (bytes_for i rs) (s, []) = (s', own)" "apply_each rs a = (a', out)"
  shows "sniffing i a' s' \<and> (\<exists>ops. agent_ops a' = agent_ops a @ ops \<and> subseq own ops)"
  using assms
proof (induction rs arbitrary: a s own out)
  case (Cons x rs)
  obtain r w where x: "x = (r, w)" by force
  obtain a1 o1 where a1: "apply_record w r a = (a1, o1)" by force
  obtain s1 own1 where s1: "fold sniff_byte (bytes_for i [(r, w)]) (s, []) = (s1, own1)" by force
  have split: "bytes_for i (x # rs) = bytes_for i [(r, w)] @ bytes_for i rs" by (simp add: bytes_for_def x)
  obtain own2 where own: "fold sniff_byte (bytes_for i rs) (s1, []) = (s', own2)" "own = own1 @ own2"
    using Cons.prems(2) s1 sniff_ops_append [of "bytes_for i rs" s1 own1 "[]"] by (auto simp: split split: prod.splits)
  obtain o2 where a': "apply_each rs a1 = (a', o2)" using Cons.prems(3) a1 by (auto simp: x split: prod.splits)
  from apply_record_client [OF Cons.prems(1) s1 a1] obtain ops1 where
    1: "sniffing i a1 s1" "agent_ops a1 = agent_ops a @ ops1" "subseq own1 ops1" by blast
  from Cons.IH [OF 1(1) own(1) a'] obtain ops2 where
    2: "sniffing i a' s'" "agent_ops a' = agent_ops a1 @ ops2" "subseq own2 ops2" by blast
  with 1 own(2) show ?case by (auto intro!: exI [of _ "ops1 @ ops2"] list_emb_append_mono)
qed (simp add: bytes_for_def)

text \<open>What may happen to a proxy, with the log of the operations taken from it.\<close>

datatype proxy_event = ApplyBatch "(agent_record \<times> bool) list" | ReadLocal "u32 \<Rightarrow> bytes list \<times> bool" | TakeOps

fun proxy_step :: "proxy_event \<Rightarrow> agent_client \<times> agent_op list \<Rightarrow> agent_client \<times> agent_op list" where
  "proxy_step (ApplyBatch rs) (a, log) = (fst (apply_records rs a), log)"
| "proxy_step (ReadLocal reads) (a, log) = (fst (client_reads reads a), log)"
| "proxy_step TakeOps (a, log) = (case take_ops a of (a, ops) \<Rightarrow> (a, log @ ops))"

fun step_bytes :: "u32 \<Rightarrow> proxy_event \<Rightarrow> bytes" where
  "step_bytes i (ApplyBatch rs) = bytes_for i rs"
| "step_bytes i _ = []"

definition connected :: "u32 \<Rightarrow> agent_client \<Rightarrow> bool" where
  "connected i a \<longleftrightarrow> (\<exists>c \<in> set (proxied a). lc_id c = i)"

fun stays_open :: "u32 \<Rightarrow> proxy_event list \<Rightarrow> agent_client \<times> agent_op list \<Rightarrow> bool" where
  "stays_open i [] x = True"
| "stays_open i (p # ps) x = (connected i (fst (proxy_step p x)) \<and> stays_open i ps (proxy_step p x))"

lemma map_of_filter_key: "P i \<Longrightarrow> map_of (filter (\<lambda>x. P (fst x)) xs) i = map_of xs i"
  by (induction xs) auto

lemma swept_sniffing: "sniffing i (swept a) s \<longleftrightarrow> sniffing i a s" if "connected i (swept a)"
proof -
  let ?P = "\<lambda>j. \<exists>c \<in> set (reap_closed (proxied a)). lc_id c = j \<and> \<not> lc_closed c"
  have "?P i" using that by (auto simp: connected_def swept_def Let_def reap_closed_def)
  from map_of_filter_key [of ?P, OF this, of "sniffers a"] show ?thesis by (simp add: sniffing_def swept_def Let_def)
qed

lemma proxy_step_client:
  assumes "sniffing i a s" "fold sniff_byte (step_bytes i p) (s, []) = (s', own)"
    and "proxy_step p (a, log) = (a', log')" "connected i a'"
  shows "sniffing i a' s' \<and> (\<exists>ops. log' @ agent_ops a' = log @ agent_ops a @ ops \<and> subseq own ops)"
proof (cases p)
  case (ApplyBatch rs)
  obtain a1 out where a1: "apply_each rs a = (a1, out)" by force
  have a': "a' = swept a1" "log' = log" using assms(3) a1 by (simp_all add: ApplyBatch apply_records_def)
  from apply_each_client [OF assms(1) assms(2) [unfolded ApplyBatch step_bytes.simps] a1] obtain ops where
    "sniffing i a1 s'" "agent_ops a1 = agent_ops a @ ops" "subseq own ops" by blast
  moreover have "agent_ops (swept a1) = agent_ops a1" by (simp add: swept_def Let_def)
  ultimately show ?thesis using swept_sniffing [of i a1 s'] assms(4) a' by auto
next
  case (ReadLocal reads)
  with assms show ?thesis by (auto simp: client_reads_def sniffing_def split: prod.splits)
next
  case TakeOps
  with assms show ?thesis by (auto simp: take_ops_def sniffing_def)
qed

lemma proxy_run_client:
  assumes "sniffing i a s" "fold sniff_byte (concat (map (step_bytes i) ps)) (s, []) = (s', own)"
    and "fold proxy_step ps (a, log) = (a', log')" "stays_open i ps (a, log)"
  shows "sniffing i a' s' \<and> (\<exists>ops. log' @ agent_ops a' = log @ agent_ops a @ ops \<and> subseq own ops)"
  using assms
proof (induction ps arbitrary: a log s own)
  case (Cons p ps)
  obtain a1 log1 where a1: "proxy_step p (a, log) = (a1, log1)" by force
  obtain s1 own1 where s1: "fold sniff_byte (step_bytes i p) (s, []) = (s1, own1)" by force
  obtain own2 where own: "fold sniff_byte (concat (map (step_bytes i) ps)) (s1, []) = (s', own2)" "own = own1 @ own2"
    using Cons.prems(2) s1 sniff_ops_append [of "concat (map (step_bytes i) ps)" s1 own1 "[]"]
    by (auto split: prod.splits)
  have "connected i a1" "stays_open i ps (a1, log1)" using Cons.prems(4) a1 by simp_all
  from proxy_step_client [OF Cons.prems(1) s1 a1 this(1)] obtain ops1 where
    1: "sniffing i a1 s1" "log1 @ agent_ops a1 = log @ agent_ops a @ ops1" "subseq own1 ops1" by blast
  have "fold proxy_step ps (a1, log1) = (a', log')" using Cons.prems(3) a1 by simp
  from Cons.IH [OF 1(1) own(1) this \<open>stays_open i ps (a1, log1)\<close>] obtain ops2 where
    2: "sniffing i a' s'" "log' @ agent_ops a' = log1 @ agent_ops a1 @ ops2" "subseq own2 ops2" by blast
  then have "log' @ agent_ops a' = log @ agent_ops a @ ops1 @ ops2"
    using 1(2) by (metis append.assoc)
  with 1 2 own(2) show ?case by (meson list_emb_append_mono)
qed simp

text \<open>
  C33. No request goes unclassified: while a connection opened with a fresh classifier stays open, whatever
  else happens to the proxy and however its bytes are cut into records, the operations taken from the proxy
  contain, in order, the operation of every request the remote has sent on it.
\<close>

theorem agent_requests_classified:
  assumes "map_of (sniffers a) i = Some op_sniffer_new" "agent_ops a = []"
    and "stays_open i ps (a, [])"
    and "concat (map (step_bytes i) ps) = concat (map agent_request qs) @ part"
    and "\<forall>q \<in> set qs. Suc (length (snd q)) < 2 ^ 32"
    and "fold proxy_step ps (a, []) = (a', log)"
  shows "subseq (map (classify \<circ> fst) qs) (log @ agent_ops a')"
proof -
  have s: "sniffing i a op_sniffer_new" using assms(1) by (simp add: sniffing_def op_sniffer_new_def AGENT_REQUEST_HEADER_def)
  obtain s' own where o: "fold sniff_byte part (op_sniffer_new, []) = (s', own)" by force
  have "fold sniff_byte (concat (map (step_bytes i) ps)) (op_sniffer_new, []) = (s', map (classify \<circ> fst) qs @ own)"
    using sniff_ops_append [of part op_sniffer_new "map (classify \<circ> fst) qs" "[]"] o
    by (simp add: assms(4) sniff_requests [OF assms(5)])
  from proxy_run_client [OF s this assms(6,3)] assms(2) obtain ops where
    "log @ agent_ops a' = ops" "subseq (map (classify \<circ> fst) qs @ own) ops" by auto
  then show ?thesis by (auto dest!: list_emb_appendD intro: list_emb_prefix)
qed


lemma agent_requests_classified_witness:
  "\<exists>a i ps log a'. map_of (sniffers a) i = Some op_sniffer_new \<and> stays_open i ps (a, []) \<and>
     fold proxy_step ps (a, []) = (a', log) \<and> concat (map (step_bytes i) ps) = [0, 0, 0, 1, 11, 0, 0, 0, 3, 13, 7, 8, 0] \<and>
     subseq [ListKeys, Sign] (log @ agent_ops a')"
proof -
  let ?a = "\<lparr>proxied = [\<lparr>lc_id = 5, lc_closed = False\<rparr>], sniffers = [(5, op_sniffer_new)], agent_ops = []\<rparr> :: agent_client"
  let ?ps = "[ApplyBatch [(rec_of 5 Data [0, 0, 0, 1, 11, 0, 0], True)], TakeOps,
     ApplyBatch [(rec_of 6 Open [], False), (rec_of 5 Data [0, 3, 13, 7, 8, 0], True)]]"
  let ?qs = "[(11, []), (13, [7, 8])] :: (u8 \<times> bytes) list"
  have n1: "sniff op_sniffer_new [0, 0, 0, 1, 11, 0, 0] = (\<lparr>sniff_head = [0, 0], sniff_skip = 0\<rparr>, [ListKeys])"
    by (simp add: sniff_bytewise op_sniffer_new_def sniff_byte_def header_skip_def be_val_def classify_def AGENT_REQUEST_HEADER_def)
  have n2: "sniff \<lparr>sniff_head = [0, 0], sniff_skip = 0\<rparr> [0, 3, 13, 7, 8, 0] = (\<lparr>sniff_head = [0], sniff_skip = 0\<rparr>, [Sign])"
    by (simp add: sniff_bytewise sniff_byte_def header_skip_def be_val_def classify_def AGENT_REQUEST_HEADER_def)
  let ?c = "\<lparr>lc_id = 5, lc_closed = False\<rparr> :: local_channel"
  let ?b = "\<lambda>h ops. \<lparr>proxied = [?c], sniffers = [(5, \<lparr>sniff_head = h, sniff_skip = 0\<rparr>)], agent_ops = ops\<rparr> :: agent_client"
  note defs = apply_records_def apply_record_def swept_def reap_closed_def live_count_def MAX_AGENT_CHANNELS_def rec_of_def
    Let_def sniff_record_def apply_data_or_close_def
  have e1: "proxy_step (ApplyBatch [(rec_of 5 Data [0, 0, 0, 1, 11, 0, 0], True)]) (?a, []) = (?b [0, 0] [ListKeys], [])"
    by (simp add: defs n1)
  have e2: "proxy_step TakeOps (?b [0, 0] [ListKeys], []) = (?b [0, 0] [], [ListKeys])"
    by (simp add: take_ops_def)
  have e3: "proxy_step (ApplyBatch [(rec_of 6 Open [], False), (rec_of 5 Data [0, 3, 13, 7, 8, 0], True)]) (?b [0, 0] [], [ListKeys]) =
      (?b [0] [Sign], [ListKeys])"
    by (simp add: defs n2)
  have open5: "stays_open 5 ?ps (?a, [])" unfolding stays_open.simps e1 e2 e3 by (simp add: connected_def)
  have b: "concat (map (step_bytes 5) ?ps) = concat (map agent_request ?qs) @ [0]"
    by (simp add: bytes_for_def rec_of_def agent_request_def be_bytes_def le_bytes_def upt_rec)
  obtain a' log where r: "fold proxy_step ?ps (?a, []) = (a', log)" by (metis surj_pair)
  from agent_requests_classified [OF _ _ open5 b _ r] have "subseq [ListKeys, Sign] (log @ agent_ops a')"
    by (simp add: classify_def)
  moreover have "concat (map (step_bytes 5) ?ps) = [0, 0, 0, 1, 11, 0, 0, 0, 3, 13, 7, 8, 0]"
    by (simp add: bytes_for_def rec_of_def)
  moreover have "map_of (sniffers ?a) 5 = Some op_sniffer_new" by simp
  ultimately show ?thesis using open5 r by blast
qed

section \<open>The notice shown\<close>

lemma surface_one_loud:
  assumes "use_notice st = Some n" "\<not> silenced n" "op \<noteq> ListKeys"
  shows "use_notice (surface_one now op st) = Some n \<and> banner (surface_one now op st) = Some (notice_host n @ notice_text op)"
  using assms by (simp add: surface_one_def on_request_def)

lemma surface_one_notice:
  "use_notice (surface_one now op st) = map_option (\<lambda>n. fst (on_request op now n)) (use_notice st)"
  by (auto simp: surface_one_def split: option.splits prod.splits)

lemma on_request_keeps:
  "silenced (fst (on_request op now n)) = silenced n" "notice_host (fst (on_request op now n)) = notice_host n"
  by (simp_all add: on_request_def)

lemma surface_keeps:
  assumes "use_notice st = Some n"
  shows "\<exists>n'. use_notice (fold (surface_one now) ops st) = Some n' \<and> silenced n' = silenced n \<and> notice_host n' = notice_host n"
  using assms
proof (induction ops arbitrary: st n)
  case (Cons op ops)
  have "use_notice (surface_one now op st) = Some (fst (on_request op now n))"
    using Cons.prems by (simp add: surface_one_notice)
  from Cons.IH [OF this] show ?case by (simp add: on_request_keeps)
qed simp

text \<open>
  C34. The banner a batch leaves is that of its gravest request: a signature is shown whatever else the batch
  holds, a change to the agent is shown unless there is a signature, and the rate limit of the listings never
  hides either.
\<close>

theorem gravest_request_shown:
  assumes "use_notice st = Some n" "\<not> silenced n" "op \<in> set ops" "op \<noteq> ListKeys"
  shows "\<exists>top \<in> set ops. significance op \<le> significance top \<and>
    banner (surface_agent_ops now ops st) = Some (notice_host n @ notice_text top)"
proof -
  let ?l = "sort_key significance ops"
  have ne: "?l \<noteq> []" using assms(3) by (metis length_pos_if_in_set length_sort length_greater_0_conv)
  then have l: "?l = butlast ?l @ [last ?l]" by simp
  have "sorted (map significance (butlast ?l @ [last ?l]))" using l by (metis sorted_sort_key)
  then have "\<forall>x \<in> set (butlast ?l). significance x \<le> significance (last ?l)" by (simp only: map_append sorted_append) simp
  moreover have "op \<in> set (butlast ?l) \<or> op = last ?l" using assms(3) l
    by (metis Un_iff empty_iff empty_set list.simps(15) set_append set_sort insert_iff)
  ultimately have top: "significance op \<le> significance (last ?l)" by auto
  moreover have "significance op > 0" using assms(4) by (cases op) (simp_all add: significance_def)
  ultimately have loud: "last ?l \<noteq> ListKeys" by (auto simp: significance_def)
  obtain n' where n': "use_notice (fold (surface_one now) (butlast ?l) st) = Some n'" "silenced n' = silenced n"
    "notice_host n' = notice_host n" using surface_keeps [OF assms(1)] by blast
  have "surface_agent_ops now ops st = surface_one now (last ?l) (fold (surface_one now) (butlast ?l) st)"
    unfolding surface_agent_ops_def by (subst l) (simp del: append_butlast_last_id)
  with surface_one_loud [OF n'(1) _ loud, of now] n' assms(2)
  have "banner (surface_agent_ops now ops st) = Some (notice_host n @ notice_text (last ?l))" by simp
  moreover have "last ?l \<in> set ops" using ne by (metis last_in_set set_sort)
  ultimately show ?thesis using top by blast
qed


lemma gravest_request_shown_witness:
  "\<exists>st n top. use_notice st = Some n \<and> \<not> silenced n \<and> top \<in> set [Sign, ListKeys] \<and> significance Sign \<le> significance top \<and>
     banner (surface_agent_ops 5 [Sign, ListKeys] st) = Some (notice_host n @ notice_text top)"
proof -
  let ?n = "\<lparr>silenced = False, last_shown = None, notice_host = [0x68]\<rparr>"
  let ?st = "\<lparr>agent_proxy = None, agent_chans = None, baseline_stream = agent_new, use_notice = Some ?n, banner = None,
     agent_seen = False, enveloped = False\<rparr>"
  have "use_notice ?st = Some ?n" "\<not> silenced ?n" "Sign \<in> set [Sign, ListKeys]" "Sign \<noteq> ListKeys" by simp_all
  from gravest_request_shown [OF this, of 5] this(1,2) show ?thesis by blast
qed

section \<open>A re-used identifier\<close>

text \<open>
  C35. A server on the baseline stream that opens one identifier twice and closes it once leaves the second
  connection under the first one's classifier, which it has told to skip four gigabytes: a signature request
  then reaches the agent on a live connection and is not classified, so it is not announced.
\<close>

theorem reopened_channel_hides_signature:
  assumes "length body < 2 ^ 32 - 6"
    and "fold proxy_step
      [ApplyBatch [(rec_of 1 Open [], True), (rec_of 1 Open [], True), (rec_of 1 Data [255, 255, 255, 255, 11], True),
         (rec_of 1 Close [], True)],
       ApplyBatch [(rec_of 1 Data (agent_request (13, body)), True)]] (agent_client_new, []) = (a, log)"
  shows "classify 13 = Sign \<and> log @ agent_ops a = [ListKeys] \<and> connected 1 a"
proof -
  let ?s = "\<lparr>sniff_head = [], sniff_skip = 2 ^ 32 - 2\<rparr>"
  let ?t = "?s\<lparr>sniff_skip := 2 ^ 32 - 2 - length (agent_request (13, body))\<rparr>"
  let ?c = "\<lparr>lc_id = 1, lc_closed = False\<rparr> :: local_channel"
  let ?b = "\<lambda>s. \<lparr>proxied = [?c], sniffers = [(1, s), (1, op_sniffer_new)], agent_ops = [ListKeys]\<rparr> :: agent_client"
  have n1: "sniff op_sniffer_new [255, 255, 255, 255, 11] = (?s, [ListKeys])"
    by (simp add: sniff_bytewise op_sniffer_new_def sniff_byte_def header_skip_def be_val_def classify_def AGENT_REQUEST_HEADER_def)
  have "length (agent_request (13, body)) \<le> 2 ^ 32 - 2" using assms(1) by (simp add: agent_request_def)
  then have n2: "sniff ?s (agent_request (13, body)) = (?t, [])"
    using sniff_bytewise [of ?s "agent_request (13, body)"] sniff_bytes_skip [of "agent_request (13, body)" ?s "[]"]
    by (simp add: AGENT_REQUEST_HEADER_def)
  note defs = apply_records_def apply_record_def swept_def reap_closed_def live_count_def MAX_AGENT_CHANNELS_def rec_of_def
    Let_def sniff_record_def apply_data_or_close_def close_at_def agent_client_new_def
  have e1: "proxy_step (ApplyBatch [(rec_of 1 Open [], True), (rec_of 1 Open [], True), (rec_of 1 Data [255, 255, 255, 255, 11], True),
         (rec_of 1 Close [], True)]) (agent_client_new, []) = (?b ?s, [])"
    by (simp add: defs n1 conj_disj_distribR ex_disj_distrib)
  have e2: "proxy_step (ApplyBatch [(rec_of 1 Data (agent_request (13, body)), True)]) (?b ?s, []) = (?b ?t, [])"
    using n2 by (simp add: defs)
  have "(a, log) = (?b ?t, [])" using assms(2) e1 e2 by (simp only: fold_simps)
  then show ?thesis by (simp add: connected_def classify_def)
qed

lemma reopened_channel_hides_signature_witness:
  "\<exists>a log. fold proxy_step
      [ApplyBatch [(rec_of 1 Open [], True), (rec_of 1 Open [], True), (rec_of 1 Data [255, 255, 255, 255, 11], True),
         (rec_of 1 Close [], True)],
       ApplyBatch [(rec_of 1 Data (agent_request (13, [1, 2])), True)]] (agent_client_new, []) = (a, log) \<and>
     log @ agent_ops a = [ListKeys] \<and> connected 1 a"
proof -
  obtain a log where r: "fold proxy_step
      [ApplyBatch [(rec_of 1 Open [], True), (rec_of 1 Open [], True), (rec_of 1 Data [255, 255, 255, 255, 11], True),
         (rec_of 1 Close [], True)],
       ApplyBatch [(rec_of 1 Data (agent_request (13, [1, 2])), True)]] (agent_client_new, []) = (a, log)"
    by (metis surj_pair)
  from reopened_channel_hides_signature [OF _ r] have "log @ agent_ops a = [ListKeys] \<and> connected 1 a" by simp
  with r show ?thesis by blast
qed

section \<open>Bounds of the tables\<close>

lemma live_close_at: "live_count (close_at i cs) \<le> live_count cs"
proof (cases "position (\<lambda>c. lc_id c = i) cs")
  case (Some k)
  then have k: "k < length cs" by (blast dest: position_SomeD)
  have "live_count (take k cs @ (cs ! k)\<lparr>lc_closed := True\<rparr> # drop (Suc k) cs) \<le> live_count (take k cs @ cs ! k # drop (Suc k) cs)"
    by (simp add: live_count_def)
  with k Some show ?thesis by (simp add: close_at_def upd_conv_take_nth_drop id_take_nth_drop [symmetric])
qed (simp add: close_at_def del: position_None_iff)

lemma live_apply_data: "live_count (apply_data_or_close w r cs) \<le> live_count cs"
  by (simp add: apply_data_or_close_def live_close_at split: record_kind.splits)

lemma sniff_record_proxied [simp]: "proxied (sniff_record r a) = proxied a"
  by (simp add: sniff_record_def split: option.splits prod.splits)

lemma apply_record_bounded:
  assumes "live_count (proxied a) \<le> MAX_AGENT_CHANNELS"
  shows "live_count (proxied (fst (apply_record w r a))) \<le> MAX_AGENT_CHANNELS"
proof (cases "kind r = Open")
  case True
  with assms show ?thesis by (simp add: apply_record_def) (simp add: live_count_def)
next
  case False
  with assms live_apply_data [of w r "proxied a"] show ?thesis
    by (cases "kind r") (auto simp: apply_record_def Let_def intro: order_trans)
qed

lemma apply_each_bounded:
  "live_count (proxied a) \<le> MAX_AGENT_CHANNELS \<Longrightarrow> live_count (proxied (fst (apply_each rs a))) \<le> MAX_AGENT_CHANNELS"
proof (induction rs a rule: apply_each.induct)
  case (2 r w rs a)
  obtain a1 o1 where a1: "apply_record w r a = (a1, o1)" by force
  with apply_record_bounded [OF 2(2), of w r] have "live_count (proxied a1) \<le> MAX_AGENT_CHANNELS" by simp
  from 2(1) [OF a1 [symmetric] this] a1 show ?case by (simp add: case_prod_unfold)
qed simp

definition table_ok :: "local_channel list \<Rightarrow> bool" where
  "table_ok cs \<longleftrightarrow> length cs \<le> MAX_AGENT_CHANNELS \<and> (\<forall>c \<in> set cs. \<not> lc_closed c)"

lemma table_ok_live: "table_ok cs \<Longrightarrow> live_count cs \<le> MAX_AGENT_CHANNELS"
  by (auto simp: table_ok_def live_count_def intro: order_trans [OF length_filter_le])

lemma reap_ok: "live_count cs \<le> MAX_AGENT_CHANNELS \<Longrightarrow> table_ok (reap_closed cs)"
  by (auto simp: table_ok_def live_count_def reap_closed_def)

lemma reads_ok: "table_ok cs \<Longrightarrow> table_ok (fst (read_channel_data reads cs))"
proof -
  have "length (fst (read_channel_data reads cs)) \<le> length cs \<and> set (fst (read_channel_data reads cs)) \<subseteq> set cs"
    by (induction cs) (auto split: prod.splits)
  then show "table_ok cs \<Longrightarrow> ?thesis" by (auto simp: table_ok_def)
qed

lemma proxy_step_ok: "table_ok (proxied (fst x)) \<Longrightarrow> table_ok (proxied (fst (proxy_step p x)))"
proof (cases p)
  case (ApplyBatch rs)
  obtain a log where x: "x = (a, log)" by force
  assume "table_ok (proxied (fst x))"
  then have "live_count (proxied (fst (apply_each rs a))) \<le> MAX_AGENT_CHANNELS"
    using apply_each_bounded table_ok_live x by simp
  from reap_ok [OF this] show ?thesis
    by (simp add: ApplyBatch x apply_records_def swept_def Let_def case_prod_unfold)
next
  case (ReadLocal reads)
  obtain a log where x: "x = (a, log)" by force
  assume "table_ok (proxied (fst x))"
  with reads_ok [of "proxied a" reads] show ?thesis
    by (simp add: ReadLocal x client_reads_def case_prod_unfold)
next
  case TakeOps
  obtain a log where x: "x = (a, log)" by force
  assume "table_ok (proxied (fst x))"
  then show ?thesis by (simp add: TakeOps x take_ops_def)
qed

text \<open>The endpoint's side: connections are accepted, fed, read and failed.\<close>

datatype endpoint_event = AcceptPending "bool list" | FeedRecords "(agent_record \<times> bool) list"
  | ReadAccepted "u32 \<Rightarrow> bytes list \<times> bool" | PeerState bool

fun endpoint_step :: "endpoint_event \<Rightarrow> agent_endpoint \<Rightarrow> agent_endpoint" where
  "endpoint_step (AcceptPending ws) e = fst (accept_pending ws e)"
| "endpoint_step (FeedRecords rs) e = endpoint_apply rs e"
| "endpoint_step (ReadAccepted reads) e = fst (endpoint_reads reads e)"
| "endpoint_step (PeerState p) e = fst (fast_fail p e)"

lemma accept_pending_ok: "table_ok (accepted e) \<Longrightarrow> table_ok (accepted (fst (accept_pending ws e)))"
proof (induction ws e rule: accept_pending.induct)
  case (2 w ws e)
  obtain e1 o1 where e1: "accept_one w e = (e1, o1)" by force
  have "live_count (accepted e) = length (accepted e)" using 2(2)
    by (simp add: table_ok_def live_count_def filter_id_conv)
  then have "table_ok (accepted e1)" using e1 2(2) by (auto simp: accept_one_def table_ok_def split: if_splits)
  from 2(1) [OF e1 [symmetric] this] e1 show ?case by (simp add: case_prod_unfold)
qed simp

lemma endpoint_step_ok: "table_ok (accepted e) \<Longrightarrow> table_ok (accepted (endpoint_step x e))"
proof (cases x)
  case (FeedRecords rs)
  assume "table_ok (accepted e)"
  then have "live_count (accepted e) \<le> MAX_AGENT_CHANNELS" by (rule table_ok_live)
  then have "live_count (fold (\<lambda>(r, works). apply_data_or_close works r) rs (accepted e)) \<le> MAX_AGENT_CHANNELS"
    by (induction rs rule: rev_induct) (auto intro: order_trans [OF live_apply_data])
  from reap_ok [OF this] show ?thesis by (simp add: FeedRecords endpoint_apply_def)
next
  case (ReadAccepted reads)
  assume "table_ok (accepted e)"
  from reads_ok [OF this, of reads] show ?thesis by (simp add: ReadAccepted endpoint_reads_def case_prod_unfold)
next
  case (PeerState p)
  assume "table_ok (accepted e)"
  then show ?thesis by (simp add: PeerState fast_fail_def table_ok_def)
qed (simp add: accept_pending_ok)

text \<open>
  C47. Whatever the peer opens and the local sockets do, neither end ever holds more forwarded connections
  than \<open>MAX_AGENT_CHANNELS\<close>, and none it holds between two steps is closed.
\<close>

lemma forwarded_connections_bounded:
  "table_ok (proxied (fst (fold proxy_step ps (agent_client_new, [])))) \<and>
   table_ok (accepted (fold endpoint_step xs \<lparr>accepted = [], next_conn_id = n\<rparr>))"
proof
  have "table_ok (proxied (fst (agent_client_new, [])))" by (simp add: agent_client_new_def table_ok_def)
  then show "table_ok (proxied (fst (fold proxy_step ps (agent_client_new, []))))"
    by (induction ps rule: rev_induct) (simp_all add: proxy_step_ok)
  have "table_ok (accepted \<lparr>accepted = [], next_conn_id = n\<rparr>)" by (simp add: table_ok_def)
  then show "table_ok (accepted (fold endpoint_step xs \<lparr>accepted = [], next_conn_id = n\<rparr>))"
    by (induction xs rule: rev_induct) (simp_all add: endpoint_step_ok)
qed

end
