(* ===== verification/Introspect.thy ===== *)
theory Introspect
  imports Caps
begin

text \<open>
  Client introspection, \<open>crates/posh-proto/src/introspect.rs\<close>: what a client reports about itself, the
  \<open>CAP_CLIENT_STATE\<close> and \<open>CAP_CLIENT_IDENT\<close> codecs, the record a serving side keeps per
  attached client and the status line it prints for it.
\<close>

unbundle bit_operations_syntax

section \<open>The axes\<close>

datatype echo_model = NoModel | Adaptive | Always | Never | Experimental | Optimistic | Controller | Scratch

fun echo_model_to_wire :: "echo_model \<Rightarrow> u8" where
  "echo_model_to_wire NoModel = 0"
| "echo_model_to_wire Adaptive = 1"
| "echo_model_to_wire Always = 2"
| "echo_model_to_wire Never = 3"
| "echo_model_to_wire Experimental = 4"
| "echo_model_to_wire Optimistic = 5"
| "echo_model_to_wire Controller = 6"
| "echo_model_to_wire Scratch = 7"

definition echo_model_from_wire :: "u8 \<Rightarrow> echo_model" where
  "echo_model_from_wire v =
     (if v = 1 then Adaptive else if v = 2 then Always else if v = 3 then Never else if v = 4 then Experimental
      else if v = 5 then Optimistic else if v = 6 then Controller else if v = 7 then Scratch else NoModel)"

fun echo_model_name :: "echo_model \<Rightarrow> bytes" where
  "echo_model_name NoModel = ascii ''none''"
| "echo_model_name Adaptive = ascii ''adaptive''"
| "echo_model_name Always = ascii ''always''"
| "echo_model_name Never = ascii ''never''"
| "echo_model_name Experimental = ascii ''experimental''"
| "echo_model_name Optimistic = ascii ''optimistic''"
| "echo_model_name Controller = ascii ''controller''"
| "echo_model_name Scratch = ascii ''scratch''"

record echo_control =
  governing :: bool
  escalated :: bool
  gate_off :: bool
  pinned_env :: bool
  pinned_palette :: bool

definition bit_if :: "bool \<Rightarrow> u8 \<Rightarrow> u8" where
  "bit_if on b = (if on then b else 0)"

definition control_to_bits :: "echo_control \<Rightarrow> u8" where
  "control_to_bits c = bit_if (governing c) 1 OR bit_if (escalated c) 2 OR bit_if (gate_off c) 4 OR
     bit_if (pinned_env c) 8 OR bit_if (pinned_palette c) 16"

definition control_from_bits :: "u8 \<Rightarrow> echo_control result" where
  "control_from_bits b =
     (let c = \<lparr>governing = (b AND 1 \<noteq> 0), escalated = (b AND 2 \<noteq> 0), gate_off = (b AND 4 \<noteq> 0),
               pinned_env = (b AND 8 \<noteq> 0), pinned_palette = (b AND 16 \<noteq> 0)\<rparr>
      in if b AND NOT 0x1f \<noteq> 0 then Inl ''CLIENT_STATE: reserved echo_control bit set''
         else if governing c \<and> (pinned_env c \<or> pinned_palette c) then Inl ''CLIENT_STATE: governing and pinned both set''
         else if escalated c \<and> \<not> governing c then Inl ''CLIENT_STATE: escalated without governing''
         else Inr c)"

definition control_name :: "echo_control \<Rightarrow> bytes" where
  "control_name c =
     (if gate_off c then ascii ''gate-off'' else if pinned_env c then ascii ''pinned-env''
      else if pinned_palette c then ascii ''pinned-palette'' else if escalated c then ascii ''auto-escalated''
      else ascii ''auto'')"

record gates =
  echo_on :: bool
  gate_alt :: bool
  predict_active :: bool

definition gates_to_bits :: "gates \<Rightarrow> u8" where
  "gates_to_bits g = bit_if (echo_on g) 1 OR bit_if (gate_alt g) 2 OR bit_if (predict_active g) 4"

definition gates_from_bits :: "u8 \<Rightarrow> gates result" where
  "gates_from_bits b =
     (if b AND NOT 0x07 \<noteq> 0 then Inl ''CLIENT_STATE: reserved gates bit set''
      else Inr \<lparr>echo_on = (b AND 1 \<noteq> 0), gate_alt = (b AND 2 \<noteq> 0), predict_active = (b AND 4 \<noteq> 0)\<rparr>)"

datatype codec = CodecUnknown | CodecDumpDiff | CodecMorph

fun codec_to_wire :: "codec \<Rightarrow> u8" where
  "codec_to_wire CodecUnknown = 0"
| "codec_to_wire CodecDumpDiff = 1"
| "codec_to_wire CodecMorph = 2"

definition codec_from_wire :: "u8 \<Rightarrow> codec" where
  "codec_from_wire v = (if v = 1 then CodecDumpDiff else if v = 2 then CodecMorph else CodecUnknown)"

definition codec_from_label :: "bytes \<Rightarrow> codec" where
  "codec_from_label l = (if l = ascii ''dumpdiff'' then CodecDumpDiff else if l = ascii ''morph'' then CodecMorph else CodecUnknown)"

fun codec_name :: "codec \<Rightarrow> bytes" where
  "codec_name CodecUnknown = ascii ''unknown''"
| "codec_name CodecDumpDiff = ascii ''dumpdiff''"
| "codec_name CodecMorph = ascii ''morph''"

record thresholds =
  escalate_srtt_ms :: u16
  escalate_hold_ms :: u16
  deescalate_srtt_ms :: u16
  deescalate_hold_ms :: u16

record outcomes =
  correct :: u32
  nocredit :: u32
  incorrect :: u32
  mispredict_resets :: u32

record client_introspection =
  echo_model :: echo_model
  control :: echo_control
  state_gates :: gates
  state_codec :: codec
  srtt_ms :: "u32 option"
  rto_ms :: u32
  state_thresholds :: thresholds
  state_outcomes :: outcomes

section \<open>The codecs\<close>

definition SRTT_UNMEASURED :: u32 where "SRTT_UNMEASURED = - 1"
definition CLIENT_STATE_FMT :: u8 where "CLIENT_STATE_FMT = 1"
definition CLIENT_STATE_LEN :: nat where "CLIENT_STATE_LEN = 37"

definition encode_client_state :: "client_introspection \<Rightarrow> cap" where
  "encode_client_state s = \<lparr>cap_id = CAP_CLIENT_STATE, payload =
     [CLIENT_STATE_FMT, echo_model_to_wire (echo_model s), control_to_bits (control s), gates_to_bits (state_gates s),
      codec_to_wire (state_codec s)] @
     le_bytes 4 (case srtt_ms s of Some v \<Rightarrow> v | None \<Rightarrow> SRTT_UNMEASURED) @ le_bytes 4 (rto_ms s) @
     (let t = state_thresholds s in concat (map (le_bytes 2)
        [escalate_srtt_ms t, escalate_hold_ms t, deescalate_srtt_ms t, deescalate_hold_ms t])) @
     (let c = state_outcomes s in concat (map (le_bytes 4) [correct c, nocredit c, incorrect c, mispredict_resets c]))\<rparr>"

definition u16_at :: "bytes \<Rightarrow> nat \<Rightarrow> u16" where
  "u16_at p o1 = le_val (subslice o1 (o1 + 2) p)"

definition u32_at :: "bytes \<Rightarrow> nat \<Rightarrow> u32" where
  "u32_at p o1 = le_val (subslice o1 (o1 + 4) p)"

definition decode_client_state :: "bytes \<Rightarrow> client_introspection result" where
  "decode_client_state p =
     (if length p < CLIENT_STATE_LEN then Inl ''CLIENT_STATE payload too short''
      else if p ! 0 \<noteq> CLIENT_STATE_FMT then Inl ''CLIENT_STATE unknown format version''
      else case control_from_bits (p ! 2) of
        Inl e \<Rightarrow> Inl e
      | Inr c \<Rightarrow> (case gates_from_bits (p ! 3) of
          Inl e \<Rightarrow> Inl e
        | Inr g \<Rightarrow> Inr \<lparr>echo_model = echo_model_from_wire (p ! 1), control = c, state_gates = g,
            state_codec = codec_from_wire (p ! 4),
            srtt_ms = (let v = u32_at p 5 in if v \<noteq> SRTT_UNMEASURED then Some v else None),
            rto_ms = u32_at p 9,
            state_thresholds = \<lparr>escalate_srtt_ms = u16_at p 13, escalate_hold_ms = u16_at p 15,
              deescalate_srtt_ms = u16_at p 17, deescalate_hold_ms = u16_at p 19\<rparr>,
            state_outcomes = \<lparr>correct = u32_at p 21, nocredit = u32_at p 25, incorrect = u32_at p 29,
              mispredict_resets = u32_at p 33\<rparr>\<rparr>))"

definition encode_client_ident :: "server_ident \<Rightarrow> cap" where
  "encode_client_ident x = (encode_server_ident x)\<lparr>cap_id := CAP_CLIENT_IDENT\<rparr>"

definition decode_client_ident :: "bytes \<Rightarrow> server_ident result" where
  "decode_client_ident p = decode_server_ident p"

section \<open>The record kept per client\<close>

record client_record =
  ident :: "server_ident option"
  state_of :: "client_introspection option"
  age_ms :: "nat option"
  via_relay_pid :: "u32 option"

definition client_record_new :: client_record where
  "client_record_new = \<lparr>ident = None, state_of = None, age_ms = None, via_relay_pid = None\<rparr>"

definition flag_digit :: "bool \<Rightarrow> bytes" where
  "flag_digit b = decimal_digits (if b then 1 else 0)"

definition build_string :: "server_ident \<Rightarrow> bytes" where
  "build_string x = version x @ ascii ''+'' @ git_sha x"

definition field :: "string \<Rightarrow> bytes \<Rightarrow> bytes" where
  "field key v = ascii ('' '' @ key @ ''='') @ v"

fun slashed :: "bytes list \<Rightarrow> bytes" where
  "slashed [] = []"
| "slashed [x] = x"
| "slashed (x # xs) = x @ ascii ''/'' @ slashed xs"

definition state_fields :: "client_introspection \<Rightarrow> bytes" where
  "state_fields s =
     (let g = state_gates s; t = state_thresholds s; c = state_outcomes s
      in field ''echo'' (echo_model_name (echo_model s)) @ field ''control'' (control_name (control s)) @
         field ''srtt'' (case srtt_ms s of Some ms \<Rightarrow> decimal_digits (unat ms) | None \<Rightarrow> ascii ''none'') @
         field ''rto'' (decimal_digits (unat (rto_ms s))) @ field ''codec'' (codec_name (state_codec s)) @
         field ''gates'' (ascii ''echo:'' @ flag_digit (echo_on g) @ ascii '',alt:'' @ flag_digit (gate_alt g) @
           ascii '',active:'' @ flag_digit (predict_active g)) @
         field ''thresholds'' (slashed (map (\<lambda>w. decimal_digits (unat w))
           [escalate_srtt_ms t, escalate_hold_ms t, deescalate_srtt_ms t, deescalate_hold_ms t])) @
         field ''predict'' (slashed (map (\<lambda>w. decimal_digits (unat w)) [correct c, nocredit c, incorrect c])) @
         field ''resets'' (decimal_digits (unat (mispredict_resets c))))"

definition render_client_line :: "client_record \<Rightarrow> bytes" where
  "render_client_line r =
     ascii ''client'' @
     (case ident r of
        Some x \<Rightarrow> field ''pid'' (decimal_digits (unat (pid x))) @ field ''build'' (build_string x)
      | None \<Rightarrow> field ''build'' (ascii ''unknown'')) @
     (case via_relay_pid r of Some q \<Rightarrow> field ''via'' (ascii ''relay'') @ field ''pid'' (decimal_digits (unat q)) | None \<Rightarrow> []) @
     (case state_of r of
        None \<Rightarrow> field ''echo'' (ascii ''unknown'')
      | Some s \<Rightarrow> state_fields s @ (case age_ms r of Some a \<Rightarrow> field ''age'' (decimal_digits a) | None \<Rightarrow> []))"

section \<open>The codec is exact\<close>

definition control_ok :: "echo_control \<Rightarrow> bool" where
  "control_ok c \<longleftrightarrow> \<not> (governing c \<and> (pinned_env c \<or> pinned_palette c)) \<and> (governing c \<or> \<not> escalated c)"

definition state_ok :: "client_introspection \<Rightarrow> bool" where
  "state_ok s \<longleftrightarrow> control_ok (control s) \<and> srtt_ms s \<noteq> Some SRTT_UNMEASURED"

lemma control_bits:
  "control_from_bits (control_to_bits c) =
     (if control_ok c then Inr c
      else Inl (if governing c \<and> (pinned_env c \<or> pinned_palette c) then ''CLIENT_STATE: governing and pinned both set''
                else ''CLIENT_STATE: escalated without governing''))"
proof -
  obtain a b c1 d e where c: "c = \<lparr>governing = a, escalated = b, gate_off = c1, pinned_env = d, pinned_palette = e\<rparr>"
    by (cases c) auto
  show ?thesis
    by (cases a; cases b; cases c1; cases d; cases e) (simp_all add: c control_from_bits_def control_to_bits_def bit_if_def control_ok_def)
qed

lemma gates_bits: "gates_from_bits (gates_to_bits g) = Inr g"
proof -
  obtain a b c where g: "g = \<lparr>echo_on = a, gate_alt = b, predict_active = c\<rparr>" by (cases g) auto
  show ?thesis by (cases a; cases b; cases c) (simp_all add: g gates_from_bits_def gates_to_bits_def bit_if_def)
qed

lemma model_wire: "echo_model_from_wire (echo_model_to_wire m) = m"
  by (cases m) (simp_all add: echo_model_from_wire_def)

lemma codec_wire: "codec_from_wire (codec_to_wire c) = c"
  by (cases c) (simp_all add: codec_from_wire_def)

lemma u16_at_shift: "length xs \<le> n \<Longrightarrow> u16_at (xs @ ys) n = u16_at ys (n - length xs)"
  by (simp add: u16_at_def subslice_def)

lemma u32_at_shift: "length xs \<le> n \<Longrightarrow> u32_at (xs @ ys) n = u32_at ys (n - length xs)"
  by (simp add: u32_at_def subslice_def)

lemma u16_at_0: "u16_at (le_bytes 2 w @ ys) 0 = w"
  by (simp add: u16_at_def subslice_def)

lemma u32_at_0: "u32_at (le_bytes 4 w @ ys) 0 = w"
  by (simp add: u32_at_def subslice_def)

lemma client_state_roundtrip':
  "decode_client_state (payload (encode_client_state s) @ later) = Inr s \<longleftrightarrow> state_ok s"
proof -
  obtain e c g k r ro t o1 where s: "s = \<lparr>echo_model = e, control = c, state_gates = g, state_codec = k, srtt_ms = r, rto_ms = ro,
      state_thresholds = t, state_outcomes = o1\<rparr>" by (cases s) auto
  obtain t1 t2 t3 t4 where t: "t = \<lparr>escalate_srtt_ms = t1, escalate_hold_ms = t2, deescalate_srtt_ms = t3, deescalate_hold_ms = t4\<rparr>"
    by (cases t) auto
  obtain c1 c2 c3 c4 where o1: "o1 = \<lparr>correct = c1, nocredit = c2, incorrect = c3, mispredict_resets = c4\<rparr>"
    by (cases o1) auto
  let ?w = "case r of Some v \<Rightarrow> v | None \<Rightarrow> SRTT_UNMEASURED"
  let ?h = "[CLIENT_STATE_FMT, echo_model_to_wire e, control_to_bits c, gates_to_bits g, codec_to_wire k]"
  let ?p = "payload (encode_client_state s) @ later"
  have p: "?p = ?h @ le_bytes 4 ?w @ le_bytes 4 ro @ le_bytes 2 t1 @ le_bytes 2 t2 @ le_bytes 2 t3 @ le_bytes 2 t4 @
      le_bytes 4 c1 @ le_bytes 4 c2 @ le_bytes 4 c3 @ le_bytes 4 c4 @ later"
    by (simp add: encode_client_state_def s t o1 Let_def)
  have len: "\<not> length ?p < CLIENT_STATE_LEN" unfolding p by (simp add: CLIENT_STATE_LEN_def)
  have heads: "?p ! 0 = CLIENT_STATE_FMT" "?p ! 1 = echo_model_to_wire e" "?p ! 2 = control_to_bits c" "?p ! 3 = gates_to_bits g"
    "?p ! 4 = codec_to_wire k" unfolding p by simp_all
  have words: "u32_at ?p 5 = ?w" "u32_at ?p 9 = ro" "u16_at ?p 13 = t1" "u16_at ?p 15 = t2" "u16_at ?p 17 = t3" "u16_at ?p 19 = t4"
    "u32_at ?p 21 = c1" "u32_at ?p 25 = c2" "u32_at ?p 29 = c3" "u32_at ?p 33 = c4"
    unfolding p
    by (simp_all only: append_assoc [symmetric] u32_at_shift u16_at_shift length_append length_le_bytes list.size)
       (simp_all add: u16_at_0 u32_at_0 u16_at_def u32_at_def subslice_def)
  show ?thesis
    unfolding decode_client_state_def heads words
    using len by (auto simp: control_bits gates_bits model_wire codec_wire s t o1 state_ok_def Let_def split: option.splits if_splits)
qed

text \<open>
  C36. A client's state survives the wire exactly when it is consistent (a pinned model is not also governed, an
  escalated one is, and a measured round trip is not the sentinel), whatever a newer build appends.
\<close>

theorem client_state_roundtrip:
  "decode_client_state (payload (encode_client_state s) @ later) = Inr s \<longleftrightarrow> state_ok s"
  by (rule client_state_roundtrip')

text \<open>
  C37. Whatever bytes arrive, a state that decodes is consistent, its model and codec are the ones the wire
  names or the defaults, and encoding it again gives back a payload that decodes to it.
\<close>

theorem client_state_decodes_consistent:
  assumes "decode_client_state p = Inr s"
  shows "state_ok s \<and> decode_client_state (payload (encode_client_state s)) = Inr s"
proof -
  have c: "control_ok c" if "control_from_bits b = Inr c" for b c
    using that by (auto simp: control_from_bits_def control_ok_def Let_def split: if_splits)
  have "state_ok s"
    using assms c by (auto simp: decode_client_state_def state_ok_def Let_def split: if_splits sum.splits)
  then show ?thesis using client_state_roundtrip' [of s "[]"] by simp
qed

lemma client_state_decodes_consistent_witness:
  "\<exists>p s. decode_client_state p = Inr s \<and> state_ok s \<and> length p = CLIENT_STATE_LEN"
proof -
  let ?s = "\<lparr>echo_model = Optimistic, control = \<lparr>governing = True, escalated = True, gate_off = False, pinned_env = False,
      pinned_palette = False\<rparr>, state_gates = \<lparr>echo_on = True, gate_alt = False, predict_active = True\<rparr>, state_codec = CodecMorph,
      srtt_ms = Some 412, rto_ms = 900,
      state_thresholds = \<lparr>escalate_srtt_ms = 150, escalate_hold_ms = 3000, deescalate_srtt_ms = 80, deescalate_hold_ms = 15000\<rparr>,
      state_outcomes = \<lparr>correct = 1, nocredit = 2, incorrect = 3, mispredict_resets = 4\<rparr>\<rparr>"
  let ?p = "payload (encode_client_state ?s)"
  have "decode_client_state ?p = decode_client_state (?p @ [])" by simp
  also have "\<dots> = Inr ?s"
    by (subst client_state_roundtrip') (simp add: state_ok_def control_ok_def SRTT_UNMEASURED_def)
  finally have d: "decode_client_state ?p = Inr ?s" .
  from client_state_decodes_consistent [OF d] have "state_ok ?s" by simp
  moreover have "length ?p = CLIENT_STATE_LEN" by (simp add: encode_client_state_def CLIENT_STATE_LEN_def)
  ultimately show ?thesis using d by blast
qed

end
