(* ===== verification/Daemon.thy ===== *)
theory Daemon
  imports FrameSync History Ipc Introspect
begin

text \<open>
  The session daemon's side of one attached connection, \<open>ClientConn\<close> of
  \<open>crates/posh/src/session/daemon.rs\<close>: its handshake, the frames queued for it (self-acknowledged,
  lossy or coalescing), paced delivery, both histories and the frame acknowledgements. The terminal is read
  through the record \<open>session_term\<close>; the painter's delta is the parameter \<open>new_frame\<close>. The
  byte counters that only the log lines read are left out.
\<close>

unbundle bit_operations_syntax

definition CAP_APP_MODAL :: u8 where "CAP_APP_MODAL = 240"
definition MAX_CLIENT_BACKLOG :: nat where "MAX_CLIENT_BACKLOG = 16 * 1024 * 1024"
definition PACED_FRAME_FLOOR_MS :: nat where "PACED_FRAME_FLOOR_MS = 20"
definition PACED_ACK_WAIT_MS :: nat where "PACED_ACK_WAIT_MS = 250"
definition ACK_LOG_INTERVAL_MS :: nat where "ACK_LOG_INTERVAL_MS = 10000"
definition HISTORY_WINDOW_ROWS :: nat where "HISTORY_WINDOW_ROWS = 2 * SB2_ROWS_PER_BODY"
definition HISTORY_RESEND_INITIAL_MS :: nat where "HISTORY_RESEND_INITIAL_MS = 4 * PACED_ACK_WAIT_MS"
definition HISTORY_RESEND_MAX_DOUBLINGS :: nat where "HISTORY_RESEND_MAX_DOUBLINGS = 3"
definition SENT_FRAME_LOG_CAP :: nat where "SENT_FRAME_LOG_CAP = 16"

section \<open>The terminal as the daemon reads it\<close>

text \<open>
  \<open>tail_dump (Some n)\<close> is the dump with at most \<open>n\<close> rows of scrollback before the grid,
  \<open>tail_dump None\<close> the one with all of them; \<open>flat_dump\<close> draws the active grid only.
\<close>

record 's session_term =
  term_dims :: "u16 \<times> u16"
  term_alt :: bool
  term_snapshot :: 's
  term_history :: terminal_history
  tail_dump :: "nat option \<Rightarrow> bytes"
  flat_dump :: bytes
  text_dump :: bytes

record mirror_dump =
  dump_bytes :: bytes
  shaped_for :: "(u16 \<times> u16) option"
  dump_source :: "u16 \<times> u16"

definition mirror_is_bounded :: "u16 \<times> u16 \<Rightarrow> u16 \<times> u16 \<Rightarrow> bool" where
  "mirror_is_bounded src mirror \<longleftrightarrow> snd mirror = snd src \<and> fst mirror \<ge> fst src"

definition is_dump_for :: "mirror_dump \<Rightarrow> u16 \<times> u16 \<Rightarrow> bool" where
  "is_dump_for d mirror = (case shaped_for d of
       Some geometry \<Rightarrow> geometry = mirror
     | None \<Rightarrow> \<not> mirror_is_bounded (dump_source d) mirror)"

definition dump_vt_mirror :: "'s session_term \<Rightarrow> u16 \<times> u16 \<Rightarrow> mirror_dump" where
  "dump_vt_mirror t mirror =
     (let bounded = mirror_is_bounded (term_dims t) mirror;
          tail = (if \<not> bounded then None else if fst mirror = fst (term_dims t) then Some 0
                  else Some (2 * unat (fst mirror) - unat (fst (term_dims t))))
      in \<lparr>dump_bytes = tail_dump t tail, shaped_for = (if bounded then Some mirror else None), dump_source = term_dims t\<rparr>)"

definition scrollback_total :: "'s session_term \<Rightarrow> nat" where
  "scrollback_total t = primary_scrollback_total (term_history t)"

section \<open>State\<close>

datatype regeometry_keyframe = Owed | Sent u64

record ack_latency =
  last_ack_at :: "nat option"
  last_ms :: "nat option"
  lat_srtt :: "nat option"
  min_ms :: "nat option"
  max_ms :: nat
  samples :: nat
  logged_samples :: nat
  logged_at :: "nat option"

definition ack_latency_new :: ack_latency where
  "ack_latency_new = \<lparr>last_ack_at = None, last_ms = None, lat_srtt = None, min_ms = None, max_ms = 0, samples = 0,
     logged_samples = 0, logged_at = None\<rparr>"

record paced =
  dirty :: bool
  last_fresh :: "nat option"
  sent_frames :: "(u64 \<times> nat) list"
  acks :: ack_latency
  paced_history :: "history_cursor option"
  paced_extent_asked :: bool
  paced_extent :: "scrollback2_extent option"
  last_was_screen :: bool

definition paced_new :: paced where
  "paced_new = \<lparr>dirty = False, last_fresh = None, sent_frames = [], acks = ack_latency_new, paced_history = None,
     paced_extent_asked = False, paced_extent = None, last_was_screen = False\<rparr>"

record 's client_conn =
  conn_id :: nat
  read_buf :: frame_buffer
  write_buf :: bytes
  conn_size :: "u16 \<times> u16"
  conn_caps :: "cap list"
  conn_producer :: "'s frame_producer option"
  lossy :: bool
  coalesce :: bool
  coalesce_off :: bool
  pending_frame_start :: "nat option"
  conn_floor :: nat
  conn_acked_total :: nat
  echo_flag :: u8
  overlay_flag :: u8
  client_rec :: client_record
  record_at :: nat
  attach_pid :: "u32 option"
  last_input_ms :: nat
  wants_activity :: bool
  activity_now :: "session_activity option"
  activity_sent :: "session_activity option"
  conn_kind :: session_kind
  kind_sent :: bool
  wants_push_cmd :: bool
  push_offered :: bool
  visible_shaped_for :: "(u16 \<times> u16) option"
  regeometry :: "regeometry_keyframe option"
  pacing :: "paced option"
  init_applied :: bool

definition conn_new :: "nat \<Rightarrow> session_kind \<Rightarrow> 's client_conn" where
  "conn_new i k = \<lparr>conn_id = i, read_buf = frame_buffer_new, write_buf = [], conn_size = (0, 0), conn_caps = [],
     conn_producer = None, lossy = False, coalesce = False, coalesce_off = False, pending_frame_start = None,
     conn_floor = 0, conn_acked_total = 0, echo_flag = 0, overlay_flag = 0, client_rec = client_record_new,
     record_at = 0, attach_pid = None, last_input_ms = 0, wants_activity = False, activity_now = None,
     activity_sent = None, conn_kind = k, kind_sent = False, wants_push_cmd = False, push_offered = False,
     visible_shaped_for = None, regeometry = None, pacing = None, init_applied = False\<rparr>"

section \<open>Ack timing\<close>

definition latency_record :: "nat \<Rightarrow> ack_latency \<Rightarrow> ack_latency" where
  "latency_record ms a = a\<lparr>last_ms := Some ms,
     lat_srtt := Some (case lat_srtt a of None \<Rightarrow> ms | Some s \<Rightarrow> (7 * s + ms) div 8),
     min_ms := Some (case min_ms a of None \<Rightarrow> ms | Some m \<Rightarrow> min m ms),
     max_ms := max (max_ms a) ms, samples := samples a + 1\<rparr>"

definition take_log_line :: "nat \<Rightarrow> ack_latency \<Rightarrow> ack_latency \<times> nat option" where
  "take_log_line now a =
     (if samples a > logged_samples a \<and> (case logged_at a of None \<Rightarrow> True | Some t \<Rightarrow> now - t \<ge> ACK_LOG_INTERVAL_MS)
      then (a\<lparr>logged_samples := samples a, logged_at := Some now\<rparr>, Some (samples a - logged_samples a))
      else (a, None))"

section \<open>The handshake\<close>

definition update_pacing :: "(paced \<Rightarrow> paced) \<Rightarrow> 's client_conn \<Rightarrow> 's client_conn" where
  "update_pacing f c = c\<lparr>pacing := map_option f (pacing c)\<rparr>"

definition conn_history :: "'s client_conn \<Rightarrow> history_cursor option" where
  "conn_history c = Option.bind (pacing c) paced_history"

definition update_history :: "(history_cursor \<Rightarrow> history_cursor) \<Rightarrow> 's client_conn \<Rightarrow> 's client_conn" where
  "update_history f = update_pacing (\<lambda>p. p\<lparr>paced_history := map_option f (paced_history p)\<rparr>)"

definition sb2_entry :: "cap list \<Rightarrow> scrollback2_client option" where
  "sb2_entry table = (case find_cap table CAP_SCROLLBACK2 of
       None \<Rightarrow> None
     | Some x \<Rightarrow> (case decode_scrollback2_client (payload x) of Inl _ \<Rightarrow> None | Inr e \<Rightarrow> Some e))"

definition absorb_ident :: "cap list \<Rightarrow> bool \<Rightarrow> 's client_conn \<Rightarrow> 's client_conn" where
  "absorb_ident table from_init c = (case find_cap table CAP_CLIENT_IDENT of
       None \<Rightarrow> c
     | Some x \<Rightarrow> (case decode_client_ident (payload x) of
         Inl _ \<Rightarrow> c
       | Inr i \<Rightarrow>
           (let c = (if from_init then c\<lparr>attach_pid := Some (server_ident.pid i)\<rparr>
                     else case opt_filter (\<lambda>p. p \<noteq> server_ident.pid i) (attach_pid c) of
                       Some attach \<Rightarrow> c\<lparr>client_rec := (client_rec c)\<lparr>via_relay_pid := Some attach\<rparr>\<rparr>
                     | None \<Rightarrow> c)
            in c\<lparr>client_rec := (client_rec c)\<lparr>ident := Some i\<rparr>\<rparr>)))"

definition absorb_state :: "cap list \<Rightarrow> nat \<Rightarrow> 's client_conn \<Rightarrow> 's client_conn" where
  "absorb_state table now c = (case find_cap table CAP_CLIENT_STATE of
       None \<Rightarrow> c
     | Some x \<Rightarrow> (case decode_client_state (payload x) of
         Inl _ \<Rightarrow> c
       | Inr s \<Rightarrow> c\<lparr>client_rec := (client_rec c)\<lparr>state_of := Some s\<rparr>, record_at := now\<rparr>))"

definition absorb_client_caps :: "cap list \<Rightarrow> nat \<Rightarrow> bool \<Rightarrow> nat \<Rightarrow> 's client_conn \<Rightarrow> 's client_conn" where
  "absorb_client_caps table now from_init tot c =
     (let c = c\<lparr>wants_activity := (wants_activity c \<or> find_cap table CAP_SESSION_ACTIVITY \<noteq> None),
                wants_push_cmd := (wants_push_cmd c \<or>
                  (case find_cap table CAP_PUSH_CMD of None \<Rightarrow> False | Some x \<Rightarrow> payload x = []))\<rparr>;
          c = absorb_state table now (absorb_ident table from_init c)
      in case sb2_entry table of
           None \<Rightarrow> c
         | Some e \<Rightarrow> update_history (\<lambda>h. fst (on_ack (sb2_epoch e) (unat (acked_rows e)) now tot h)) c)"

definition apply_resize :: "bytes \<Rightarrow> 's client_conn \<Rightarrow> 's client_conn \<times> bool" where
  "apply_resize p c = (case decode_resize p of
       Some sz \<Rightarrow> (c\<lparr>conn_size := sz\<rparr>, True)
     | None \<Rightarrow> (c, False))"

definition init_pacing :: "cap list \<Rightarrow> paced option \<Rightarrow> paced option" where
  "init_pacing table p =
     (if Option.bind (find_cap table CAP_PACED) (\<lambda>x. decode_paced (payload x)) \<noteq> None
      then Some (case p of Some q \<Rightarrow> q | None \<Rightarrow> paced_new) else None)"

definition apply_init :: "bytes \<Rightarrow> nat \<Rightarrow> nat \<Rightarrow> 's client_conn \<Rightarrow> 's client_conn \<times> bool" where
  "apply_init p now tot c0 =
     (let c = c0\<lparr>init_applied := True\<rparr>;
          (c, resized) = (case get_slice p 0 4 of Some prefix \<Rightarrow> apply_resize prefix c | None \<Rightarrow> (c, False));
          c = (if length p > 4
               then (case decode_table (drop 4 p) of
                   Inl _ \<Rightarrow> c
                 | Inr (table, _) \<Rightarrow>
                     (absorb_client_caps table now True tot
                       (c\<lparr>lossy := (find_cap table CAP_LOSSY \<noteq> None), coalesce := (find_cap table CAP_COALESCE \<noteq> None),
                          pacing := init_pacing table (pacing c)\<rparr>))\<lparr>conn_caps := table\<rparr>)
               else c)
      in (c, resized))"

definition is_frame_capable :: "'s client_conn \<Rightarrow> bool" where
  "is_frame_capable c \<longleftrightarrow> find_cap (conn_caps c) CAP_PROTOCOL_VERSION \<noteq> None"

text \<open>\<open>blank\<close> is \<open>Snapshot::blank\<close> of the size.\<close>

definition maybe_enable_frames :: "(u16 \<times> u16 \<Rightarrow> 's) \<Rightarrow> 's client_conn \<Rightarrow> 's client_conn" where
  "maybe_enable_frames blank c =
     (if conn_producer c = None \<and> is_frame_capable c
      then (let r = max 1 (fst (conn_size c)); k = max 1 (snd (conn_size c))
            in c\<lparr>conn_producer := Some (producer_new (blank (r, k)) r k)\<rparr>)
      else c)"

definition refresh_history_extent :: "'s session_term \<Rightarrow> 's client_conn \<Rightarrow> 's client_conn" where
  "refresh_history_extent t = update_pacing (\<lambda>p. p\<lparr>paced_extent :=
     (if paced_extent_asked p then Option.bind (paced_history p) (cursor_extent (term_history t)) else None)\<rparr>)"

definition open_history :: "'s session_term \<Rightarrow> 's client_conn \<Rightarrow> 's client_conn" where
  "open_history t c =
     (if conn_producer c = None then c
      else (case (pacing c, sb2_entry (conn_caps c)) of
          (Some p, Some e) \<Rightarrow>
            (if paced_history p \<noteq> None then c
             else (let asked = (Option.bind (find_cap (conn_caps c) CAP_SCROLLBACK2_EXTENT)
                                  (\<lambda>x. decode_scrollback2_extent_request (payload x)) \<noteq> None);
                       st = (if sb2_epoch e = 0 then Fresh else Continue (sb2_epoch e) (unat (acked_rows e)));
                       h = activate st (scrollback_total t) (cursor_new (conn_size c))
                   in refresh_history_extent t
                        (update_pacing (\<lambda>p. p\<lparr>paced_history := Some h, paced_extent_asked := asked\<rparr>) c)))
        | _ \<Rightarrow> c))"

section \<open>Queueing\<close>

definition queue :: "tag \<Rightarrow> bytes \<Rightarrow> 's client_conn \<Rightarrow> 's client_conn" where
  "queue t p c = c\<lparr>pending_frame_start := None, write_buf := append_frame (write_buf c) (tag_to_u8 t) p\<rparr>"

definition coalescing :: "'s client_conn \<Rightarrow> bool" where
  "coalescing c \<longleftrightarrow> coalesce c \<and> \<not> coalesce_off c"

definition withholds :: "'s client_conn \<Rightarrow> bool" where
  "withholds c \<longleftrightarrow> lossy c \<or> coalescing c"

definition uses_morph :: "'s client_conn \<Rightarrow> bool" where
  "uses_morph c \<longleftrightarrow> lossy c \<and> find_cap (conn_caps c) CAP_MORPH \<noteq> None"

definition conn_is_paced :: "'s client_conn \<Rightarrow> bool" where
  "conn_is_paced c \<longleftrightarrow> pacing c \<noteq> None \<and> conn_producer c \<noteq> None"

definition takes_per_read_frames :: "'s client_conn \<Rightarrow> bool" where
  "takes_per_read_frames c \<longleftrightarrow> conn_producer c \<noteq> None \<and> \<not> conn_is_paced c"

definition answer_due :: "'s client_conn \<Rightarrow> bool" where
  "answer_due c \<longleftrightarrow> wants_activity c \<and> activity_now c \<noteq> None \<and> activity_now c \<noteq> activity_sent c"

text \<open>The activity label, with the kind and the push-cmd offer once.\<close>

definition take_answer :: "'s client_conn \<Rightarrow> 's client_conn \<times> cap list" where
  "take_answer c =
     (if answer_due c
      then (let entries = (case activity_now c of Some a \<Rightarrow> [encode_session_activity a] | None \<Rightarrow> []) @
                  (if kind_sent c then [] else [encode_session_kind (conn_kind c)]) @
                  (if wants_push_cmd c \<and> \<not> push_offered c then [encode_push_cmd] else [])
            in (c\<lparr>activity_sent := activity_now c, kind_sent := True,
                  push_offered := (push_offered c \<or> wants_push_cmd c)\<rparr>, entries))
      else (c, []))"

definition history_entries :: "'s client_conn \<Rightarrow> cap list" where
  "history_entries c =
     (let ep = Option.bind (conn_history c) epoch_of
      in (case ep of Some e \<Rightarrow> [encode_scrollback2_ack e] | None \<Rightarrow> []) @
         (case opt_filter (\<lambda>x. Some (ext_epoch x) = ep) (Option.bind (pacing c) paced_extent) of
            Some x \<Rightarrow> [encode_scrollback2_extent x] | None \<Rightarrow> []))"

definition stamp_sum :: "'s frame_producer \<Rightarrow> frame_body \<Rightarrow> frame_body" where
  "stamp_sum p b = (case (acked_data p, b) of
       (Some d, Diff n _ diff) \<Rightarrow> Diff n (Some (base_checksum d)) diff
     | _ \<Rightarrow> b)"

text \<open>The body of the next visible frame, and the producer that has made it.\<close>

definition make_visible ::
  "('s \<Rightarrow> 's \<Rightarrow> bytes) \<Rightarrow> bytes \<Rightarrow> 's session_term \<Rightarrow> 's client_conn \<Rightarrow> 's frame_producer \<Rightarrow> 's frame_producer \<times> frame_body" where
  "make_visible nf dump src c p =
     (let p = advance_visible dump (term_snapshot src) (term_alt src) (term_dims src) 0 p;
          b = encode_visible nf (uses_morph c) p
      in (p, if lossy c \<and> find_cap (conn_caps c) CAP_BASE_SUM \<noteq> None then stamp_sum p b else b))"

definition conn_frame :: "cap list \<Rightarrow> u64 \<Rightarrow> frame_body \<Rightarrow> 's client_conn \<Rightarrow> server_frame" where
  "conn_frame entries n b c = \<lparr>flags = echo_flag c OR overlay_flag c, caps = own_table entries, frame_num = n,
     input_ack = 0, echo_ack = 0, body = b\<rparr>"

text \<open>The write buffer's turn: a coalescing client's unsent visible frame is replaced.\<close>

definition queue_visible :: "bytes \<Rightarrow> 's client_conn \<Rightarrow> 's client_conn" where
  "queue_visible encoded c =
     (if coalescing c
      then (let wb = (case pending_frame_start c of
                  Some k \<Rightarrow> if k \<le> length (write_buf c) then take k (write_buf c) else write_buf c
                | None \<Rightarrow> write_buf c)
            in (queue TagFrame encoded (c\<lparr>write_buf := wb\<rparr>))\<lparr>pending_frame_start := Some (length wb)\<rparr>)
      else queue TagFrame encoded c)"

definition queue_frame :: "('s \<Rightarrow> 's \<Rightarrow> bytes) \<Rightarrow> bytes \<Rightarrow> 's session_term \<Rightarrow> 's client_conn \<Rightarrow> 's client_conn \<times> bool" where
  "queue_frame nf dump src c0 =
     (let (c, answer) = take_answer c0; entries = answer @ history_entries c
      in case conn_producer c of
           None \<Rightarrow> (c, False)
         | Some p \<Rightarrow>
             (let (p, b) = make_visible nf dump src c p; n = num (current p);
                  encoded = encode_frame (conn_frame entries n b c);
                  p = (if withholds c then p else fst (ack n p));
                  c = c\<lparr>conn_producer := Some p,
                        regeometry := (if regeometry c = Some Owed then Some (Sent (last_visible_num p)) else regeometry c)\<rparr>
              in (queue_visible encoded c, True)))"

definition note_visible_dump_shape :: "mirror_dump \<Rightarrow> 's client_conn \<Rightarrow> 's client_conn" where
  "note_visible_dump_shape d c = c\<lparr>visible_shaped_for := shaped_for d\<rparr>"

definition build_frame_from :: "('s \<Rightarrow> 's \<Rightarrow> bytes) \<Rightarrow> 's session_term \<Rightarrow> 's client_conn \<Rightarrow> 's client_conn \<times> bool" where
  "build_frame_from nf src c =
     (let d = dump_vt_mirror src (conn_size c) in queue_frame nf (dump_bytes d) src (note_visible_dump_shape d c))"

section \<open>Version-1 history\<close>

definition wants_v1_rows :: "'s client_conn \<Rightarrow> bool" where
  "wants_v1_rows c \<longleftrightarrow> find_cap (conn_caps c) CAP_SCROLLBACK \<noteq> None"

definition growth_rows :: "terminal_history \<Rightarrow> nat \<Rightarrow> nat \<Rightarrow> bytes list" where
  "growth_rows t covered fl =
     (let len = primary_scrollback_len t; grown = primary_scrollback_total t - covered; stop = len - grown;
          start = stop - min (covered - fl) stop
      in map (\<lambda>i. case dump_scrollback_row t i of Some r \<Rightarrow> r | None \<Rightarrow> []) [start..<stop])"

definition maybe_queue_scrollback :: "'s session_term \<Rightarrow> 's client_conn \<Rightarrow> 's client_conn \<times> bool" where
  "maybe_queue_scrollback t c =
     (let fl = max (conn_acked_total c) (conn_floor c)
      in case conn_producer c of
           None \<Rightarrow> (c, False)
         | Some p \<Rightarrow>
             (if \<not> wants_v1_rows c \<or> term_alt t \<or> scrollback_total t \<le> fl \<or> \<not> has_acked_base p then (c, False)
              else (let p = advance_scrollback_after_visible (of_nat (scrollback_total t)) p; n = num (current p);
                        b = Scrollback (last_visible_num p) (growth_rows (term_history t) (unat (sb_total (current p))) fl);
                        encoded = encode_frame (conn_frame [] n b c);
                        (p, covered) = (if withholds c then (p, None) else ack n p);
                        c = c\<lparr>conn_producer := Some p,
                              conn_acked_total := (case covered of Some v \<Rightarrow> max (conn_acked_total c) (unat v)
                                                   | None \<Rightarrow> conn_acked_total c)\<rparr>
                    in (queue TagFrame encoded c, True))))"

section \<open>Paced delivery\<close>

definition owes_paced_frame :: "'s client_conn \<Rightarrow> bool" where
  "owes_paced_frame c \<longleftrightarrow> (case pacing c of Some p \<Rightarrow> dirty p | None \<Rightarrow> False)"

definition paced_send_at :: "'s client_conn \<Rightarrow> nat option" where
  "paced_send_at c =
     (if \<not> owes_paced_frame c \<or> write_buf c \<noteq> [] then None
      else (case conn_producer c of
          None \<Rightarrow> None
        | Some p \<Rightarrow> (case Option.bind (pacing c) last_fresh of
              None \<Rightarrow> Some 0
            | Some at \<Rightarrow> Some (if acked_num p \<ge> last_visible_num p then at + PACED_FRAME_FLOOR_MS else at + PACED_ACK_WAIT_MS))))"

definition owe_paced_frame :: "'s client_conn \<Rightarrow> 's client_conn \<times> bool" where
  "owe_paced_frame c = (if \<not> conn_is_paced c then (c, False) else (update_pacing (\<lambda>p. p\<lparr>dirty := True\<rparr>) c, True))"

definition request_frame_from :: "('s \<Rightarrow> 's \<Rightarrow> bytes) \<Rightarrow> 's session_term \<Rightarrow> 's client_conn \<Rightarrow> 's client_conn \<times> bool" where
  "request_frame_from nf src c =
     (if conn_is_paced c then owe_paced_frame c
      else if conn_producer c \<noteq> None then build_frame_from nf src c else (c, False))"

definition has_history :: "'s client_conn \<Rightarrow> bool" where
  "has_history c \<longleftrightarrow> conn_history c \<noteq> None"

definition log_sent :: "u64 option \<Rightarrow> nat \<Rightarrow> paced \<Rightarrow> paced" where
  "log_sent n now p =
     (let p = p\<lparr>dirty := False, last_was_screen := True, last_fresh := Some now\<rparr>
      in case n of
           None \<Rightarrow> p
         | Some n \<Rightarrow> p\<lparr>sent_frames :=
             (if length (sent_frames p) = SENT_FRAME_LOG_CAP then tl (sent_frames p) else sent_frames p) @ [(n, now)]\<rparr>)"

definition send_paced_frame :: "('s \<Rightarrow> 's \<Rightarrow> bytes) \<Rightarrow> 's session_term \<Rightarrow> nat \<Rightarrow> 's client_conn \<Rightarrow> 's client_conn" where
  "send_paced_frame nf src now c = (case build_frame_from nf src c of
       (c, False) \<Rightarrow> c
     | (c, True) \<Rightarrow>
         (let c = (if has_history c then c else fst (maybe_queue_scrollback src c))
          in update_pacing (log_sent (map_option last_visible_num (conn_producer c)) now) c))"

definition history_resend_after :: "'s client_conn \<Rightarrow> nat" where
  "history_resend_after c = (case pacing c of
       None \<Rightarrow> HISTORY_RESEND_INITIAL_MS
     | Some p \<Rightarrow> backoff (case lat_srtt (acks p) of None \<Rightarrow> HISTORY_RESEND_INITIAL_MS | Some s \<Rightarrow> max (2 * s) PACED_ACK_WAIT_MS)
         (case paced_history p of None \<Rightarrow> 0 | Some h \<Rightarrow> resends h) HISTORY_RESEND_MAX_DOUBLINGS)"

definition history_send_at :: "'s session_term \<Rightarrow> 's client_conn \<Rightarrow> nat option" where
  "history_send_at t c = (case conn_history c of
       None \<Rightarrow> None
     | Some h \<Rightarrow>
         (if write_buf c \<noteq> [] \<or> conn_producer c = None then None
          else next_due (scrollback_total t) (history_resend_after c) HISTORY_WINDOW_ROWS h))"

definition send_history_body :: "'s session_term \<Rightarrow> nat \<Rightarrow> 's client_conn \<Rightarrow> 's client_conn" where
  "send_history_body t now c = (case (conn_producer c, conn_history c) of
       (Some pr, Some h) \<Rightarrow>
         (let (h, e, b) = next_body (term_history t) now (history_resend_after c) HISTORY_WINDOW_ROWS h;
              c = refresh_history_extent t (update_pacing (\<lambda>p. p\<lparr>paced_history := Some h\<rparr>) c);
              c = update_pacing (\<lambda>p. p\<lparr>last_was_screen := False\<rparr>) c;
              entries = encode_scrollback2_ack e #
                (case Option.bind (pacing c) paced_extent of Some x \<Rightarrow> [encode_scrollback2_extent x] | None \<Rightarrow> [])
          in queue TagFrame (encode_frame (conn_frame entries (num (current pr)) b c)) c)
     | _ \<Rightarrow> c)"

section \<open>A changed geometry\<close>

definition owes_regeometry_frame :: "'s client_conn \<Rightarrow> bool" where
  "owes_regeometry_frame c \<longleftrightarrow> conn_producer c \<noteq> None \<and>
     (case visible_shaped_for c of None \<Rightarrow> False | Some g \<Rightarrow> g \<noteq> conn_size c)"

definition prepare_regeometry_frame :: "'s client_conn \<Rightarrow> 's client_conn \<times> bool" where
  "prepare_regeometry_frame c =
     (if \<not> owes_regeometry_frame c then (c, False)
      else (case conn_producer c of
          Some p \<Rightarrow> (if uses_morph c
            then (c\<lparr>conn_producer := Some (drop_acked_base p), regeometry := Some Owed\<rparr>, True) else (c, True))
        | None \<Rightarrow> (c, True)))"

section \<open>Acknowledgements\<close>

definition settle_keyframe :: "u64 \<Rightarrow> 's frame_producer \<Rightarrow> 's client_conn \<Rightarrow> 's frame_producer \<times> regeometry_keyframe option" where
  "settle_keyframe n p c = (case regeometry c of
       None \<Rightarrow> (p, None)
     | Some Owed \<Rightarrow> (drop_acked_base p, Some Owed)
     | Some (Sent k) \<Rightarrow>
         (if n \<ge> k then (p, if has_acked_base p then None else Some (Sent k))
          else (drop_acked_base p, Some (Sent k))))"

definition toggle_coalescing :: "u8 \<Rightarrow> 's client_conn \<Rightarrow> 's client_conn" where
  "toggle_coalescing fl c =
     (if coalesce c
      then (let off = (fl AND FRAME_ACK_COALESCE_OFF \<noteq> 0)
            in c\<lparr>coalesce_off := off, pending_frame_start := (if off then None else pending_frame_start c)\<rparr>)
      else c)"

definition apply_frame_ack :: "bytes \<Rightarrow> 's client_conn \<Rightarrow> 's client_conn \<times> bool" where
  "apply_frame_ack pl c =
     (if \<not> lossy c \<and> \<not> coalesce c then (c, False)
      else (case decode_frame_ack pl of
          None \<Rightarrow> (c, False)
        | Some (n, fl) \<Rightarrow>
            (let c = toggle_coalescing fl c
             in case conn_producer c of
                  None \<Rightarrow> (c, False)
                | Some p \<Rightarrow>
                    (let (p, covered) = ack n p;
                         c = c\<lparr>conn_acked_total := (case covered of Some v \<Rightarrow> max (conn_acked_total c) (unat v)
                                                    | None \<Rightarrow> conn_acked_total c)\<rparr>;
                         (p, k) = settle_keyframe n p c;
                         c = c\<lparr>conn_producer := Some p, regeometry := k\<rparr>
                     in if fl AND FRAME_ACK_RESYNC \<noteq> 0
                        then (update_pacing (\<lambda>q. q\<lparr>last_fresh := None, sent_frames := []\<rparr>)
                                (c\<lparr>conn_producer := Some (drop_acked_base p)\<rparr>), True)
                        else (c, False)))))"

text \<open>The logged frames an acknowledgement confirms; the newest of them is the sample.\<close>

definition confirm_sent :: "u64 \<Rightarrow> nat \<Rightarrow> paced \<Rightarrow> paced" where
  "confirm_sent n now p =
     (let past = takeWhile (\<lambda>x. fst x \<le> n) (sent_frames p);
          p = p\<lparr>sent_frames := dropWhile (\<lambda>x. fst x \<le> n) (sent_frames p)\<rparr>
      in if past = [] then p else p\<lparr>acks := latency_record (now - snd (last past)) (acks p)\<rparr>)"

definition note_frame_ack :: "u64 option \<Rightarrow> nat \<Rightarrow> 's client_conn \<Rightarrow> 's client_conn" where
  "note_frame_ack before now c = (case (before, conn_producer c) of
       (Some b, Some pr) \<Rightarrow> update_pacing (\<lambda>p.
          let p = p\<lparr>acks := (acks p)\<lparr>last_ack_at := Some now\<rparr>\<rparr>
          in if acked_num pr \<le> b then p else confirm_sent (acked_num pr) now p) c
     | _ \<Rightarrow> c)"

definition handle_frame_ack ::
  "('s \<Rightarrow> 's \<Rightarrow> bytes) \<Rightarrow> bytes \<Rightarrow> 's session_term \<Rightarrow> nat \<Rightarrow> 's client_conn \<Rightarrow> 's client_conn" where
  "handle_frame_ack nf pl src now c =
     (let before = map_option acked_num (conn_producer c);
          (c, resync) = apply_frame_ack pl c;
          c = note_frame_ack before now c
      in if resync then fst (request_frame_from nf src c) else c)"

definition queue_replay :: "('s \<Rightarrow> 's \<Rightarrow> bytes) \<Rightarrow> 's session_term \<Rightarrow> 's client_conn \<Rightarrow> 's client_conn" where
  "queue_replay nf src c = (case request_frame_from nf src c of
       (c, True) \<Rightarrow> c
     | (c, False) \<Rightarrow> queue TagOutput (flat_dump src) c)"

text \<open>The drain_written: \<open>n\<close> bytes of the buffer went on the wire.\<close>

definition drain_written :: "nat \<Rightarrow> 's client_conn \<Rightarrow> 's client_conn" where
  "drain_written n c = c\<lparr>write_buf := drop n (write_buf c), pending_frame_start := (case pending_frame_start c of
      Some k \<Rightarrow> if n \<le> k then Some (k - n) else None | None \<Rightarrow> None)\<rparr>"

end
