(* ===== verification/Modal.thy ===== *)
theory Modal
  imports Utf8
begin

text \<open>
  The countdown modal's state machine, \<open>crates/posh/src/session/modal.rs\<close>: the messages, their
  validation, the daemon's clock and the viewer's copy. JSON text is the parameter \<open>json_codec\<close> (the
  library \<open>serde_json\<close>); a JSON value is a value of the type \<open>json\<close>.
\<close>

section \<open>JSON values\<close>

text \<open>\<open>JNat\<close> is a number \<open>as_u64\<close> accepts, \<open>JNumber\<close> any other.\<close>

datatype json = JNull | JBool bool | JNat nat | JNumber | JStr bytes | JArr "json list" | JObj "(bytes \<times> json) list"

record json_codec =
  from_slice :: "bytes \<Rightarrow> json option"
  to_text :: "json \<Rightarrow> bytes"

fun jget :: "string \<Rightarrow> json \<Rightarrow> json option" where
  "jget k (JObj kvs) = map_of kvs (ascii k)"
| "jget k _ = None"

fun as_str :: "json \<Rightarrow> bytes option" where
  "as_str (JStr s) = Some s"
| "as_str _ = None"

fun as_u64 :: "json \<Rightarrow> nat option" where
  "as_u64 (JNat n) = Some n"
| "as_u64 _ = None"

fun as_array :: "json \<Rightarrow> json list option" where
  "as_array (JArr xs) = Some xs"
| "as_array _ = None"

definition jobj :: "(string \<times> json) list \<Rightarrow> json" where
  "jobj kvs = JObj (map (\<lambda>(k, v). (ascii k, v)) kvs)"

definition jopt :: "bytes option \<Rightarrow> json" where
  "jopt s = (case s of Some t \<Rightarrow> JStr t | None \<Rightarrow> JNull)"

definition jtext :: "json \<Rightarrow> string \<Rightarrow> bytes option" where
  "jtext v k = Option.bind (jget k v) as_str"

section \<open>Requests\<close>

definition TICK_MS :: nat where "TICK_MS = 1000"
definition DEFAULT_TIMEOUT_MS :: nat where "DEFAULT_TIMEOUT_MS = 30000"
definition MAX_TIMEOUT_MS :: nat where "MAX_TIMEOUT_MS = 24 * 60 * 60 * 1000"

text \<open>
  \<open>str::trim\<close> on UTF-8 text: the characters of Unicode's \<open>White_Space\<close> go at both ends, one at a time, at most
  as many as there are bytes. \<open>to_ascii_lowercase\<close> leaves every other byte alone.
\<close>

definition white_space :: "bytes list" where
  "white_space = map encode_utf8
     ([0x09..<0x0E] @ [0x20, 0x85, 0xA0, 0x1680] @ [0x2000..<0x200B] @ [0x2028, 0x2029, 0x202F, 0x205F, 0x3000])"

definition strip_one :: "bytes list \<Rightarrow> bytes \<Rightarrow> bytes" where
  "strip_one ws s = (case find (\<lambda>w. take (length w) s = w) ws of Some w \<Rightarrow> drop (length w) s | None \<Rightarrow> s)"

definition str_trim :: "bytes \<Rightarrow> bytes" where
  "str_trim s = (let t = (strip_one white_space ^^ length s) s
     in rev ((strip_one (map rev white_space) ^^ length t) (rev t)))"

definition to_ascii_lowercase :: "bytes \<Rightarrow> bytes" where
  "to_ascii_lowercase s = map (\<lambda>b. if 0x41 \<le> b \<and> b \<le> 0x5A then b + 0x20 else b) s"

definition parse_gate :: "bytes option \<Rightarrow> bool" where
  "parse_gate v = (case map_option (\<lambda>v. to_ascii_lowercase (str_trim v)) v of
       Some s \<Rightarrow> s \<in> set (map ascii [''1'', ''true'', ''on'', ''yes'']) | None \<Rightarrow> False)"

record button =
  button_id :: bytes
  button_label :: bytes

record modal_spec =
  spec_id :: bytes
  spec_title :: bytes
  spec_body :: bytes
  spec_buttons :: "button list"
  timeout_ms :: nat
  on_timeout :: bytes
  on_dismiss :: "bytes option"

datatype modal_request = Probe | Start modal_spec

text \<open>Why a request is refused; the code words each one in English.\<close>

datatype request_error = NotJson | UnknownOp "bytes option" | NeedsId | NeedsButton | NoTimeoutButton bytes | NoDismissButton bytes
  | BadTimeout

definition parse_button :: "json \<Rightarrow> button option" where
  "parse_button b = (case (jtext b ''id'', jtext b ''label'') of
       (Some i, Some l) \<Rightarrow> Some \<lparr>button_id = i, button_label = l\<rparr>
     | _ \<Rightarrow> None)"

definition parse_buttons :: "json option \<Rightarrow> button list" where
  "parse_buttons v = (case Option.bind v as_array of Some a \<Rightarrow> List.map_filter parse_button a | None \<Rightarrow> [])"

definition has_button :: "button list \<Rightarrow> bytes \<Rightarrow> bool" where
  "has_button bs i \<longleftrightarrow> (\<exists>b \<in> set bs. button_id b = i)"

definition parse_start :: "json \<Rightarrow> request_error + modal_spec" where
  "parse_start v =
     (let text = (\<lambda>k. case jtext v k of Some s \<Rightarrow> s | None \<Rightarrow> []);
          buttons = parse_buttons (jget ''buttons'' v); dismiss = jtext v ''on_dismiss'';
          ms = (case Option.bind (jget ''timeout_ms'' v) as_u64 of Some n \<Rightarrow> n | None \<Rightarrow> DEFAULT_TIMEOUT_MS)
      in if text ''id'' = [] then Inl NeedsId
         else if buttons = [] then Inl NeedsButton
         else if \<not> has_button buttons (text ''on_timeout'') then Inl (NoTimeoutButton (text ''on_timeout''))
         else if (case dismiss of Some d \<Rightarrow> \<not> has_button buttons d | None \<Rightarrow> False) then Inl (NoDismissButton (the dismiss))
         else if ms = 0 \<or> ms > MAX_TIMEOUT_MS then Inl BadTimeout
         else Inr \<lparr>spec_id = text ''id'', spec_title = text ''title'', spec_body = text ''body'', spec_buttons = buttons,
                   timeout_ms = ms, on_timeout = text ''on_timeout'', on_dismiss = dismiss\<rparr>)"

definition request_of :: "json \<Rightarrow> request_error + modal_request" where
  "request_of v =
     (let op = jtext v ''op''
      in if op = Some (ascii ''probe'') then Inr Probe
         else if op \<noteq> Some (ascii ''request'') then Inl (UnknownOp op)
         else (case parse_start v of Inl e \<Rightarrow> Inl e | Inr s \<Rightarrow> Inr (Start s)))"

definition parse_request :: "json_codec \<Rightarrow> bytes \<Rightarrow> request_error + modal_request" where
  "parse_request J pl = (case from_slice J pl of None \<Rightarrow> Inl NotJson | Some v \<Rightarrow> request_of v)"

section \<open>Payloads\<close>

record resolution =
  res_kind :: string
  res_button :: "bytes option"

definition result_payload :: "json_codec \<Rightarrow> bytes \<Rightarrow> resolution \<Rightarrow> bytes" where
  "result_payload J i r = to_text J (jobj [(''op'', JStr (ascii ''result'')), (''id'', JStr i),
     (''outcome'', JStr (ascii (res_kind r))), (''button'', jopt (res_button r))])"

definition refusal_payload :: "json_codec \<Rightarrow> bytes \<Rightarrow> string \<Rightarrow> bytes \<Rightarrow> bytes" where
  "refusal_payload J i outcome reason = to_text J (jobj [(''op'', JStr (ascii ''result'')), (''id'', JStr i),
     (''outcome'', JStr (ascii outcome)), (''button'', JNull), (''reason'', JStr reason)])"

definition disabled_payload :: "json_codec \<Rightarrow> bytes \<Rightarrow> bytes" where
  "disabled_payload J i = refusal_payload J i ''disabled'' (ascii ''the daemon runs without POSH_APP_MODAL=1'')"

definition probe_answer :: "json_codec \<Rightarrow> string \<Rightarrow> bytes option \<Rightarrow> nat \<Rightarrow> nat \<Rightarrow> bytes" where
  "probe_answer J how running capable attached = to_text J (jobj [(''op'', JStr (ascii ''probe'')), (''modal'', JStr (ascii how)),
     (''active'', jopt running), (''capable'', JNat capable), (''attached'', JNat attached)])"

definition disabled_probe_payload :: "json_codec \<Rightarrow> bytes" where
  "disabled_probe_payload J = probe_answer J ''disabled'' None 0 0"

definition probe_payload :: "json_codec \<Rightarrow> bytes option \<Rightarrow> nat \<Rightarrow> nat \<Rightarrow> bytes" where
  "probe_payload J = probe_answer J ''ok''"

definition clear_payload :: "json_codec \<Rightarrow> bytes \<Rightarrow> bytes" where
  "clear_payload J i = to_text J (jobj [(''op'', JStr (ascii ''clear'')), (''id'', JStr i)])"

definition button_json :: "button \<Rightarrow> json" where
  "button_json b = jobj [(''id'', JStr (button_id b)), (''label'', JStr (button_label b))]"

section \<open>The running modal\<close>

datatype tick_result = Idle | Show | Resolved resolution

text \<open>\<open>requester\<close> is the descriptor of the requester's connection; \<open>None\<close> stands for -1.\<close>

record modal_run =
  run_spec :: modal_spec
  requester :: "nat option"
  deadline_ms :: nat
  next_show_ms :: nat

definition run_start :: "modal_spec \<Rightarrow> nat \<Rightarrow> nat \<Rightarrow> modal_run" where
  "run_start s fd now = \<lparr>run_spec = s, requester = Some fd, deadline_ms = now + timeout_ms s, next_show_ms = now\<rparr>"

definition remaining_ms :: "nat \<Rightarrow> modal_run \<Rightarrow> nat" where
  "remaining_ms now r = deadline_ms r - now"

definition show_value :: "nat \<Rightarrow> modal_run \<Rightarrow> json" where
  "show_value now r = (let s = run_spec r in jobj [(''op'', JStr (ascii ''show'')), (''id'', JStr (spec_id s)),
     (''title'', JStr (spec_title s)), (''body'', JStr (spec_body s)), (''buttons'', JArr (map button_json (spec_buttons s))),
     (''remaining_ms'', JNat (remaining_ms now r)), (''total_ms'', JNat (timeout_ms s)), (''on_dismiss'', jopt (on_dismiss s))])"

definition show_payload :: "json_codec \<Rightarrow> nat \<Rightarrow> modal_run \<Rightarrow> bytes" where
  "show_payload J now r = to_text J (show_value now r)"

definition wake_in_ms :: "nat \<Rightarrow> modal_run \<Rightarrow> nat" where
  "wake_in_ms now r = min (min (next_show_ms r) (deadline_ms r) - now) (2 ^ 31 - 1)"

definition modal_tick :: "nat \<Rightarrow> modal_run \<Rightarrow> modal_run \<times> tick_result" where
  "modal_tick now r =
     (if now \<ge> deadline_ms r
      then (r, Resolved \<lparr>res_kind = ''timeout'', res_button = Some (on_timeout (run_spec r))\<rparr>)
      else if now \<ge> next_show_ms r then (r\<lparr>next_show_ms := now + TICK_MS\<rparr>, Show)
      else (r, Idle))"

definition choose_button :: "bytes \<Rightarrow> bytes \<Rightarrow> modal_run \<Rightarrow> resolution option" where
  "choose_button i b r =
     (if i \<noteq> spec_id (run_spec r) \<or> \<not> has_button (spec_buttons (run_spec r)) b then None
      else Some \<lparr>res_kind = ''button'', res_button = Some b\<rparr>)"

definition choice_of :: "json \<Rightarrow> (bytes \<times> bytes) option" where
  "choice_of v =
     (if jtext v ''op'' \<noteq> Some (ascii ''choose'') then None
      else (case (jtext v ''id'', jtext v ''button'') of (Some i, Some b) \<Rightarrow> Some (i, b) | _ \<Rightarrow> None))"

definition parse_choose :: "json_codec \<Rightarrow> bytes \<Rightarrow> (bytes \<times> bytes) option" where
  "parse_choose J pl = Option.bind (from_slice J pl) choice_of"

definition choice_value :: "bytes \<Rightarrow> bytes \<Rightarrow> json" where
  "choice_value i b = jobj [(''op'', JStr (ascii ''choose'')), (''id'', JStr i), (''button'', JStr b)]"

definition choose_payload :: "json_codec \<Rightarrow> bytes \<Rightarrow> bytes \<Rightarrow> bytes" where
  "choose_payload J i b = to_text J (choice_value i b)"

section \<open>The viewer's copy\<close>

record modal_view =
  view_id :: bytes
  view_title :: bytes
  view_body :: bytes
  view_buttons :: "button list"
  view_dismiss :: "bytes option"
  view_remaining :: nat
  view_total_ms :: nat

datatype modal_notice = ShowNotice modal_view | ClearNotice bytes

definition parse_view :: "json \<Rightarrow> modal_view option" where
  "parse_view v = (case (jtext v ''id'', Option.bind (jget ''buttons'' v) as_array, Option.bind (jget ''remaining_ms'' v) as_u64) of
       (Some i, Some bs, Some ms) \<Rightarrow> Some \<lparr>view_id = i,
          view_title = (case jtext v ''title'' of Some t \<Rightarrow> t | None \<Rightarrow> []),
          view_body = (case jtext v ''body'' of Some t \<Rightarrow> t | None \<Rightarrow> []),
          view_buttons = List.map_filter parse_button bs, view_dismiss = jtext v ''on_dismiss'', view_remaining = ms,
          view_total_ms = (case Option.bind (jget ''total_ms'' v) as_u64 of Some n \<Rightarrow> n | None \<Rightarrow> 0)\<rparr>
     | _ \<Rightarrow> None)"

definition notice_of :: "json \<Rightarrow> modal_notice option" where
  "notice_of v =
     (if jtext v ''op'' = Some (ascii ''clear'') then map_option ClearNotice (jtext v ''id'')
      else if jtext v ''op'' = Some (ascii ''show'') then map_option ShowNotice (parse_view v)
      else None)"

definition parse_notice :: "json_codec \<Rightarrow> bytes \<Rightarrow> modal_notice option" where
  "parse_notice J pl = Option.bind (from_slice J pl) notice_of"

definition seconds_left :: "modal_view \<Rightarrow> nat" where
  "seconds_left v = (view_remaining v + 999) div 1000"

definition modal_banner :: "modal_view \<Rightarrow> bytes" where
  "modal_banner v = ascii '' '' @ view_title v @ ascii '' - '' @ decimal_digits (seconds_left v) @ ascii ''s left - Ctrl-^ to review ''"

text \<open>The exit code of \<open>posh modal\<close> for the daemon's reply.\<close>

definition modal_exit_code :: "json \<Rightarrow> nat" where
  "modal_exit_code reply =
     (if jtext reply ''op'' = Some (ascii ''probe'')
      then (if jtext reply ''modal'' = Some (ascii ''disabled'') then 13 else 0)
      else if jtext reply ''outcome'' = Some (ascii ''button'') \<and> jtext reply ''button'' = Some (ascii ''cancel'') then 10
      else if jtext reply ''outcome'' = Some (ascii ''busy'') then 11
      else if jtext reply ''outcome'' = Some (ascii ''invalid'') then 12
      else if jtext reply ''outcome'' = Some (ascii ''disabled'') then 13 else 0)"

section \<open>Reading a payload back\<close>

lemma of_char_u8: "(of_char c :: u8) = of_char d \<longleftrightarrow> c = d"
proof
  have u: "unat (of_char e :: u8) = of_char e" for e
  proof -
    have "unat (of_nat (of_char e) :: u8) = of_char e mod 256" by (simp add: unat_of_nat)
    then show ?thesis by (simp add: of_nat_of_char)
  qed
  assume "(of_char c :: u8) = of_char d"
  then have "unat (of_char c :: u8) = unat (of_char d :: u8)" by simp
  then show "c = d" by (simp only: u of_char_eq_iff)
qed simp

lemma ascii_inject [simp]: "ascii s = ascii t \<longleftrightarrow> s = t"
  unfolding ascii_def by (rule inj_map_eq_map) (simp add: inj_def of_char_u8)

lemma jget_obj [simp]: "jget k (jobj kvs) = map_of kvs k"
  by (induction kvs) (auto simp: jobj_def)

lemma as_str_jopt [simp]: "as_str (jopt s) = s"
  by (cases s) (simp_all add: jopt_def)

lemma parse_button_json [simp]: "parse_button (button_json b) = Some b"
  by (simp add: parse_button_def button_json_def jtext_def)

lemma parse_button_list [simp]: "List.map_filter parse_button (map button_json bs) = bs"
  by (induction bs) (simp_all add: List.map_filter_simps)

lemma has_button_image: "has_button bs i \<longleftrightarrow> i \<in> button_id ` set bs"
  by (auto simp: has_button_def)

text \<open>
  C38. What the daemon shows, a viewer reads: every countdown message gives the viewer the modal's texts and
  buttons with the daemon's own remaining time, whole seconds rounded up; the choice a viewer sends back is
  read as that choice; and the daemon accepts it exactly when it names the running modal and one of its buttons.
\<close>

theorem modal_messages_roundtrip:
  "notice_of (show_value now r) = Some (ShowNotice \<lparr>view_id = spec_id (run_spec r), view_title = spec_title (run_spec r),
      view_body = spec_body (run_spec r), view_buttons = spec_buttons (run_spec r), view_dismiss = on_dismiss (run_spec r),
      view_remaining = deadline_ms r - now, view_total_ms = timeout_ms (run_spec r)\<rparr>) \<and>
   choice_of (choice_value i b) = Some (i, b) \<and>
   (choose_button i b r = Some \<lparr>res_kind = ''button'', res_button = Some b\<rparr> \<longleftrightarrow>
      i = spec_id (run_spec r) \<and> b \<in> button_id ` set (spec_buttons (run_spec r)))"
proof -
  have "parse_view (show_value now r) = Some \<lparr>view_id = spec_id (run_spec r), view_title = spec_title (run_spec r),
      view_body = spec_body (run_spec r), view_buttons = spec_buttons (run_spec r), view_dismiss = on_dismiss (run_spec r),
      view_remaining = deadline_ms r - now, view_total_ms = timeout_ms (run_spec r)\<rparr>"
    by (simp add: parse_view_def show_value_def jtext_def Let_def remaining_ms_def)
  moreover have "jtext (show_value now r) ''op'' = Some (ascii ''show'')" by (simp add: show_value_def jtext_def Let_def)
  ultimately show ?thesis
    by (auto simp: notice_of_def choice_of_def choice_value_def jtext_def choose_button_def has_button_def)
qed

text \<open>
  C39. A request the daemon starts is well formed: it has an identifier, its timeout is between a millisecond
  and a day, and the buttons taken on timeout and on dismissal are among its own.
\<close>

theorem started_modal_well_formed:
  assumes "parse_request J pl = Inr (Start s)"
  shows "spec_id s \<noteq> [] \<and> spec_buttons s \<noteq> [] \<and> 0 < timeout_ms s \<and> timeout_ms s \<le> MAX_TIMEOUT_MS \<and>
    on_timeout s \<in> button_id ` set (spec_buttons s) \<and>
    (\<forall>d. on_dismiss s = Some d \<longrightarrow> d \<in> button_id ` set (spec_buttons s))"
proof -
  obtain v where v: "parse_start v = Inr s"
    using assms by (auto simp: parse_request_def request_of_def Let_def split: option.splits if_splits sum.splits)
  define str where "str k = (case jtext v k of Some s \<Rightarrow> s | None \<Rightarrow> [])" for k
  define bs where "bs = parse_buttons (jget ''buttons'' v)"
  define ms where "ms = (case Option.bind (jget ''timeout_ms'' v) as_u64 of Some n \<Rightarrow> n | None \<Rightarrow> DEFAULT_TIMEOUT_MS)"
  define dismiss where "dismiss = jtext v ''on_dismiss''"
  have "str ''id'' \<noteq> [] \<and> bs \<noteq> [] \<and> has_button bs (str ''on_timeout'') \<and>
      \<not> (case dismiss of Some d \<Rightarrow> \<not> has_button bs d | None \<Rightarrow> False) \<and> ms \<noteq> 0 \<and> ms \<le> MAX_TIMEOUT_MS \<and>
      s = \<lparr>spec_id = str ''id'', spec_title = str ''title'', spec_body = str ''body'', spec_buttons = bs,
        timeout_ms = ms, on_timeout = str ''on_timeout'', on_dismiss = dismiss\<rparr>"
    using v unfolding parse_start_def Let_def str_def [symmetric] bs_def [symmetric] ms_def [symmetric] dismiss_def [symmetric]
    by (simp split: if_split_asm)
  then show ?thesis by (cases dismiss) (simp_all add: has_button_image)
qed

lemma started_modal_well_formed_witness:
  "\<exists>J pl s. parse_request J pl = Inr (Start s) \<and> spec_id s = [0x72] \<and> timeout_ms s = 30000 \<and> on_dismiss s = None"
proof -
  let ?v = "jobj [(''op'', JStr (ascii ''request'')), (''id'', JStr [0x72]),
     (''buttons'', JArr [button_json \<lparr>button_id = [0x6E], button_label = [0x4E]\<rparr>]), (''on_timeout'', JStr [0x6E])]"
  let ?J = "\<lparr>from_slice = \<lambda>_. Some ?v, to_text = \<lambda>_. []\<rparr>"
  let ?s = "\<lparr>spec_id = [0x72], spec_title = [], spec_body = [], spec_buttons = [\<lparr>button_id = [0x6E], button_label = [0x4E]\<rparr>],
     timeout_ms = 30000, on_timeout = [0x6E], on_dismiss = None\<rparr>"
  have "parse_start ?v = Inr ?s"
    by (simp add: parse_start_def jtext_def Let_def parse_buttons_def List.map_filter_simps has_button_def DEFAULT_TIMEOUT_MS_def MAX_TIMEOUT_MS_def)
  then have r: "parse_request ?J [] = Inr (Start ?s)"
    by (simp add: parse_request_def request_of_def jtext_def)
  from started_modal_well_formed [OF r] r show ?thesis by (intro exI [of _ ?J] exI [of _ "[]"] exI [of _ ?s]) simp
qed

end
