(* ===== verification/DaemonLoop.thy ===== *)
theory DaemonLoop
  imports Daemon Modal IpcFacts
begin

text \<open>
  The loop of the session daemon, \<open>daemon_loop\<close> of \<open>crates/posh/src/session/daemon.rs\<close>, and the
  operations on all attached connections: the broadcast, the paced send pass and its poll deadline, the
  session size, the switch router, the modal's arbitration, and one connection's turn. Sockets, the pty, the
  spawned shells and the terminal model are the environment: what a read returns and a write takes, and the
  terminals after their input, are arguments; what the loop writes to a pty is listed.
\<close>

section \<open>Broadcast\<close>

definition swap_remove :: "nat \<Rightarrow> 'a list \<Rightarrow> 'a list" where
  "swap_remove k xs = (if k + 1 = length xs then butlast xs else (butlast xs)[k := last xs])"

text \<open>The dump for one client, shared with an earlier one where it can be; \<open>later\<close> lists the geometries to come.\<close>

definition dump_for :: "(u16 \<times> u16) list \<Rightarrow> 's session_term \<Rightarrow> u16 \<times> u16 \<Rightarrow> mirror_dump list \<Rightarrow> mirror_dump list \<times> mirror_dump" where
  "dump_for later t sz held =
     (let (held, d) = (case position (\<lambda>d. is_dump_for d sz) held of
            Some k \<Rightarrow> (swap_remove k held, held ! k)
          | None \<Rightarrow> (held, dump_vt_mirror t sz))
      in (if \<exists>g \<in> set later. is_dump_for d g then held @ [d] else held, d))"

definition geometries :: "'s client_conn list \<Rightarrow> (u16 \<times> u16) list" where
  "geometries cs = map conn_size (filter takes_per_read_frames cs)"

definition broadcast_to ::
  "('s \<Rightarrow> 's \<Rightarrow> bytes) \<Rightarrow> bool \<Rightarrow> 's session_term \<Rightarrow> bytes \<Rightarrow> bytes \<Rightarrow> 's client_conn \<Rightarrow> 's client_conn" where
  "broadcast_to nf framed t bcast dump c =
     (case (if framed then queue_frame nf dump t c else (c, False)) of
        (c, True) \<Rightarrow> fst (maybe_queue_scrollback t c)
      | (c, False) \<Rightarrow> queue TagOutput bcast c)"

fun broadcast_loop ::
  "('s \<Rightarrow> 's \<Rightarrow> bytes) \<Rightarrow> bool \<Rightarrow> 's session_term \<Rightarrow> bytes \<Rightarrow> mirror_dump list \<Rightarrow> 's client_conn list \<Rightarrow> 's client_conn list" where
  "broadcast_loop nf framed t bcast held [] = []"
| "broadcast_loop nf framed t bcast held (c # cs) =
     (if \<not> init_applied c then c # broadcast_loop nf framed t bcast held cs
      else if conn_is_paced c then fst (owe_paced_frame c) # broadcast_loop nf framed t bcast held cs
      else if framed \<and> conn_producer c \<noteq> None
      then (let (held, d) = dump_for (geometries cs) t (conn_size c) held
            in broadcast_to nf framed t bcast (dump_bytes d) (note_visible_dump_shape d c) #
               broadcast_loop nf framed t bcast held cs)
      else broadcast_to nf framed t bcast [] c # broadcast_loop nf framed t bcast held cs)"

definition broadcast_output ::
  "('s \<Rightarrow> 's \<Rightarrow> bytes) \<Rightarrow> 's session_term \<Rightarrow> bytes \<Rightarrow> 's client_conn list \<Rightarrow> 's client_conn list" where
  "broadcast_output nf t bcast cs = broadcast_loop nf (\<exists>c \<in> set cs. takes_per_read_frames c) t bcast [] cs"

definition broadcast_source_swap ::
  "('s \<Rightarrow> 's \<Rightarrow> bytes) \<Rightarrow> 's session_term \<Rightarrow> bytes \<Rightarrow> 's client_conn list \<Rightarrow> 's client_conn list" where
  "broadcast_source_swap nf t bcast cs =
     broadcast_output nf t bcast (map (\<lambda>c. c\<lparr>conn_producer := map_option drop_acked_base (conn_producer c)\<rparr>) cs)"

definition queue_due_answers :: "('s \<Rightarrow> 's \<Rightarrow> bytes) \<Rightarrow> 's session_term \<Rightarrow> 's client_conn list \<Rightarrow> 's client_conn list" where
  "queue_due_answers nf src cs = map (\<lambda>c. if answer_due c then fst (request_frame_from nf src c) else c) cs"

section \<open>Paced delivery\<close>

definition due :: "nat option \<Rightarrow> nat \<Rightarrow> bool" where
  "due at now \<longleftrightarrow> (case at of Some t \<Rightarrow> now \<ge> t | None \<Rightarrow> False)"

definition send_paced_one ::
  "('s \<Rightarrow> 's \<Rightarrow> bytes) \<Rightarrow> 's session_term \<Rightarrow> 's session_term option \<Rightarrow> nat \<Rightarrow> 's client_conn \<Rightarrow> 's client_conn" where
  "send_paced_one nf src hist now c0 =
     (let c = (case hist of Some t \<Rightarrow> refresh_history_extent t c0 | None \<Rightarrow> c0);
          screen = due (paced_send_at c) now;
          rws = opt_filter (\<lambda>t. due (history_send_at t c) now) hist;
          was_screen = (case pacing c of Some p \<Rightarrow> last_was_screen p | None \<Rightarrow> False)
      in case rws of
           Some t \<Rightarrow> (if screen \<and> \<not> was_screen then send_paced_frame nf src now c else send_history_body t now c)
         | None \<Rightarrow> (if screen then send_paced_frame nf src now c else c))"

definition send_paced_frames ::
  "('s \<Rightarrow> 's \<Rightarrow> bytes) \<Rightarrow> 's session_term \<Rightarrow> 's session_term option \<Rightarrow> nat \<Rightarrow> 's client_conn list \<Rightarrow> 's client_conn list" where
  "send_paced_frames nf src hist now cs = map (send_paced_one nf src hist now) cs"

definition opportunities :: "'s session_term option \<Rightarrow> 's client_conn \<Rightarrow> nat list" where
  "opportunities hist c = List.map_filter id [paced_send_at c, Option.bind hist (\<lambda>t. history_send_at t c)]"

text \<open>\<open>-1\<close> blocks.\<close>

definition paced_poll_timeout :: "'s client_conn list \<Rightarrow> 's session_term option \<Rightarrow> nat \<Rightarrow> int" where
  "paced_poll_timeout cs hist now =
     (let ds = concat (map (opportunities hist) cs)
      in if ds = [] then - 1 else int (min (Min (set (map (\<lambda>at. at - now) ds))) (2 ^ 31 - 1)))"

definition merge_poll_timeouts :: "int \<Rightarrow> int \<Rightarrow> int" where
  "merge_poll_timeouts a b = (if a = - 1 then b else if b = - 1 then a else min a b)"

definition flush_paced_frames ::
  "('s \<Rightarrow> 's \<Rightarrow> bytes) \<Rightarrow> 's session_term \<Rightarrow> nat \<Rightarrow> 's client_conn list \<Rightarrow> 's client_conn list" where
  "flush_paced_frames nf src now cs = map (\<lambda>c. if owes_paced_frame c then send_paced_frame nf src now c else c) cs"

section \<open>Query replies\<close>

datatype query_choice = Answer | Silent | SuppressKitty

definition query_policy :: "'s client_conn list \<Rightarrow> query_choice" where
  "query_policy cs =
     (let attached = filter init_applied cs
      in if attached = [] then Answer
         else if \<exists>c \<in> set attached. conn_producer c = None then Silent
         else if \<forall>c \<in> set attached. find_cap (conn_caps c) CAP_KITTY_KEYBOARD \<noteq> None then Answer else SuppressKitty)"

definition is_digit :: "u8 \<Rightarrow> bool" where
  "is_digit b \<longleftrightarrow> 0x30 \<le> b \<and> b \<le> 0x39"

definition kitty_prefix :: bytes where "kitty_prefix = [0x1B, 0x5B, 0x3F]"

text \<open>The length of the kitty reply the bytes begin with, if they do.\<close>

definition kitty_reply_len :: "bytes \<Rightarrow> nat option" where
  "kitty_reply_len bs =
     (if take 3 bs = kitty_prefix
      then (let ds = takeWhile is_digit (drop 3 bs); rest = dropWhile is_digit (drop 3 bs)
            in if ds \<noteq> [] \<and> rest \<noteq> [] \<and> hd rest = 0x75 then Some (3 + length ds + 1) else None)
      else None)"

function strip_kitty_reply :: "bytes \<Rightarrow> bytes" where
  "strip_kitty_reply bs = (case bs of
       [] \<Rightarrow> []
     | b # rest \<Rightarrow> (case kitty_reply_len bs of Some n \<Rightarrow> strip_kitty_reply (drop n bs) | None \<Rightarrow> b # strip_kitty_reply rest))"
  by pat_completeness auto
termination
  by (relation "measure length") (auto simp: kitty_reply_len_def Let_def split: if_splits)

declare strip_kitty_reply.simps [simp del]

section \<open>Sources and sizes\<close>

definition active_source :: "'s session_term option \<Rightarrow> 's session_term \<Rightarrow> 's session_term" where
  "active_source overlay t = (case overlay of Some o1 \<Rightarrow> o1 | None \<Rightarrow> t)"

definition take_push_request :: "cap list \<Rightarrow> u64 list \<Rightarrow> u64 list \<times> u64 option" where
  "take_push_request table served =
     (case Option.bind (find_cap table CAP_PUSH_CMD_REQUEST) (\<lambda>x. decode_push_cmd_request (payload x)) of
        None \<Rightarrow> (served, None)
      | Some token \<Rightarrow>
          (if token \<in> set served then (served, None)
           else (let s = served @ [token] in (drop (length s - 64) s, Some token))))"

text \<open>The connection a switch goes to: the latest input, the latest attached among equals.\<close>

fun route_best :: "nat \<Rightarrow> (nat \<times> nat) option \<Rightarrow> nat \<Rightarrow> 's client_conn list \<Rightarrow> (nat \<times> nat) option" where
  "route_best req best j [] = best"
| "route_best req best j (c # cs) =
     (if j = req \<or> \<not> init_applied c then route_best req best (Suc j) cs
      else (let key = (last_input_ms c, j);
                better = (case best of None \<Rightarrow> True | Some b \<Rightarrow> fst key > fst b \<or> (fst key = fst b \<and> snd key \<ge> snd b))
            in route_best req (if better then Some key else best) (Suc j) cs))"

definition switch_route_target :: "'s client_conn list \<Rightarrow> nat \<Rightarrow> nat option" where
  "switch_route_target cs req = map_option snd (route_best req None 0 cs)"

fun min_size_from :: "(u16 \<times> u16) option \<Rightarrow> (u16 \<times> u16) list \<Rightarrow> (u16 \<times> u16) option" where
  "min_size_from acc [] = acc"
| "min_size_from acc (sz # szs) =
     (if fst sz = 0 \<or> snd sz = 0 then min_size_from acc szs
      else min_size_from (Some (case acc of None \<Rightarrow> sz | Some (r, w) \<Rightarrow> (min r (fst sz), min w (snd sz)))) szs)"

definition min_client_size :: "'s client_conn list \<Rightarrow> (u16 \<times> u16) option" where
  "min_client_size cs = min_size_from None (map conn_size cs)"

definition apply_client_size ::
  "('s session_term \<Rightarrow> u16 \<times> u16 \<Rightarrow> 's session_term) \<Rightarrow> 's client_conn list \<Rightarrow> 's session_term \<Rightarrow> 's session_term" where
  "apply_client_size resize cs t = (case min_client_size cs of Some sz \<Rightarrow> resize t sz | None \<Rightarrow> t)"

definition reset_scrollback_floors_on_reflow :: "'s session_term \<Rightarrow> u16 \<Rightarrow> 's client_conn list \<Rightarrow> 's client_conn list" where
  "reset_scrollback_floors_on_reflow t cols_before cs =
     (if snd (term_dims t) = cols_before then cs
      else map (\<lambda>c. if conn_producer c \<noteq> None then c\<lparr>conn_floor := scrollback_total t\<rparr> else c) cs)"

definition reset_history_one :: "'s session_term \<Rightarrow> u16 \<times> u16 \<Rightarrow> 's client_conn \<Rightarrow> 's client_conn" where
  "reset_history_one t before c = update_history (\<lambda>h.
     case on_client_size (conn_size c) (scrollback_total t) h of
       (h, True) \<Rightarrow> h
     | (h, False) \<Rightarrow>
         (if snd (term_dims t) \<noteq> snd before \<or> fst (term_dims t) > fst before then reanchor (scrollback_total t) h else h)) c"

definition reset_history_on_resize :: "'s session_term \<Rightarrow> u16 \<times> u16 \<Rightarrow> 's client_conn list \<Rightarrow> 's client_conn list" where
  "reset_history_on_resize t before cs = map (reset_history_one t before) cs"

section \<open>The modal among the connections\<close>

definition modal_capable :: "'s client_conn \<Rightarrow> bool" where
  "modal_capable c \<longleftrightarrow> find_cap (conn_caps c) CAP_APP_MODAL \<noteq> None"

definition queue_to_viewers :: "bytes \<Rightarrow> 's client_conn list \<Rightarrow> 's client_conn list" where
  "queue_to_viewers pl cs = map (\<lambda>c. if modal_capable c then queue TagModal pl c else c) cs"

definition queue_to_conn :: "nat option \<Rightarrow> tag \<Rightarrow> bytes \<Rightarrow> 's client_conn list \<Rightarrow> 's client_conn list" where
  "queue_to_conn fd tg pl cs = (case fd of
       None \<Rightarrow> cs
     | Some i \<Rightarrow> (case position (\<lambda>c. conn_id c = i) cs of None \<Rightarrow> cs | Some k \<Rightarrow> cs[k := queue tg pl (cs ! k)]))"

definition modal_resolve ::
  "json_codec \<Rightarrow> resolution \<Rightarrow> 's client_conn list \<times> modal_run option \<Rightarrow> 's client_conn list \<times> modal_run option" where
  "modal_resolve J res x = (case x of
       (cs, None) \<Rightarrow> (cs, None)
     | (cs, Some run) \<Rightarrow>
         (queue_to_conn (requester run) TagModal (result_payload J (spec_id (run_spec run)) res)
            (queue_to_viewers (clear_payload J (spec_id (run_spec run))) cs), None))"

definition modal_refuse_disabled :: "json_codec \<Rightarrow> bytes \<Rightarrow> 's client_conn \<Rightarrow> 's client_conn" where
  "modal_refuse_disabled J pl c = (case parse_request J pl of
       Inr Probe \<Rightarrow> queue TagModal (disabled_probe_payload J) c
     | Inr (Start s) \<Rightarrow> queue TagModal (disabled_payload J (spec_id s)) c
     | Inl _ \<Rightarrow> c)"

definition no_viewer :: resolution where
  "no_viewer = \<lparr>res_kind = ''no-viewer'', res_button = None\<rparr>"

definition modal_drive ::
  "json_codec \<Rightarrow> nat \<Rightarrow> 's client_conn list \<times> modal_run option \<Rightarrow> 's client_conn list \<times> modal_run option" where
  "modal_drive J now x = (case x of
       (cs, None) \<Rightarrow> (cs, None)
     | (cs, Some run) \<Rightarrow>
         (if \<not> (\<exists>c \<in> set cs. modal_capable c) then modal_resolve J no_viewer (cs, Some run)
          else (case modal_tick now run of
              (run, Idle) \<Rightarrow> (cs, Some run)
            | (run, Show) \<Rightarrow> (queue_to_viewers (show_payload J now run) cs, Some run)
            | (run, Resolved res) \<Rightarrow> modal_resolve J res (cs, Some run))))"

text \<open>\<open>reason\<close> words a refused request or a running modal.\<close>

record modal_texts =
  error_text :: "request_error \<Rightarrow> bytes"
  busy_text :: "bytes \<Rightarrow> bytes"

definition modal_start ::
  "json_codec \<Rightarrow> modal_texts \<Rightarrow> nat \<Rightarrow> nat \<Rightarrow> modal_spec \<Rightarrow> 's client_conn list \<times> modal_run option \<Rightarrow> 's client_conn list \<times> modal_run option" where
  "modal_start J W from now s x = (case x of
       (cs, Some run) \<Rightarrow>
         (cs[from := queue TagModal (refusal_payload J (spec_id s) ''busy'' (busy_text W (spec_id (run_spec run)))) (cs ! from)], Some run)
     | (cs, None) \<Rightarrow>
         (if \<not> (\<exists>j < length cs. j \<noteq> from \<and> modal_capable (cs ! j))
          then (cs[from := queue TagModal (result_payload J (spec_id s) no_viewer) (cs ! from)], None)
          else modal_drive J now (cs, Some (run_start s (conn_id (cs ! from)) now))))"

definition modal_handle ::
  "json_codec \<Rightarrow> modal_texts \<Rightarrow> nat \<Rightarrow> bytes \<Rightarrow> nat \<Rightarrow> 's client_conn list \<times> modal_run option \<Rightarrow> 's client_conn list \<times> modal_run option" where
  "modal_handle J W from pl now x = (case x of (cs, m) \<Rightarrow>
     (case parse_choose J pl of
        Some (i, b) \<Rightarrow> (case Option.bind m (choose_button i b) of Some res \<Rightarrow> modal_resolve J res (cs, m) | None \<Rightarrow> (cs, m))
      | None \<Rightarrow> (case parse_request J pl of
          Inl e \<Rightarrow> (cs[from := queue TagModal (refusal_payload J [] ''invalid'' (error_text W e)) (cs ! from)], m)
        | Inr Probe \<Rightarrow>
            (cs[from := queue TagModal (probe_payload J (map_option (\<lambda>r. spec_id (run_spec r)) m)
                (length (filter (\<lambda>j. j \<noteq> from \<and> modal_capable (cs ! j)) [0..<length cs])) (length cs - 1)) (cs ! from)], m)
        | Inr (Start s) \<Rightarrow> modal_start J W from now s (cs, m))))"

section \<open>The loop's state\<close>

text \<open>
  What the daemon takes from outside its loop: the painter, the terminal's resize, the JSON codec, and whether
  the modal prototype is on.
\<close>

record 's host =
  new_frame_delta :: "'s \<Rightarrow> 's \<Rightarrow> bytes"
  blank_snapshot :: "u16 \<times> u16 \<Rightarrow> 's"
  resize_term :: "'s session_term \<Rightarrow> u16 \<times> u16 \<Rightarrow> 's session_term"
  json :: json_codec
  texts :: modal_texts
  modal_on :: bool
  group_name :: bytes

record 's daemon =
  session_screen :: "'s session_term"
  overlay :: "'s session_term option"
  conns :: "'s client_conn list"
  served_pushes :: "u64 list"
  has_pty_output :: bool
  modal :: "modal_run option"

definition daemon_new :: "'s session_term \<Rightarrow> u64 option \<Rightarrow> 's daemon" where
  "daemon_new t seed = \<lparr>session_screen = t, overlay = None, conns = [], served_pushes = (case seed of Some x \<Rightarrow> [x] | None \<Rightarrow> []),
     has_pty_output = False, modal = None\<rparr>"

definition daemon_source :: "'s daemon \<Rightarrow> 's session_term" where
  "daemon_source d = active_source (overlay d) (session_screen d)"

text \<open>The start of an iteration: stuck readers go, every connection is stamped, the modal's clock runs.\<close>

definition drop_stuck :: "'s client_conn list \<Rightarrow> 's client_conn list" where
  "drop_stuck cs = filter (\<lambda>c. length (write_buf c) \<le> MAX_CLIENT_BACKLOG) cs"

definition stamp_conn :: "u8 \<Rightarrow> u8 \<Rightarrow> session_activity \<Rightarrow> 's client_conn \<Rightarrow> 's client_conn" where
  "stamp_conn echo ov act c = c\<lparr>echo_flag := echo, overlay_flag := ov,
     activity_now := (if wants_activity c then Some act else activity_now c)\<rparr>"

definition begin_iteration :: "'s host \<Rightarrow> bool \<Rightarrow> session_activity \<Rightarrow> nat \<Rightarrow> 's daemon \<Rightarrow> 's daemon" where
  "begin_iteration H echo act now d =
     (let cs = map (stamp_conn (if echo then FLAG_ECHO else 0) (if overlay d \<noteq> None then FLAG_OVERLAY else 0) act) (drop_stuck (conns d))
      in case modal_drive (json H) now (cs, modal d) of (cs, m) \<Rightarrow> d\<lparr>conns := cs, modal := m\<rparr>)"

definition accept_client :: "nat \<Rightarrow> session_kind \<Rightarrow> 's daemon \<Rightarrow> 's daemon" where
  "accept_client fd k d = d\<lparr>conns := conns d @ [conn_new fd k]\<rparr>"

text \<open>Output of the session's pty: the terminal after it, the replies it makes, the bytes to broadcast.\<close>

definition pty_output :: "'s host \<Rightarrow> 's session_term \<Rightarrow> bytes \<Rightarrow> bytes \<Rightarrow> 's daemon \<Rightarrow> 's daemon \<times> bytes" where
  "pty_output H t responses bcast d =
     (let reply = (if responses = [] then []
             else case query_policy (conns d) of
               Answer \<Rightarrow> responses | SuppressKitty \<Rightarrow> strip_kitty_reply responses | Silent \<Rightarrow> []);
          cs = (if overlay d = None \<and> bcast \<noteq> [] then broadcast_output (new_frame_delta H) t bcast (conns d) else conns d)
      in (d\<lparr>session_screen := t, has_pty_output := True, conns := cs\<rparr>, reply))"

definition overlay_output :: "'s host \<Rightarrow> 's session_term \<Rightarrow> bytes \<Rightarrow> 's daemon \<Rightarrow> 's daemon" where
  "overlay_output H o1 bcast d =
     (if overlay d = None then d
      else d\<lparr>overlay := Some o1,
             conns := (if bcast \<noteq> [] then broadcast_output (new_frame_delta H) o1 bcast (conns d) else conns d)\<rparr>)"

definition overlay_closed :: "'s host \<Rightarrow> 's daemon \<Rightarrow> 's daemon" where
  "overlay_closed H d =
     (if overlay d = None then d
      else d\<lparr>overlay := None, conns := broadcast_source_swap (new_frame_delta H) (session_screen d)
             (flat_dump (session_screen d)) (conns d)\<rparr>)"

section \<open>A connection's frames\<close>

datatype flow = Going | Gone | DetachAll | Kill

datatype pty_write = ToActive bytes | ToSession bytes

text \<open>The connection and the locals of its turn.\<close>

record 's batch =
  b_conn :: "'s client_conn"
  b_flow :: flow
  b_resized :: bool
  b_replay :: bool
  b_shell :: bool
  b_switch :: "bytes option"
  b_push :: "u64 option"
  b_modals :: "bytes list"
  b_served :: "u64 list"
  b_writes :: "pty_write list"

definition batch_new :: "u64 list \<Rightarrow> 's client_conn \<Rightarrow> 's batch" where
  "batch_new served c = \<lparr>b_conn = c, b_flow = Going, b_resized = False, b_replay = False, b_shell = False, b_switch = None,
     b_push = None, b_modals = [], b_served = served, b_writes = []\<rparr>"

definition batch_push :: "cap list \<Rightarrow> 's batch \<Rightarrow> 's batch" where
  "batch_push table b = (case take_push_request table (b_served b) of
     (served, token) \<Rightarrow> b\<lparr>b_served := served, b_push := (case b_push b of Some x \<Rightarrow> Some x | None \<Rightarrow> token)\<rparr>)"

definition on_init :: "'s host \<Rightarrow> 's daemon \<Rightarrow> nat \<Rightarrow> bytes \<Rightarrow> 's batch \<Rightarrow> 's batch" where
  "on_init H d now pl b =
     (let t = session_screen d; (c, resized) = apply_init pl now (scrollback_total t) (b_conn b);
          b = batch_push (conn_caps c) (b\<lparr>b_conn := c, b_resized := (b_resized b \<or> resized)\<rparr>);
          framed_before = (conn_producer c \<noteq> None);
          c = maybe_enable_frames (blank_snapshot H) c;
          c = (if \<not> framed_before \<and> conn_producer c \<noteq> None then c\<lparr>conn_floor := scrollback_total t\<rparr> else c)
      in b\<lparr>b_conn := open_history t c, b_replay := (has_pty_output d \<or> overlay d \<noteq> None)\<rparr>)"

definition on_client_caps :: "'s daemon \<Rightarrow> nat \<Rightarrow> bytes \<Rightarrow> 's batch \<Rightarrow> 's batch" where
  "on_client_caps d now pl b = (case decode_table pl of
       Inl _ \<Rightarrow> b
     | Inr (table, _) \<Rightarrow>
         batch_push table (b\<lparr>b_conn := absorb_client_caps table now False (scrollback_total (session_screen d)) (b_conn b)\<rparr>))"

text \<open>One decoded frame; \<open>info\<close> is the session record but for the count of the other connections.\<close>

definition on_frame :: "'s host \<Rightarrow> 's daemon \<Rightarrow> session_info \<Rightarrow> nat \<Rightarrow> tag tagged_frame \<Rightarrow> 's batch \<Rightarrow> 's batch" where
  "on_frame H d info now f b =
     (let pl = frame_payload f; c = b_conn b in
      case tagged_frame.tag f of
        TagInput \<Rightarrow> b\<lparr>b_conn := c\<lparr>last_input_ms := now\<rparr>, b_writes := b_writes b @ [ToActive pl]\<rparr>
      | TagInit \<Rightarrow> on_init H d now pl b
      | TagResize \<Rightarrow> (case apply_resize pl c of (c, r) \<Rightarrow> b\<lparr>b_conn := c, b_resized := (b_resized b \<or> r)\<rparr>)
      | TagClientCaps \<Rightarrow> on_client_caps d now pl b
      | TagDetach \<Rightarrow> b\<lparr>b_flow := Gone\<rparr>
      | TagDetachAll \<Rightarrow> b\<lparr>b_flow := DetachAll\<rparr>
      | TagKill \<Rightarrow> b\<lparr>b_flow := Kill\<rparr>
      | TagInfo \<Rightarrow> b\<lparr>b_conn := queue TagInfo (encode_info (info\<lparr>clients := of_nat (length (conns d) - 1)\<rparr>)) c\<rparr>
      | TagHistory \<Rightarrow> b\<lparr>b_conn := queue TagHistory
          (if decode_history_format pl then tail_dump (session_screen d) None else text_dump (session_screen d)) c\<rparr>
      | TagRun \<Rightarrow> b\<lparr>b_conn := queue TagAck [] c, b_writes := b_writes b @ [ToSession pl]\<rparr>
      | TagShell \<Rightarrow> b\<lparr>b_shell := True\<rparr>
      | TagSwitchRequest \<Rightarrow> (if decode_switch_target pl \<noteq> None then b\<lparr>b_switch := Some pl\<rparr> else b)
      | TagFrameAck \<Rightarrow> b\<lparr>b_conn := handle_frame_ack (new_frame_delta H) pl (daemon_source d) now c\<rparr>
      | TagModal \<Rightarrow> b\<lparr>b_modals := b_modals b @ [pl]\<rparr>
      | _ \<Rightarrow> b)"

fun on_frames :: "'s host \<Rightarrow> 's daemon \<Rightarrow> session_info \<Rightarrow> nat \<Rightarrow> tag tagged_frame list \<Rightarrow> 's batch \<Rightarrow> 's batch" where
  "on_frames H d info now [] b = b"
| "on_frames H d info now (f # fs) b =
     (let b = on_frame H d info now f b in if b_flow b = Going then on_frames H d info now fs b else b)"

text \<open>What the poll found for one connection: its read, its write, and an error condition.\<close>

datatype read_event = NoRead | ReadBytes bytes | ReadEnded

record turn_io =
  io_read :: read_event
  io_write :: "nat option"
  io_failed :: bool

definition batch_read :: "'s host \<Rightarrow> 's daemon \<Rightarrow> session_info \<Rightarrow> nat \<Rightarrow> read_event \<Rightarrow> 's batch \<Rightarrow> 's batch" where
  "batch_read H d info now r b = (case r of
       NoRead \<Rightarrow> b
     | ReadEnded \<Rightarrow> b\<lparr>b_flow := Gone\<rparr>
     | ReadBytes bs \<Rightarrow>
         (let (fs, buf, err) = drain session_tags (feed bs (read_buf (b_conn b)));
              b = on_frames H d info now fs (b\<lparr>b_conn := (b_conn b)\<lparr>read_buf := buf\<rparr>\<rparr>)
          in if b_flow b = Going \<and> err \<noteq> None then b\<lparr>b_flow := Gone\<rparr> else b))"

text \<open>The rest of the turn's first part: the write, the error condition, the changed geometry.\<close>

definition batch_write :: "turn_io \<Rightarrow> bool \<Rightarrow> 's batch \<Rightarrow> 's batch" where
  "batch_write io has_output b =
     (let b = (case io_write io of
            Some n \<Rightarrow> (if b_flow b \<noteq> Gone \<and> write_buf (b_conn b) \<noteq> []
                       then b\<lparr>b_conn := drain_written n (b_conn b)\<rparr> else b)
          | None \<Rightarrow> b);
          b = (if io_failed io \<and> b_flow b = Going then b\<lparr>b_flow := Gone\<rparr> else b);
          (c, owed) = prepare_regeometry_frame (b_conn b)
      in b\<lparr>b_conn := c, b_replay := (b_replay b \<or> (owed \<and> has_output))\<rparr>)"

section \<open>A connection's turn\<close>

text \<open>What the turn takes from outside: a fresh label, the overlay's terminal if its shell starts, the pushed session.\<close>

record 's turn_env =
  turn_now :: nat
  turn_info :: session_info
  turn_label :: session_activity
  spawned :: "'s session_term option"
  pushed :: "bytes option"

definition at_conn :: "nat \<Rightarrow> ('s client_conn \<Rightarrow> 's client_conn) \<Rightarrow> 's daemon \<Rightarrow> 's daemon" where
  "at_conn i f d = (if i < length (conns d) then d\<lparr>conns := (conns d)[i := f (conns d ! i)]\<rparr> else d)"

text \<open>A request latched in this batch is answered in this iteration.\<close>

definition fill_label :: "session_activity \<Rightarrow> 's client_conn \<Rightarrow> 's client_conn" where
  "fill_label a c = (if wants_activity c \<and> activity_now c = None then c\<lparr>activity_now := Some a\<rparr> else c)"

definition route_switch :: "nat \<Rightarrow> bytes option \<Rightarrow> 's daemon \<Rightarrow> 's daemon" where
  "route_switch i req d = (case req of
       None \<Rightarrow> d
     | Some pl \<Rightarrow> (case switch_route_target (conns d) i of None \<Rightarrow> d | Some j \<Rightarrow> at_conn j (queue TagSwitch pl) d))"

definition serve_push :: "'s host \<Rightarrow> nat \<Rightarrow> u64 option \<Rightarrow> bytes option \<Rightarrow> 's daemon \<Rightarrow> 's daemon" where
  "serve_push H i token made d = (case (token, made) of
       (Some _, Some session) \<Rightarrow> at_conn i (queue TagSwitch (encode_switch_target (group_name H) session)) d
     | _ \<Rightarrow> d)"

definition serve_modals :: "'s host \<Rightarrow> nat \<Rightarrow> nat \<Rightarrow> bytes list \<Rightarrow> 's daemon \<Rightarrow> 's daemon" where
  "serve_modals H i now pls d = fold (\<lambda>pl d.
     if modal_on H then (case modal_handle (json H) (texts H) i pl now (conns d, modal d) of (cs, m) \<Rightarrow> d\<lparr>conns := cs, modal := m\<rparr>)
     else at_conn i (modal_refuse_disabled (json H) pl) d) pls d"

definition remove_conn :: "nat \<Rightarrow> 's daemon \<Rightarrow> 's daemon" where
  "remove_conn i d =
     (let fd = conn_id (conns d ! i)
      in d\<lparr>modal := map_option (\<lambda>m. if requester m = Some fd then m\<lparr>requester := None\<rparr> else m) (modal d),
           conns := take i (conns d) @ drop (Suc i) (conns d)\<rparr>)"

definition apply_sizes :: "'s host \<Rightarrow> 's daemon \<Rightarrow> 's daemon" where
  "apply_sizes H d =
     (let before = term_dims (session_screen d);
          t = apply_client_size (resize_term H) (conns d) (session_screen d)
      in d\<lparr>session_screen := t, overlay := map_option (\<lambda>o1. resize_term H o1 (term_dims t)) (overlay d),
           conns := reset_history_on_resize t before (reset_scrollback_floors_on_reflow t (snd before) (conns d))\<rparr>)"

definition open_overlay :: "'s host \<Rightarrow> 's session_term option \<Rightarrow> 's daemon \<Rightarrow> 's daemon" where
  "open_overlay H started d = (case (overlay d, started) of
       (None, Some o1) \<Rightarrow> d\<lparr>overlay := Some o1, conns := broadcast_source_swap (new_frame_delta H) o1 (flat_dump o1) (conns d)\<rparr>
     | _ \<Rightarrow> d)"

text \<open>After the connection's own part: everything that reaches the others.\<close>

definition finish_turn :: "'s host \<Rightarrow> 's turn_env \<Rightarrow> nat \<Rightarrow> 's batch \<Rightarrow> 's daemon \<Rightarrow> 's daemon" where
  "finish_turn H e i b d0 =
     (let gone = (b_flow b = Gone);
          d = d0\<lparr>conns := (conns d0)[i := (if gone then b_conn b else fill_label (turn_label e) (b_conn b))],
                 served_pushes := b_served b\<rparr>;
          d = route_switch i (b_switch b) d;
          d = serve_push H i (if gone then None else b_push b) (pushed e) d;
          d = serve_modals H i (turn_now e) (b_modals b) d
      in if b_flow b = DetachAll then d\<lparr>conns := []\<rparr>
         else (let d = (if gone then remove_conn i d else d);
                   d = (if b_resized b \<or> gone then apply_sizes H d else d);
                   d = (if b_replay b \<and> \<not> gone then at_conn i (queue_replay (new_frame_delta H) (daemon_source d)) d else d)
               in if b_shell b then open_overlay H (spawned e) d else d))"

text \<open>One connection's turn: the daemon after it, what went to the ptys, and whether the session was killed.\<close>

definition client_turn :: "'s host \<Rightarrow> 's turn_env \<Rightarrow> nat \<Rightarrow> turn_io \<Rightarrow> 's daemon \<Rightarrow> 's daemon \<times> pty_write list \<times> bool" where
  "client_turn H e i io d =
     (let b = batch_read H d (turn_info e) (turn_now e) (io_read io) (batch_new (served_pushes d) (conns d ! i))
      in if b_flow b = Kill then (d\<lparr>conns := (conns d)[i := b_conn b], served_pushes := b_served b\<rparr>, b_writes b, True)
         else (finish_turn H e i (batch_write io (has_pty_output d) b) d, b_writes b, False))"

text \<open>The end of an iteration, and of the session.\<close>

definition end_iteration :: "'s host \<Rightarrow> nat \<Rightarrow> 's daemon \<Rightarrow> 's daemon" where
  "end_iteration H now d =
     (let src = daemon_source d; cs = queue_due_answers (new_frame_delta H) src (conns d)
      in d\<lparr>conns := send_paced_frames (new_frame_delta H) src (if overlay d = None then Some (session_screen d) else None) now cs\<rparr>)"

definition hang_up :: "session_end \<Rightarrow> u32 \<Rightarrow> 's client_conn \<Rightarrow> 's client_conn" where
  "hang_up why code c = queue TagExit (encode_exit code) (queue TagExitCause (encode_exit_cause why) c)"

definition session_over :: "'s host \<Rightarrow> nat \<Rightarrow> session_end \<Rightarrow> u32 \<Rightarrow> 's daemon \<Rightarrow> 's client_conn list" where
  "session_over H now why code d =
     map (hang_up why code) (flush_paced_frames (new_frame_delta H) (daemon_source d) now (conns d))"

definition poll_deadline :: "'s daemon \<Rightarrow> nat \<Rightarrow> int" where
  "poll_deadline d now = merge_poll_timeouts
     (paced_poll_timeout (conns d) (if overlay d = None then Some (session_screen d) else None) now)
     (case modal d of None \<Rightarrow> - 1 | Some m \<Rightarrow> int (wake_in_ms now m))"

end
