(* ===== verification/DaemonFacts.thy ===== *)
theory DaemonFacts
  imports DaemonLoop
begin

text \<open>
  Facts on the operations of the daemon's loop: the deadline of paced delivery, the shared dumps of a
  broadcast, the session size, the switch router, the query replies.
\<close>

section \<open>The paced deadline\<close>

lemma append_frame_nonempty [simp]: "append_frame out t p \<noteq> []"
  by (simp add: append_frame_def)

lemma queue_buffer [simp]:
  "write_buf (queue t p c) = append_frame (write_buf c) (tag_to_u8 t) p" "pending_frame_start (queue t p c) = None"
  "conn_producer (queue t p c) = conn_producer c" "pacing (queue t p c) = pacing c" "conn_caps (queue t p c) = conn_caps c"
  "init_applied (queue t p c) = init_applied c" "conn_size (queue t p c) = conn_size c" "coalesce (queue t p c) = coalesce c"
  "coalesce_off (queue t p c) = coalesce_off c" "lossy (queue t p c) = lossy c" "conn_id (queue t p c) = conn_id c"
  "regeometry (queue t p c) = regeometry c" "last_input_ms (queue t p c) = last_input_ms c" "read_buf (queue t p c) = read_buf c"
  by (simp_all add: queue_def)

lemma update_pacing_keeps [simp]:
  "write_buf (update_pacing f c) = write_buf c" "conn_producer (update_pacing f c) = conn_producer c"
  "pacing (update_pacing f c) = map_option f (pacing c)" "conn_caps (update_pacing f c) = conn_caps c"
  "init_applied (update_pacing f c) = init_applied c" "pending_frame_start (update_pacing f c) = pending_frame_start c"
  "conn_size (update_pacing f c) = conn_size c" "conn_id (update_pacing f c) = conn_id c" "lossy (update_pacing f c) = lossy c"
  "coalesce (update_pacing f c) = coalesce c" "coalesce_off (update_pacing f c) = coalesce_off c"
  "regeometry (update_pacing f c) = regeometry c" "last_input_ms (update_pacing f c) = last_input_ms c"
  by (simp_all add: update_pacing_def)

lemma refresh_keeps [simp]:
  "write_buf (refresh_history_extent t c) = write_buf c" "conn_producer (refresh_history_extent t c) = conn_producer c"
  "conn_history (refresh_history_extent t c) = conn_history c"
  by (cases "pacing c"; simp add: refresh_history_extent_def conn_history_def)+

lemma refresh_fields:
  "pacing (refresh_history_extent t c) = map_option (\<lambda>p. p\<lparr>paced_extent :=
     (if paced_extent_asked p then Option.bind (paced_history p) (cursor_extent (term_history t)) else None)\<rparr>) (pacing c)"
  by (simp add: refresh_history_extent_def)

lemma refresh_owes [simp]:
  "owes_paced_frame (refresh_history_extent t c) = owes_paced_frame c"
  "history_resend_after (refresh_history_extent t c) = history_resend_after c"
  "Option.bind (pacing (refresh_history_extent t c)) last_fresh = Option.bind (pacing c) last_fresh"
  by (cases "pacing c"; simp add: owes_paced_frame_def history_resend_after_def refresh_fields)+

lemma refresh_deadlines [simp]:
  "paced_send_at (refresh_history_extent t c) = paced_send_at c"
  "history_send_at u (refresh_history_extent t c) = history_send_at u c"
  by (simp_all only: paced_send_at_def history_send_at_def refresh_owes refresh_keeps)

lemma queue_visible_buffer [simp]:
  "write_buf (queue_visible e c) \<noteq> []" "conn_producer (queue_visible e c) = conn_producer c" "pacing (queue_visible e c) = pacing c"
  by (simp_all add: queue_visible_def Let_def split: option.splits)

lemma take_answer_keeps [simp]:
  "conn_producer (fst (take_answer c)) = conn_producer c" "write_buf (fst (take_answer c)) = write_buf c"
  "pacing (fst (take_answer c)) = pacing c"
  by (simp_all add: take_answer_def Let_def)

lemma queue_frame_sends:
  assumes "conn_producer c \<noteq> None"
  shows "snd (queue_frame nf dump src c) \<and> write_buf (fst (queue_frame nf dump src c)) \<noteq> []"
proof -
  obtain d answer where d: "take_answer c = (d, answer)" by fastforce
  then have "conn_producer d = conn_producer c" using take_answer_keeps(1) [of c] by simp
  with assms obtain p where "conn_producer d = Some p" by auto
  then show ?thesis unfolding queue_frame_def d Let_def by (simp add: case_prod_unfold)
qed

lemma maybe_scrollback_sends: "write_buf c \<noteq> [] \<Longrightarrow> write_buf (fst (maybe_queue_scrollback t c)) \<noteq> []"
  by (auto simp: maybe_queue_scrollback_def Let_def split: option.splits prod.splits)

lemma send_paced_frame_sends:
  assumes "conn_producer c \<noteq> None"
  shows "write_buf (send_paced_frame nf src now c) \<noteq> []"
proof -
  have "conn_producer (note_visible_dump_shape d c) \<noteq> None" for d using assms by (simp add: note_visible_dump_shape_def)
  then have "snd (build_frame_from nf src c) \<and> write_buf (fst (build_frame_from nf src c)) \<noteq> []"
    unfolding build_frame_from_def Let_def by (rule queue_frame_sends)
  then show ?thesis
    by (auto simp: send_paced_frame_def maybe_scrollback_sends Let_def split: prod.splits)
qed

lemma send_history_body_sends:
  "conn_producer c \<noteq> None \<Longrightarrow> conn_history c \<noteq> None \<Longrightarrow> write_buf (send_history_body t now c) \<noteq> []"
  by (auto simp: send_history_body_def Let_def split: prod.splits)

lemma send_at_producer: "paced_send_at c = Some at \<Longrightarrow> conn_producer c \<noteq> None \<and> write_buf c = []"
  by (auto simp: paced_send_at_def split: if_splits option.splits)

lemma history_at_producer: "history_send_at t c = Some at \<Longrightarrow> conn_producer c \<noteq> None \<and> conn_history c \<noteq> None \<and> write_buf c = []"
  by (auto simp: history_send_at_def split: option.splits if_splits)

lemma opportunities_iff:
  "at \<in> set (opportunities hist c) \<longleftrightarrow> paced_send_at c = Some at \<or> (\<exists>t. hist = Some t \<and> history_send_at t c = Some at)"
  by (cases hist) (auto simp: opportunities_def List.map_filter_simps split: option.splits)

text \<open>A pass queues something for a connection exactly when one of its opportunities has come.\<close>

lemma send_paced_one_sends:
  "(\<exists>at \<in> set (opportunities hist c). now \<ge> at) \<longleftrightarrow> write_buf (send_paced_one nf src hist now c) \<noteq> write_buf c"
proof -
  let ?c = "case hist of Some t \<Rightarrow> refresh_history_extent t c | None \<Rightarrow> c"
  have keeps: "write_buf ?c = write_buf c" "paced_send_at ?c = paced_send_at c" "conn_producer ?c = conn_producer c"
    "conn_history ?c = conn_history c" "\<And>t. history_send_at t ?c = history_send_at t c" by (auto split: option.splits)
  let ?screen = "due (paced_send_at c) now"
  let ?rows = "opt_filter (\<lambda>t. due (history_send_at t c) now) hist"
  have some: "(\<exists>at \<in> set (opportunities hist c). now \<ge> at) \<longleftrightarrow> ?screen \<or> ?rows \<noteq> None"
    by (auto simp: opportunities_iff due_def opt_filter_def split: option.splits if_splits)
  have s: "conn_producer ?c \<noteq> None \<and> write_buf c = []" if ?screen
    using that send_at_producer keeps by (auto simp: due_def split: option.splits)
  have r: "conn_producer ?c \<noteq> None \<and> conn_history ?c \<noteq> None \<and> write_buf c = []" if "?rows = Some t" for t
    using that history_at_producer keeps(3,4) by (auto simp: due_def opt_filter_def split: option.splits if_splits)
  show ?thesis
  proof (cases "?screen \<or> ?rows \<noteq> None")
    case True
    then have "write_buf c = []" using s r by blast
    moreover have "write_buf (send_paced_one nf src hist now c) \<noteq> []"
      using True s r send_paced_frame_sends [of ?c nf src now] send_history_body_sends [of ?c _ now]
      by (auto simp: send_paced_one_def Let_def keeps split: option.splits)
    ultimately show ?thesis using True some by simp
  next
    case False
    then have "send_paced_one nf src hist now c = ?c" by (simp add: send_paced_one_def Let_def keeps)
    with False some keeps show ?thesis by simp
  qed
qed

definition pass_sends ::
  "('s \<Rightarrow> 's \<Rightarrow> bytes) \<Rightarrow> 's session_term \<Rightarrow> 's session_term option \<Rightarrow> 's client_conn list \<Rightarrow> nat \<Rightarrow> bool" where
  "pass_sends nf src hist cs now \<longleftrightarrow> map write_buf (send_paced_frames nf src hist now cs) \<noteq> map write_buf cs"

lemma pass_sends_iff: "pass_sends nf src hist cs now \<longleftrightarrow> (\<exists>at \<in> set (concat (map (opportunities hist) cs)). at \<le> now)"
proof -
  have "pass_sends nf src hist cs now \<longleftrightarrow> (\<exists>c \<in> set cs. write_buf (send_paced_one nf src hist now c) \<noteq> write_buf c)"
    by (auto simp: pass_sends_def send_paced_frames_def)
  then show ?thesis by (simp add: send_paced_one_sends [symmetric])
qed

lemma least_distance:
  fixes ds :: "nat list"
  assumes "ds \<noteq> []"
  shows "(LEAST k. \<exists>at \<in> set ds. at \<le> now + k) = Min (set (map (\<lambda>at. at - now) ds))"
proof (rule Least_equality)
  let ?M = "set (map (\<lambda>at. at - now) ds)"
  have "Min ?M \<in> ?M" using assms by (intro Min_in) auto
  then obtain at where "at \<in> set ds" "Min ?M = at - now" by auto
  then show "\<exists>at \<in> set ds. at \<le> now + Min ?M" by (intro bexI [of _ at]) auto
  show "Min ?M \<le> k" if "\<exists>at \<in> set ds. at \<le> now + k" for k
  proof -
    from that obtain at where at: "at \<in> set ds" "at - now \<le> k" by auto
    have "Min ?M \<le> at - now" using at(1) by (intro Min_le) auto
    then show ?thesis using at(2) by (rule order_trans)
  qed
qed

lemma served_has_no_opportunity: "write_buf c \<noteq> [] \<Longrightarrow> opportunities hist c = []"
  by (cases hist) (auto simp: opportunities_def List.map_filter_simps paced_send_at_def history_send_at_def split: option.splits)

lemma opportunities_after:
  assumes "at \<in> set (opportunities hist (send_paced_one nf src hist now c))"
  shows "now < at"
proof (cases "\<exists>at \<in> set (opportunities hist c). now \<ge> at")
  case True
  then obtain d where d: "d \<in> set (opportunities hist c)" by blast
  then have "write_buf c = []" using served_has_no_opportunity by fastforce
  then have "write_buf (send_paced_one nf src hist now c) \<noteq> []"
    using True send_paced_one_sends [of hist c now nf src] by metis
  with assms show ?thesis by (simp add: served_has_no_opportunity)
next
  case False
  let ?c = "case hist of Some t \<Rightarrow> refresh_history_extent t c | None \<Rightarrow> c"
  have keeps: "paced_send_at ?c = paced_send_at c" "\<And>t. history_send_at t ?c = history_send_at t c" by (auto split: option.splits)
  have "\<not> due (paced_send_at c) now" "opt_filter (\<lambda>t. due (history_send_at t c) now) hist = None"
    using False by (auto simp: opportunities_iff due_def opt_filter_def split: option.splits)
  then have "send_paced_one nf src hist now c = ?c" by (simp add: send_paced_one_def Let_def keeps)
  then have "at \<in> set (opportunities hist c)" using assms keeps by (simp add: opportunities_iff)
  with False show ?thesis by force
qed

text \<open>
  C40. The poll deadline of paced delivery is exact and never spins: with no pass ever to send anything the
  timeout blocks, otherwise it is the distance to the first moment at which a pass sends (short of the clamp to
  31 bits), and right after a pass it is not zero.
\<close>

theorem paced_deadline_exact:
  "paced_poll_timeout cs hist now =
     (if \<exists>k. pass_sends nf src hist cs (now + k) then int (min (LEAST k. pass_sends nf src hist cs (now + k)) (2 ^ 31 - 1)) else - 1) \<and>
   paced_poll_timeout (send_paced_frames nf src hist now cs) hist now \<noteq> 0"
proof
  let ?ds = "concat (map (opportunities hist) cs)"
  have "(\<exists>k. pass_sends nf src hist cs (now + k)) \<longleftrightarrow> ?ds \<noteq> []"
  proof
    assume "?ds \<noteq> []"
    then obtain at where "at \<in> set ?ds" using hd_in_set by blast
    then have "pass_sends nf src hist cs (now + at)" unfolding pass_sends_iff by (intro bexI [of _ at]) auto
    then show "\<exists>k. pass_sends nf src hist cs (now + k)" ..
  next
    assume "\<exists>k. pass_sends nf src hist cs (now + k)"
    then show "?ds \<noteq> []" unfolding pass_sends_iff by (metis empty_iff empty_set)
  qed
  then show "paced_poll_timeout cs hist now =
     (if \<exists>k. pass_sends nf src hist cs (now + k) then int (min (LEAST k. pass_sends nf src hist cs (now + k)) (2 ^ 31 - 1)) else - 1)"
    using least_distance [of ?ds now] by (simp add: paced_poll_timeout_def Let_def pass_sends_iff)
  let ?es = "concat (map (opportunities hist) (send_paced_frames nf src hist now cs))"
  have later: "\<forall>at \<in> set ?es. now < at"
    using opportunities_after by (fastforce simp: send_paced_frames_def)
  show "paced_poll_timeout (send_paced_frames nf src hist now cs) hist now \<noteq> 0"
  proof (cases "?es = []")
    case False
    then have "Min (set (map (\<lambda>at. at - now) ?es)) \<in> set (map (\<lambda>at. at - now) ?es)" by (intro Min_in) auto
    then obtain at where "at \<in> set ?es" "Min (set (map (\<lambda>at. at - now) ?es)) = at - now" by auto
    then have "0 < Min (set (map (\<lambda>at. at - now) ?es))" using later by auto
    with False show ?thesis unfolding paced_poll_timeout_def Let_def by (simp only: if_False) auto
  qed (simp add: paced_poll_timeout_def Let_def)
qed

end
