(* ===== verification/Spec2Isabelle.thy ===== *)
theory Spec2Isabelle
  imports Crypto VtSequences FrameSyncFacts AgentStream FragmentsFacts IpcFacts ChannelFacts ScrollbackFacts HistorySystem FrameSystem MuxFacts AgentMuxFacts AgentPacing AgentProxyFacts DaemonFacts
begin

text \<open>
  A verification library for posh, the persistent remote shell: a terminal session that lives in a daemon,
  is reached over an encrypted UDP link or a local socket, and is shown by clients that may come and go.

  \<^bold>\<open>The program.\<close> A server (\<open>crates/posh/src/remote/server.rs\<close>) runs a shell on a pty, keeps the state of
  its screen in a terminal emulator (\<open>crates/posh-term\<close>), and sends clients numbered frames: a full dump,
  a diff against a dump the client acknowledged, rows that scrolled into history, or an empty keepalive. A
  client (\<open>remote/client.rs\<close>) applies them and sends back the keys typed, acknowledgements and its size.
  Both directions are idempotent: a lost datagram is repaired by later ones, never retransmitted as such.
  Under the frames lie fragmentation (\<open>remote/sync.rs\<close>), the channel envelope (\<open>remote/channel.rs\<close>) and
  the sealed datagrams (\<open>remote/crypto.rs\<close>). A mux endpoint (\<open>remote/mux.rs\<close>) shares one link among the
  sessions of a host, over a local socket whose frames \<open>session/ipc.rs\<close> defines.

  \<^bold>\<open>Conventions.\<close> A byte is a word of 8 bits, a wire field a word of its width, and both keep their
  wrap-around; \<open>usize\<close> values, clocks in milliseconds and row counters are natural numbers (the code uses
  saturating or checked arithmetic on them, or counters of 64 bits that no run exhausts), subtraction on them
  is \<open>saturating_sub\<close>. Rust strings are their UTF-8 bytes. \<open>Result\<close> is a sum with the error text on the
  left, a panic is an error of its own that the theorems show unreachable or state as such. A struct is a
  record of the same fields, an enum a datatype. Methods that change \<open>self\<close> return the new record.

  \<^bold>\<open>Theories, from the bottom.\<close>
    \<^item> \<open>Prelude\<close>: words, little-endian fields, list lemmas. \<open>Framing\<close>: the locale \<open>record_stream\<close> of
      prefix-stable record formats, whose lemmas say that a stream may be cut anywhere; interpreted by the
      agent records and by the IPC frames. \<open>Utf8\<close>: validation, lossy decoding and encoding as the
      standard library defines them. \<open>Base64\<close>: \<open>posh-term/src/base64.rs\<close>.
    \<^item> \<open>Crypto\<close>: \<open>remote/crypto.rs\<close>. The AEAD is a parameter; what is proved is what the code adds: the
      64-packet replay window equals its abstract rule, nonces never repeat, no datagram is delivered twice.
    \<^item> \<open>VtParser\<close>, \<open>VtParserFacts\<close>, \<open>VtSequences\<close>: \<open>posh-term/src/parser.rs\<close>, every state and transition;
      its buffers stay bounded under any input, and sequences of each kind are recognised.
    \<^item> \<open>Caps\<close>, \<open>CapsFacts\<close>: \<open>posh-proto/src/caps.rs\<close>, the table and every entry. \<open>Frame\<close>, \<open>FrameFacts\<close>:
      \<open>posh-proto/src/frame.rs\<close> and the message half of \<open>remote/sync.rs\<close>: codecs, diff, base checksum.
      \<open>FrameSync\<close>, \<open>FrameSyncFacts\<close>: \<open>posh-proto/src/framesync\<close>, the dump and morph codecs and the frame
      producer with its ring of sent frames.
    \<^item> \<open>Streams\<close>, \<open>AgentStream\<close>: the input outbox and inbox, the echo acknowledgement, and the agent record
      stream of \<open>remote/sync.rs\<close>. \<open>Fragments\<close>, \<open>FragmentsFacts\<close>: its fragmenter and assembly.
      \<open>Scrollback\<close>, \<open>ScrollbackFacts\<close>: its scrollback ring and reorder buffer.
    \<^item> \<open>Ipc\<close>, \<open>IpcFacts\<close>: \<open>session/ipc.rs\<close>, \<open>session/cwd.rs\<close>. \<open>Channel\<close>, \<open>ChannelFacts\<close>: \<open>remote/channel.rs\<close>,
      \<open>remote/resume.rs\<close>.
    \<^item> \<open>History\<close>, \<open>HistoryFacts\<close>: \<open>remote/history.rs\<close>, the server's cursor over the rows that scrolled away.
      \<open>FrameClient\<close>, \<open>FrameClientFacts\<close>: what \<open>remote/client.rs\<close> does with a frame. \<open>ServerLoop\<close>: the frame
      logic of \<open>server_loop\<close> in \<open>remote/server.rs\<close>.
    \<^item> \<open>FrameSystem\<close> and \<open>HistorySystem\<close> put server and client together over a network that loses, repeats
      and reorders. The visible screen is the server's dump, byte for byte; one exchange that gets through
      recovers it when its tick is due (the conditions are hypotheses); a retransmitted growth frame of the
      version-1 history can make the two ends disagree. A row of history the client shows is the row the
      server logged under its number; rounds of the composed loop that carry history bring the client a full
      body of rows further each, after any losses before them.
    \<^item> \<open>Mux\<close>, \<open>MuxLoop\<close>, \<open>MuxFacts\<close>: \<open>remote/mux.rs\<close>, the endpoint's protocol, its loop as a step function
      over the events of the poll loop, and the accounting of references, sessions and routes.
    \<^item> \<open>AgentMux\<close>, \<open>AgentMuxFacts\<close>, \<open>AgentPacing\<close>: \<open>AgentChannelMux\<close> of \<open>remote/agent.rs\<close>, which carries the
      connections to the local key agent over per-channel streams: delivery between two ends, the exact poll
      deadline, the congestion window against a meter of the data really sent. \<open>AgentProxy\<close>,
      \<open>AgentProxyFacts\<close>: the rest of \<open>remote/agent.rs\<close> (proxy, endpoint, request sniffer, notice) and the
      banner of \<open>remote/client.rs\<close>: which requests are classified and which one is shown.
    \<^item> \<open>Introspect\<close>: \<open>posh-proto/src/introspect.rs\<close>, the client's identity and state as published. \<open>Modal\<close>:
      \<open>session/modal.rs\<close>, the countdown modal. \<open>Daemon\<close>, \<open>DaemonLoop\<close>, \<open>DaemonFacts\<close>: \<open>session/daemon.rs\<close>,
      the operations of a connection (capabilities, frames, pacing, history), the body of the daemon's loop
      as steps over what its polls find, and the exactness of the poll timeout of paced delivery.

  \<^bold>\<open>Specifications.\<close> Several components are compared with an abstract one of their own: the replay window
  with a set of numbers, the scrollback ring with a list, the frame producer with the list of frames made
  (\<open>producer_spec\<close>), the echo acknowledgement with the offsets ever recorded (\<open>echo_spec\<close>), the agent
  window's meter with a sum over the instructions sent (\<open>metered\<close>). These stand beside the code's
  definitions, in the fact theories, and model no code.

  \<^bold>\<open>Parameters.\<close> The AEAD (\<open>encrypt\<close>, \<open>decrypt\<close>), the terminal emulator as seen by frame codec and client
  (\<open>terminal_ops\<close>: parse a dump, write one, append to it) and as the daemon reads it (\<open>session_term\<close>), the
  terminal's history counters and rows as seen by the server, the painter's delta between two snapshots, JSON
  text (\<open>json_codec\<close>). Their documented behaviour enters as named hypotheses of the theorems that need it,
  and those have witnesses with concrete instances. The network is a set of messages ever sent; losing,
  repeating and reordering are the choice of what is delivered next.

  \<^bold>\<open>Bounds and loops.\<close> No definition uses fuel: recursion is structural or has a measure (bytes left,
  fragments left). The fragmenter's loop is partial, as it does not end for a size of zero; that it ends for
  a positive one is a theorem. Caps of the code (buffer sizes, ring depths, table sizes) are its constants.
  Counters of 64 bits that no run exhausts are bounded by hypotheses where a theorem needs it (frames and
  stream bytes below \<open>2 ^ 64\<close>, channels below \<open>2 ^ 56\<close>, sealed datagrams at most \<open>2 ^ 63\<close>).

  \<^bold>\<open>Not modelled.\<close> The local session client and the relay; the display painter and the predictor (they decide
  what is drawn, not what is held); the command line, picker and palette; images; statistics and
  diagnostics; sockets, ptys, signals, processes, files and logging; the poll loops' descriptor handling;
  floating-point round-trip estimation.
\<close>

end
